(* ===== verification/Nimble_Prelude.thy ===== *)
theory Nimble_Prelude
  imports Main "HOL-Library.Word" "HOL-Library.Monad_Syntax"
begin

text \<open>
  Shared material of the nimbleRTOS development: the names of the machine types of
  \<^verbatim>\<open>kernel/include/nimble_types.h\<close>, the collections of rewrite and frame facts
  the component theories extend, and the generic facts on lists, options and 32-bit words
  that their proofs use.
\<close>

unbundle bit_operations_syntax

section \<open>Names of machine types\<close>

type_synonym u8 = "8 word"
type_synonym u32 = "32 word"
type_synonym nimble_tick_t = u32
type_synonym addr = u32

section \<open>Collections\<close>

text \<open>
  \<^item> \<open>kdefs\<close>: the definitions of the small state accessors, unfolded together;
  \<^item> \<open>frame\<close>: what an operation leaves unchanged.
\<close>

named_theorems kdefs
named_theorems frame

section \<open>Lists\<close>

lemma successively_mono_ends:
  assumes "successively P xs"
    and "\<And>u v. u \<in> set (butlast xs) \<Longrightarrow> v \<in> set (tl xs) \<Longrightarrow> P u v \<Longrightarrow> Q u v"
  shows "successively Q xs"
  using assms
proof (induction xs rule: induct_list012)
  case (3 x y zs)
  have "successively Q (y # zs)"
  proof (rule "3.IH"(2))
    show "successively P (y # zs)" using "3.prems"(1) by simp
  next
    fix u v assume "u \<in> set (butlast (y # zs))" "v \<in> set (tl (y # zs))" "P u v"
    then show "Q u v" using "3.prems"(2) [of u v] by auto
  qed
  moreover have "Q x y" using "3.prems" by auto
  ultimately show ?case by simp
qed simp_all

lemma removeAll_map_inj:
  "inj f \<Longrightarrow> removeAll (f x) (map f xs) = map f (removeAll x xs)"
  by (induction xs) (auto dest: injD)

lemma hd_in_set_appendI [simp]: "hd (ys @ [k]) \<in> insert k (set ys)"
  by (cases ys) auto

lemma butlast_notin_last:
  "distinct xs \<Longrightarrow> x \<in> set (butlast xs) \<Longrightarrow> x \<noteq> last xs"
  by (induction xs) (auto split: if_splits dest: in_set_butlastD)

lemma tl_notin_hd: "distinct xs \<Longrightarrow> x \<in> set (tl xs) \<Longrightarrow> x \<noteq> hd xs"
  by (cases xs) auto

lemma takeWhile_shorter:
  "x \<in> set xs \<Longrightarrow> \<not> P x \<Longrightarrow> length (takeWhile P xs) < length xs"
  by (induction xs) auto

section \<open>Single bits of a 32-bit word\<close>

text \<open>The mask \<^verbatim>\<open>1u << p\<close>.\<close>

definition bit_mask :: "nat \<Rightarrow> u32" where
  "bit_mask p = push_bit p 1"

lemma bit_set_mask: "p < 32 \<Longrightarrow> bit (b OR bit_mask p) i \<longleftrightarrow> bit b i \<or> i = p"
  by (auto simp: bit_mask_def bit_simps)

lemma bit_clear_mask: "bit (b AND NOT (bit_mask p)) i \<longleftrightarrow> bit b i \<and> i \<noteq> p"
  by (auto simp: bit_mask_def bit_simps dest: bit_imp_le_length)

lemma bit_u32_less: "bit (b :: u32) i \<Longrightarrow> i < 32"
  using bit_imp_le_length by fastforce

lemma u32_nonzero_has_bit: "b \<noteq> (0 :: u32) \<longleftrightarrow> (\<exists>i<32. bit b i)"
  by (metis bit_0_eq bit_eqI bit_u32_less bot_apply bot_bool_def)

section \<open>Tick differences\<close>

lemma sint_diff_u32:
  assumes "- (2 ^ 31) \<le> i" "i < 2 ^ 31"
  shows "sint (word_of_int i :: u32) = i"
  using assms by (simp add: signed_take_bit_int_eq_self sint_sbintrunc')

lemma tick_reached_iff:
  assumes "k \<le> n" "n \<le> 2 ^ 31"
  shows "0 \<le> sint ((c + word_of_nat k) - (c + word_of_nat n :: u32)) \<longleftrightarrow> k = n"
proof -
  have "(c + word_of_nat k) - (c + word_of_nat n :: u32) = word_of_int (int k - int n)" by simp
  moreover have "sint (word_of_int (int k - int n) :: u32) = int k - int n"
    using assms by (intro sint_diff_u32) auto
  ultimately show ?thesis using assms(1) by auto
qed

end
