(* ===== verification/Nimble_List.thy ===== *)
theory Nimble_List
  imports Nimble_Prelude
begin

text \<open>
  The intrusive circular doubly-linked list of \<^verbatim>\<open>kernel/include/nimble_list.h\<close>,
  on an explicit heap of \<^verbatim>\<open>next\<close> and \<^verbatim>\<open>prev\<close> pointers. The operations are
  the C statements in their order, so aliasing (a node inserted next to itself, removal of a
  node that is not linked) is what the code does.

  The heap is related to functional lists by \<open>repr H N L h\<close>: the list heads in \<open>H\<close>
  each start a circle that holds exactly the nodes of \<open>L\<close>, no node is on two lists, and
  every other node of \<open>N\<close> points to itself. Each operation is then one list function.
\<close>

section \<open>The heap of list nodes\<close>

record 'n list_heap =
  node_next :: "'n \<Rightarrow> 'n"
  node_prev :: "'n \<Rightarrow> 'n"

text \<open>The assignments \<^verbatim>\<open>a->next = v\<close> and \<^verbatim>\<open>a->prev = v\<close>.\<close>

definition set_next :: "'n \<Rightarrow> 'n \<Rightarrow> 'n list_heap \<Rightarrow> 'n list_heap" where
  "set_next a v h = h\<lparr>node_next := (node_next h)(a := v)\<rparr>"

definition set_prev :: "'n \<Rightarrow> 'n \<Rightarrow> 'n list_heap \<Rightarrow> 'n list_heap" where
  "set_prev a v h = h\<lparr>node_prev := (node_prev h)(a := v)\<rparr>"

lemma node_next_set [simp]:
  "node_next (set_next a v h) = (node_next h)(a := v)"
  "node_next (set_prev a v h) = node_next h"
  "node_prev (set_next a v h) = node_prev h"
  "node_prev (set_prev a v h) = (node_prev h)(a := v)"
  by (simp_all add: set_next_def set_prev_def)

section \<open>The operations\<close>

definition nimble_list_init :: "'n \<Rightarrow> 'n list_heap \<Rightarrow> 'n list_heap" where
  "nimble_list_init l h =
     (let h = set_next l l h;
          h = set_prev l l h
      in h)"

definition nimble_list_is_empty :: "'n \<Rightarrow> 'n list_heap \<Rightarrow> bool" where
  "nimble_list_is_empty l h \<longleftrightarrow> node_next h l = l"

definition nimble_list_insert_tail :: "'n \<Rightarrow> 'n \<Rightarrow> 'n list_heap \<Rightarrow> 'n list_heap" where
  "nimble_list_insert_tail head node h =
     (let h = set_prev node (node_prev h head) h;
          h = set_next node head h;
          h = set_next (node_prev h head) node h;
          h = set_prev head node h
      in h)"

definition nimble_list_insert_head :: "'n \<Rightarrow> 'n \<Rightarrow> 'n list_heap \<Rightarrow> 'n list_heap" where
  "nimble_list_insert_head head node h =
     (let h = set_next node (node_next h head) h;
          h = set_prev node head h;
          h = set_prev (node_next h head) node h;
          h = set_next head node h
      in h)"

definition nimble_list_remove :: "'n \<Rightarrow> 'n list_heap \<Rightarrow> 'n list_heap" where
  "nimble_list_remove node h =
     (let h = set_next (node_prev h node) (node_next h node) h;
          h = set_prev (node_next h node) (node_prev h node) h;
          h = set_next node node h;
          h = set_prev node node h
      in h)"

text \<open>
  The four assignments with which the sorted insertions of \<^verbatim>\<open>mutex.c\<close>,
  \<^verbatim>\<open>semaphore.c\<close>, \<^verbatim>\<open>queue.c\<close> and \<^verbatim>\<open>timer.c\<close> link \<open>new\<close> immediately
  before \<open>node\<close>.
\<close>

definition link_before :: "'n \<Rightarrow> 'n \<Rightarrow> 'n list_heap \<Rightarrow> 'n list_heap" where
  "link_before node new h =
     (let h = set_next new node h;
          h = set_prev new (node_prev h node) h;
          h = set_next (node_prev h node) new h;
          h = set_prev node new h
      in h)"

section \<open>Circles\<close>

definition linked :: "'n list_heap \<Rightarrow> 'n \<Rightarrow> 'n \<Rightarrow> bool" where
  "linked h a b \<longleftrightarrow> node_next h a = b \<and> node_prev h b = a"

definition circle :: "'n list_heap \<Rightarrow> 'n \<Rightarrow> 'n list \<Rightarrow> bool" where
  "circle h k xs \<longleftrightarrow> distinct (k # xs) \<and> successively (linked h) (k # xs @ [k])"

lemma circle_Nil [simp]: "circle h k [] \<longleftrightarrow> node_next h k = k \<and> node_prev h k = k"
  by (auto simp: circle_def linked_def)

lemma circle_split:
  "circle h k (xs @ ys) \<longleftrightarrow>
     distinct (k # xs @ ys) \<and> successively (linked h) (k # xs) \<and>
     successively (linked h) (ys @ [k]) \<and> linked h (last (k # xs)) (hd (ys @ [k]))"
proof -
  have "successively (linked h) ((k # xs) @ (ys @ [k])) \<longleftrightarrow>
      successively (linked h) (k # xs) \<and> successively (linked h) (ys @ [k]) \<and>
      linked h (last (k # xs)) (hd (ys @ [k]))"
    by (subst successively_append_iff) simp
  then show ?thesis by (simp add: circle_def)
qed

lemma circle_next_head: "circle h k xs \<Longrightarrow> node_next h k = hd (xs @ [k])"
  using circle_split [of h k "[]" xs] by (simp add: linked_def)

lemma circle_prev_head: "circle h k xs \<Longrightarrow> node_prev h k = last (k # xs)"
  using circle_split [of h k xs "[]"] by (simp add: linked_def)

lemma circle_next_member:
  "circle h k (xs @ n # ys) \<Longrightarrow> node_next h n = hd (ys @ [k])"
  using circle_split [of h k "xs @ [n]" ys] by (simp add: linked_def)

lemma circle_prev_member:
  "circle h k (xs @ n # ys) \<Longrightarrow> node_prev h n = last (k # xs)"
  using circle_split [of h k xs "n # ys"] by (simp add: linked_def)

text \<open>The node the C code reaches at a position of the list: an element, or the head.\<close>

lemma circle_prev_at:
  "circle h k (xs @ ys) \<Longrightarrow> node_prev h (hd (ys @ [k])) = last (k # xs)"
  by (simp add: circle_split linked_def)

lemma circle_is_empty: "circle h k xs \<Longrightarrow> nimble_list_is_empty k h \<longleftrightarrow> xs = []"
  using circle_next_head [of h k xs]
  by (cases xs) (auto simp: nimble_list_is_empty_def circle_def)

text \<open>A circle only depends on the pointers of its own nodes.\<close>

lemma circle_frame:
  assumes "circle h k xs"
    and "\<And>n. n \<in> insert k (set xs) \<Longrightarrow> node_next h' n = node_next h n"
    and "\<And>n. n \<in> insert k (set xs) \<Longrightarrow> node_prev h' n = node_prev h n"
  shows "circle h' k xs"
proof -
  have "successively (linked h') (k # xs @ [k])"
  proof (rule successively_mono_ends)
    show "successively (linked h) (k # xs @ [k])" using assms(1) by (simp add: circle_def)
  next
    fix u v
    assume "u \<in> set (butlast (k # xs @ [k]))" "v \<in> set (tl (k # xs @ [k]))" "linked h u v"
    then show "linked h' u v"
      using assms(2) [of u] assms(3) [of v] by (auto simp: linked_def)
  qed
  with assms(1) show ?thesis by (simp add: circle_def)
qed

lemma circle_outside:
  assumes "circle h k xs" and "A \<inter> insert k (set xs) = {}"
    and "\<And>m. m \<notin> A \<Longrightarrow> node_next h' m = node_next h m \<and> node_prev h' m = node_prev h m"
  shows "circle h' k xs"
proof (rule circle_frame [OF assms(1)])
  fix n assume "n \<in> insert k (set xs)"
  then have "n \<notin> A" using assms(2) by blast
  then show "node_next h' n = node_next h n" "node_prev h' n = node_prev h n"
    using assms(3) by blast+
qed

lemma circle_link_before:
  assumes "circle h k (xs @ ys)" and new: "new \<notin> insert k (set (xs @ ys))"
  shows "circle (link_before (hd (ys @ [k])) new h) k (xs @ new # ys)"
proof -
  let ?p = "last (k # xs)" and ?q = "hd (ys @ [k])"
  let ?h = "link_before ?q new h"
  from assms(1) have d: "distinct (k # xs @ ys)" and A: "successively (linked h) (k # xs)"
    and B: "successively (linked h) (ys @ [k])" and pq: "linked h ?p ?q"
    by (simp_all add: circle_split)
  have pin: "?p \<in> insert k (set xs)" by auto
  then have np: "new \<noteq> ?p" using new by auto
  have nq: "new \<noteq> ?q" using new by (cases ys) auto
  have nx: "node_next ?h = (node_next h)(new := ?q, ?p := new)"
    using pq np nq by (simp add: link_before_def Let_def linked_def)
  have pv: "node_prev ?h = (node_prev h)(new := ?p, ?q := new)"
    using pq np nq by (simp add: link_before_def Let_def linked_def)
  have A': "successively (linked ?h) (k # xs)"
  proof (rule successively_mono_ends [OF A])
    fix u v assume u: "u \<in> set (butlast (k # xs))" and v: "v \<in> set (tl (k # xs))"
      and "linked h u v"
    moreover have "u \<noteq> ?p" using u d butlast_notin_last [of "k # xs" u] by simp
    moreover have "v \<noteq> ?q" using v d by (cases ys) auto
    moreover have "u \<noteq> new" "v \<noteq> new" using v new in_set_butlastD [OF u] by auto
    ultimately show "linked ?h u v" by (simp add: linked_def nx pv)
  qed
  have B': "successively (linked ?h) (ys @ [k])"
  proof (rule successively_mono_ends [OF B])
    fix u v assume u: "u \<in> set (butlast (ys @ [k]))" and v: "v \<in> set (tl (ys @ [k]))"
      and "linked h u v"
    moreover have "u \<noteq> ?p" using u d pin by auto
    moreover have "v \<noteq> ?q" using v d tl_notin_hd [of "ys @ [k]" v] by auto
    moreover have "v \<in> insert k (set ys)" using v by (cases ys) auto
    moreover then have "u \<noteq> new" "v \<noteq> new" using u new by auto
    ultimately show "linked ?h u v" by (simp add: linked_def nx pv)
  qed
  have "linked ?h ?p new" "linked ?h new ?q" using np nq by (auto simp: linked_def nx pv)
  moreover have "distinct (k # xs @ new # ys)" using d new by auto
  ultimately show ?thesis
    using A' B' circle_split [of ?h k xs "new # ys"] by (cases ys) auto
qed

lemma circle_remove:
  assumes "circle h k (xs @ n # ys)"
  shows "circle (nimble_list_remove n h) k (xs @ ys)"
    and "circle (nimble_list_remove n h) n []"
    and "m \<notin> insert k (set (xs @ n # ys)) \<Longrightarrow> node_next (nimble_list_remove n h) m = node_next h m"
    and "m \<notin> insert k (set (xs @ n # ys)) \<Longrightarrow> node_prev (nimble_list_remove n h) m = node_prev h m"
proof -
  let ?p = "last (k # xs)" and ?q = "hd (ys @ [k])"
  let ?h = "nimble_list_remove n h"
  from assms have d: "distinct (k # xs @ n # ys)" and A: "successively (linked h) (k # xs)"
    using circle_split [of h k xs "n # ys"] by simp_all
  from assms have B: "successively (linked h) (ys @ [k])"
    using circle_split [of h k "xs @ [n]" ys] by simp
  have p: "node_prev h n = ?p" by (rule circle_prev_member [OF assms])
  have q: "node_next h n = ?q" by (rule circle_next_member [OF assms])
  have pin: "?p \<in> insert k (set xs)" by auto
  then have np: "n \<noteq> ?p" using d by auto
  have nq: "n \<noteq> ?q" using d by (cases ys) auto
  have nx: "node_next ?h = (node_next h)(?p := ?q, n := n)"
    using p q np nq by (simp add: nimble_list_remove_def Let_def)
  have pv: "node_prev ?h = (node_prev h)(?q := ?p, n := n)"
    using p q np nq by (simp add: nimble_list_remove_def Let_def)
  have A': "successively (linked ?h) (k # xs)"
  proof (rule successively_mono_ends [OF A])
    fix u v assume u: "u \<in> set (butlast (k # xs))" and v: "v \<in> set (tl (k # xs))"
      and "linked h u v"
    moreover have "u \<noteq> ?p" using u d butlast_notin_last [of "k # xs" u] by simp
    moreover have "v \<noteq> ?q" using v d by (cases ys) auto
    moreover have "u \<noteq> n" "v \<noteq> n" using v d in_set_butlastD [OF u] by auto
    ultimately show "linked ?h u v" by (simp add: linked_def nx pv)
  qed
  have B': "successively (linked ?h) (ys @ [k])"
  proof (rule successively_mono_ends [OF B])
    fix u v assume u: "u \<in> set (butlast (ys @ [k]))" and v: "v \<in> set (tl (ys @ [k]))"
      and "linked h u v"
    moreover have "u \<noteq> ?p" using u d pin by auto
    moreover have "v \<noteq> ?q" using v d tl_notin_hd [of "ys @ [k]" v] by auto
    moreover have "v \<in> insert k (set ys)" using v by (cases ys) auto
    moreover then have "u \<noteq> n" "v \<noteq> n" using u d by auto
    ultimately show "linked ?h u v" by (simp add: linked_def nx pv)
  qed
  have "linked ?h ?p ?q" using np nq by (simp add: linked_def nx pv)
  then show "circle ?h k (xs @ ys)" using A' B' d by (simp add: circle_split)
  show "circle ?h n []" using np nq by (simp add: nx pv)
  assume "m \<notin> insert k (set (xs @ n # ys))"
  moreover note pin
  moreover have "?q \<in> insert k (set ys)" by (cases ys) auto
  ultimately have "m \<noteq> ?p" "m \<noteq> ?q" "m \<noteq> n" by auto
  then show "node_next ?h m = node_next h m" "node_prev ?h m = node_prev h m"
    by (simp_all add: nx pv)
qed


lemma link_before_outside:
  assumes "circle h k (xs @ ys)" and "m \<notin> insert new (insert k (set (xs @ ys)))"
  shows "node_next (link_before (hd (ys @ [k])) new h) m = node_next h m"
    and "node_prev (link_before (hd (ys @ [k])) new h) m = node_prev h m"
proof -
  have "last (k # xs) \<in> insert k (set xs)" by auto
  moreover have "hd (ys @ [k]) \<in> insert k (set ys)" by (cases ys) auto
  ultimately have "m \<noteq> last (k # xs)" "m \<noteq> hd (ys @ [k])" "m \<noteq> new" using assms(2) by auto
  then show "node_next (link_before (hd (ys @ [k])) new h) m = node_next h m"
    and "node_prev (link_before (hd (ys @ [k])) new h) m = node_prev h m"
    using circle_prev_at [OF assms(1)] by (auto simp: link_before_def Let_def)
qed

lemma insert_tail_link_before: "nimble_list_insert_tail k n h = link_before k n h"
  by (cases h) (simp add: nimble_list_insert_tail_def link_before_def Let_def
      set_next_def set_prev_def fun_eq_iff)

lemma insert_head_link_before:
  assumes "circle h k xs" "n \<notin> insert k (set xs)"
  shows "nimble_list_insert_head k n h = link_before (hd (xs @ [k])) n h"
  using assms circle_next_head [OF assms(1)] circle_prev_at [of h k "[]" xs]
  by (cases h; cases xs)
    (auto simp: nimble_list_insert_head_def link_before_def Let_def set_next_def set_prev_def
      fun_eq_iff)

section \<open>A heap that represents a family of lists\<close>

definition free_node :: "'n set \<Rightarrow> ('n \<Rightarrow> 'n list) \<Rightarrow> 'n \<Rightarrow> bool" where
  "free_node H L n \<longleftrightarrow> (\<forall>k\<in>H. n \<notin> set (L k))"

definition repr :: "'n set \<Rightarrow> 'n set \<Rightarrow> ('n \<Rightarrow> 'n list) \<Rightarrow> 'n list_heap \<Rightarrow> bool" where
  "repr H N L h \<longleftrightarrow>
     H \<inter> N = {} \<and>
     (\<forall>k\<in>H. circle h k (L k) \<and> set (L k) \<subseteq> N) \<and>
     (\<forall>k\<in>H. \<forall>k'\<in>H. k \<noteq> k' \<longrightarrow> set (L k) \<inter> set (L k') = {}) \<and>
     (\<forall>n\<in>N. free_node H L n \<longrightarrow> circle h n [])"

text \<open>The list functions the operations implement.\<close>

definition enlist :: "'n \<Rightarrow> 'n \<Rightarrow> ('n \<Rightarrow> 'n list) \<Rightarrow> 'n \<Rightarrow> 'n list" where
  "enlist k n L = L(k := L k @ [n])"

definition delist :: "'n \<Rightarrow> ('n \<Rightarrow> 'n list) \<Rightarrow> 'n \<Rightarrow> 'n list" where
  "delist n L = (\<lambda>k. removeAll n (L k))"

lemma delist_apply [simp]: "delist n L k = removeAll n (L k)"
  by (simp add: delist_def)

lemma enlist_apply [simp]: "enlist k n L j = (if j = k then L k @ [n] else L j)"
  by (simp add: enlist_def)

lemma free_node_delist: "free_node H (delist n L) n"
  by (simp add: free_node_def)

lemma free_node_delist_other: "free_node H L m \<Longrightarrow> free_node H (delist n L) m"
  by (simp add: free_node_def)

lemma delist_free: "free_node H L n \<Longrightarrow> k \<in> H \<Longrightarrow> delist n L k = L k"
  by (simp add: free_node_def)

lemma repr_cong: "repr H N L h \<Longrightarrow> (\<And>k. k \<in> H \<Longrightarrow> L' k = L k) \<Longrightarrow> repr H N L' h"
  by (simp add: repr_def free_node_def)

lemma repr_distinct: "repr H N L h \<Longrightarrow> k \<in> H \<Longrightarrow> distinct (L k)"
  by (auto simp: repr_def circle_def)

lemma repr_disjoint:
  "repr H N L h \<Longrightarrow> k \<in> H \<Longrightarrow> k' \<in> H \<Longrightarrow> n \<in> set (L k) \<Longrightarrow> n \<in> set (L k') \<Longrightarrow> k = k'"
  unfolding repr_def by blast

lemma repr_member: "repr H N L h \<Longrightarrow> k \<in> H \<Longrightarrow> n \<in> set (L k) \<Longrightarrow> n \<in> N"
  unfolding repr_def by blast

lemma repr_not_head: "repr H N L h \<Longrightarrow> n \<in> N \<Longrightarrow> n \<notin> H"
  unfolding repr_def by blast

lemma repr_circle: "repr H N L h \<Longrightarrow> k \<in> H \<Longrightarrow> circle h k (L k)"
  unfolding repr_def by blast

lemma repr_free_circle: "repr H N L h \<Longrightarrow> n \<in> N \<Longrightarrow> free_node H L n \<Longrightarrow> circle h n []"
  unfolding repr_def by blast

lemma repr_circles_disjoint:
  assumes r: "repr H N L h" and j: "j \<in> H" and k: "k \<in> H" and jk: "j \<noteq> k"
  shows "insert k (set (L k)) \<inter> insert j (set (L j)) = {}"
  using repr_disjoint [OF r j k] repr_member [OF r j] repr_member [OF r k] repr_not_head [OF r]
    j k jk by blast

lemma reprI:
  assumes "H \<inter> N = {}"
    and "\<And>k. k \<in> H \<Longrightarrow> circle h k (L k) \<and> set (L k) \<subseteq> N"
    and "\<And>k k'. k \<in> H \<Longrightarrow> k' \<in> H \<Longrightarrow> k \<noteq> k' \<Longrightarrow> set (L k) \<inter> set (L k') = {}"
    and "\<And>n. n \<in> N \<Longrightarrow> free_node H L n \<Longrightarrow> circle h n []"
  shows "repr H N L h"
  unfolding repr_def using assms by blast

lemma repr_heads_disjoint: "repr H N L h \<Longrightarrow> H \<inter> N = {}"
  unfolding repr_def by blast

lemma repr_is_empty: "repr H N L h \<Longrightarrow> k \<in> H \<Longrightarrow> nimble_list_is_empty k h \<longleftrightarrow> L k = []"
  by (auto simp: repr_def circle_is_empty)

lemma repr_next_head: "repr H N L h \<Longrightarrow> k \<in> H \<Longrightarrow> node_next h k = hd (L k @ [k])"
  by (auto simp: repr_def circle_next_head)

lemma repr_next_member:
  "repr H N L h \<Longrightarrow> k \<in> H \<Longrightarrow> L k = xs @ n # ys \<Longrightarrow> node_next h n = hd (ys @ [k])"
  by (metis circle_next_member repr_def)

lemma repr_init_head:
  assumes r: "repr H N L h" and k: "k \<notin> H \<union> N"
  shows "repr (insert k H) N (L(k := [])) (nimble_list_init k h)"
proof (rule reprI)
  let ?h = "nimble_list_init k h" and ?L = "L(k := [])"
  have same: "m \<notin> {k} \<Longrightarrow> node_next ?h m = node_next h m \<and> node_prev ?h m = node_prev h m" for m
    by (simp add: nimble_list_init_def)
  have ck: "circle ?h k []" by (simp add: nimble_list_init_def)
  show "insert k H \<inter> N = {}" using r k by (auto dest: repr_heads_disjoint)
  fix j assume j: "j \<in> insert k H"
  show "circle ?h j (?L j) \<and> set (?L j) \<subseteq> N"
  proof (cases "j = k")
    case False
    with j have "j \<in> H" by simp
    have "circle ?h j (L j)"
      using repr_member [OF r \<open>j \<in> H\<close>] \<open>j \<in> H\<close> k
      by (intro circle_outside [where A = "{k}", OF repr_circle [OF r \<open>j \<in> H\<close>] _ same]) auto
    with False repr_member [OF r \<open>j \<in> H\<close>] show ?thesis by auto
  qed (use ck in simp)
  fix j' assume "j' \<in> insert k H" "j \<noteq> j'"
  with j show "set (?L j) \<inter> set (?L j') = {}"
    using repr_disjoint [OF r, of j j'] by auto
next
  fix n assume n: "n \<in> N" and "free_node (insert k H) (L(k := [])) n"
  then have "free_node H L n" using k by (auto simp: free_node_def split: if_splits)
  with n k show "circle (nimble_list_init k h) n []"
    using repr_free_circle [OF r n] by (auto simp: nimble_list_init_def)
qed

lemma repr_init_node:
  assumes r: "repr H N L h" and n: "n \<notin> H \<union> N"
  shows "repr H (insert n N) L (nimble_list_init n h)"
proof (rule reprI)
  let ?h = "nimble_list_init n h"
  have same: "m \<notin> {n} \<Longrightarrow> node_next ?h m = node_next h m \<and> node_prev ?h m = node_prev h m" for m
    by (simp add: nimble_list_init_def)
  show "H \<inter> insert n N = {}" using r n by (auto dest: repr_heads_disjoint)
  fix j assume j: "j \<in> H"
  have "circle ?h j (L j)"
    using repr_member [OF r j] j n
    by (intro circle_outside [where A = "{n}", OF repr_circle [OF r j] _ same]) auto
  with repr_member [OF r j] show "circle ?h j (L j) \<and> set (L j) \<subseteq> insert n N" by auto
  fix j' assume "j' \<in> H" "j \<noteq> j'"
  with j show "set (L j) \<inter> set (L j') = {}" using repr_disjoint [OF r, of j j'] by auto
next
  fix m assume "m \<in> insert n N" "free_node H L m"
  then show "circle (nimble_list_init n h) m []"
    using repr_free_circle [OF r, of m] by (auto simp: nimble_list_init_def)
qed

lemma repr_link_before:
  assumes r: "repr H N L h" and k: "k \<in> H" and n: "n \<in> N" and fr: "free_node H L n"
    and L: "L k = xs @ ys"
  shows "repr H N (L(k := xs @ n # ys)) (link_before (hd (ys @ [k])) n h)"
proof (rule reprI)
  let ?h = "link_before (hd (ys @ [k])) n h" and ?L = "L(k := xs @ n # ys)"
  have ck: "circle h k (xs @ ys)" using repr_circle [OF r k] L by simp
  have nH: "n \<notin> H" by (rule repr_not_head [OF r n])
  then have nk: "n \<notin> insert k (set (xs @ ys))" using k fr L by (auto simp: free_node_def)
  have same: "m \<notin> insert n (insert k (set (L k))) \<Longrightarrow>
      node_next ?h m = node_next h m \<and> node_prev ?h m = node_prev h m" for m
    using link_before_outside [OF ck] L by simp
  show "H \<inter> N = {}" by (rule repr_heads_disjoint [OF r])
  {
    fix j assume j: "j \<in> H"
    show "circle ?h j (?L j) \<and> set (?L j) \<subseteq> N"
    proof (cases "j = k")
      case True then show ?thesis
        using circle_link_before [OF ck nk] repr_member [OF r k] n L by auto
    next
      case False
      have "insert n (insert k (set (L k))) \<inter> insert j (set (L j)) = {}"
        using repr_circles_disjoint [OF r j k False] fr nH j by (auto simp: free_node_def)
      then have "circle ?h j (L j)" by (rule circle_outside [OF repr_circle [OF r j] _ same])
      with False repr_member [OF r j] show ?thesis by auto
    qed
    fix j' assume j': "j' \<in> H" and "j \<noteq> j'"
    then show "set (?L j) \<inter> set (?L j') = {}"
      using repr_disjoint [OF r j j'] j fr L by (fastforce simp: free_node_def split: if_splits)
  }
  fix m assume m: "m \<in> N" and fm: "free_node H ?L m"
  have "m \<notin> set (xs @ n # ys)" using fm k by (auto simp: free_node_def)
  moreover have "m \<noteq> k" using repr_not_head [OF r m] k by auto
  moreover have "free_node H L m"
    using fm calculation(1) L by (auto simp: free_node_def split: if_splits)
  ultimately show "circle ?h m []" using repr_free_circle [OF r m] same [of m] L by simp
qed

lemma repr_insert_tail:
  assumes "repr H N L h" "k \<in> H" "n \<in> N" "free_node H L n"
  shows "repr H N (enlist k n L) (nimble_list_insert_tail k n h)"
  using repr_link_before [OF assms, of "L k" "[]"]
  by (simp add: insert_tail_link_before enlist_def)

lemma repr_insert_head:
  assumes r: "repr H N L h" and k: "k \<in> H" and n: "n \<in> N" and f: "free_node H L n"
  shows "repr H N (L(k := n # L k)) (nimble_list_insert_head k n h)"
proof -
  have "circle h k (L k)" "n \<notin> insert k (set (L k))"
    using r k n f by (auto simp: repr_def free_node_def)
  then show ?thesis
    using repr_link_before [OF r k n f, of "[]" "L k"] by (simp add: insert_head_link_before)
qed

lemma remove_unlinked: "circle h n [] \<Longrightarrow> nimble_list_remove n h = h"
  by (cases h) (auto simp: nimble_list_remove_def Let_def set_next_def set_prev_def)

lemma repr_remove:
  assumes r: "repr H N L h" and n: "n \<in> N"
  shows "repr H N (delist n L) (nimble_list_remove n h)"
proof (cases "free_node H L n")
  case True
  then have "nimble_list_remove n h = h"
    using repr_free_circle [OF r n] by (intro remove_unlinked) simp
  then show ?thesis using r delist_free [OF True] by (auto intro: repr_cong)
next
  case False
  then obtain k xs ys where k: "k \<in> H" and L: "L k = xs @ n # ys"
    unfolding free_node_def by (meson split_list)
  let ?h = "nimble_list_remove n h" and ?L = "delist n L"
  have ck: "circle h k (xs @ n # ys)" using repr_circle [OF r k] L by simp
  have Lk: "?L k = xs @ ys" using ck L by (auto simp: circle_def)
  have Lj: "?L j = L j" if "j \<in> H" "j \<noteq> k" for j
  proof -
    have "n \<notin> set (L j)" using repr_disjoint [OF r that(1) k, of n] that(2) L by auto
    then show ?thesis by simp
  qed
  have same: "m \<notin> insert k (set (L k)) \<Longrightarrow>
      node_next ?h m = node_next h m \<and> node_prev ?h m = node_prev h m" for m
    using circle_remove(3,4) [OF ck] L by simp
  show ?thesis
  proof (rule reprI)
    show "H \<inter> N = {}" by (rule repr_heads_disjoint [OF r])
  next
    fix j assume j: "j \<in> H"
    show "circle ?h j (?L j) \<and> set (?L j) \<subseteq> N"
    proof (cases "j = k")
      case True then show ?thesis
        using circle_remove(1) [OF ck] repr_member [OF r k] L Lk by auto
    next
      case False
      have "circle ?h j (L j)"
        by (rule circle_outside [OF repr_circle [OF r j] repr_circles_disjoint [OF r j k False] same])
      with False repr_member [OF r j] Lj [OF j] show ?thesis by auto
    qed
  next
    fix j j' assume "j \<in> H" "j' \<in> H" "j \<noteq> j'"
    then show "set (?L j) \<inter> set (?L j') = {}" using repr_disjoint [OF r, of j j'] by auto
  next
    fix m assume m: "m \<in> N" and fm: "free_node H ?L m"
    show "circle ?h m []"
    proof (cases "m = n")
      case True then show ?thesis using circle_remove(2) [OF ck] by simp
    next
      case False
      then have f: "free_node H L m" using fm by (auto simp: free_node_def)
      then have "m \<notin> insert k (set (L k))"
        using repr_not_head [OF r m] k by (auto simp: free_node_def)
      then show ?thesis using repr_free_circle [OF r m f] same [of m] by simp
    qed
  qed
qed

end
