(* ===== verification/Kernel_State.thy ===== *)
theory Kernel_State
  imports Nimble_List
begin

text \<open>
  The data of the kernel: the status codes and task states of \<^verbatim>\<open>nimble_types.h\<close>, the
  configuration of \<^verbatim>\<open>nimble_config.h\<close>, the control blocks of \<^verbatim>\<open>nimble_task.h\<close>,
  \<^verbatim>\<open>nimble_mutex.h\<close>, \<^verbatim>\<open>nimble_semaphore.h\<close>, \<^verbatim>\<open>nimble_queue.h\<close> and
  \<^verbatim>\<open>nimble_timer.h\<close>, the file-static variables of the kernel sources gathered in one
  record, and the port interface (\<^verbatim>\<open>exception_handlers.c\<close>).

  Objects are named by pointers (natural numbers, \<^verbatim>\<open>NULL\<close> is \<open>None\<close>). The list
  nodes inside the objects are addresses of their own: \<open>Link t\<close> is \<^verbatim>\<open>&t->link\<close>,
  \<open>EventLink t\<close> is \<^verbatim>\<open>&t->event_link\<close>, \<open>MutexWaiters m\<close> is \<^verbatim>\<open>&m->waiters\<close>,
  and so on; \<^verbatim>\<open>NIMBLE_CONTAINER_OF\<close> inverts them and is undefined elsewhere.
\<close>

section \<open>Status codes, task states, configuration\<close>

datatype nimble_status_t =
    NIMBLE_OK
  | NIMBLE_ERR_INVALID_ARG
  | NIMBLE_ERR_NO_MEMORY
  | NIMBLE_ERR_TIMEOUT
  | NIMBLE_ERR_NOT_OWNER
  | NIMBLE_ERR_FULL
  | NIMBLE_ERR_EMPTY

datatype nimble_task_state_t =
    NIMBLE_TASK_READY
  | NIMBLE_TASK_RUNNING
  | NIMBLE_TASK_BLOCKED
  | NIMBLE_TASK_SUSPENDED
  | NIMBLE_TASK_DELETED

definition NIMBLE_WAIT_FOREVER :: nimble_tick_t where
  "NIMBLE_WAIT_FOREVER = 0xFFFFFFFF"

definition NIMBLE_NO_WAIT :: nimble_tick_t where
  "NIMBLE_NO_WAIT = 0"

definition NIMBLE_MAX_PRIORITIES :: u8 where
  "NIMBLE_MAX_PRIORITIES = 32"

definition NIMBLE_MIN_STACK_WORDS :: u32 where
  "NIMBLE_MIN_STACK_WORDS = 64"

definition NIMBLE_MAX_TASK_NAME_LEN :: nat where
  "NIMBLE_MAX_TASK_NAME_LEN = 16"

declare NIMBLE_WAIT_FOREVER_def [kdefs] NIMBLE_NO_WAIT_def [kdefs]
  NIMBLE_MAX_PRIORITIES_def [kdefs] NIMBLE_MIN_STACK_WORDS_def [kdefs]
  NIMBLE_MAX_TASK_NAME_LEN_def [kdefs]

section \<open>Pointers and list nodes\<close>

type_synonym tcb_ptr = nat
type_synonym mutex_ptr = nat
type_synonym sem_ptr = nat
type_synonym queue_ptr = nat
type_synonym timer_ptr = nat

datatype node =
    ReadyList nat
  | DelayedList
  | MutexWaiters mutex_ptr
  | SemWaiters sem_ptr
  | QueueReceivers queue_ptr
  | QueueSenders queue_ptr
  | ActiveTimers
  | Link tcb_ptr
  | EventLink tcb_ptr
  | TimerLink timer_ptr

fun container_of_link :: "node \<Rightarrow> tcb_ptr option" where
  "container_of_link (Link t) = Some t"
| "container_of_link _ = None"

fun container_of_event_link :: "node \<Rightarrow> tcb_ptr option" where
  "container_of_event_link (EventLink t) = Some t"
| "container_of_event_link _ = None"

fun container_of_timer_link :: "node \<Rightarrow> timer_ptr option" where
  "container_of_timer_link (TimerLink t) = Some t"
| "container_of_timer_link _ = None"

section \<open>Control blocks\<close>

record nimble_tcb =
  tcb_sp :: addr
  tcb_priority :: u8
  tcb_base_priority :: u8
  tcb_state :: nimble_task_state_t
  tcb_stack_base :: addr
  tcb_stack_words :: u32
  tcb_wake_tick :: nimble_tick_t
  tcb_last_wait_result :: nimble_status_t
  tcb_blocked_on_mutex :: "mutex_ptr option"
  tcb_name :: string

record nimble_mutex =
  mutex_owner :: "tcb_ptr option"
  mutex_lock_count :: u32

record nimble_semaphore =
  sem_count :: u32
  sem_max_count :: u32

record nimble_queue =
  queue_buffer :: "u8 list"
  queue_item_size :: u32
  queue_capacity :: u32
  queue_count :: u32
  queue_head :: u32
  queue_tail :: u32

record nimble_timer =
  timer_period_ticks :: nimble_tick_t
  timer_expiry_tick :: nimble_tick_t
  timer_is_periodic :: bool
  timer_is_active :: bool
  timer_callback :: addr
  timer_arg :: addr
  timer_name :: string

section \<open>The state of the system\<close>

text \<open>
  Addresses the linker chooses: the functions and the static stack the kernel itself takes
  the address of.
\<close>

record symbols =
  sym_idle_task_fn :: addr
  sym_idle_stack :: addr
  sym_task_exit_trap :: addr
  sym_timer_task_fn :: addr

record kernel =
  heap :: "node list_heap"
  tcbs :: "tcb_ptr \<Rightarrow> nimble_tcb"
  mutexes :: "mutex_ptr \<Rightarrow> nimble_mutex"
  semaphores :: "sem_ptr \<Rightarrow> nimble_semaphore"
  queues :: "queue_ptr \<Rightarrow> nimble_queue"
  timers :: "timer_ptr \<Rightarrow> nimble_timer"
  ready_bitmap :: u32
  g_tick_count :: nimble_tick_t
  nimble_current_tcb :: "tcb_ptr option"
  nimble_next_tcb :: "tcb_ptr option"
  mem :: "addr \<Rightarrow> u32"
  reg :: "nat \<Rightarrow> u32"
  psp :: addr
  basepri :: u32
  pendsv :: bool
  syms :: symbols

text \<open>The static objects of \<^verbatim>\<open>scheduler.c\<close> and \<^verbatim>\<open>timer.c\<close>.\<close>

definition idle_tcb :: tcb_ptr where "idle_tcb = 0"
definition timer_task_tcb :: tcb_ptr where "timer_task_tcb = 1"
definition timer_wake_sem :: sem_ptr where "timer_wake_sem = 0"

definition update_tcb :: "tcb_ptr \<Rightarrow> (nimble_tcb \<Rightarrow> nimble_tcb) \<Rightarrow> kernel \<Rightarrow> kernel" where
  "update_tcb t f s = s\<lparr>tcbs := (tcbs s)(t := f (tcbs s t))\<rparr>"

definition update_mutex :: "mutex_ptr \<Rightarrow> (nimble_mutex \<Rightarrow> nimble_mutex) \<Rightarrow> kernel \<Rightarrow> kernel" where
  "update_mutex m f s = s\<lparr>mutexes := (mutexes s)(m := f (mutexes s m))\<rparr>"

definition update_semaphore ::
  "sem_ptr \<Rightarrow> (nimble_semaphore \<Rightarrow> nimble_semaphore) \<Rightarrow> kernel \<Rightarrow> kernel" where
  "update_semaphore m f s = s\<lparr>semaphores := (semaphores s)(m := f (semaphores s m))\<rparr>"

definition update_queue :: "queue_ptr \<Rightarrow> (nimble_queue \<Rightarrow> nimble_queue) \<Rightarrow> kernel \<Rightarrow> kernel" where
  "update_queue q f s = s\<lparr>queues := (queues s)(q := f (queues s q))\<rparr>"

definition update_timer :: "timer_ptr \<Rightarrow> (nimble_timer \<Rightarrow> nimble_timer) \<Rightarrow> kernel \<Rightarrow> kernel" where
  "update_timer q f s = s\<lparr>timers := (timers s)(q := f (timers s q))\<rparr>"

definition update_heap :: "(node list_heap \<Rightarrow> node list_heap) \<Rightarrow> kernel \<Rightarrow> kernel" where
  "update_heap f s = s\<lparr>heap := f (heap s)\<rparr>"

declare update_tcb_def [kdefs] update_mutex_def [kdefs] update_semaphore_def [kdefs]
  update_queue_def [kdefs] update_timer_def [kdefs] update_heap_def [kdefs]

abbreviation task_state :: "kernel \<Rightarrow> tcb_ptr \<Rightarrow> nimble_task_state_t" where
  "task_state s t \<equiv> tcb_state (tcbs s t)"

abbreviation task_priority :: "kernel \<Rightarrow> tcb_ptr \<Rightarrow> u8" where
  "task_priority s t \<equiv> tcb_priority (tcbs s t)"

section \<open>The port interface\<close>

definition NIMBLE_KERNEL_SYSCALL_BASEPRI :: u32 where
  "NIMBLE_KERNEL_SYSCALL_BASEPRI = push_bit 4 5"

definition nimble_port_request_context_switch :: "kernel \<Rightarrow> kernel" where
  "nimble_port_request_context_switch s = s\<lparr>pendsv := True\<rparr>"

definition nimble_port_enter_critical :: "kernel \<Rightarrow> u32 \<times> kernel" where
  "nimble_port_enter_critical s =
     (let old_basepri = basepri s
      in (old_basepri, s\<lparr>basepri := NIMBLE_KERNEL_SYSCALL_BASEPRI\<rparr>))"

definition nimble_port_exit_critical :: "u32 \<Rightarrow> kernel \<Rightarrow> kernel" where
  "nimble_port_exit_critical saved_state s = s\<lparr>basepri := saved_state\<rparr>"

declare nimble_port_request_context_switch_def [kdefs]
  nimble_port_enter_critical_def [kdefs] nimble_port_exit_critical_def [kdefs]

end
