(* ===== verification/Scheduler.thy ===== *)
theory Scheduler
  imports Kernel_State
begin

text \<open>
  The scheduler of \<^verbatim>\<open>kernel/src/scheduler.c\<close>: ready lists, ready bitmap, delayed list,
  the choice of the next task and the tick. (\<^verbatim>\<open>nimble_scheduler_init\<close> and
  \<^verbatim>\<open>nimble_scheduler_start\<close> need \<^verbatim>\<open>task.c\<close> and are in theory \<open>Task\<close>.)

  An operation returns \<open>None\<close> where the C code has no defined behaviour: the index of
  \<^verbatim>\<open>ready_lists\<close> out of range, \<^verbatim>\<open>__builtin_clz(0)\<close>, or
  \<^verbatim>\<open>NIMBLE_CONTAINER_OF\<close> applied to a list head.
\<close>

section \<open>Operations\<close>

definition builtin_clz :: "u32 \<Rightarrow> nat option" where
  "builtin_clz x =
     (if x = 0 then None else Some (length (takeWhile (\<lambda>i. \<not> bit x i) (rev [0..<32]))))"

definition highest_set_bit :: "u32 \<Rightarrow> u8 option" where
  "highest_set_bit bitmap =
     do { n \<leftarrow> builtin_clz bitmap;
          Some (word_of_int (31 - int n)) }"

definition nimble_scheduler_add_ready :: "tcb_ptr \<Rightarrow> kernel \<Rightarrow> kernel option" where
  "nimble_scheduler_add_ready t s =
     (let s = update_tcb t (tcb_state_update (\<lambda>_. NIMBLE_TASK_READY)) s;
          prio = task_priority s t
      in if NIMBLE_MAX_PRIORITIES \<le> prio then None
         else let s = update_heap (nimble_list_insert_tail (ReadyList (unat prio)) (Link t)) s
              in Some (s\<lparr>ready_bitmap := ready_bitmap s OR bit_mask (unat prio)\<rparr>))"

definition nimble_scheduler_remove :: "tcb_ptr \<Rightarrow> kernel \<Rightarrow> kernel option" where
  "nimble_scheduler_remove t s =
     (let prio = task_priority s t;
          s = update_heap (nimble_list_remove (Link t)) s
      in if NIMBLE_MAX_PRIORITIES \<le> prio then None
         else if nimble_list_is_empty (ReadyList (unat prio)) (heap s)
              then Some (s\<lparr>ready_bitmap := ready_bitmap s AND NOT (bit_mask (unat prio))\<rparr>)
              else Some s)"

definition nimble_scheduler_get_tick_count :: "kernel \<Rightarrow> nimble_tick_t" where
  "nimble_scheduler_get_tick_count s = g_tick_count s"

definition nimble_scheduler_block_current_delay ::
  "tcb_ptr \<Rightarrow> nimble_tick_t \<Rightarrow> kernel \<Rightarrow> kernel option" where
  "nimble_scheduler_block_current_delay t wake_tick s =
     do { s \<leftarrow> nimble_scheduler_remove t s;
          let s = update_tcb t (tcb_wake_tick_update (\<lambda>_. wake_tick)) s;
          let s = update_tcb t (tcb_state_update (\<lambda>_. NIMBLE_TASK_BLOCKED)) s;
          Some (update_heap (nimble_list_insert_tail DelayedList (Link t)) s) }"

definition nimble_scheduler_prepare_block ::
  "tcb_ptr \<Rightarrow> nimble_tick_t \<Rightarrow> kernel \<Rightarrow> kernel option" where
  "nimble_scheduler_prepare_block t timeout_ticks s =
     do { s \<leftarrow> nimble_scheduler_remove t s;
          let s = update_tcb t (tcb_state_update (\<lambda>_. NIMBLE_TASK_BLOCKED)) s;
          if timeout_ticks \<noteq> NIMBLE_WAIT_FOREVER
          then let wake = nimble_scheduler_get_tick_count s + timeout_ticks;
                   s = update_tcb t (tcb_wake_tick_update (\<lambda>_. wake)) s
               in Some (update_heap (nimble_list_insert_tail DelayedList (Link t)) s)
          else Some s }"

definition nimble_scheduler_wake_waiter ::
  "node \<Rightarrow> kernel \<Rightarrow> (tcb_ptr option \<times> kernel) option" where
  "nimble_scheduler_wake_waiter wait_list s =
     (if nimble_list_is_empty wait_list (heap s) then Some (None, s)
      else do { let node = node_next (heap s) wait_list;
                t \<leftarrow> container_of_event_link node;
                let s = update_heap (nimble_list_remove (EventLink t)) s;
                let s = update_heap (nimble_list_remove (Link t)) s;
                let s = update_tcb t (tcb_last_wait_result_update (\<lambda>_. NIMBLE_OK)) s;
                s \<leftarrow> nimble_scheduler_add_ready t s;
                Some (Some t, s) })"

definition requeue_current :: "kernel \<Rightarrow> kernel option" where
  "requeue_current s =
     (case nimble_current_tcb s of
        None \<Rightarrow> Some s
      | Some c \<Rightarrow> if task_state s c = NIMBLE_TASK_RUNNING
                  then nimble_scheduler_add_ready c s else Some s)"

definition nimble_scheduler_select_next :: "kernel \<Rightarrow> (tcb_ptr \<times> kernel) option" where
  "nimble_scheduler_select_next s =
     do { s \<leftarrow> requeue_current s;
          prio \<leftarrow> highest_set_bit (ready_bitmap s);
          let node = node_next (heap s) (ReadyList (unat prio));
          next \<leftarrow> container_of_link node;
          s \<leftarrow> nimble_scheduler_remove next s;
          let s = update_tcb next (tcb_state_update (\<lambda>_. NIMBLE_TASK_RUNNING)) s;
          let s = s\<lparr>nimble_next_tcb := Some next\<rparr>;
          Some (next, s) }"

text \<open>The delayed-list scan of \<^verbatim>\<open>nimble_scheduler_tick\<close>: its body and its loop.\<close>

definition tick_due :: "kernel \<Rightarrow> tcb_ptr \<Rightarrow> bool" where
  "tick_due s t \<longleftrightarrow> 0 \<le> sint (g_tick_count s - tcb_wake_tick (tcbs s t))"

definition tick_wake :: "tcb_ptr \<Rightarrow> kernel \<Rightarrow> kernel option" where
  "tick_wake t s =
     (let s = update_heap (nimble_list_remove (Link t)) s;
          s = update_heap (nimble_list_remove (EventLink t)) s;
          s = update_tcb t (tcb_last_wait_result_update (\<lambda>_. NIMBLE_ERR_TIMEOUT)) s
      in nimble_scheduler_add_ready t s)"

partial_function (option) tick_scan :: "node \<Rightarrow> kernel \<Rightarrow> kernel option" where
  "tick_scan node s =
     (if node = DelayedList then Some s
      else do { let next_node = node_next (heap s) node;
                t \<leftarrow> container_of_link node;
                s \<leftarrow> (if tick_due s t then tick_wake t s else Some s);
                tick_scan next_node s })"

definition nimble_scheduler_tick :: "kernel \<Rightarrow> kernel option" where
  "nimble_scheduler_tick s =
     (let s = s\<lparr>g_tick_count := g_tick_count s + 1\<rparr>
      in do { s \<leftarrow> tick_scan (node_next (heap s) DelayedList) s;
              Some (nimble_port_request_context_switch s) })"

section \<open>The highest set bit\<close>

lemma unat_u8_31_minus:
  assumes "n < 32"
  shows "unat (word_of_int (31 - int n) :: u8) = 31 - n"
proof -
  have "31 - int n = int (31 - n)" using assms by simp
  then have "(word_of_int (31 - int n) :: u8) = word_of_nat (31 - n)"
    by (simp only: of_int_of_nat_eq)
  then show ?thesis by (simp add: unat_of_nat)
qed

lemma highest_set_bit_zero: "highest_set_bit 0 = None"
  by (simp add: highest_set_bit_def builtin_clz_def)

lemma highest_set_bit_max:
  assumes "b \<noteq> 0"
  obtains p where "highest_set_bit b = Some p" "unat p < 32" "bit b (unat p)"
    "\<And>i. bit b i \<Longrightarrow> i \<le> unat p"
proof -
  let ?xs = "rev [0..<32]" and ?P = "\<lambda>i. \<not> bit b i"
  let ?n = "length (takeWhile ?P ?xs)"
  have nth: "?xs ! j = 31 - j" if "j < 32" for j
    using that by (simp add: rev_nth)
  obtain i where i: "i < 32" "bit b i" using assms u32_nonzero_has_bit by blast
  have "?n < length ?xs" using i by (intro takeWhile_shorter [of i]) auto
  then have n: "?n < 32" by simp
  let ?p = "word_of_int (31 - int ?n) :: u8"
  have up: "unat ?p = 31 - ?n" by (rule unat_u8_31_minus [OF n])
  show thesis
  proof
    show "highest_set_bit b = Some ?p"
      using assms by (simp add: highest_set_bit_def builtin_clz_def)
    show "unat ?p < 32" using up by simp
    show "bit b (unat ?p)"
      using nth_length_takeWhile [of ?P ?xs] n nth [of ?n] up by simp
    fix j assume j: "bit b j"
    then have "j < 32" by (rule bit_u32_less)
    show "j \<le> unat ?p"
    proof (rule ccontr)
      assume "\<not> j \<le> unat ?p"
      then have "31 - j < ?n" using up \<open>j < 32\<close> n by arith
      then have "?P (?xs ! (31 - j))"
        by (metis nth_mem set_takeWhileD takeWhile_nth)
      with j \<open>j < 32\<close> nth [of "31 - j"] show False by simp
    qed
  qed
qed

end
