(* ===== verification/Scheduler_Inv.thy ===== *)
theory Scheduler_Inv
  imports Scheduler
begin

text \<open>
  The invariant of the scheduler's data and its preservation by every operation of theory
  \<open>Scheduler\<close>.

  \<open>sched_inv b X H N L s\<close> relates the heap of state \<open>s\<close> to the lists \<open>L\<close> of the
  initialised heads \<open>H\<close> over the initialised link nodes \<open>N\<close>, and the lists to the task
  states and to the ready bitmap. \<open>X\<close> holds the tasks an operation is in the middle of
  moving. With \<open>b\<close> the ready structures are exact: every ready task is on the list of its
  current priority and a bitmap bit is set only for a non-empty list. Without \<open>b\<close> they may
  be stale, which is the state a priority change of a ready task leaves behind.
\<close>

section \<open>The invariant\<close>

fun fits :: "node \<Rightarrow> node \<Rightarrow> bool" where
  "fits (ReadyList _) (Link _) = True"
| "fits DelayedList (Link _) = True"
| "fits (MutexWaiters _) (EventLink _) = True"
| "fits (SemWaiters _) (EventLink _) = True"
| "fits (QueueReceivers _) (EventLink _) = True"
| "fits (QueueSenders _) (EventLink _) = True"
| "fits ActiveTimers (TimerLink _) = True"
| "fits _ _ = False"

fun wait_head :: "node \<Rightarrow> bool" where
  "wait_head (MutexWaiters _) = True"
| "wait_head (SemWaiters _) = True"
| "wait_head (QueueReceivers _) = True"
| "wait_head (QueueSenders _) = True"
| "wait_head _ = False"

fun is_head :: "node \<Rightarrow> bool" where
  "is_head (Link _) = False"
| "is_head (EventLink _) = False"
| "is_head (TimerLink _) = False"
| "is_head _ = True"

definition shape :: "node set \<Rightarrow> node set \<Rightarrow> (node \<Rightarrow> node list) \<Rightarrow> bool" where
  "shape H N L \<longleftrightarrow>
     (\<forall>p. ReadyList p \<in> H \<longleftrightarrow> p < 32) \<and> DelayedList \<in> H \<and>
     (\<forall>k\<in>H. is_head k) \<and> (\<forall>n\<in>N. \<not> is_head n) \<and>
     (\<forall>k\<in>H. \<forall>n\<in>set (L k). fits k n) \<and>
     (\<forall>t. Link t \<in> N \<longleftrightarrow> EventLink t \<in> N)"

definition tasks_inv ::
  "bool \<Rightarrow> tcb_ptr set \<Rightarrow> node set \<Rightarrow> node set \<Rightarrow> (node \<Rightarrow> node list) \<Rightarrow> kernel \<Rightarrow> bool" where
  "tasks_inv b X H N L s \<longleftrightarrow>
     (\<forall>t. Link t \<in> N \<longrightarrow> unat (task_priority s t) < 32 \<and> unat (tcb_base_priority (tcbs s t)) < 32) \<and>
     (\<forall>t p. p < 32 \<longrightarrow> Link t \<in> set (L (ReadyList p)) \<longrightarrow>
        task_state s t = NIMBLE_TASK_READY \<and> (b \<longrightarrow> unat (task_priority s t) = p)) \<and>
     (\<forall>t. Link t \<in> N \<longrightarrow> t \<notin> X \<longrightarrow> task_state s t = NIMBLE_TASK_READY \<longrightarrow>
        (\<exists>p<32. Link t \<in> set (L (ReadyList p)))) \<and>
     (\<forall>t. Link t \<in> set (L DelayedList) \<longrightarrow> task_state s t = NIMBLE_TASK_BLOCKED) \<and>
     (\<forall>t. \<forall>k\<in>H. t \<notin> X \<longrightarrow> EventLink t \<in> set (L k) \<longrightarrow> task_state s t = NIMBLE_TASK_BLOCKED) \<and>
     (\<forall>t. Link t \<in> N \<longrightarrow> t \<notin> X \<longrightarrow> task_state s t = NIMBLE_TASK_RUNNING \<longrightarrow>
        nimble_current_tcb s = Some t) \<and>
     (\<forall>t. nimble_current_tcb s = Some t \<longrightarrow> Link t \<in> N)"

definition bitmap_inv :: "bool \<Rightarrow> (node \<Rightarrow> node list) \<Rightarrow> u32 \<Rightarrow> bool" where
  "bitmap_inv b L w \<longleftrightarrow>
     (\<forall>p<32. L (ReadyList p) \<noteq> [] \<longrightarrow> bit w p) \<and>
     (b \<longrightarrow> (\<forall>p<32. bit w p \<longrightarrow> L (ReadyList p) \<noteq> []))"

definition sched_inv ::
  "bool \<Rightarrow> tcb_ptr set \<Rightarrow> node set \<Rightarrow> node set \<Rightarrow> (node \<Rightarrow> node list) \<Rightarrow> kernel \<Rightarrow> bool" where
  "sched_inv b X H N L s \<longleftrightarrow>
     repr H N L (heap s) \<and> shape H N L \<and> tasks_inv b X H N L s \<and>
     bitmap_inv b L (ready_bitmap s)"

subsection \<open>What the invariant depends on\<close>

lemma sched_inv_cong:
  assumes "heap s' = heap s" "ready_bitmap s' = ready_bitmap s"
    "nimble_current_tcb s' = nimble_current_tcb s"
    "\<And>t. task_state s' t = task_state s t"
    "\<And>t. task_priority s' t = task_priority s t"
    "\<And>t. tcb_base_priority (tcbs s' t) = tcb_base_priority (tcbs s t)"
  shows "sched_inv b X H N L s' = sched_inv b X H N L s"
  using assms by (simp add: sched_inv_def tasks_inv_def)

lemma sched_inv_fields [simp]:
  "sched_inv b X H N L (s\<lparr>basepri := v1\<rparr>) = sched_inv b X H N L s"
  "sched_inv b X H N L (s\<lparr>pendsv := v2\<rparr>) = sched_inv b X H N L s"
  "sched_inv b X H N L (s\<lparr>mutexes := v3\<rparr>) = sched_inv b X H N L s"
  "sched_inv b X H N L (s\<lparr>semaphores := v4\<rparr>) = sched_inv b X H N L s"
  "sched_inv b X H N L (s\<lparr>queues := v5\<rparr>) = sched_inv b X H N L s"
  "sched_inv b X H N L (s\<lparr>timers := v6\<rparr>) = sched_inv b X H N L s"
  "sched_inv b X H N L (s\<lparr>g_tick_count := v7\<rparr>) = sched_inv b X H N L s"
  "sched_inv b X H N L (s\<lparr>nimble_next_tcb := v8\<rparr>) = sched_inv b X H N L s"
  "sched_inv b X H N L (s\<lparr>mem := v9\<rparr>) = sched_inv b X H N L s"
  "sched_inv b X H N L (s\<lparr>reg := v10\<rparr>) = sched_inv b X H N L s"
  "sched_inv b X H N L (s\<lparr>psp := v11\<rparr>) = sched_inv b X H N L s"
  by (simp_all add: sched_inv_def tasks_inv_def)

lemma sched_inv_tcb_field:
  assumes "\<And>c. tcb_state (f c) = tcb_state c" "\<And>c. tcb_priority (f c) = tcb_priority c"
    "\<And>c. tcb_base_priority (f c) = tcb_base_priority c"
  shows "sched_inv b X H N L (update_tcb t f s) = sched_inv b X H N L s"
  by (rule sched_inv_cong) (simp_all add: kdefs assms)

lemma sched_inv_wake_tick [simp]:
  "sched_inv b X H N L (update_tcb t (tcb_wake_tick_update f) s) = sched_inv b X H N L s"
  "sched_inv b X H N L (update_tcb t (tcb_last_wait_result_update g) s) = sched_inv b X H N L s"
  "sched_inv b X H N L (update_tcb t (tcb_sp_update k) s) = sched_inv b X H N L s"
  by (simp_all add: sched_inv_tcb_field)

lemma sched_inv_mono: "sched_inv b X H N L s \<Longrightarrow> X \<subseteq> Y \<Longrightarrow> sched_inv b Y H N L s"
  unfolding sched_inv_def tasks_inv_def by blast

lemma sched_inv_lists_cong:
  assumes "sched_inv b X H N L s" and eq: "\<And>k. k \<in> H \<Longrightarrow> L' k = L k"
  shows "sched_inv b X H N L' s"
proof -
  have "shape H N L" using assms(1) by (simp add: sched_inv_def)
  then have "\<And>p. p < 32 \<Longrightarrow> L' (ReadyList p) = L (ReadyList p)" "L' DelayedList = L DelayedList"
    using eq by (simp_all add: shape_def)
  then have "tasks_inv b X H N L' s = tasks_inv b X H N L s"
    "bitmap_inv b L' (ready_bitmap s) = bitmap_inv b L (ready_bitmap s)"
    "shape H N L' = shape H N L"
    using eq by (simp_all add: tasks_inv_def bitmap_inv_def shape_def cong: conj_cong)
  then show ?thesis using assms by (auto simp: sched_inv_def intro: repr_cong)
qed

lemma sched_inv_weaken: "sched_inv b X H N L s \<Longrightarrow> sched_inv False X H N L s"
  unfolding sched_inv_def tasks_inv_def bitmap_inv_def by blast

lemma sched_inv_repr: "sched_inv b X H N L s \<Longrightarrow> repr H N L (heap s)"
  by (simp add: sched_inv_def)

lemma sched_inv_shape: "sched_inv b X H N L s \<Longrightarrow> shape H N L"
  by (simp add: sched_inv_def)

lemma sched_inv_bitmap: "sched_inv b X H N L s \<Longrightarrow> bitmap_inv b L (ready_bitmap s)"
  by (simp add: sched_inv_def)

lemma sched_inv_tasks: "sched_inv b X H N L s \<Longrightarrow> tasks_inv b X H N L s"
  by (simp add: sched_inv_def)

lemma tasks_inv_prio: "tasks_inv b X H N L s \<Longrightarrow> Link t \<in> N \<Longrightarrow> unat (task_priority s t) < 32"
  unfolding tasks_inv_def by blast

lemma tasks_inv_base:
  "tasks_inv b X H N L s \<Longrightarrow> Link t \<in> N \<Longrightarrow> unat (tcb_base_priority (tcbs s t)) < 32"
  unfolding tasks_inv_def by blast

lemma tasks_inv_ready_state:
  "tasks_inv b X H N L s \<Longrightarrow> p < 32 \<Longrightarrow> Link t \<in> set (L (ReadyList p)) \<Longrightarrow>
   task_state s t = NIMBLE_TASK_READY"
  unfolding tasks_inv_def by blast

lemma tasks_inv_ready_prio:
  "tasks_inv b X H N L s \<Longrightarrow> b \<Longrightarrow> p < 32 \<Longrightarrow> Link t \<in> set (L (ReadyList p)) \<Longrightarrow>
   unat (task_priority s t) = p"
  unfolding tasks_inv_def by blast

lemma tasks_inv_ready_listed:
  "tasks_inv b X H N L s \<Longrightarrow> Link t \<in> N \<Longrightarrow> t \<notin> X \<Longrightarrow> task_state s t = NIMBLE_TASK_READY \<Longrightarrow>
   \<exists>p<32. Link t \<in> set (L (ReadyList p))"
  unfolding tasks_inv_def by blast

lemma tasks_inv_delayed:
  "tasks_inv b X H N L s \<Longrightarrow> Link t \<in> set (L DelayedList) \<Longrightarrow> task_state s t = NIMBLE_TASK_BLOCKED"
  unfolding tasks_inv_def by blast

lemma tasks_inv_event:
  "tasks_inv b X H N L s \<Longrightarrow> t \<notin> X \<Longrightarrow> k \<in> H \<Longrightarrow> EventLink t \<in> set (L k) \<Longrightarrow>
   task_state s t = NIMBLE_TASK_BLOCKED"
  unfolding tasks_inv_def by blast

lemma tasks_inv_running:
  "tasks_inv b X H N L s \<Longrightarrow> Link t \<in> N \<Longrightarrow> t \<notin> X \<Longrightarrow> task_state s t = NIMBLE_TASK_RUNNING \<Longrightarrow>
   nimble_current_tcb s = Some t"
  unfolding tasks_inv_def by blast

lemma tasks_inv_current: "tasks_inv b X H N L s \<Longrightarrow> nimble_current_tcb s = Some t \<Longrightarrow> Link t \<in> N"
  unfolding tasks_inv_def by blast

lemma tasks_invI:
  assumes "\<And>t. Link t \<in> N \<Longrightarrow> unat (task_priority s t) < 32"
    and "\<And>t. Link t \<in> N \<Longrightarrow> unat (tcb_base_priority (tcbs s t)) < 32"
    and "\<And>t p. p < 32 \<Longrightarrow> Link t \<in> set (L (ReadyList p)) \<Longrightarrow> task_state s t = NIMBLE_TASK_READY"
    and "\<And>t p. b \<Longrightarrow> p < 32 \<Longrightarrow> Link t \<in> set (L (ReadyList p)) \<Longrightarrow> unat (task_priority s t) = p"
    and "\<And>t. Link t \<in> N \<Longrightarrow> t \<notin> X \<Longrightarrow> task_state s t = NIMBLE_TASK_READY \<Longrightarrow>
           \<exists>p<32. Link t \<in> set (L (ReadyList p))"
    and "\<And>t. Link t \<in> set (L DelayedList) \<Longrightarrow> task_state s t = NIMBLE_TASK_BLOCKED"
    and "\<And>t k. t \<notin> X \<Longrightarrow> k \<in> H \<Longrightarrow> EventLink t \<in> set (L k) \<Longrightarrow> task_state s t = NIMBLE_TASK_BLOCKED"
    and "\<And>t. Link t \<in> N \<Longrightarrow> t \<notin> X \<Longrightarrow> task_state s t = NIMBLE_TASK_RUNNING \<Longrightarrow>
           nimble_current_tcb s = Some t"
    and "\<And>t. nimble_current_tcb s = Some t \<Longrightarrow> Link t \<in> N"
  shows "tasks_inv b X H N L s"
  unfolding tasks_inv_def using assms by blast

lemmas tasks_invD = tasks_inv_prio tasks_inv_base tasks_inv_ready_state tasks_inv_ready_prio
  tasks_inv_ready_listed tasks_inv_delayed tasks_inv_event tasks_inv_running tasks_inv_current

lemmas sched_inv_prio = tasks_inv_prio [OF sched_inv_tasks]

lemma sched_inv_prio_head:
  assumes "sched_inv b X H N L s" "Link t \<in> N"
  shows "ReadyList (unat (task_priority s t)) \<in> H"
  using sched_inv_prio [OF assms] sched_inv_shape [OF assms(1)] by (simp add: shape_def)

lemma prio_bound_iff: "NIMBLE_MAX_PRIORITIES \<le> p \<longleftrightarrow> \<not> unat p < 32"
  by (simp add: kdefs word_le_nat_alt not_less)

subsection \<open>Which list a node can be on\<close>

lemma shape_ready: "shape H N L \<Longrightarrow> ReadyList p \<in> H \<longleftrightarrow> p < 32"
  by (simp add: shape_def)

lemma shape_delayed: "shape H N L \<Longrightarrow> DelayedList \<in> H"
  by (simp add: shape_def)

lemma shape_heads: "shape H N L \<Longrightarrow> k \<in> H \<Longrightarrow> is_head k"
  by (simp add: shape_def)

lemma shape_nodes: "shape H N L \<Longrightarrow> n \<in> N \<Longrightarrow> \<not> is_head n"
  by (simp add: shape_def)

lemma shape_event: "shape H N L \<Longrightarrow> Link t \<in> N \<longleftrightarrow> EventLink t \<in> N"
  by (simp add: shape_def)

lemma shape_fits: "shape H N L \<Longrightarrow> k \<in> H \<Longrightarrow> n \<in> set (L k) \<Longrightarrow> fits k n"
  by (simp add: shape_def)

lemma fits_Link: "fits k (Link t) \<longleftrightarrow> (\<exists>p. k = ReadyList p) \<or> k = DelayedList"
  by (cases k) auto

lemma fits_EventLink: "fits k (EventLink t) \<longleftrightarrow> wait_head k"
  by (cases k) auto

lemma fits_wait_head: "wait_head k \<Longrightarrow> fits k n \<longleftrightarrow> (\<exists>t. n = EventLink t)"
  by (cases k; cases n) auto

lemma shape_link_cases:
  assumes "shape H N L" "k \<in> H" "Link t \<in> set (L k)"
  shows "(\<exists>p<32. k = ReadyList p) \<or> k = DelayedList"
  using shape_fits [OF assms] assms(1,2) by (auto simp: fits_Link shape_ready)

lemma shape_wait_member:
  assumes "shape H N L" "k \<in> H" "wait_head k" "n \<in> set (L k)"
  obtains t where "n = EventLink t"
  using shape_fits [OF assms(1,2,4)] assms(3) by (auto simp: fits_wait_head)

lemma shape_event_cases:
  assumes "shape H N L" "k \<in> H" "EventLink t \<in> set (L k)"
  shows "wait_head k"
  using shape_fits [OF assms] by (simp add: fits_EventLink)

lemma link_free:
  assumes "sched_inv b X H N L s" "task_state s t \<noteq> NIMBLE_TASK_READY"
    "task_state s t \<noteq> NIMBLE_TASK_BLOCKED"
  shows "free_node H L (Link t)"
  unfolding free_node_def
proof (intro ballI notI)
  fix k assume k: "k \<in> H" "Link t \<in> set (L k)"
  then have "(\<exists>p<32. k = ReadyList p) \<or> k = DelayedList"
    using assms(1) by (meson sched_inv_shape shape_link_cases)
  then show False
    using k assms(2,3) tasks_inv_ready_state [OF sched_inv_tasks [OF assms(1)]]
      tasks_inv_delayed [OF sched_inv_tasks [OF assms(1)]] by blast
qed

lemma event_free:
  assumes "sched_inv b X H N L s" "task_state s t \<noteq> NIMBLE_TASK_BLOCKED" "t \<notin> X"
  shows "free_node H L (EventLink t)"
  unfolding free_node_def using assms tasks_inv_event [OF sched_inv_tasks [OF assms(1)]] by blast

section \<open>Shape and bitmap under list changes\<close>

lemma shape_delist: "shape H N L \<Longrightarrow> shape H N (delist n L)"
  by (simp add: shape_def)

lemma shape_change:
  assumes "shape H N L" and "\<And>k n. k \<in> H \<Longrightarrow> n \<in> set (L' k) \<Longrightarrow> n \<in> set (L k) \<or> fits k n"
  shows "shape H N L'"
  using assms unfolding shape_def by blast

lemma shape_enlist: "shape H N L \<Longrightarrow> fits k n \<Longrightarrow> shape H N (enlist k n L)"
  by (erule shape_change) (auto split: if_splits)

lemma bitmap_invI:
  assumes "\<And>p. p < 32 \<Longrightarrow> L (ReadyList p) \<noteq> [] \<Longrightarrow> bit w p"
    and "\<And>p. b \<Longrightarrow> p < 32 \<Longrightarrow> bit w p \<Longrightarrow> L (ReadyList p) \<noteq> []"
  shows "bitmap_inv b L w"
  unfolding bitmap_inv_def using assms by blast

lemma bitmap_inv_set: "bitmap_inv b L w \<Longrightarrow> p < 32 \<Longrightarrow> L (ReadyList p) \<noteq> [] \<Longrightarrow> bit w p"
  unfolding bitmap_inv_def by blast

lemma bitmap_inv_exact: "bitmap_inv b L w \<Longrightarrow> b \<Longrightarrow> p < 32 \<Longrightarrow> bit w p \<Longrightarrow> L (ReadyList p) \<noteq> []"
  unfolding bitmap_inv_def by blast

lemma bitmap_cong:
  assumes "bitmap_inv b L w" and "\<And>p. p < 32 \<Longrightarrow> L' (ReadyList p) = L (ReadyList p)"
  shows "bitmap_inv b L' w"
proof (rule bitmap_invI)
  fix p :: nat assume "p < 32" "L' (ReadyList p) \<noteq> []"
  then show "bit w p" using assms(2) bitmap_inv_set [OF assms(1)] by simp
next
  fix p assume "b" "p < 32" "bit w p"
  then show "L' (ReadyList p) \<noteq> []" using assms(2) bitmap_inv_exact [OF assms(1)] by simp
qed

lemma bitmap_enlist:
  assumes "bitmap_inv b L w" "p < 32"
  shows "bitmap_inv b (enlist (ReadyList p) n L) (w OR bit_mask p)"
proof (rule bitmap_invI)
  fix q :: nat assume "q < 32" "enlist (ReadyList p) n L (ReadyList q) \<noteq> []"
  then show "bit (w OR bit_mask p) q"
    using assms(2) bitmap_inv_set [OF assms(1), of q]
    by (cases "q = p") (auto simp: bit_set_mask)
next
  fix q assume "b" "q < 32" "bit (w OR bit_mask p) q"
  then show "enlist (ReadyList p) n L (ReadyList q) \<noteq> []"
    using assms(2) bitmap_inv_exact [OF assms(1), of q]
    by (cases "q = p") (auto simp: bit_set_mask)
qed

lemma bitmap_enlist_other:
  "bitmap_inv b L w \<Longrightarrow> (\<And>p. k \<noteq> ReadyList p) \<Longrightarrow> bitmap_inv b (enlist k n L) w"
  by (erule bitmap_cong) auto

lemma bitmap_delist_event:
  assumes "shape H N L" "bitmap_inv b L w"
  shows "bitmap_inv b (delist (EventLink t) L) w"
proof (rule bitmap_cong [OF assms(2)])
  fix p :: nat assume "p < 32"
  then have "EventLink t \<notin> set (L (ReadyList p))"
    using shape_event_cases [OF assms(1), of "ReadyList p" t] assms(1) by (auto simp: shape_ready)
  then show "delist (EventLink t) L (ReadyList p) = L (ReadyList p)" by simp
qed

section \<open>Elementary steps\<close>

lemma add_ready_eq:
  "unat (task_priority s t) < 32 \<Longrightarrow>
   nimble_scheduler_add_ready t s =
     Some (s\<lparr>tcbs := (tcbs s)(t := (tcbs s t)\<lparr>tcb_state := NIMBLE_TASK_READY\<rparr>),
             heap := nimble_list_insert_tail (ReadyList (unat (task_priority s t))) (Link t) (heap s),
             ready_bitmap := ready_bitmap s OR bit_mask (unat (task_priority s t))\<rparr>)"
  by (simp add: nimble_scheduler_add_ready_def Let_def prio_bound_iff update_tcb_def update_heap_def)

lemma add_ready_inv:
  assumes inv: "sched_inv b X H N L s" and t: "Link t \<in> N"
    and fl: "free_node H L (Link t)" and fe: "free_node H L (EventLink t)"
    and res: "nimble_scheduler_add_ready t s = Some s'"
  shows "sched_inv b (X - {t}) H N (enlist (ReadyList (unat (task_priority s t))) (Link t) L) s'"
proof -
  let ?p = "unat (task_priority s t)"
  let ?L = "enlist (ReadyList ?p) (Link t) L"
  have p: "?p < 32" using inv t by (rule sched_inv_prio)
  have s': "s' = s\<lparr>tcbs := (tcbs s)(t := (tcbs s t)\<lparr>tcb_state := NIMBLE_TASK_READY\<rparr>),
      heap := nimble_list_insert_tail (ReadyList ?p) (Link t) (heap s),
      ready_bitmap := ready_bitmap s OR bit_mask ?p\<rparr>"
    using res add_ready_eq [OF p] by simp
  have sh: "shape H N L" and hd: "ReadyList ?p \<in> H"
    using inv t by (auto intro: sched_inv_shape sched_inv_prio_head)
  have "repr H N ?L (heap s')"
    using repr_insert_tail [OF sched_inv_repr [OF inv] hd t fl] s' by simp
  moreover have "shape H N ?L" using sh by (simp add: shape_enlist)
  moreover have "bitmap_inv b ?L (ready_bitmap s')"
    using inv p s' by (simp add: sched_inv_def bitmap_enlist)
  moreover have "tasks_inv b (X - {t}) H N ?L s'"
  proof -
    have nd: "Link t \<notin> set (L DelayedList)" and nr: "\<And>q. q < 32 \<Longrightarrow> Link t \<notin> set (L (ReadyList q))"
      using fl sh by (auto simp: free_node_def shape_def)
    have ne: "\<And>k. k \<in> H \<Longrightarrow> EventLink t \<notin> set (L k)" using fe by (simp add: free_node_def)
    note D = tasks_invD [OF sched_inv_tasks [OF inv]]
    show ?thesis
    proof (rule tasks_invI)
      fix t' assume "Link t' \<in> N" "t' \<notin> X - {t}" "task_state s' t' = NIMBLE_TASK_READY"
      then show "\<exists>q<32. Link t' \<in> set (?L (ReadyList q))"
        using D(5) [of t'] p by (cases "t' = t") (force simp: s')+
    next
      fix t' k assume "t' \<notin> X - {t}" "k \<in> H" "EventLink t' \<in> set (?L k)"
      then show "task_state s' t' = NIMBLE_TASK_BLOCKED"
        using D(7) [of t' k] ne [of k] by (cases "t' = t") (auto simp: s' split: if_splits)
    next
      fix t' assume "Link t' \<in> N" "t' \<notin> X - {t}" "task_state s' t' = NIMBLE_TASK_RUNNING"
      then show "nimble_current_tcb s' = Some t'"
        using D(8) [of t'] by (cases "t' = t") (auto simp: s')
    next
      fix t' q assume "q < 32" "Link t' \<in> set (?L (ReadyList q))"
      then show "task_state s' t' = NIMBLE_TASK_READY"
        using D(3) [of q t'] by (cases "t' = t") (auto simp: s' split: if_splits)
    next
      fix t' q assume "b" "q < 32" "Link t' \<in> set (?L (ReadyList q))"
      then show "unat (task_priority s' t') = q"
        using D(4) [of q t'] nr [of q] by (cases "t' = t") (auto simp: s' split: if_splits)
    next
      fix t' assume "Link t' \<in> set (?L DelayedList)"
      then show "task_state s' t' = NIMBLE_TASK_BLOCKED"
        using D(6) [of t'] nd by (cases "t' = t") (auto simp: s')
    qed (use D(1,2,9) in \<open>auto simp: s'\<close>)
  qed
  ultimately show ?thesis by (simp add: sched_inv_def)
qed


lemma add_ready_frame:
  assumes "nimble_scheduler_add_ready t s = Some s'"
  shows "s' = s\<lparr>tcbs := (tcbs s)(t := (tcbs s t)\<lparr>tcb_state := NIMBLE_TASK_READY\<rparr>),
                heap := heap s', ready_bitmap := ready_bitmap s'\<rparr>"
  using assms by (auto simp: nimble_scheduler_add_ready_def Let_def kdefs split: if_splits)

lemma tasks_inv_fields [simp]:
  "tasks_inv b X H N L (s\<lparr>heap := v1\<rparr>) = tasks_inv b X H N L s"
  "tasks_inv b X H N L (s\<lparr>ready_bitmap := v2\<rparr>) = tasks_inv b X H N L s"
  by (simp_all add: tasks_inv_def)

lemma tasks_inv_lists:
  assumes "tasks_inv b X H N L s" and "X \<subseteq> Y"
    and "\<And>t p. p < 32 \<Longrightarrow> Link t \<in> set (L' (ReadyList p)) \<Longrightarrow> Link t \<in> set (L (ReadyList p))"
    and "\<And>t p. p < 32 \<Longrightarrow> t \<notin> Y \<Longrightarrow> task_state s t = NIMBLE_TASK_READY \<Longrightarrow>
           Link t \<in> set (L (ReadyList p)) \<Longrightarrow> Link t \<in> set (L' (ReadyList p))"
    and "\<And>t. Link t \<in> set (L' DelayedList) \<Longrightarrow>
           Link t \<in> set (L DelayedList) \<or> task_state s t = NIMBLE_TASK_BLOCKED"
    and "\<And>t k. t \<notin> Y \<Longrightarrow> k \<in> H \<Longrightarrow> EventLink t \<in> set (L' k) \<Longrightarrow>
           EventLink t \<in> set (L k) \<or> task_state s t = NIMBLE_TASK_BLOCKED"
  shows "tasks_inv b Y H N L' s"
  using assms unfolding tasks_inv_def by (meson subsetD)

lemma tasks_inv_delist_link:
  "tasks_inv b X H N L s \<Longrightarrow> tasks_inv b (insert t X) H N (delist (Link t) L) s"
  by (erule tasks_inv_lists) auto

lemma tasks_inv_delist_event:
  "tasks_inv b X H N L s \<Longrightarrow> tasks_inv b X H N (delist (EventLink t) L) s"
  by (erule tasks_inv_lists) auto

lemma remove_eq:
  "unat (task_priority s t) < 32 \<Longrightarrow>
   nimble_scheduler_remove t s =
     Some (s\<lparr>heap := nimble_list_remove (Link t) (heap s),
             ready_bitmap :=
               if nimble_list_is_empty (ReadyList (unat (task_priority s t)))
                    (nimble_list_remove (Link t) (heap s))
               then ready_bitmap s AND NOT (bit_mask (unat (task_priority s t)))
               else ready_bitmap s\<rparr>)"
  by (simp add: nimble_scheduler_remove_def Let_def prio_bound_iff update_heap_def)

lemma remove_frame:
  "nimble_scheduler_remove t s = Some s' \<Longrightarrow>
   s' = s\<lparr>heap := nimble_list_remove (Link t) (heap s), ready_bitmap := ready_bitmap s'\<rparr>"
  by (auto simp: nimble_scheduler_remove_def Let_def kdefs split: if_splits)

lemma remove_bitmap:
  assumes sh: "shape H N L" and bm: "bitmap_inv b L w" and p: "p < 32"
    and exact: "\<And>q. b \<Longrightarrow> q < 32 \<Longrightarrow> n \<in> set (L (ReadyList q)) \<Longrightarrow> q = p"
  shows "bitmap_inv b (delist n L)
           (if delist n L (ReadyList p) = [] then w AND NOT (bit_mask p) else w)"
    (is "bitmap_inv b ?L ?w")
proof (rule bitmap_invI)
  fix q :: nat assume q: "q < 32" "?L (ReadyList q) \<noteq> []"
  then have "L (ReadyList q) \<noteq> []" by auto
  then have "bit w q" using bm q(1) by (intro bitmap_inv_set)
  then show "bit ?w q" using q(2) by (cases "q = p") (auto simp: bit_clear_mask)
next
  fix q assume b: "b" and q: "q < 32" "bit ?w q"
  then have "bit w q" by (auto simp: bit_clear_mask split: if_splits)
  then have ne: "L (ReadyList q) \<noteq> []" using bm b q(1) by (intro bitmap_inv_exact)
  show "?L (ReadyList q) \<noteq> []"
  proof (cases "q = p")
    case True
    then show ?thesis using q(2) by (auto simp: bit_clear_mask split: if_splits)
  next
    case False
    then have "n \<notin> set (L (ReadyList q))" using exact [OF b q(1)] by blast
    then show ?thesis using ne by simp
  qed
qed

lemma remove_inv:
  assumes inv: "sched_inv b X H N L s" and t: "Link t \<in> N"
    and res: "nimble_scheduler_remove t s = Some s'"
  shows "sched_inv b (insert t X) H N (delist (Link t) L) s'"
proof -
  let ?p = "unat (task_priority s t)"
  have p: "?p < 32" using inv t by (rule sched_inv_prio)
  have r: "repr H N (delist (Link t) L) (nimble_list_remove (Link t) (heap s))"
    using inv t by (intro repr_remove sched_inv_repr)
  have "nimble_list_is_empty (ReadyList ?p) (nimble_list_remove (Link t) (heap s)) \<longleftrightarrow>
      delist (Link t) L (ReadyList ?p) = []"
    by (rule repr_is_empty [OF r sched_inv_prio_head [OF inv t]])
  then have s': "s' = s\<lparr>heap := nimble_list_remove (Link t) (heap s),
      ready_bitmap := if delist (Link t) L (ReadyList ?p) = []
        then ready_bitmap s AND NOT (bit_mask ?p) else ready_bitmap s\<rparr>"
    using res remove_eq [OF p] by simp
  have "bitmap_inv b (delist (Link t) L) (ready_bitmap s')"
    unfolding s' using tasks_inv_ready_prio [OF sched_inv_tasks [OF inv], of _ t]
      remove_bitmap [OF sched_inv_shape [OF inv] sched_inv_bitmap [OF inv] p, of "Link t"]
    by force
  then show ?thesis
    using r sched_inv_shape [OF inv] tasks_inv_delist_link [OF sched_inv_tasks [OF inv], of t]
    unfolding sched_inv_def by (simp add: s' shape_delist)
qed

lemma delist_event_inv:
  assumes inv: "sched_inv b X H N L s" and t: "Link t \<in> N"
  shows "sched_inv b X H N (delist (EventLink t) L)
           (update_heap (nimble_list_remove (EventLink t)) s)"
proof -
  have "EventLink t \<in> N" using t sched_inv_shape [OF inv] by (simp add: shape_event)
  then have "repr H N (delist (EventLink t) L) (nimble_list_remove (EventLink t) (heap s))"
    by (intro repr_remove sched_inv_repr [OF inv])
  moreover have "shape H N (delist (EventLink t) L)"
    using inv by (intro shape_delist sched_inv_shape)
  moreover have "bitmap_inv b (delist (EventLink t) L) (ready_bitmap s)"
    using inv by (intro bitmap_delist_event sched_inv_shape sched_inv_bitmap)
  moreover have "tasks_inv b X H N (delist (EventLink t) L) s"
    using inv by (intro tasks_inv_delist_event sched_inv_tasks)
  ultimately show ?thesis by (simp add: sched_inv_def update_heap_def)
qed

text \<open>Unlinking \<^verbatim>\<open>tcb->link\<close> of a task that is on no ready list keeps the bitmap exact.\<close>

lemma delist_link_inv:
  assumes inv: "sched_inv b X H N L s" and t: "Link t \<in> N"
    and st: "task_state s t \<noteq> NIMBLE_TASK_READY"
  shows "sched_inv b X H N (delist (Link t) L) (update_heap (nimble_list_remove (Link t)) s)"
proof -
  have nr: "Link t \<notin> set (L (ReadyList p))" if "p < 32" for p
    using tasks_inv_ready_state [OF sched_inv_tasks [OF inv] that, of t] st by blast
  have "repr H N (delist (Link t) L) (nimble_list_remove (Link t) (heap s))"
    using t by (intro repr_remove sched_inv_repr [OF inv])
  moreover have "shape H N (delist (Link t) L)"
    using inv by (intro shape_delist sched_inv_shape)
  moreover have "bitmap_inv b (delist (Link t) L) (ready_bitmap s)"
    by (rule bitmap_cong [OF sched_inv_bitmap [OF inv]]) (simp add: nr)
  moreover have "tasks_inv b X H N (delist (Link t) L) s"
    by (rule tasks_inv_lists [OF sched_inv_tasks [OF inv]]) (use st in auto)
  ultimately show ?thesis by (simp add: sched_inv_def update_heap_def)
qed

lemma set_state_inv:
  assumes inv: "sched_inv b X H N L s" and fl: "free_node H L (Link t)"
    and fe: "free_node H L (EventLink t) \<or> st = NIMBLE_TASK_BLOCKED"
    and Y: "X - {t} \<subseteq> Y" "st = NIMBLE_TASK_READY \<or> st = NIMBLE_TASK_RUNNING \<Longrightarrow> t \<in> Y"
  shows "sched_inv b Y H N L (update_tcb t (tcb_state_update (\<lambda>_. st)) s)" (is "sched_inv _ _ _ _ _ ?s")
proof -
  have sh: "shape H N L" by (rule sched_inv_shape [OF inv])
  have nd: "Link t \<notin> set (L DelayedList)" and nr: "\<And>q. q < 32 \<Longrightarrow> Link t \<notin> set (L (ReadyList q))"
    using fl sh by (auto simp: free_node_def shape_def)
  note D = tasks_invD [OF sched_inv_tasks [OF inv]]
  have st': "task_state ?s t' = (if t' = t then st else task_state s t')"
    "task_priority ?s t' = task_priority s t'"
    "tcb_base_priority (tcbs ?s t') = tcb_base_priority (tcbs s t')"
    "nimble_current_tcb ?s = nimble_current_tcb s" for t'
    by (simp_all add: kdefs)
  have "tasks_inv b Y H N L ?s"
  proof (rule tasks_invI)
    fix t' k assume "t' \<notin> Y" "k \<in> H" "EventLink t' \<in> set (L k)"
    then show "task_state ?s t' = NIMBLE_TASK_BLOCKED"
      using D(7) [of t' k] Y fe by (auto simp: st' free_node_def)
  next
    fix t' assume "Link t' \<in> N" "t' \<notin> Y" "task_state ?s t' = NIMBLE_TASK_READY"
    then show "\<exists>p<32. Link t' \<in> set (L (ReadyList p))"
      using D(5) [of t'] Y by (auto simp: st' split: if_splits)
  next
    fix t' assume "Link t' \<in> N" "t' \<notin> Y" "task_state ?s t' = NIMBLE_TASK_RUNNING"
    then show "nimble_current_tcb ?s = Some t'"
      using D(8) [of t'] Y by (auto simp: st' split: if_splits)
  next
    fix t' p assume "p < 32" "Link t' \<in> set (L (ReadyList p))"
    then show "task_state ?s t' = NIMBLE_TASK_READY" using D(3) [of p t'] nr by (auto simp: st')
  next
    fix t' assume "Link t' \<in> set (L DelayedList)"
    then show "task_state ?s t' = NIMBLE_TASK_BLOCKED" using D(6) [of t'] nd by (auto simp: st')
  qed (use D(1,2,4,9) in \<open>auto simp: st'\<close>)
  then show ?thesis using inv by (simp add: sched_inv_def update_tcb_def)
qed

lemma enlist_delayed_inv:
  assumes inv: "sched_inv b X H N L s" and t: "Link t \<in> N" and fl: "free_node H L (Link t)"
    and st: "task_state s t = NIMBLE_TASK_BLOCKED"
  shows "sched_inv b X H N (enlist DelayedList (Link t) L)
           (update_heap (nimble_list_insert_tail DelayedList (Link t)) s)"
proof -
  have sh: "shape H N L" by (rule sched_inv_shape [OF inv])
  have "repr H N (enlist DelayedList (Link t) L) (nimble_list_insert_tail DelayedList (Link t) (heap s))"
    using t fl sh by (intro repr_insert_tail sched_inv_repr [OF inv]) (simp_all add: shape_delayed)
  moreover have "shape H N (enlist DelayedList (Link t) L)" using sh by (simp add: shape_enlist)
  moreover have "bitmap_inv b (enlist DelayedList (Link t) L) (ready_bitmap s)"
    by (rule bitmap_enlist_other [OF sched_inv_bitmap [OF inv]]) simp
  moreover have "tasks_inv b X H N (enlist DelayedList (Link t) L) s"
    by (rule tasks_inv_lists [OF sched_inv_tasks [OF inv]]) (use st in \<open>auto split: if_splits\<close>)
  ultimately show ?thesis by (simp add: sched_inv_def update_heap_def)
qed

lemma wait_insert_inv:
  assumes inv: "sched_inv b X H N L s" and k: "k \<in> H" "wait_head k" and t: "Link t \<in> N"
    and fe: "free_node H L (EventLink t)" and Lk: "L k = xs @ ys"
  shows "sched_inv b (insert t X) H N (L(k := xs @ EventLink t # ys))
           (update_heap (link_before (hd (ys @ [k])) (EventLink t)) s)" (is "sched_inv _ ?X _ _ ?L _")
proof -
  have sh: "shape H N L" by (rule sched_inv_shape [OF inv])
  have nk: "ReadyList p \<noteq> k" "DelayedList \<noteq> k" for p using k(2) by auto
  have "repr H N ?L (link_before (hd (ys @ [k])) (EventLink t) (heap s))"
    using t k fe sh Lk by (intro repr_link_before sched_inv_repr [OF inv]) (simp_all add: shape_event)
  moreover have "shape H N ?L"
    by (rule shape_change [OF sh]) (use k Lk in \<open>auto simp: fits_EventLink split: if_splits\<close>)
  moreover have "bitmap_inv b ?L (ready_bitmap s)"
    by (rule bitmap_cong [OF sched_inv_bitmap [OF inv]]) (simp add: nk)
  moreover have "tasks_inv b ?X H N ?L s"
    by (rule tasks_inv_lists [OF sched_inv_tasks [OF inv]])
      (use Lk nk in \<open>auto split: if_splits\<close>)
  ultimately show ?thesis by (simp add: sched_inv_def update_heap_def)
qed

end
