(* ===== verification/Scheduler_Correct.thy ===== *)
theory Scheduler_Correct
  imports Scheduler_Inv
begin

text \<open>
  What the composite operations of the scheduler do: blocking with and without a timeout,
  waking the first waiter of a wait list, the choice of the next task, and the tick. Each has
  a fact that it returns, a fact for the invariant with the lists afterwards, and a frame
  equation that says which fields it writes.
\<close>

section \<open>Blocking\<close>

lemma block_current_delay_returns:
  assumes "sched_inv b X H N L s" "Link t \<in> N"
  shows "\<exists>s'. nimble_scheduler_block_current_delay t w s = Some s'"
  using sched_inv_prio [OF assms] by (simp add: nimble_scheduler_block_current_delay_def remove_eq)

lemma block_current_delay_frame:
  assumes "nimble_scheduler_block_current_delay t w s = Some s'"
  shows "s' = s\<lparr>tcbs := (tcbs s)(t := (tcbs s t)\<lparr>tcb_wake_tick := w, tcb_state := NIMBLE_TASK_BLOCKED\<rparr>),
               heap := heap s', ready_bitmap := ready_bitmap s'\<rparr>"
proof -
  obtain s1 where r: "nimble_scheduler_remove t s = Some s1"
    using assms by (auto simp: nimble_scheduler_block_current_delay_def split: bind_splits)
  have "tcbs s1 = tcbs s" by (subst remove_frame [OF r]) simp
  then show ?thesis
    using assms r remove_frame [OF r]
    by (cases s1; cases s) (auto simp: nimble_scheduler_block_current_delay_def kdefs)
qed

lemma block_current_delay_inv:
  assumes inv: "sched_inv b X H N L s" and t: "Link t \<in> N" and fe: "free_node H L (EventLink t)"
    and res: "nimble_scheduler_block_current_delay t w s = Some s'"
  shows "sched_inv b (X - {t}) H N (enlist DelayedList (Link t) (delist (Link t) L)) s'"
proof -
  obtain s1 where r: "nimble_scheduler_remove t s = Some s1"
    using res by (auto simp: nimble_scheduler_block_current_delay_def split: bind_splits)
  let ?L = "delist (Link t) L"
  let ?s2 = "update_tcb t (tcb_wake_tick_update (\<lambda>_. w)) s1"
  let ?s3 = "update_tcb t (tcb_state_update (\<lambda>_. NIMBLE_TASK_BLOCKED)) ?s2"
  have s': "s' = update_heap (nimble_list_insert_tail DelayedList (Link t)) ?s3"
    using res r by (simp add: nimble_scheduler_block_current_delay_def)
  have "sched_inv b (insert t X) H N ?L ?s2" using remove_inv [OF inv t r] by simp
  then have "sched_inv b (X - {t}) H N ?L ?s3"
    by (rule set_state_inv) (use fe in \<open>auto simp: free_node_delist free_node_delist_other\<close>)
  moreover have "task_state ?s3 t = NIMBLE_TASK_BLOCKED" by (simp add: kdefs)
  ultimately show ?thesis
    unfolding s' using t by (intro enlist_delayed_inv) (auto simp: free_node_delist)
qed

definition block_lists :: "tcb_ptr \<Rightarrow> nimble_tick_t \<Rightarrow> (node \<Rightarrow> node list) \<Rightarrow> node \<Rightarrow> node list" where
  "block_lists t timeout L =
     (if timeout = NIMBLE_WAIT_FOREVER then delist (Link t) L
      else enlist DelayedList (Link t) (delist (Link t) L))"

lemma prepare_block_returns:
  assumes "sched_inv b X H N L s" "Link t \<in> N"
  shows "\<exists>s'. nimble_scheduler_prepare_block t w s = Some s'"
  using sched_inv_prio [OF assms] by (simp add: nimble_scheduler_prepare_block_def remove_eq Let_def)

lemma prepare_block_frame:
  assumes "nimble_scheduler_prepare_block t w s = Some s'"
  shows "s' = s\<lparr>tcbs := (tcbs s)(t := (tcbs s t)\<lparr>tcb_state := NIMBLE_TASK_BLOCKED,
                 tcb_wake_tick := if w = NIMBLE_WAIT_FOREVER then tcb_wake_tick (tcbs s t)
                                  else g_tick_count s + w\<rparr>),
               heap := heap s', ready_bitmap := ready_bitmap s'\<rparr>"
proof -
  obtain s1 where r: "nimble_scheduler_remove t s = Some s1"
    using assms by (auto simp: nimble_scheduler_prepare_block_def split: bind_splits)
  have "tcbs s1 = tcbs s" "g_tick_count s1 = g_tick_count s"
    by (subst remove_frame [OF r], simp)+
  then show ?thesis
    using assms r remove_frame [OF r]
    by (cases s1; cases s)
      (auto simp: nimble_scheduler_prepare_block_def nimble_scheduler_get_tick_count_def
        update_tcb_def update_heap_def Let_def split: if_splits)
qed

lemma prepare_block_inv:
  assumes inv: "sched_inv b X H N L s" and t: "Link t \<in> N"
    and res: "nimble_scheduler_prepare_block t w s = Some s'"
  shows "sched_inv b (X - {t}) H N (block_lists t w L) s'"
proof -
  obtain s1 where r: "nimble_scheduler_remove t s = Some s1"
    using res by (auto simp: nimble_scheduler_prepare_block_def split: bind_splits)
  let ?L = "delist (Link t) L"
  let ?s2 = "update_tcb t (tcb_state_update (\<lambda>_. NIMBLE_TASK_BLOCKED)) s1"
  let ?s3 = "update_tcb t (tcb_wake_tick_update (\<lambda>_. nimble_scheduler_get_tick_count ?s2 + w)) ?s2"
  have i2: "sched_inv b (X - {t}) H N ?L ?s2"
    by (rule set_state_inv [OF remove_inv [OF inv t r]]) (auto simp: free_node_delist)
  show ?thesis
  proof (cases "w = NIMBLE_WAIT_FOREVER")
    case True
    then have "s' = ?s2" using res r by (simp add: nimble_scheduler_prepare_block_def)
    with i2 True show ?thesis by (simp add: block_lists_def)
  next
    case False
    then have s': "s' = update_heap (nimble_list_insert_tail DelayedList (Link t)) ?s3"
      using res r by (simp add: nimble_scheduler_prepare_block_def Let_def)
    have "sched_inv b (X - {t}) H N ?L ?s3" using i2 by simp
    moreover have "task_state ?s3 t = NIMBLE_TASK_BLOCKED" by (simp add: kdefs)
    ultimately show ?thesis
      unfolding s' block_lists_def using t False
      by (auto intro: enlist_delayed_inv simp: free_node_delist)
  qed
qed

section \<open>Waking\<close>

definition wake_lists :: "nat \<Rightarrow> tcb_ptr \<Rightarrow> (node \<Rightarrow> node list) \<Rightarrow> node \<Rightarrow> node list" where
  "wake_lists p t L = enlist (ReadyList p) (Link t) (delist (EventLink t) (delist (Link t) L))"

lemma delist_commute: "delist m (delist n L) = delist n (delist m L)"
  by (simp add: delist_def removeAll_filter_not_eq filter_filter conj_commute)

lemma wake_waiter_empty:
  "repr H N L (heap s) \<Longrightarrow> k \<in> H \<Longrightarrow> L k = [] \<Longrightarrow> nimble_scheduler_wake_waiter k s = Some (None, s)"
  by (simp add: nimble_scheduler_wake_waiter_def repr_is_empty)

lemma wake_waiter_inv:
  assumes inv: "sched_inv b X H N L s" and k: "k \<in> H" and Lk: "L k = EventLink t # ws"
    and X: "t \<notin> X"
  shows "\<exists>s'. nimble_scheduler_wake_waiter k s = Some (Some t, s') \<and>
     sched_inv b X H N (wake_lists (unat (task_priority s t)) t L) s' \<and>
     s' = s\<lparr>tcbs := (tcbs s)(t := (tcbs s t)\<lparr>tcb_last_wait_result := NIMBLE_OK,
                                            tcb_state := NIMBLE_TASK_READY\<rparr>),
            heap := heap s', ready_bitmap := ready_bitmap s'\<rparr>"
proof -
  have r: "repr H N L (heap s)" and sh: "shape H N L"
    using inv by (auto intro: sched_inv_repr sched_inv_shape)
  have "EventLink t \<in> N" using repr_member [OF r k] Lk by simp
  then have t: "Link t \<in> N" using sh by (simp add: shape_event)
  have st: "task_state s t = NIMBLE_TASK_BLOCKED"
    using tasks_inv_event [OF sched_inv_tasks [OF inv] X k] Lk by simp
  let ?s1 = "update_heap (nimble_list_remove (EventLink t)) s"
  let ?s2 = "update_heap (nimble_list_remove (Link t)) ?s1"
  let ?s3 = "update_tcb t (tcb_last_wait_result_update (\<lambda>_. NIMBLE_OK)) ?s2"
  let ?L = "delist (Link t) (delist (EventLink t) L)"
  have i1: "sched_inv b X H N (delist (EventLink t) L) ?s1" by (rule delist_event_inv [OF inv t])
  have "sched_inv b X H N ?L ?s2"
    by (rule delist_link_inv [OF i1 t]) (simp add: update_heap_def st)
  then have i3: "sched_inv b X H N ?L ?s3" by simp
  have p: "task_priority ?s3 t = task_priority s t" by (simp add: kdefs)
  obtain s' where a: "nimble_scheduler_add_ready t ?s3 = Some s'"
    using sched_inv_prio [OF i3 t] by (simp add: add_ready_eq)
  have "\<not> nimble_list_is_empty k (heap s)" "node_next (heap s) k = EventLink t"
    using repr_is_empty [OF r k] repr_next_head [OF r k] Lk by simp_all
  then have w: "nimble_scheduler_wake_waiter k s = Some (Some t, s')"
    using a by (simp add: nimble_scheduler_wake_waiter_def)
  have "sched_inv b (X - {t}) H N (enlist (ReadyList (unat (task_priority s t))) (Link t) ?L) s'"
    using add_ready_inv [OF i3 t _ _ a] p by (simp add: free_node_delist free_node_delist_other)
  then have "sched_inv b X H N (wake_lists (unat (task_priority s t)) t L) s'"
    using X by (simp add: wake_lists_def delist_commute)
  moreover have "s' = s\<lparr>tcbs := (tcbs s)(t := (tcbs s t)\<lparr>tcb_last_wait_result := NIMBLE_OK,
      tcb_state := NIMBLE_TASK_READY\<rparr>), heap := heap s', ready_bitmap := ready_bitmap s'\<rparr>"
    using add_ready_frame [OF a] by (simp add: update_tcb_def update_heap_def)
  ultimately show ?thesis using w by blast
qed

section \<open>The next task\<close>

definition requeue_lists :: "kernel \<Rightarrow> (node \<Rightarrow> node list) \<Rightarrow> node \<Rightarrow> node list" where
  "requeue_lists s L =
     (case nimble_current_tcb s of
        None \<Rightarrow> L
      | Some c \<Rightarrow> if task_state s c = NIMBLE_TASK_RUNNING
                  then enlist (ReadyList (unat (task_priority s c))) (Link c) L else L)"

definition top_ready :: "(node \<Rightarrow> node list) \<Rightarrow> nat \<Rightarrow> bool" where
  "top_ready L p \<longleftrightarrow> p < 32 \<and> L (ReadyList p) \<noteq> [] \<and> (\<forall>q. p < q \<longrightarrow> q < 32 \<longrightarrow> L (ReadyList q) = [])"

lemma requeue_current_inv:
  assumes inv: "sched_inv b {} H N L s"
  shows "\<exists>s1. requeue_current s = Some s1 \<and> sched_inv b {} H N (requeue_lists s L) s1 \<and>
     (\<forall>t. Link t \<in> N \<longrightarrow> task_state s1 t \<noteq> NIMBLE_TASK_RUNNING) \<and>
     s1 = s\<lparr>tcbs := \<lambda>t. if nimble_current_tcb s = Some t \<and> task_state s t = NIMBLE_TASK_RUNNING
                       then (tcbs s t)\<lparr>tcb_state := NIMBLE_TASK_READY\<rparr> else tcbs s t,
            heap := heap s1, ready_bitmap := ready_bitmap s1\<rparr>"
proof (cases "\<exists>c. nimble_current_tcb s = Some c \<and> task_state s c = NIMBLE_TASK_RUNNING")
  case True
  then obtain c where c: "nimble_current_tcb s = Some c" "task_state s c = NIMBLE_TASK_RUNNING"
    by blast
  have cN: "Link c \<in> N" using tasks_inv_current [OF sched_inv_tasks [OF inv] c(1)] .
  obtain s1 where a: "nimble_scheduler_add_ready c s = Some s1"
    using sched_inv_prio [OF inv cN] by (simp add: add_ready_eq)
  have "free_node H L (Link c)" "free_node H L (EventLink c)"
    using link_free [OF inv, of c] event_free [OF inv, of c] c(2) by simp_all
  then have i1: "sched_inv b {} H N (requeue_lists s L) s1"
    using add_ready_inv [OF inv cN _ _ a] c by (simp add: requeue_lists_def)
  have f: "s1 = s\<lparr>tcbs := (tcbs s)(c := (tcbs s c)\<lparr>tcb_state := NIMBLE_TASK_READY\<rparr>),
      heap := heap s1, ready_bitmap := ready_bitmap s1\<rparr>"
    by (rule add_ready_frame [OF a])
  have tc: "tcbs s1 = (tcbs s)(c := (tcbs s c)\<lparr>tcb_state := NIMBLE_TASK_READY\<rparr>)"
    "nimble_current_tcb s1 = Some c"
    using c(1) by (subst f; simp)+
  have "task_state s1 t \<noteq> NIMBLE_TASK_RUNNING" if "Link t \<in> N" for t
  proof
    assume run: "task_state s1 t = NIMBLE_TASK_RUNNING"
    then have "nimble_current_tcb s1 = Some t"
      using tasks_inv_running [OF sched_inv_tasks [OF i1] that] by blast
    then have "t = c" using tc(2) by simp
    then show False using run tc(1) by simp
  qed
  moreover have "requeue_current s = Some s1" using a c by (simp add: requeue_current_def)
  moreover have eq: "(\<lambda>t. if nimble_current_tcb s = Some t \<and> task_state s t = NIMBLE_TASK_RUNNING
      then (tcbs s t)\<lparr>tcb_state := NIMBLE_TASK_READY\<rparr> else tcbs s t) =
      (tcbs s)(c := (tcbs s c)\<lparr>tcb_state := NIMBLE_TASK_READY\<rparr>)"
    using c by (auto simp: fun_eq_iff)
  ultimately show ?thesis using i1 f unfolding eq by blast
next
  case False
  then have "requeue_current s = Some s" "requeue_lists s L = L"
    by (auto simp: requeue_current_def requeue_lists_def split: option.splits)
  moreover have "task_state s t \<noteq> NIMBLE_TASK_RUNNING" if "Link t \<in> N" for t
    using tasks_inv_running [OF sched_inv_tasks [OF inv] that] False by auto
  moreover have "(\<lambda>t. if nimble_current_tcb s = Some t \<and> task_state s t = NIMBLE_TASK_RUNNING
      then (tcbs s t)\<lparr>tcb_state := NIMBLE_TASK_READY\<rparr> else tcbs s t) = tcbs s"
    using False by (auto simp: fun_eq_iff)
  ultimately show ?thesis using inv by simp
qed

lemma bitmap_nonzero:
  assumes "bitmap_inv b L w" "p < 32" "L (ReadyList p) \<noteq> []"
  shows "w \<noteq> 0"
  using bitmap_inv_set [OF assms] by auto

lemma ready_head_link:
  assumes "shape H N L" "p < 32" "L (ReadyList p) \<noteq> []"
  obtains t ts where "L (ReadyList p) = Link t # ts"
proof -
  obtain n ns where n: "L (ReadyList p) = n # ns" using assms(3) by (cases "L (ReadyList p)") auto
  moreover have "fits (ReadyList p) n"
    using shape_fits [OF assms(1), of "ReadyList p" n] assms(1,2) n by (simp add: shape_ready)
  then obtain t where "n = Link t" by (cases n) auto
  ultimately show thesis using that by blast
qed

lemma select_next_inv:
  assumes inv: "sched_inv b {} H N L s" and ok: "b \<or> nimble_scheduler_select_next s \<noteq> None"
    and run: "\<exists>p<32. requeue_lists s L (ReadyList p) \<noteq> []"
  shows "\<exists>n p ns s'. nimble_scheduler_select_next s = Some (n, s') \<and>
     top_ready (requeue_lists s L) p \<and> requeue_lists s L (ReadyList p) = Link n # ns \<and>
     Link n \<in> N \<and> free_node H (requeue_lists s L) (EventLink n) \<and>
     sched_inv b {n} H N (delist (Link n) (requeue_lists s L)) s' \<and>
     (\<forall>t. Link t \<in> N \<longrightarrow> task_state s' t = NIMBLE_TASK_RUNNING \<longleftrightarrow> t = n) \<and>
     s' = s\<lparr>tcbs := \<lambda>t. if t = n then (tcbs s t)\<lparr>tcb_state := NIMBLE_TASK_RUNNING\<rparr>
                       else if nimble_current_tcb s = Some t \<and> task_state s t = NIMBLE_TASK_RUNNING
                       then (tcbs s t)\<lparr>tcb_state := NIMBLE_TASK_READY\<rparr> else tcbs s t,
            nimble_next_tcb := Some n, heap := heap s', ready_bitmap := ready_bitmap s'\<rparr>"
proof -
  let ?L = "requeue_lists s L"
  obtain s1 where s1: "requeue_current s = Some s1" and i1: "sched_inv b {} H N ?L s1"
    and nr: "\<And>t. Link t \<in> N \<Longrightarrow> task_state s1 t \<noteq> NIMBLE_TASK_RUNNING"
    and f1: "s1 = s\<lparr>tcbs := \<lambda>t. if nimble_current_tcb s = Some t \<and> task_state s t = NIMBLE_TASK_RUNNING
                       then (tcbs s t)\<lparr>tcb_state := NIMBLE_TASK_READY\<rparr> else tcbs s t,
            heap := heap s1, ready_bitmap := ready_bitmap s1\<rparr>"
    using requeue_current_inv [OF inv] by blast
  note bm = sched_inv_bitmap [OF i1] and sh = sched_inv_shape [OF i1]
  have "ready_bitmap s1 \<noteq> 0" using run bitmap_nonzero [OF bm] by blast
  then obtain w where w: "highest_set_bit (ready_bitmap s1) = Some w" "unat w < 32"
      "bit (ready_bitmap s1) (unat w)" and max: "\<And>i. bit (ready_bitmap s1) i \<Longrightarrow> i \<le> unat w"
    by (rule highest_set_bit_max) blast
  have h: "ReadyList (unat w) \<in> H" using sh w(2) by (simp add: shape_ready)
  have ne: "?L (ReadyList (unat w)) \<noteq> []"
  proof
    assume e: "?L (ReadyList (unat w)) = []"
    then have "node_next (heap s1) (ReadyList (unat w)) = ReadyList (unat w)"
      using repr_next_head [OF sched_inv_repr [OF i1] h] by simp
    then have "nimble_scheduler_select_next s = None"
      using s1 w(1) by (simp add: nimble_scheduler_select_next_def)
    then show False using ok e bitmap_inv_exact [OF bm _ w(2,3)] by blast
  qed
  have top: "top_ready ?L (unat w)"
    unfolding top_ready_def using w(2) ne bitmap_inv_set [OF bm] max by (meson leD)
  obtain n ns where n: "?L (ReadyList (unat w)) = Link n # ns"
    using ready_head_link [OF sh w(2) ne] by blast
  have nN: "Link n \<in> N" using repr_member [OF sched_inv_repr [OF i1] h] n by simp
  have next_n: "node_next (heap s1) (ReadyList (unat w)) = Link n"
    using repr_next_head [OF sched_inv_repr [OF i1] h] n by simp
  obtain s2 where s2: "nimble_scheduler_remove n s1 = Some s2"
    using sched_inv_prio [OF i1 nN] by (simp add: remove_eq)
  let ?s3 = "update_tcb n (tcb_state_update (\<lambda>_. NIMBLE_TASK_RUNNING)) s2"
  let ?s4 = "?s3\<lparr>nimble_next_tcb := Some n\<rparr>"
  have res: "nimble_scheduler_select_next s = Some (n, ?s4)"
    using s1 w(1) next_n s2 by (simp add: nimble_scheduler_select_next_def)
  have tc: "tcbs s2 = tcbs s1" by (subst remove_frame [OF s2]) simp
  have st1: "task_state s1 n = NIMBLE_TASK_READY"
    using tasks_inv_ready_state [OF sched_inv_tasks [OF i1] w(2)] n by simp
  have fe: "free_node H ?L (EventLink n)" using event_free [OF i1, of n] st1 by simp
  then have "sched_inv b {n} H N (delist (Link n) ?L) ?s3"
    by (intro set_state_inv [OF remove_inv [OF i1 nN s2]])
      (auto simp: free_node_delist free_node_delist_other)
  then have i4: "sched_inv b {n} H N (delist (Link n) ?L) ?s4" by simp
  have one: "task_state ?s4 t = NIMBLE_TASK_RUNNING \<longleftrightarrow> t = n" if "Link t \<in> N" for t
    using nr [OF that] tc by (simp add: kdefs)
  have fr: "?s4 = s\<lparr>tcbs := \<lambda>t. if t = n then (tcbs s t)\<lparr>tcb_state := NIMBLE_TASK_RUNNING\<rparr>
                       else if nimble_current_tcb s = Some t \<and> task_state s t = NIMBLE_TASK_RUNNING
                       then (tcbs s t)\<lparr>tcb_state := NIMBLE_TASK_READY\<rparr> else tcbs s t,
            nimble_next_tcb := Some n, heap := heap ?s4, ready_bitmap := ready_bitmap ?s4\<rparr>"
    using remove_frame [OF s2] f1
    by (cases s2; cases s1; cases s) (auto simp: update_tcb_def fun_eq_iff)
  show ?thesis using res top n nN fe i4 one fr by blast
qed

section \<open>The tick\<close>

lemma tick_wake_inv:
  assumes inv: "sched_inv b X H N L s" and t: "Link t \<in> set (L DelayedList)" and X: "t \<notin> X"
  shows "\<exists>s'. tick_wake t s = Some s' \<and>
     sched_inv b X H N (wake_lists (unat (task_priority s t)) t L) s' \<and>
     s' = s\<lparr>tcbs := (tcbs s)(t := (tcbs s t)\<lparr>tcb_last_wait_result := NIMBLE_ERR_TIMEOUT,
                                            tcb_state := NIMBLE_TASK_READY\<rparr>),
            heap := heap s', ready_bitmap := ready_bitmap s'\<rparr>"
proof -
  have tN: "Link t \<in> N"
    using repr_member [OF sched_inv_repr [OF inv] shape_delayed [OF sched_inv_shape [OF inv]] t] .
  have st: "task_state s t \<noteq> NIMBLE_TASK_READY"
    using tasks_inv_delayed [OF sched_inv_tasks [OF inv] t] by simp
  let ?s1 = "update_heap (nimble_list_remove (Link t)) s"
  let ?s2 = "update_heap (nimble_list_remove (EventLink t)) ?s1"
  let ?s3 = "update_tcb t (tcb_last_wait_result_update (\<lambda>_. NIMBLE_ERR_TIMEOUT)) ?s2"
  let ?L = "delist (EventLink t) (delist (Link t) L)"
  have "sched_inv b X H N ?L ?s2"
    by (rule delist_event_inv [OF delist_link_inv [OF inv tN st] tN])
  then have i3: "sched_inv b X H N ?L ?s3" by simp
  have p: "task_priority ?s3 t = task_priority s t" by (simp add: kdefs)
  obtain s' where a: "nimble_scheduler_add_ready t ?s3 = Some s'"
    using sched_inv_prio [OF i3 tN] by (simp add: add_ready_eq)
  then have "tick_wake t s = Some s'" by (simp add: tick_wake_def Let_def)
  moreover have "sched_inv b X H N (wake_lists (unat (task_priority s t)) t L) s'"
    using add_ready_inv [OF i3 tN _ _ a] p X
    by (simp add: free_node_delist free_node_delist_other wake_lists_def)
  moreover have "s' = s\<lparr>tcbs := (tcbs s)(t := (tcbs s t)\<lparr>tcb_last_wait_result := NIMBLE_ERR_TIMEOUT,
      tcb_state := NIMBLE_TASK_READY\<rparr>), heap := heap s', ready_bitmap := ready_bitmap s'\<rparr>"
    using add_ready_frame [OF a] by (simp add: update_tcb_def update_heap_def)
  ultimately show ?thesis by blast
qed

definition wake_all :: "kernel \<Rightarrow> tcb_ptr list \<Rightarrow> (node \<Rightarrow> node list) \<Rightarrow> node \<Rightarrow> node list" where
  "wake_all s ts L = fold (\<lambda>t. wake_lists (unat (task_priority s t)) t) ts L"

definition timed_out :: "nimble_tcb \<Rightarrow> nimble_tcb" where
  "timed_out c = c\<lparr>tcb_last_wait_result := NIMBLE_ERR_TIMEOUT, tcb_state := NIMBLE_TASK_READY\<rparr>"

lemma timed_out_fields [simp]:
  "tcb_wake_tick (timed_out c) = tcb_wake_tick c" "tcb_priority (timed_out c) = tcb_priority c"
  "tcb_base_priority (timed_out c) = tcb_base_priority c"
  "tcb_state (timed_out c) = NIMBLE_TASK_READY"
  "tcb_last_wait_result (timed_out c) = NIMBLE_ERR_TIMEOUT"
  by (simp_all add: timed_out_def)

lemma wake_lists_delayed:
  "wake_lists p t L DelayedList = removeAll (EventLink t) (removeAll (Link t) (L DelayedList))"
  by (simp add: wake_lists_def)

lemma removeAll_EventLink_links [simp]: "removeAll (EventLink t) (map Link ts) = map Link ts"
  by (induction ts) auto

lemma removeAll_Link_links [simp]: "removeAll (Link t) (map Link ts) = map Link (removeAll t ts)"
  by (induction ts) auto

lemma tick_scan_inv:
  assumes "sched_inv b {} H N L s" and "L DelayedList = map Link (done @ todo)"
  shows "\<exists>s'. tick_scan (hd (map Link todo @ [DelayedList])) s = Some s' \<and>
     sched_inv b {} H N (wake_all s (filter (tick_due s) todo) L) s' \<and>
     s' = s\<lparr>tcbs := \<lambda>t. if t \<in> set todo \<and> tick_due s t then timed_out (tcbs s t) else tcbs s t,
            heap := heap s', ready_bitmap := ready_bitmap s'\<rparr>"
  using assms
proof (induction todo arbitrary: "done" L s)
  case Nil
  then show ?case by (subst tick_scan.simps) (simp add: wake_all_def)
next
  case (Cons t todo)
  note inv = Cons.prems(1)
  have r: "repr H N L (heap s)" and dl: "DelayedList \<in> H"
    using inv by (auto intro: sched_inv_repr shape_delayed sched_inv_shape)
  have dist: "distinct (done @ t # todo)"
    using repr_distinct [OF r dl] Cons.prems(2) by (auto simp: distinct_map)
  have nx: "node_next (heap s) (Link t) = hd (map Link todo @ [DelayedList])"
    using repr_next_member [OF r dl, of "map Link done" "Link t" "map Link todo"] Cons.prems(2)
    by simp
  show ?case
  proof (cases "tick_due s t")
    case True
    have "Link t \<in> set (L DelayedList)" using Cons.prems(2) by simp
    then obtain s1 where s1: "tick_wake t s = Some s1"
      and i1: "sched_inv b {} H N (wake_lists (unat (task_priority s t)) t L) s1"
      and f1: "s1 = s\<lparr>tcbs := (tcbs s)(t := timed_out (tcbs s t)),
            heap := heap s1, ready_bitmap := ready_bitmap s1\<rparr>"
      using tick_wake_inv [OF inv, of t] unfolding timed_out_def by auto
    have tc: "tcbs s1 = (tcbs s)(t := timed_out (tcbs s t))" "g_tick_count s1 = g_tick_count s"
      by (subst f1; simp)+
    have due: "tick_due s1 = tick_due s" by (auto simp: fun_eq_iff tick_due_def tc)
    have pr: "task_priority s1 t' = task_priority s t'" for t' by (simp add: tc)
    have "wake_lists (unat (task_priority s t)) t L DelayedList = map Link (done @ todo)"
      using dist Cons.prems(2) by (simp add: wake_lists_delayed flip: map_append)
    from Cons.IH [OF i1 this] obtain s' where
      s': "tick_scan (hd (map Link todo @ [DelayedList])) s1 = Some s'"
      and i': "sched_inv b {} H N (wake_all s1 (filter (tick_due s1) todo)
                 (wake_lists (unat (task_priority s t)) t L)) s'"
      and f': "s' = s1\<lparr>tcbs := \<lambda>t. if t \<in> set todo \<and> tick_due s1 t then timed_out (tcbs s1 t) else tcbs s1 t,
            heap := heap s', ready_bitmap := ready_bitmap s'\<rparr>"
      by blast
    have "tick_scan (hd (map Link (t # todo) @ [DelayedList])) s = Some s'"
      using nx s1 s' True by (subst tick_scan.simps) simp
    moreover have wa: "wake_all s (filter (tick_due s) (t # todo)) L =
        wake_all s1 (filter (tick_due s1) todo) (wake_lists (unat (task_priority s t)) t L)"
      using True by (simp add: wake_all_def due pr)
    moreover have "s' = s\<lparr>tcbs := \<lambda>x. if x \<in> set (t # todo) \<and> tick_due s x then timed_out (tcbs s x) else tcbs s x,
            heap := heap s', ready_bitmap := ready_bitmap s'\<rparr>"
    proof -
      have "(\<lambda>x. if x \<in> set todo \<and> tick_due s1 x then timed_out (tcbs s1 x) else tcbs s1 x) =
          (\<lambda>x. if x \<in> set (t # todo) \<and> tick_due s x then timed_out (tcbs s x) else tcbs s x)"
        using dist True by (auto simp: fun_eq_iff tc due)
      then show ?thesis using f' f1 by (cases s1; cases s; cases s') simp
    qed
    ultimately show ?thesis using i' unfolding wa by blast
  next
    case False
    have "L DelayedList = map Link ((done @ [t]) @ todo)" using Cons.prems(2) by simp
    from Cons.IH [OF inv this] obtain s' where
      s': "tick_scan (hd (map Link todo @ [DelayedList])) s = Some s'"
      and i': "sched_inv b {} H N (wake_all s (filter (tick_due s) todo) L) s'"
      and f': "s' = s\<lparr>tcbs := \<lambda>t. if t \<in> set todo \<and> tick_due s t then timed_out (tcbs s t) else tcbs s t,
            heap := heap s', ready_bitmap := ready_bitmap s'\<rparr>"
      by blast
    have "tick_scan (hd (map Link (t # todo) @ [DelayedList])) s = Some s'"
      using nx s' False by (subst tick_scan.simps) simp
    moreover have eq: "(\<lambda>x. if x \<in> set (t # todo) \<and> tick_due s x then timed_out (tcbs s x) else tcbs s x) =
        (\<lambda>x. if x \<in> set todo \<and> tick_due s x then timed_out (tcbs s x) else tcbs s x)"
      using False by auto
    moreover have wa: "filter (tick_due s) (t # todo) = filter (tick_due s) todo" using False by simp
    ultimately show ?thesis using i' f' unfolding eq wa by blast
  qed
qed

lemma fits_DelayedList: "fits DelayedList n \<longleftrightarrow> (\<exists>t. n = Link t)"
  by (cases n) auto

lemma delayed_links: "shape H N L \<Longrightarrow> \<exists>ts. L DelayedList = map Link ts"
  using shape_fits [of H N L DelayedList] shape_delayed [of H N L]
  by (simp add: ex_map_conv fits_DelayedList)

definition tick_lists :: "kernel \<Rightarrow> tcb_ptr list \<Rightarrow> (node \<Rightarrow> node list) \<Rightarrow> node \<Rightarrow> node list" where
  "tick_lists s ts L =
     wake_all s (filter (tick_due (s\<lparr>g_tick_count := g_tick_count s + 1\<rparr>)) ts) L"

lemma tick_inv:
  assumes inv: "sched_inv b {} H N L s" and ts: "L DelayedList = map Link ts"
  shows "\<exists>s'. nimble_scheduler_tick s = Some s' \<and>
     sched_inv b {} H N (tick_lists s ts L) s' \<and>
     s' = s\<lparr>g_tick_count := g_tick_count s + 1, pendsv := True,
            tcbs := \<lambda>t. if t \<in> set ts \<and> tick_due (s\<lparr>g_tick_count := g_tick_count s + 1\<rparr>) t
                       then timed_out (tcbs s t) else tcbs s t,
            heap := heap s', ready_bitmap := ready_bitmap s'\<rparr>"
proof -
  let ?s = "s\<lparr>g_tick_count := g_tick_count s + 1\<rparr>"
  have inv1: "sched_inv b {} H N L ?s" using inv by simp
  have hd: "node_next (heap ?s) DelayedList = hd (map Link ts @ [DelayedList])"
    using repr_next_head [OF sched_inv_repr [OF inv1] shape_delayed [OF sched_inv_shape [OF inv1]]] ts
    by simp
  obtain s1 where s1: "tick_scan (hd (map Link ts @ [DelayedList])) ?s = Some s1"
    and i1: "sched_inv b {} H N (wake_all ?s (filter (tick_due ?s) ts) L) s1"
    and f1: "s1 = ?s\<lparr>tcbs := \<lambda>t. if t \<in> set ts \<and> tick_due ?s t then timed_out (tcbs s t) else tcbs s t,
            heap := heap s1, ready_bitmap := ready_bitmap s1\<rparr>"
    using tick_scan_inv [OF inv1, of "[]" ts] ts by (auto cong: if_cong)
  let ?s' = "nimble_port_request_context_switch s1"
  have "nimble_scheduler_tick s = Some ?s'"
    using s1 hd by (simp add: nimble_scheduler_tick_def)
  moreover have "sched_inv b {} H N (tick_lists s ts L) ?s'"
    using i1 by (simp add: nimble_port_request_context_switch_def tick_lists_def wake_all_def)
  moreover have "?s' = s\<lparr>g_tick_count := g_tick_count s + 1, pendsv := True,
            tcbs := \<lambda>t. if t \<in> set ts \<and> tick_due ?s t then timed_out (tcbs s t) else tcbs s t,
            heap := heap ?s', ready_bitmap := ready_bitmap ?s'\<rparr>"
    using f1 by (cases s1; cases s) (simp add: nimble_port_request_context_switch_def)
  ultimately show ?thesis by blast
qed

lemma wake_all_ready:
  assumes "distinct ts" "\<And>t. t \<in> set ts \<Longrightarrow> Link t \<notin> set (L (ReadyList p))"
    "\<And>t. EventLink t \<notin> set (L (ReadyList p))"
  shows "wake_all s ts L (ReadyList p) =
           L (ReadyList p) @ map Link (filter (\<lambda>t. unat (task_priority s t) = p) ts)"
  using assms
proof (induction ts arbitrary: L)
  case (Cons t ts)
  let ?L = "wake_lists (unat (task_priority s t)) t L"
  have L: "?L (ReadyList p) = L (ReadyList p) @ (if unat (task_priority s t) = p then [Link t] else [])"
    using Cons.prems(2) [of t] Cons.prems(3) [of t] by (auto simp: wake_lists_def)
  have "wake_all s ts ?L (ReadyList p) =
      ?L (ReadyList p) @ map Link (filter (\<lambda>t. unat (task_priority s t) = p) ts)"
    using Cons.prems by (intro Cons.IH) (auto simp: L)
  then show ?case by (simp add: wake_all_def L)
qed (simp add: wake_all_def)

lemma wake_all_other:
  assumes "\<And>p. k \<noteq> ReadyList p"
  shows "wake_all s ts L k = filter (\<lambda>n. n \<notin> Link ` set ts \<and> n \<notin> EventLink ` set ts) (L k)"
proof (induction ts arbitrary: L)
  case (Cons t ts)
  have "wake_lists (unat (task_priority s t)) t L k = filter (\<lambda>n. n \<noteq> Link t \<and> n \<noteq> EventLink t) (L k)"
    using assms by (auto simp: wake_lists_def removeAll_filter_not_eq intro: filter_cong)
  then show ?case
    using Cons.IH [of "wake_lists (unat (task_priority s t)) t L"]
    by (auto simp: wake_all_def intro: filter_cong)
qed (simp add: wake_all_def)

end
