(* ===== verification/Port.thy ===== *)
theory Port
  imports Scheduler_Correct
begin

text \<open>
  The Cortex-M4 port: the fabricated first stack frame (\<^verbatim>\<open>task_stack_init.c\<close>) and the
  context switch (\<^verbatim>\<open>context_switch.S\<close>). Memory is word-addressed at byte addresses,
  \<open>reg i\<close> is register \<^verbatim>\<open>r\<close>\<open>i\<close>, \<open>psp\<close> the process stack pointer. What the
  processor itself stacks on exception entry is the eight words at \<open>psp\<close>, which the
  handlers only move over; \<open>hw_frame\<close> reads them.
\<close>

section \<open>The initial stack frame\<close>

definition push_word :: "u32 \<Rightarrow> addr \<times> (addr \<Rightarrow> u32) \<Rightarrow> addr \<times> (addr \<Rightarrow> u32)" where
  "push_word v = (\<lambda>(sp, m). (sp - 4, m(sp - 4 := v)))"

definition nimble_port_init_task_stack ::
  "addr \<Rightarrow> addr \<Rightarrow> addr \<Rightarrow> kernel \<Rightarrow> addr \<times> kernel" where
  "nimble_port_init_task_stack stack_top fn arg s =
     (let st = (stack_top, mem s);
          st = push_word 0x01000000 st;
          st = push_word fn st;
          st = push_word (sym_task_exit_trap (syms s)) st;
          st = push_word 0x12121212 st;
          st = push_word 0x03030303 st;
          st = push_word 0x02020202 st;
          st = push_word 0x01010101 st;
          st = push_word arg st;
          st = push_word 0x11111111 st;
          st = push_word 0x10101010 st;
          st = push_word 0x09090909 st;
          st = push_word 0x08080808 st;
          st = push_word 0x07070707 st;
          st = push_word 0x06060606 st;
          st = push_word 0x05050505 st;
          st = push_word 0x04040404 st
      in (fst st, s\<lparr>mem := snd st\<rparr>))"

section \<open>Context switch\<close>

text \<open>\<^verbatim>\<open>stmdb a!, {r4-r11}\<close> (at the decremented address) and \<^verbatim>\<open>ldmia a!, {r4-r11}\<close>.\<close>

definition store_r4_r11 :: "addr \<Rightarrow> kernel \<Rightarrow> kernel" where
  "store_r4_r11 a s = s\<lparr>mem := fold (\<lambda>i m. m(a + 4 * word_of_nat i := reg s (4 + i))) [0..<8] (mem s)\<rparr>"

definition load_r4_r11 :: "addr \<Rightarrow> kernel \<Rightarrow> kernel" where
  "load_r4_r11 a s =
     s\<lparr>reg := \<lambda>r. if 4 \<le> r \<and> r < 12 then mem s (a + 4 * word_of_nat (r - 4)) else reg s r\<rparr>"

definition PendSV_Handler :: "kernel \<Rightarrow> kernel option" where
  "PendSV_Handler s =
     (let s = s\<lparr>pendsv := False\<rparr>;
          r0 = psp s;
          s = (case nimble_current_tcb s of
                 None \<Rightarrow> s
               | Some cur \<Rightarrow>
                   let r0 = r0 - 32;
                       s = store_r4_r11 r0 s
                   in update_tcb cur (tcb_sp_update (\<lambda>_. r0)) s)
      in do { (_, s) \<leftarrow> nimble_scheduler_select_next s;
              next \<leftarrow> nimble_next_tcb s;
              let s = s\<lparr>nimble_current_tcb := Some next\<rparr>;
              let r0 = tcb_sp (tcbs s next);
              let s = load_r4_r11 r0 s;
              Some (s\<lparr>psp := r0 + 32\<rparr>) })"

definition SVC_Handler :: "kernel \<Rightarrow> kernel option" where
  "SVC_Handler s =
     do { cur \<leftarrow> nimble_current_tcb s;
          let r1 = tcb_sp (tcbs s cur);
          let s = load_r4_r11 r1 s;
          let s = s\<lparr>psp := r1 + 32\<rparr>;
          Some (s\<lparr>basepri := 0\<rparr>) }"

definition nimble_port_start_first_task :: "kernel \<Rightarrow> kernel option" where
  "nimble_port_start_first_task s = SVC_Handler s"

definition SysTick_Handler :: "kernel \<Rightarrow> kernel option" where
  "SysTick_Handler s =
     (let (crit, s) = nimble_port_enter_critical s
      in do { s \<leftarrow> nimble_scheduler_tick s;
              Some (nimble_port_exit_critical crit s) })"

text \<open>
  The frame the processor unstacks on exception return: r0, r1, r2, r3, r12, lr, pc, xpsr.
\<close>

definition hw_frame :: "kernel \<Rightarrow> addr \<Rightarrow> u32 list" where
  "hw_frame s a = map (\<lambda>i. mem s (a + 4 * word_of_nat i)) [0..<8]"

section \<open>Facts\<close>

lemma init_task_stack_frame:
  assumes "nimble_port_init_task_stack stack_top fn arg s = (sp, s')"
  shows "sp = stack_top - 64"
    and "s' = s\<lparr>mem := mem s'\<rparr>"
    and "hw_frame s' (sp + 32) =
          [arg, 0x01010101, 0x02020202, 0x03030303, 0x12121212,
           sym_task_exit_trap (syms s), fn, 0x01000000]"
    and "map (\<lambda>r. reg (load_r4_r11 sp s') r) [4..<12] =
          [0x04040404, 0x05050505, 0x06060606, 0x07070707,
           0x08080808, 0x09090909, 0x10101010, 0x11111111]"
  using assms
  by (auto simp: nimble_port_init_task_stack_def push_word_def Let_def hw_frame_def load_r4_r11_def
      upt_conv_Cons)

lemma push_word_pair: "push_word v (sp, m) = (sp - 4, m(sp - 4 := v))"
  by (simp add: push_word_def)

lemma fold_push_outside:
  assumes "\<And>i. i < length vs \<Longrightarrow> a \<noteq> sp - 4 * word_of_nat (Suc i)"
  shows "snd (fold push_word vs (sp, m)) a = m a"
  using assms
proof (induction vs arbitrary: sp m)
  case (Cons v vs)
  have "a \<noteq> sp - 4" using Cons.prems [of 0] by simp
  moreover have "snd (fold push_word vs (sp - 4, m(sp - 4 := v))) a = (m(sp - 4 := v)) a"
  proof (rule Cons.IH)
    fix i assume "i < length vs"
    then show "a \<noteq> sp - 4 - 4 * word_of_nat (Suc i)"
      using Cons.prems [of "Suc i"] by (simp add: algebra_simps)
  qed
  ultimately show ?case by (simp add: push_word_pair)
qed simp

lemma init_task_stack_outside:
  assumes "nimble_port_init_task_stack stack_top fn arg s = (sp, s')"
    and "\<And>i. i < 16 \<Longrightarrow> a \<noteq> stack_top - 4 * word_of_nat (Suc i)"
  shows "mem s' a = mem s a"
proof -
  let ?vs = "[0x01000000, fn, sym_task_exit_trap (syms s), 0x12121212, 0x03030303, 0x02020202,
    0x01010101, arg, 0x11111111, 0x10101010, 0x09090909, 0x08080808, 0x07070707, 0x06060606,
    0x05050505, 0x04040404]"
  have "mem s' = snd (fold push_word ?vs (stack_top, mem s))"
    using assms(1) by (auto simp: nimble_port_init_task_stack_def Let_def)
  then show ?thesis using fold_push_outside [of ?vs a stack_top] assms(2) by simp
qed

lemma load_store_r4_r11:
  assumes "\<And>i. i < 8 \<Longrightarrow> mem s' (a + 4 * word_of_nat i) = mem (store_r4_r11 a s) (a + 4 * word_of_nat i)"
    and "4 \<le> r" "r < 12"
  shows "reg (load_r4_r11 a s') r = reg s r"
proof -
  have "mem (store_r4_r11 a s) (a + 4 * word_of_nat i) = reg s (4 + i)" if "i < 8" for i
  proof -
    have "i \<in> set [0..<8]" using that by simp
    then show ?thesis by (auto simp: store_r4_r11_def upt_conv_Cons)
  qed
  moreover obtain j where j: "r = 4 + j" using assms(2) le_Suc_ex by blast
  moreover have "j < 8" using j assms(3) by simp
  ultimately show ?thesis using assms(1) [of j] by (simp add: load_r4_r11_def)
qed

end
