(* ===== verification/Task.thy ===== *)
theory Task
  imports Port
begin

text \<open>
  Tasks (\<^verbatim>\<open>kernel/src/task.c\<close>), and the two functions of \<^verbatim>\<open>scheduler.c\<close> that use
  them: \<^verbatim>\<open>nimble_scheduler_init\<close> and \<^verbatim>\<open>nimble_scheduler_start\<close>. A call through a
  \<^verbatim>\<open>NULL\<close> current task is \<open>None\<close>.
\<close>

section \<open>Operations\<close>

definition NIMBLE_STACK_CANARY :: u32 where
  "NIMBLE_STACK_CANARY = 0xA5A5A5A5"

definition zero_tcb :: nimble_tcb where
  "zero_tcb = \<lparr>tcb_sp = 0, tcb_priority = 0, tcb_base_priority = 0, tcb_state = NIMBLE_TASK_READY,
     tcb_stack_base = 0, tcb_stack_words = 0, tcb_wake_tick = 0, tcb_last_wait_result = NIMBLE_OK,
     tcb_blocked_on_mutex = None, tcb_name = replicate NIMBLE_MAX_TASK_NAME_LEN (CHR 0x00)\<rparr>"

text \<open>The loop that fills the first \<open>n\<close> words of a stack with the canary.\<close>

primrec fill_canary :: "nat \<Rightarrow> addr \<Rightarrow> (addr \<Rightarrow> u32) \<Rightarrow> addr \<Rightarrow> u32" where
  "fill_canary 0 base m = m"
| "fill_canary (Suc n) base m =
     (fill_canary n base m)(base + 4 * word_of_nat n := NIMBLE_STACK_CANARY)"

text \<open>
  The length loop of the name copies: a C string is the list of its characters, its
  terminating zero is read at index \<open>length name\<close>.
\<close>

function copy_len :: "string \<Rightarrow> nat \<Rightarrow> nat \<Rightarrow> nat" where
  "copy_len name limit len =
     (if (len < length name \<and> name ! len \<noteq> CHR 0x00) \<and> len < limit
      then copy_len name limit (len + 1) else len)"
  by pat_completeness auto
termination
  by (relation "measure (\<lambda>(name, limit, len). limit - len)") auto

declare copy_len.simps [simp del]

definition copy_name :: "nat \<Rightarrow> string option \<Rightarrow> string" where
  "copy_name sz name =
     (case name of
        None \<Rightarrow> replicate sz (CHR 0x00)
      | Some cs \<Rightarrow> let len = copy_len cs (sz - 1) 0
                   in take len cs @ replicate (sz - len) (CHR 0x00))"

definition nimble_task_create ::
  "tcb_ptr option \<Rightarrow> string option \<Rightarrow> addr \<Rightarrow> addr \<Rightarrow> addr \<Rightarrow> u32 \<Rightarrow> u8 \<Rightarrow> kernel \<Rightarrow>
   (nimble_status_t \<times> kernel) option" where
  "nimble_task_create tcb name fn arg stack_base stack_words priority s =
     (case tcb of
        None \<Rightarrow> Some (NIMBLE_ERR_INVALID_ARG, s)
      | Some t \<Rightarrow>
          if fn = 0 \<or> stack_base = 0 then Some (NIMBLE_ERR_INVALID_ARG, s)
          else if stack_words < NIMBLE_MIN_STACK_WORDS then Some (NIMBLE_ERR_INVALID_ARG, s)
          else if NIMBLE_MAX_PRIORITIES \<le> priority then Some (NIMBLE_ERR_INVALID_ARG, s)
          else
            do { let s = s\<lparr>tcbs := (tcbs s)(t := zero_tcb)\<rparr>;
                 let s = update_heap (nimble_list_init (Link t)) s;
                 let s = update_heap (nimble_list_init (EventLink t)) s;
                 let s = s\<lparr>mem := fill_canary (unat stack_words) stack_base (mem s)\<rparr>;
                 let stack_top = stack_base + 4 * stack_words;
                 let (sp, s) = nimble_port_init_task_stack stack_top fn arg s;
                 let s = update_tcb t (\<lambda>c. c\<lparr>tcb_sp := sp,
                                          tcb_stack_base := stack_base,
                                          tcb_stack_words := stack_words,
                                          tcb_priority := priority,
                                          tcb_base_priority := priority,
                                          tcb_blocked_on_mutex := None,
                                          tcb_name := copy_name NIMBLE_MAX_TASK_NAME_LEN name\<rparr>) s;
                 let (crit, s) = nimble_port_enter_critical s;
                 s \<leftarrow> nimble_scheduler_add_ready t s;
                 let s = nimble_port_exit_critical crit s;
                 Some (NIMBLE_OK, s) })"

definition nimble_task_yield :: "kernel \<Rightarrow> kernel" where
  "nimble_task_yield s = nimble_port_request_context_switch s"

definition nimble_task_delay :: "nimble_tick_t \<Rightarrow> kernel \<Rightarrow> kernel option" where
  "nimble_task_delay ticks s =
     (if ticks = 0 then Some s
      else do { let (crit, s) = nimble_port_enter_critical s;
                self \<leftarrow> nimble_current_tcb s;
                let wake_at = nimble_scheduler_get_tick_count s + ticks;
                s \<leftarrow> nimble_scheduler_block_current_delay self wake_at s;
                let s = nimble_port_exit_critical crit s;
                Some (nimble_port_request_context_switch s) })"

definition nimble_task_suspend :: "tcb_ptr \<Rightarrow> kernel \<Rightarrow> kernel option" where
  "nimble_task_suspend t s =
     do { let (crit, s) = nimble_port_enter_critical s;
          if task_state s t = NIMBLE_TASK_READY \<or> task_state s t = NIMBLE_TASK_RUNNING
          then do { let suspending_self = (nimble_current_tcb s = Some t);
                    s \<leftarrow> (if task_state s t = NIMBLE_TASK_READY
                          then nimble_scheduler_remove t s else Some s);
                    let s = update_tcb t (tcb_state_update (\<lambda>_. NIMBLE_TASK_SUSPENDED)) s;
                    let s = nimble_port_exit_critical crit s;
                    Some (if suspending_self then nimble_port_request_context_switch s else s) }
          else Some (nimble_port_exit_critical crit s) }"

definition nimble_task_resume :: "tcb_ptr \<Rightarrow> kernel \<Rightarrow> kernel option" where
  "nimble_task_resume t s =
     do { let (crit, s) = nimble_port_enter_critical s;
          s \<leftarrow> (if task_state s t = NIMBLE_TASK_SUSPENDED
                then nimble_scheduler_add_ready t s else Some s);
          Some (nimble_port_exit_critical crit s) }"

definition nimble_task_self :: "kernel \<Rightarrow> tcb_ptr option" where
  "nimble_task_self s = nimble_current_tcb s"

function high_water_loop :: "kernel \<Rightarrow> addr \<Rightarrow> nat \<Rightarrow> nat \<Rightarrow> nat" where
  "high_water_loop s base words i =
     (if i < words \<and> mem s (base + 4 * word_of_nat i) = NIMBLE_STACK_CANARY
      then high_water_loop s base words (i + 1) else i)"
  by pat_completeness auto
termination
  by (relation "measure (\<lambda>(s, base, words, i). words - i)") auto

declare high_water_loop.simps [simp del]

definition nimble_task_get_stack_high_water_mark :: "tcb_ptr \<Rightarrow> kernel \<Rightarrow> u32" where
  "nimble_task_get_stack_high_water_mark t s =
     word_of_nat (high_water_loop s (tcb_stack_base (tcbs s t)) (unat (tcb_stack_words (tcbs s t))) 0)"

section \<open>Starting the scheduler\<close>

definition IDLE_STACK_WORDS :: u32 where
  "IDLE_STACK_WORDS = 128"

definition init_ready_lists :: "kernel \<Rightarrow> kernel" where
  "init_ready_lists s = update_heap (fold (\<lambda>i. nimble_list_init (ReadyList i)) [0..<32]) s"

definition nimble_scheduler_init :: "kernel \<Rightarrow> kernel option" where
  "nimble_scheduler_init s =
     do { let s = init_ready_lists s;
          let s = update_heap (nimble_list_init DelayedList) s;
          let s = s\<lparr>ready_bitmap := 0\<rparr>;
          let s = s\<lparr>g_tick_count := 0\<rparr>;
          let s = s\<lparr>nimble_current_tcb := None\<rparr>;
          let s = s\<lparr>nimble_next_tcb := None\<rparr>;
          (_, s) \<leftarrow> nimble_task_create (Some idle_tcb) (Some ''idle'') (sym_idle_task_fn (syms s)) 0
                     (sym_idle_stack (syms s)) IDLE_STACK_WORDS 0 s;
          Some s }"

definition nimble_scheduler_start :: "kernel \<Rightarrow> kernel option" where
  "nimble_scheduler_start s =
     do { (next, s) \<leftarrow> nimble_scheduler_select_next s;
          let s = s\<lparr>nimble_next_tcb := Some next\<rparr>;
          let s = s\<lparr>nimble_current_tcb := nimble_next_tcb s\<rparr>;
          nimble_port_start_first_task s }"

end
