(* ===== verification/Task_Correct.thy ===== *)
theory Task_Correct
  imports Task
begin

text \<open>
  Correctness of theory \<open>Task\<close>: task creation, stack checking, delay, suspend and resume,
  initialisation, the context switch and the start of the first task.
\<close>

section \<open>Creating a task\<close>

lemma tasks_inv_new_task:
  assumes inv: "tasks_inv b X H N L s" and new: "Link t \<notin> N"
    and mem: "\<And>k n. k \<in> H \<Longrightarrow> n \<in> set (L k) \<Longrightarrow> n \<in> N" and sh: "shape H N L"
    and p: "unat (tcb_priority c) < 32" "unat (tcb_base_priority c) < 32"
    and tc: "tcbs s' = (tcbs s)(t := c)" and cur: "nimble_current_tcb s' = nimble_current_tcb s"
  shows "tasks_inv b (insert t X) H (insert (Link t) (insert (EventLink t) N)) L s'"
proof (rule tasks_invI)
  note D = tasks_invD [OF inv]
  have nr: "Link t \<notin> set (L (ReadyList q))" if "q < 32" for q
    using mem [of "ReadyList q" "Link t"] new sh that by (auto simp: shape_ready)
  have nd: "Link t \<notin> set (L DelayedList)" using mem [of DelayedList "Link t"] new sh
    by (auto simp: shape_delayed)
  {
    fix t' assume "Link t' \<in> insert (Link t) (insert (EventLink t) N)"
    then show "unat (task_priority s' t') < 32" "unat (tcb_base_priority (tcbs s' t')) < 32"
      using D(1,2) [of t'] p by (auto simp: tc)
  next
    fix t' q assume q: "q < 32" "Link t' \<in> set (L (ReadyList q))"
    then have "t' \<noteq> t" using nr by auto
    then show "task_state s' t' = NIMBLE_TASK_READY" using D(3) [OF q] by (simp add: tc)
    assume b
    then show "unat (task_priority s' t') = q" using D(4) [OF _ q] \<open>t' \<noteq> t\<close> by (simp add: tc)
  next
    fix t' assume "Link t' \<in> insert (Link t) (insert (EventLink t) N)" "t' \<notin> insert t X"
      and "task_state s' t' = NIMBLE_TASK_READY"
    then show "\<exists>p<32. Link t' \<in> set (L (ReadyList p))" using D(5) [of t'] by (auto simp: tc)
  next
    fix t' assume "Link t' \<in> set (L DelayedList)"
    then show "task_state s' t' = NIMBLE_TASK_BLOCKED" using D(6) [of t'] nd by (auto simp: tc)
  next
    fix t' k assume "t' \<notin> insert t X" "k \<in> H" "EventLink t' \<in> set (L k)"
    then show "task_state s' t' = NIMBLE_TASK_BLOCKED" using D(7) [of t' k] by (auto simp: tc)
  next
    fix t' assume "Link t' \<in> insert (Link t) (insert (EventLink t) N)" "t' \<notin> insert t X"
      and "task_state s' t' = NIMBLE_TASK_RUNNING"
    then show "nimble_current_tcb s' = Some t'" using D(8) [of t'] by (auto simp: tc cur)
  next
    fix t' assume "nimble_current_tcb s' = Some t'"
    then show "Link t' \<in> insert (Link t) (insert (EventLink t) N)"
      using D(9) [of t'] by (simp add: cur)
  }
qed

lemma new_task_inv:
  assumes inv: "sched_inv b X H N L s" and new: "Link t \<notin> N"
    and p: "unat (tcb_priority c) < 32" "unat (tcb_base_priority c) < 32"
    and s': "tcbs s' = (tcbs s)(t := c)" "nimble_current_tcb s' = nimble_current_tcb s"
      "ready_bitmap s' = ready_bitmap s"
      "heap s' = nimble_list_init (EventLink t) (nimble_list_init (Link t) (heap s))"
  shows "sched_inv b (insert t X) H (insert (Link t) (insert (EventLink t) N)) L s'"
proof -
  have sh: "shape H N L" and r: "repr H N L (heap s)"
    using inv by (auto intro: sched_inv_shape sched_inv_repr)
  have nl: "Link t \<notin> H \<union> N" "EventLink t \<notin> H \<union> insert (Link t) N"
    using new shape_heads [OF sh, of "Link t"] shape_heads [OF sh, of "EventLink t"]
      shape_event [OF sh, of t] by auto
  have "repr H (insert (Link t) (insert (EventLink t) N)) L (heap s')"
    using repr_init_node [OF repr_init_node [OF r nl(1)] nl(2)] s'(4) by (simp add: insert_commute)
  moreover have "shape H (insert (Link t) (insert (EventLink t) N)) L"
    using sh unfolding shape_def by auto
  moreover have "tasks_inv b (insert t X) H (insert (Link t) (insert (EventLink t) N)) L s'"
    using tasks_inv_new_task [OF sched_inv_tasks [OF inv] new repr_member [OF r] sh p s'(1,2)] .
  ultimately show ?thesis using inv s'(3) by (simp add: sched_inv_def)
qed

definition create_ok :: "addr \<Rightarrow> addr \<Rightarrow> u32 \<Rightarrow> u8 \<Rightarrow> bool" where
  "create_ok fn stack_base stack_words priority \<longleftrightarrow>
     fn \<noteq> 0 \<and> stack_base \<noteq> 0 \<and> NIMBLE_MIN_STACK_WORDS \<le> stack_words \<and> priority < NIMBLE_MAX_PRIORITIES"

lemma create_rejects:
  assumes "tcb = None \<or> \<not> create_ok fn stack_base stack_words priority"
  shows "nimble_task_create tcb name fn arg stack_base stack_words priority s =
           Some (NIMBLE_ERR_INVALID_ARG, s)"
  using assms by (auto simp: nimble_task_create_def create_ok_def not_le not_less split: option.splits)

lemma create_inv:
  assumes inv: "sched_inv b X H N L s" and new: "Link t \<notin> N" and X: "t \<notin> X"
    and ok: "create_ok fn stack_base stack_words priority"
  shows "\<exists>s'. nimble_task_create (Some t) name fn arg stack_base stack_words priority s =
       Some (NIMBLE_OK, s') \<and>
     sched_inv b X H (insert (Link t) (insert (EventLink t) N))
       (enlist (ReadyList (unat priority)) (Link t) L) s' \<and>
     s' = s\<lparr>tcbs := (tcbs s)(t := \<lparr>tcb_sp = stack_base + 4 * stack_words - 64,
              tcb_priority = priority, tcb_base_priority = priority,
              tcb_state = NIMBLE_TASK_READY, tcb_stack_base = stack_base,
              tcb_stack_words = stack_words, tcb_wake_tick = 0, tcb_last_wait_result = NIMBLE_OK,
              tcb_blocked_on_mutex = None, tcb_name = copy_name NIMBLE_MAX_TASK_NAME_LEN name\<rparr>),
            mem := mem (snd (nimble_port_init_task_stack (stack_base + 4 * stack_words) fn arg
                     (s\<lparr>mem := fill_canary (unat stack_words) stack_base (mem s)\<rparr>))),
            heap := heap s', ready_bitmap := ready_bitmap s'\<rparr>"
proof -
  let ?top = "stack_base + 4 * stack_words"
  let ?i = "nimble_port_init_task_stack ?top fn arg
              (s\<lparr>mem := fill_canary (unat stack_words) stack_base (mem s)\<rparr>)"
  let ?c = "\<lparr>tcb_sp = ?top - 64,
              tcb_priority = priority, tcb_base_priority = priority,
              tcb_state = NIMBLE_TASK_READY, tcb_stack_base = stack_base,
              tcb_stack_words = stack_words, tcb_wake_tick = 0, tcb_last_wait_result = NIMBLE_OK,
              tcb_blocked_on_mutex = None, tcb_name = copy_name NIMBLE_MAX_TASK_NAME_LEN name\<rparr>"
  let ?s = "s\<lparr>tcbs := (tcbs s)(t := ?c),
      heap := nimble_list_init (EventLink t) (nimble_list_init (Link t) (heap s)),
      mem := mem (snd ?i), basepri := NIMBLE_KERNEL_SYSCALL_BASEPRI\<rparr>"
  have p: "unat priority < 32" using ok by (simp add: create_ok_def kdefs word_less_nat_alt)
  have i: "sched_inv b (insert t X) H (insert (Link t) (insert (EventLink t) N)) L ?s"
    by (rule new_task_inv [OF inv new]) (simp_all add: p)
  obtain s1 where a: "nimble_scheduler_add_ready t ?s = Some s1"
    using p by (simp add: add_ready_eq)
  let ?s' = "s1\<lparr>basepri := basepri s\<rparr>"
  have c0: "\<not> (fn = 0 \<or> stack_base = 0)" "\<not> stack_words < NIMBLE_MIN_STACK_WORDS"
    "\<not> NIMBLE_MAX_PRIORITIES \<le> priority"
    using ok by (auto simp: create_ok_def)
  have c: "nimble_task_create (Some t) name fn arg stack_base stack_words priority s =
      Some (NIMBLE_OK, ?s')"
    using c0 a
    by (cases s) (simp add: nimble_task_create_def update_tcb_def update_heap_def zero_tcb_def
        nimble_port_enter_critical_def nimble_port_exit_critical_def
        nimble_port_init_task_stack_def Let_def push_word_pair)
  have fr: "free_node H L (Link t)" "free_node H L (EventLink t)"
    using repr_member [OF sched_inv_repr [OF inv]] new shape_event [OF sched_inv_shape [OF inv], of t]
    by (auto simp: free_node_def)
  have "sched_inv b X H (insert (Link t) (insert (EventLink t) N))
      (enlist (ReadyList (unat priority)) (Link t) L) ?s'"
    using add_ready_inv [OF i _ fr a] X by simp
  moreover have "?s' = s\<lparr>tcbs := (tcbs s)(t := ?c), mem := mem (snd ?i),
      heap := heap ?s', ready_bitmap := ready_bitmap ?s'\<rparr>"
    using add_ready_frame [OF a] by (cases s1; cases s) simp
  ultimately show ?thesis using c by blast
qed

section \<open>Stack checking\<close>

lemma fill_canary_at: "i < n \<Longrightarrow> fill_canary n base m (base + 4 * word_of_nat i) = NIMBLE_STACK_CANARY"
  by (induction n) (auto simp: less_Suc_eq)

lemma high_water_loop_eq:
  assumes "i \<le> h" "h \<le> words"
    and "\<And>j. i \<le> j \<Longrightarrow> j < h \<Longrightarrow> mem s (base + 4 * word_of_nat j) = NIMBLE_STACK_CANARY"
    and "h < words \<Longrightarrow> mem s (base + 4 * word_of_nat h) \<noteq> NIMBLE_STACK_CANARY"
  shows "high_water_loop s base words i = h"
  using assms
proof (induction s base words i rule: high_water_loop.induct)
  case (1 s base words i)
  show ?case
  proof (cases "i = h")
    case True
    then show ?thesis using "1.prems" by (subst high_water_loop.simps) auto
  next
    case False
    then have "i < h" using "1.prems"(1) by simp
    then have c: "i < words \<and> mem s (base + 4 * word_of_nat i) = NIMBLE_STACK_CANARY"
      using "1.prems"(2) "1.prems"(3) [of i] by simp
    have "high_water_loop s base words (i + 1) = h"
      using "1.prems" \<open>i < h\<close> by (intro "1.IH" [OF c]) auto
    then show ?thesis using c by (subst high_water_loop.simps) simp
  qed
qed

lemma high_water_loop_sound:
  assumes "i \<le> words"
  shows "i \<le> high_water_loop s base words i \<and> high_water_loop s base words i \<le> words \<and>
    (\<forall>j. i \<le> j \<and> j < high_water_loop s base words i \<longrightarrow>
       mem s (base + 4 * word_of_nat j) = NIMBLE_STACK_CANARY) \<and>
    (high_water_loop s base words i < words \<longrightarrow>
       mem s (base + 4 * word_of_nat (high_water_loop s base words i)) \<noteq> NIMBLE_STACK_CANARY)"
  using assms
proof (induction s base words i rule: high_water_loop.induct)
  case (1 s base words i)
  show ?case
  proof (cases "i < words \<and> mem s (base + 4 * word_of_nat i) = NIMBLE_STACK_CANARY")
    case True
    have eq: "high_water_loop s base words i = high_water_loop s base words (i + 1)"
      using True by (subst high_water_loop.simps) simp
    have IH: "i + 1 \<le> high_water_loop s base words (i + 1) \<and>
       high_water_loop s base words (i + 1) \<le> words \<and>
    (\<forall>j. i + 1 \<le> j \<and> j < high_water_loop s base words (i + 1) \<longrightarrow>
       mem s (base + 4 * word_of_nat j) = NIMBLE_STACK_CANARY) \<and>
    (high_water_loop s base words (i + 1) < words \<longrightarrow>
       mem s (base + 4 * word_of_nat (high_water_loop s base words (i + 1))) \<noteq> NIMBLE_STACK_CANARY)"
      using True by (intro "1.IH") auto
    show ?thesis unfolding eq
    proof (intro conjI allI impI)
      fix j assume "i \<le> j \<and> j < high_water_loop s base words (i + 1)"
      then show "mem s (base + 4 * word_of_nat j) = NIMBLE_STACK_CANARY"
        using IH True by (cases "j = i") auto
    qed (use IH in auto)
  next
    case False
    then have "high_water_loop s base words i = i" by (subst high_water_loop.simps) auto
    then show ?thesis using False "1.prems" by auto
  qed
qed

lemma word_index_inj:
  assumes "(4 :: u32) * word_of_nat j = 4 * word_of_nat k" "j < 2 ^ 30" "k < 2 ^ 30"
  shows "j = k"
proof -
  have eq: "unat ((4 :: u32) * word_of_nat n) = 4 * n" if "n < 2 ^ 30" for n
  proof -
    have "unat (word_of_nat (4 * n) :: u32) = 4 * n"
      by (simp only: unat_of_nat) (use that in simp)
    then show ?thesis by simp
  qed
  have "4 * j = 4 * k" by (simp only: flip: eq [OF assms(2)] eq [OF assms(3)]) (simp only: assms(1))
  then show ?thesis by simp
qed

lemma fresh_stack_high_water:
  assumes i: "nimble_port_init_task_stack (base + 4 * words) fn arg
           (s\<lparr>mem := fill_canary (unat words) base (mem s)\<rparr>) = (sp, s')"
    and w: "16 \<le> unat words" "unat words \<le> 2 ^ 30"
  shows "high_water_loop s' base (unat words) 0 = unat words - 16"
proof (rule high_water_loop_eq)
  let ?n = "unat words"
  have wn: "words = word_of_nat ?n" by simp
  have at: "base + 4 * words - 4 * word_of_nat (Suc k) = base + 4 * word_of_nat (?n - Suc k)"
    if "Suc k \<le> ?n" for k
    using that by (subst (1) wn) (simp add: of_nat_diff algebra_simps)
  {
    fix j assume j: "j < ?n - 16"
    have "base + 4 * word_of_nat j \<noteq> base + 4 * words - 4 * word_of_nat (Suc k)" if "k < 16" for k
    proof
      assume "base + 4 * word_of_nat j = base + 4 * words - 4 * word_of_nat (Suc k)"
      then have "(4 :: u32) * word_of_nat j = 4 * word_of_nat (?n - Suc k)"
        using that w(1) by (subst (asm) at) (auto simp only: add_left_cancel)
      then have "j = ?n - Suc k" using j w by (intro word_index_inj) auto
      then show False using j that by arith
    qed
    then have "mem s' (base + 4 * word_of_nat j) =
        fill_canary ?n base (mem s) (base + 4 * word_of_nat j)"
      using init_task_stack_outside [OF i, of "base + 4 * word_of_nat j"] by simp
    also have "\<dots> = NIMBLE_STACK_CANARY" using j by (intro fill_canary_at) simp
    finally show "mem s' (base + 4 * word_of_nat j) = NIMBLE_STACK_CANARY" .
  }
  have "sp = base + 4 * word_of_nat (?n - 16)"
    using init_task_stack_frame(1) [OF i] at [of 15] w(1) by simp
  moreover have "mem s' sp = 0x04040404"
    using init_task_stack_frame(4) [OF i] by (simp add: load_r4_r11_def upt_conv_Cons)
  ultimately show "mem s' (base + 4 * word_of_nat (?n - 16)) \<noteq> NIMBLE_STACK_CANARY"
    by (simp add: NIMBLE_STACK_CANARY_def)
qed auto

section \<open>Delay, suspend, resume\<close>

lemma delay_inv:
  assumes inv: "sched_inv b {} H N L s" and cur: "nimble_current_tcb s = Some t"
    and run: "task_state s t = NIMBLE_TASK_RUNNING" and n: "ticks \<noteq> 0"
  shows "\<exists>s'. nimble_task_delay ticks s = Some s' \<and>
     sched_inv b {} H N (enlist DelayedList (Link t) L) s' \<and>
     s' = s\<lparr>tcbs := (tcbs s)(t := (tcbs s t)\<lparr>tcb_wake_tick := g_tick_count s + ticks,
                                            tcb_state := NIMBLE_TASK_BLOCKED\<rparr>),
            pendsv := True, heap := heap s', ready_bitmap := ready_bitmap s'\<rparr>"
proof -
  let ?s = "s\<lparr>basepri := NIMBLE_KERNEL_SYSCALL_BASEPRI\<rparr>"
  have i: "sched_inv b {} H N L ?s" using inv by simp
  have tN: "Link t \<in> N" using tasks_inv_current [OF sched_inv_tasks [OF inv] cur] .
  obtain s1 where s1: "nimble_scheduler_block_current_delay t (g_tick_count s + ticks) ?s = Some s1"
    using block_current_delay_returns [OF i tN] by blast
  have fl: "free_node H L (Link t)" and fe: "free_node H L (EventLink t)"
    using link_free [OF inv, of t] event_free [OF inv, of t] run by simp_all
  have "sched_inv b {} H N (enlist DelayedList (Link t) (delist (Link t) L)) s1"
    using block_current_delay_inv [OF i tN fe s1] by simp
  then have i1: "sched_inv b {} H N (enlist DelayedList (Link t) L) s1"
    by (rule sched_inv_lists_cong) (use delist_free [OF fl] shape_delayed [OF sched_inv_shape [OF inv]]
        in \<open>auto simp del: delist_apply\<close>)
  let ?s' = "s1\<lparr>basepri := basepri s, pendsv := True\<rparr>"
  have "nimble_task_delay ticks s = Some ?s'"
    using s1 n cur by (simp add: nimble_task_delay_def nimble_scheduler_get_tick_count_def
        nimble_port_enter_critical_def nimble_port_exit_critical_def
        nimble_port_request_context_switch_def)
  moreover have "?s' = s\<lparr>tcbs := (tcbs s)(t := (tcbs s t)\<lparr>tcb_wake_tick := g_tick_count s + ticks,
      tcb_state := NIMBLE_TASK_BLOCKED\<rparr>), pendsv := True,
      heap := heap ?s', ready_bitmap := ready_bitmap ?s'\<rparr>"
    using block_current_delay_frame [OF s1] by (cases s1; cases s) simp
  moreover have "sched_inv b {} H N (enlist DelayedList (Link t) L) ?s'" using i1 by simp
  ultimately show ?thesis by blast
qed

lemma delay_zero: "nimble_task_delay 0 s = Some s"
  by (simp add: nimble_task_delay_def)

lemma suspend_inv:
  assumes inv: "sched_inv b {} H N L s" and tN: "Link t \<in> N"
    and st: "task_state s t = NIMBLE_TASK_READY \<or> task_state s t = NIMBLE_TASK_RUNNING"
  shows "\<exists>s'. nimble_task_suspend t s = Some s' \<and>
     sched_inv b {} H N (delist (Link t) L) s' \<and>
     s' = s\<lparr>tcbs := (tcbs s)(t := (tcbs s t)\<lparr>tcb_state := NIMBLE_TASK_SUSPENDED\<rparr>),
            pendsv := (pendsv s \<or> nimble_current_tcb s = Some t),
            heap := heap s', ready_bitmap := ready_bitmap s'\<rparr>"
proof -
  let ?s = "s\<lparr>basepri := NIMBLE_KERNEL_SYSCALL_BASEPRI\<rparr>"
  have i: "sched_inv b {} H N L ?s" using inv by simp
  have fe: "free_node H L (EventLink t)" using event_free [OF inv, of t] st by auto
  obtain s1 where s1: "(if task_state ?s t = NIMBLE_TASK_READY
                          then nimble_scheduler_remove t ?s else Some ?s) = Some s1"
    and i1: "sched_inv b {t} H N (delist (Link t) L) s1"
    and f1: "s1 = ?s\<lparr>heap := heap s1, ready_bitmap := ready_bitmap s1\<rparr>"
  proof (cases "task_state ?s t = NIMBLE_TASK_READY")
    case True
    obtain s1 where r: "nimble_scheduler_remove t ?s = Some s1"
      using sched_inv_prio [OF i tN] by (simp add: remove_eq)
    moreover have "heap s1 = nimble_list_remove (Link t) (heap ?s)"
      by (subst remove_frame [OF r]) simp
    ultimately show thesis
      using that [of s1] True remove_inv [OF i tN r] remove_frame [OF r] by simp
  next
    case False
    then have "free_node H L (Link t)" using link_free [OF inv, of t] st by simp
    then have "sched_inv b {} H N (delist (Link t) L) ?s"
      using i by (elim sched_inv_lists_cong) (simp add: delist_free del: delist_apply)
    then have "sched_inv b {t} H N (delist (Link t) L) ?s" by (rule sched_inv_mono) simp
    with False show thesis using that [of ?s] by simp
  qed
  have "sched_inv b {} H N (delist (Link t) L)
      (update_tcb t (tcb_state_update (\<lambda>_. NIMBLE_TASK_SUSPENDED)) s1)"
    by (rule set_state_inv [OF i1]) (use fe in \<open>auto simp: free_node_delist free_node_delist_other\<close>)
  then have i2: "sched_inv b {} H N (delist (Link t) L)
      (s1\<lparr>tcbs := (tcbs s1)(t := (tcbs s1 t)\<lparr>tcb_state := NIMBLE_TASK_SUSPENDED\<rparr>)\<rparr>)"
    by (simp add: update_tcb_def)
  let ?s' = "s1\<lparr>tcbs := (tcbs s1)(t := (tcbs s1 t)\<lparr>tcb_state := NIMBLE_TASK_SUSPENDED\<rparr>),
      basepri := basepri s, pendsv := (pendsv s \<or> nimble_current_tcb s = Some t)\<rparr>"
  have "nimble_task_suspend t s = Some ?s'"
    using s1 st f1 by (cases s1; cases s)
      (auto simp: nimble_task_suspend_def update_tcb_def
        nimble_port_enter_critical_def nimble_port_exit_critical_def
        nimble_port_request_context_switch_def Let_def)
  moreover have "?s' = s\<lparr>tcbs := (tcbs s)(t := (tcbs s t)\<lparr>tcb_state := NIMBLE_TASK_SUSPENDED\<rparr>),
            pendsv := (pendsv s \<or> nimble_current_tcb s = Some t),
            heap := heap ?s', ready_bitmap := ready_bitmap ?s'\<rparr>"
    using f1 by (cases s1; cases s) simp
  moreover have "sched_inv b {} H N (delist (Link t) L) ?s'" using i2 by simp
  ultimately show ?thesis by blast
qed

lemma suspend_other:
  "task_state s t \<noteq> NIMBLE_TASK_READY \<Longrightarrow> task_state s t \<noteq> NIMBLE_TASK_RUNNING \<Longrightarrow>
   nimble_task_suspend t s = Some s"
  by (cases s) (simp add: nimble_task_suspend_def kdefs Let_def)

lemma resume_inv:
  assumes inv: "sched_inv b {} H N L s" and tN: "Link t \<in> N"
    and st: "task_state s t = NIMBLE_TASK_SUSPENDED"
  shows "\<exists>s'. nimble_task_resume t s = Some s' \<and>
     sched_inv b {} H N (enlist (ReadyList (unat (task_priority s t))) (Link t) L) s' \<and>
     s' = s\<lparr>tcbs := (tcbs s)(t := (tcbs s t)\<lparr>tcb_state := NIMBLE_TASK_READY\<rparr>),
            heap := heap s', ready_bitmap := ready_bitmap s'\<rparr>"
proof -
  let ?s = "s\<lparr>basepri := NIMBLE_KERNEL_SYSCALL_BASEPRI\<rparr>"
  have i: "sched_inv b {} H N L ?s" using inv by simp
  obtain s1 where a: "nimble_scheduler_add_ready t ?s = Some s1"
    using sched_inv_prio [OF i tN] by (simp add: add_ready_eq)
  have "free_node H L (Link t)" "free_node H L (EventLink t)"
    using link_free [OF inv, of t] event_free [OF inv, of t] st by simp_all
  then have i1: "sched_inv b {} H N (enlist (ReadyList (unat (task_priority s t))) (Link t) L) s1"
    using add_ready_inv [OF i tN _ _ a] by simp
  let ?s' = "s1\<lparr>basepri := basepri s\<rparr>"
  have "nimble_task_resume t s = Some ?s'"
    using a st by (simp add: nimble_task_resume_def nimble_port_enter_critical_def
        nimble_port_exit_critical_def)
  moreover have "?s' = s\<lparr>tcbs := (tcbs s)(t := (tcbs s t)\<lparr>tcb_state := NIMBLE_TASK_READY\<rparr>),
            heap := heap ?s', ready_bitmap := ready_bitmap ?s'\<rparr>"
    using add_ready_frame [OF a] by (cases s1; cases s) simp
  ultimately show ?thesis using i1 by (metis sched_inv_fields(1))
qed

lemma resume_other:
  "task_state s t \<noteq> NIMBLE_TASK_SUSPENDED \<Longrightarrow> nimble_task_resume t s = Some s"
  by (cases s) (simp add: nimble_task_resume_def kdefs Let_def)

section \<open>Initialisation\<close>

definition boot_heads :: "node set" where
  "boot_heads = insert DelayedList (ReadyList ` {..<32})"

lemma repr_init_ready:
  "repr (ReadyList ` {..<n}) {} (\<lambda>_. []) (fold (\<lambda>i. nimble_list_init (ReadyList i)) [0..<n] h)"
proof (induction n)
  case 0
  show ?case by (simp add: repr_def)
next
  case (Suc n)
  have "ReadyList n \<notin> ReadyList ` {..<n} \<union> {}" by auto
  from repr_init_head [OF Suc this] show ?case
    by (simp add: lessThan_Suc fun_upd_idem)
qed

lemma boot_inv:
  assumes "heap s = nimble_list_init DelayedList (fold (\<lambda>i. nimble_list_init (ReadyList i)) [0..<32] h)"
    and "ready_bitmap s = 0" "nimble_current_tcb s = None"
  shows "sched_inv True {} boot_heads {} (\<lambda>_. []) s"
proof -
  have "DelayedList \<notin> ReadyList ` {..<32} \<union> {}" by auto
  from repr_init_head [OF repr_init_ready this]
  have "repr boot_heads {} (\<lambda>_. []) (heap s)"
    by (simp add: assms(1) boot_heads_def fun_upd_idem)
  moreover have "shape boot_heads {} (\<lambda>_. [])" by (auto simp: shape_def boot_heads_def)
  moreover have "tasks_inv True {} boot_heads {} (\<lambda>_. []) s"
    by (simp add: tasks_inv_def assms(3))
  moreover have "bitmap_inv True (\<lambda>_. []) (ready_bitmap s)" by (simp add: bitmap_inv_def assms(2))
  ultimately show ?thesis by (simp add: sched_inv_def)
qed

definition syms_ok :: "symbols \<Rightarrow> bool" where
  "syms_ok y \<longleftrightarrow> sym_idle_task_fn y \<noteq> 0 \<and> sym_idle_stack y \<noteq> 0 \<and> sym_timer_task_fn y \<noteq> 0"

abbreviation task_nodes :: "tcb_ptr \<Rightarrow> node set \<Rightarrow> node set" where
  "task_nodes t N \<equiv> insert (Link t) (insert (EventLink t) N)"

lemma init_inv:
  assumes "syms_ok (syms s)"
  shows "\<exists>s'. nimble_scheduler_init s = Some s' \<and>
     sched_inv True {} boot_heads (task_nodes idle_tcb {})
       (enlist (ReadyList 0) (Link idle_tcb) (\<lambda>_. [])) s' \<and>
     nimble_current_tcb s' = None \<and> g_tick_count s' = 0 \<and> syms s' = syms s \<and>
     basepri s' = basepri s \<and> pendsv s' = pendsv s \<and>
     task_priority s' idle_tcb = 0 \<and> tcb_base_priority (tcbs s' idle_tcb) = 0 \<and>
     task_state s' idle_tcb = NIMBLE_TASK_READY"
proof -
  let ?s = "s\<lparr>heap := nimble_list_init DelayedList
                (fold (\<lambda>i. nimble_list_init (ReadyList i)) [0..<32] (heap s)),
      ready_bitmap := 0, g_tick_count := 0, nimble_current_tcb := None, nimble_next_tcb := None\<rparr>"
  have i: "sched_inv True {} boot_heads {} (\<lambda>_. []) ?s" by (rule boot_inv [where h = "heap s"]) simp_all
  have ok: "create_ok (sym_idle_task_fn (syms s)) (sym_idle_stack (syms s)) IDLE_STACK_WORDS 0"
    using assms by (simp add: create_ok_def syms_ok_def IDLE_STACK_WORDS_def kdefs)
  obtain s' where c: "nimble_task_create (Some idle_tcb) (Some ''idle'') (sym_idle_task_fn (syms s)) 0
        (sym_idle_stack (syms s)) IDLE_STACK_WORDS 0 ?s = Some (NIMBLE_OK, s')"
    and i': "sched_inv True {} boot_heads (task_nodes idle_tcb {})
       (enlist (ReadyList 0) (Link idle_tcb) (\<lambda>_. [])) s'"
    and f: "s' = ?s\<lparr>tcbs := (tcbs ?s)(idle_tcb := \<lparr>tcb_sp = sym_idle_stack (syms s) + 4 * IDLE_STACK_WORDS - 64,
              tcb_priority = 0, tcb_base_priority = 0,
              tcb_state = NIMBLE_TASK_READY, tcb_stack_base = sym_idle_stack (syms s),
              tcb_stack_words = IDLE_STACK_WORDS, tcb_wake_tick = 0, tcb_last_wait_result = NIMBLE_OK,
              tcb_blocked_on_mutex = None, tcb_name = copy_name NIMBLE_MAX_TASK_NAME_LEN (Some ''idle'')\<rparr>),
            mem := mem (snd (nimble_port_init_task_stack (sym_idle_stack (syms s) + 4 * IDLE_STACK_WORDS)
                     (sym_idle_task_fn (syms s)) 0
                     (?s\<lparr>mem := fill_canary (unat IDLE_STACK_WORDS) (sym_idle_stack (syms s)) (mem ?s)\<rparr>))),
            heap := heap s', ready_bitmap := ready_bitmap s'\<rparr>"
    using create_inv [OF i _ _ ok, of idle_tcb "Some ''idle''" 0] by auto
  have "nimble_scheduler_init s = Some s'"
    using c by (simp add: nimble_scheduler_init_def init_ready_lists_def update_heap_def)
  moreover have "nimble_current_tcb s' = None \<and> g_tick_count s' = 0 \<and> syms s' = syms s \<and>
     basepri s' = basepri s \<and> pendsv s' = pendsv s \<and>
     task_priority s' idle_tcb = 0 \<and> tcb_base_priority (tcbs s' idle_tcb) = 0 \<and>
     task_state s' idle_tcb = NIMBLE_TASK_READY"
    by (subst f, simp)+
  ultimately show ?thesis using i' by blast
qed

section \<open>Context switch\<close>

lemma sched_inv_switch:
  assumes inv: "sched_inv b {n} H N L s" and n: "Link n \<in> N"
    and one: "\<And>t. Link t \<in> N \<Longrightarrow> task_state s t = NIMBLE_TASK_RUNNING \<longleftrightarrow> t = n"
    and fe: "free_node H L (EventLink n)"
  shows "sched_inv b {} H N L (s\<lparr>nimble_current_tcb := Some n\<rparr>)"
proof -
  note D = tasks_invD [OF sched_inv_tasks [OF inv]]
  have st: "task_state s n = NIMBLE_TASK_RUNNING" using one [OF n] by simp
  have "tasks_inv b {} H N L (s\<lparr>nimble_current_tcb := Some n\<rparr>)"
  proof (rule tasks_invI)
    fix t assume "Link t \<in> N" "task_state (s\<lparr>nimble_current_tcb := Some n\<rparr>) t = NIMBLE_TASK_READY"
    then show "\<exists>p<32. Link t \<in> set (L (ReadyList p))" using D(5) [of t] st by (cases "t = n") auto
  next
    fix t k assume "k \<in> H" "EventLink t \<in> set (L k)"
    then show "task_state (s\<lparr>nimble_current_tcb := Some n\<rparr>) t = NIMBLE_TASK_BLOCKED"
      using D(7) [of t k] fe by (cases "t = n") (auto simp: free_node_def)
  qed (use D(1,2,3,4,6) one n in auto)
  with inv show ?thesis by (simp add: sched_inv_def)
qed

lemma requeue_lists_cong:
  "nimble_current_tcb s' = nimble_current_tcb s \<Longrightarrow>
   (\<And>t. task_state s' t = task_state s t) \<Longrightarrow> (\<And>t. task_priority s' t = task_priority s t) \<Longrightarrow>
   requeue_lists s' L = requeue_lists s L"
  by (simp add: requeue_lists_def split: option.splits)

definition switch_out :: "kernel \<Rightarrow> kernel" where
  "switch_out s =
     (case nimble_current_tcb s of
        None \<Rightarrow> s\<lparr>pendsv := False\<rparr>
      | Some cur \<Rightarrow> update_tcb cur (tcb_sp_update (\<lambda>_. psp s - 32))
                      (store_r4_r11 (psp s - 32) (s\<lparr>pendsv := False\<rparr>)))"

lemma switch_out_fields [simp]:
  "nimble_current_tcb (switch_out s) = nimble_current_tcb s"
  "task_state (switch_out s) t = task_state s t"
  "task_priority (switch_out s) t = task_priority s t"
  "pendsv (switch_out s) = False"
  by (auto simp: switch_out_def update_tcb_def store_r4_r11_def split: option.splits)

lemma switch_out_inv [simp]: "sched_inv b X H N L (switch_out s) = sched_inv b X H N L s"
  by (simp add: switch_out_def store_r4_r11_def split: option.splits)

lemma PendSV_inv:
  assumes inv: "sched_inv b {} H N L s" and ok: "b \<or> PendSV_Handler s \<noteq> None"
    and run: "\<exists>p<32. requeue_lists s L (ReadyList p) \<noteq> []"
  shows "\<exists>n p ns s1 s'. PendSV_Handler s = Some s' \<and>
     nimble_scheduler_select_next (switch_out s) = Some (n, s1) \<and>
     top_ready (requeue_lists s L) p \<and> requeue_lists s L (ReadyList p) = Link n # ns \<and>
     sched_inv b {} H N (delist (Link n) (requeue_lists s L)) s' \<and>
     task_state s' n = NIMBLE_TASK_RUNNING \<and>
     s' = (load_r4_r11 (tcb_sp (tcbs s1 n)) (s1\<lparr>nimble_current_tcb := Some n\<rparr>))
            \<lparr>psp := tcb_sp (tcbs s1 n) + 32\<rparr>"
proof -
  let ?s = "switch_out s"
  have L: "requeue_lists ?s L = requeue_lists s L" by (rule requeue_lists_cong) simp_all
  have i: "sched_inv b {} H N L ?s" using inv by simp
  have ok': "b \<or> nimble_scheduler_select_next ?s \<noteq> None"
    using ok by (auto simp: PendSV_Handler_def switch_out_def Let_def split: option.splits bind_splits)
  obtain n p ns s1 where sel: "nimble_scheduler_select_next ?s = Some (n, s1)"
    and top: "top_ready (requeue_lists s L) p" "requeue_lists s L (ReadyList p) = Link n # ns"
    and n: "Link n \<in> N" and fe: "free_node H (requeue_lists s L) (EventLink n)"
    and i1: "sched_inv b {n} H N (delist (Link n) (requeue_lists s L)) s1"
    and one: "\<forall>t. Link t \<in> N \<longrightarrow> task_state s1 t = NIMBLE_TASK_RUNNING \<longleftrightarrow> t = n"
    and f: "s1 = ?s\<lparr>tcbs := \<lambda>t. if t = n then (tcbs ?s t)\<lparr>tcb_state := NIMBLE_TASK_RUNNING\<rparr>
                       else if nimble_current_tcb ?s = Some t \<and> task_state ?s t = NIMBLE_TASK_RUNNING
                       then (tcbs ?s t)\<lparr>tcb_state := NIMBLE_TASK_READY\<rparr> else tcbs ?s t,
            nimble_next_tcb := Some n, heap := heap s1, ready_bitmap := ready_bitmap s1\<rparr>"
    using select_next_inv [OF i ok'] run unfolding L by blast
  have nx: "nimble_next_tcb s1 = Some n" by (subst f) simp
  let ?s' = "(load_r4_r11 (tcb_sp (tcbs s1 n)) (s1\<lparr>nimble_current_tcb := Some n\<rparr>))
            \<lparr>psp := tcb_sp (tcbs s1 n) + 32\<rparr>"
  have "PendSV_Handler s = Some ?s'"
    using sel nx by (auto simp: PendSV_Handler_def switch_out_def Let_def split: option.splits)
  moreover have "sched_inv b {} H N (delist (Link n) (requeue_lists s L)) ?s'"
    using sched_inv_switch [OF i1 n] one fe
    by (simp add: load_r4_r11_def free_node_delist_other)
  moreover have "task_state ?s' n = NIMBLE_TASK_RUNNING" using one n by (simp add: load_r4_r11_def)
  ultimately show ?thesis using sel top by blast
qed

lemma start_inv:
  assumes inv: "sched_inv True {} H N L s" and cur: "nimble_current_tcb s = None"
    and run: "\<exists>p<32. L (ReadyList p) \<noteq> []"
  shows "\<exists>n p ns s'. nimble_scheduler_start s = Some s' \<and> top_ready L p \<and>
     L (ReadyList p) = Link n # ns \<and> sched_inv True {} H N (delist (Link n) L) s' \<and>
     nimble_current_tcb s' = Some n \<and> task_state s' n = NIMBLE_TASK_RUNNING \<and>
     basepri s' = 0 \<and> pendsv s' = pendsv s \<and> psp s' = tcb_sp (tcbs s n) + 32 \<and>
     mem s' = mem s \<and> g_tick_count s' = g_tick_count s \<and>
     (\<forall>r. reg s' r = reg (load_r4_r11 (tcb_sp (tcbs s n)) s) r) \<and>
     tcbs s' = (tcbs s)(n := (tcbs s n)\<lparr>tcb_state := NIMBLE_TASK_RUNNING\<rparr>) \<and>
     mutexes s' = mutexes s \<and> semaphores s' = semaphores s \<and> queues s' = queues s \<and> timers s' = timers s \<and>
     syms s' = syms s"
proof -
  have L: "requeue_lists s L = L" using cur by (simp add: requeue_lists_def)
  obtain n p ns s1 where sel: "nimble_scheduler_select_next s = Some (n, s1)"
    and top: "top_ready L p" "L (ReadyList p) = Link n # ns"
    and n: "Link n \<in> N" and fe: "free_node H L (EventLink n)"
    and i1: "sched_inv True {n} H N (delist (Link n) L) s1"
    and one: "\<forall>t. Link t \<in> N \<longrightarrow> task_state s1 t = NIMBLE_TASK_RUNNING \<longleftrightarrow> t = n"
    and f: "s1 = s\<lparr>tcbs := \<lambda>t. if t = n then (tcbs s t)\<lparr>tcb_state := NIMBLE_TASK_RUNNING\<rparr>
                       else if nimble_current_tcb s = Some t \<and> task_state s t = NIMBLE_TASK_RUNNING
                       then (tcbs s t)\<lparr>tcb_state := NIMBLE_TASK_READY\<rparr> else tcbs s t,
            nimble_next_tcb := Some n, heap := heap s1, ready_bitmap := ready_bitmap s1\<rparr>"
    using select_next_inv [OF inv] run unfolding L by blast
  have f1: "nimble_next_tcb s1 = Some n" "tcb_sp (tcbs s1 n) = tcb_sp (tcbs s n)"
    "mutexes s1 = mutexes s" "semaphores s1 = semaphores s" "queues s1 = queues s" "timers s1 = timers s"
    "mem s1 = mem s" "reg s1 = reg s" "pendsv s1 = pendsv s" "g_tick_count s1 = g_tick_count s"
    "syms s1 = syms s"
    by (subst f, simp)+
  have t1: "tcbs s1 = (tcbs s)(n := (tcbs s n)\<lparr>tcb_state := NIMBLE_TASK_RUNNING\<rparr>)"
    by (subst f) (auto simp: cur fun_eq_iff)
  let ?s2 = "s1\<lparr>nimble_next_tcb := Some n, nimble_current_tcb := Some n\<rparr>"
  let ?s' = "(load_r4_r11 (tcb_sp (tcbs s n)) ?s2)\<lparr>psp := tcb_sp (tcbs s n) + 32, basepri := 0\<rparr>"
  have "nimble_scheduler_start s = Some ?s'"
    using sel f1 by (simp add: nimble_scheduler_start_def nimble_port_start_first_task_def SVC_Handler_def
        Let_def)
  moreover have "sched_inv True {} H N (delist (Link n) L) ?s'"
    using sched_inv_switch [of True n H N "delist (Link n) L" "s1\<lparr>nimble_next_tcb := Some n\<rparr>"]
      i1 n one fe by (simp add: load_r4_r11_def free_node_delist_other)
  moreover have "task_state ?s' n = NIMBLE_TASK_RUNNING" using one n by (simp add: load_r4_r11_def)
  ultimately show ?thesis using top f1 t1 by (auto simp: load_r4_r11_def)
qed

section \<open>The tick interrupt\<close>

lemma SysTick_inv:
  assumes inv: "sched_inv b {} H N L s" and ts: "L DelayedList = map Link ts"
  shows "\<exists>s'. SysTick_Handler s = Some s' \<and> sched_inv b {} H N (tick_lists s ts L) s' \<and>
     s' = s\<lparr>g_tick_count := g_tick_count s + 1, pendsv := True,
            tcbs := \<lambda>t. if t \<in> set ts \<and> tick_due (s\<lparr>g_tick_count := g_tick_count s + 1\<rparr>) t
                       then timed_out (tcbs s t) else tcbs s t,
            heap := heap s', ready_bitmap := ready_bitmap s'\<rparr>"
proof -
  let ?s = "s\<lparr>basepri := NIMBLE_KERNEL_SYSCALL_BASEPRI\<rparr>"
  let ?T = "\<lambda>t. if t \<in> set ts \<and> tick_due (s\<lparr>g_tick_count := g_tick_count s + 1\<rparr>) t
                       then timed_out (tcbs s t) else tcbs s t"
  have i: "sched_inv b {} H N L ?s" using inv by simp
  have due: "tick_due (?s\<lparr>g_tick_count := g_tick_count s + 1\<rparr>) =
      tick_due (s\<lparr>g_tick_count := g_tick_count s + 1\<rparr>)"
    by (simp add: fun_eq_iff tick_due_def)
  have L: "tick_lists ?s ts L = tick_lists s ts L"
    using due by (simp add: tick_lists_def wake_all_def)
  obtain s1 where s1: "nimble_scheduler_tick ?s = Some s1"
    and i1: "sched_inv b {} H N (tick_lists s ts L) s1"
    and f1: "s1 = ?s\<lparr>g_tick_count := g_tick_count s + 1, pendsv := True, tcbs := ?T,
            heap := heap s1, ready_bitmap := ready_bitmap s1\<rparr>"
    using tick_inv [OF i ts] due unfolding L by (auto cong: if_cong)
  let ?s' = "s1\<lparr>basepri := basepri s\<rparr>"
  have "SysTick_Handler s = Some ?s'"
    using s1 by (simp add: SysTick_Handler_def nimble_port_enter_critical_def nimble_port_exit_critical_def)
  moreover have "sched_inv b {} H N (tick_lists s ts L) ?s'" using i1 by simp
  moreover have "?s' = s\<lparr>g_tick_count := g_tick_count s + 1, pendsv := True, tcbs := ?T,
      heap := heap ?s', ready_bitmap := ready_bitmap ?s'\<rparr>"
    by (subst (1) f1) simp
  ultimately show ?thesis by blast
qed

lemma tick_lists_delayed:
  assumes "L DelayedList = map Link ts"
  shows "tick_lists s ts L DelayedList =
     map Link (filter (\<lambda>t. \<not> tick_due (s\<lparr>g_tick_count := g_tick_count s + 1\<rparr>) t) ts)"
proof -
  let ?D = "set (filter (tick_due (s\<lparr>g_tick_count := g_tick_count s + 1\<rparr>)) ts)"
  have "tick_lists s ts L DelayedList =
      map Link (filter (\<lambda>x. Link x \<notin> Link ` ?D \<and> Link x \<notin> EventLink ` ?D) ts)"
    unfolding tick_lists_def by (subst wake_all_other) (simp_all add: assms filter_map comp_def)
  also have "\<dots> = map Link (filter (\<lambda>t. \<not> tick_due (s\<lparr>g_tick_count := g_tick_count s + 1\<rparr>) t) ts)"
    by (rule arg_cong [where f = "map Link"], rule filter_cong) auto
  finally show ?thesis .
qed

end
