(* ===== verification/Wait_List.thy ===== *)
theory Wait_List
  imports Task_Correct
begin

text \<open>
  The wait lists of the synchronisation objects. \<^verbatim>\<open>mutex.c\<close>, \<^verbatim>\<open>semaphore.c\<close> and
  \<^verbatim>\<open>queue.c\<close> each have their own copy of \<^verbatim>\<open>insert_waiter_priority_sorted\<close>; the
  search loop is \<open>waiter_position\<close> in all three. The locale \<open>wait_list\<close> states what a
  blocking call relies on and derives the common part of the three blocking calls, and each
  copy is shown to provide it.
\<close>

section \<open>Operations\<close>

partial_function (option) waiter_position :: "node \<Rightarrow> u8 \<Rightarrow> node \<Rightarrow> kernel \<Rightarrow> node option" where
  "waiter_position waiters prio node s =
     (if node = waiters then Some node
      else do { other \<leftarrow> container_of_event_link node;
                if prio > task_priority s other then Some node
                else waiter_position waiters prio (node_next (heap s) node) s })"

definition mutex_insert_waiter_priority_sorted :: "node \<Rightarrow> tcb_ptr \<Rightarrow> kernel \<Rightarrow> kernel option" where
  "mutex_insert_waiter_priority_sorted waiters t s =
     do { node \<leftarrow> waiter_position waiters (task_priority s t) (node_next (heap s) waiters) s;
          Some (update_heap (link_before node (EventLink t)) s) }"

definition semaphore_insert_waiter_priority_sorted :: "node \<Rightarrow> tcb_ptr \<Rightarrow> kernel \<Rightarrow> kernel option" where
  "semaphore_insert_waiter_priority_sorted waiters t s =
     do { node \<leftarrow> waiter_position waiters (task_priority s t) (node_next (heap s) waiters) s;
          Some (update_heap (link_before node (EventLink t)) s) }"

definition queue_insert_waiter_priority_sorted :: "node \<Rightarrow> tcb_ptr \<Rightarrow> kernel \<Rightarrow> kernel option" where
  "queue_insert_waiter_priority_sorted waiters t s =
     do { node \<leftarrow> waiter_position waiters (task_priority s t) (node_next (heap s) waiters) s;
          Some (update_heap (link_before node (EventLink t)) s) }"

text \<open>A call that may block either returns or gives up the processor until it is resumed.\<close>

datatype 'a call_result = Returns 'a | Blocks

section \<open>Priority order\<close>

definition prio_insert :: "(tcb_ptr \<Rightarrow> u8) \<Rightarrow> tcb_ptr \<Rightarrow> tcb_ptr list \<Rightarrow> tcb_ptr list" where
  "prio_insert pr t ts =
     takeWhile (\<lambda>x. pr t \<le> pr x) ts @ t # dropWhile (\<lambda>x. pr t \<le> pr x) ts"

definition prio_sorted :: "(tcb_ptr \<Rightarrow> u8) \<Rightarrow> tcb_ptr list \<Rightarrow> bool" where
  "prio_sorted pr ts \<longleftrightarrow> sorted_wrt (\<lambda>x y. pr y \<le> pr x) ts"

lemma set_prio_insert [simp]: "set (prio_insert pr t ts) = insert t (set ts)"
proof -
  have "set ts = set (takeWhile (\<lambda>x. pr t \<le> pr x) ts) \<union> set (dropWhile (\<lambda>x. pr t \<le> pr x) ts)"
    by (metis set_append takeWhile_dropWhile_id)
  then show ?thesis unfolding prio_insert_def by (simp add: Un_commute)
qed

lemma prio_insert_simps:
  "prio_insert pr t [] = [t]"
  "prio_insert pr t (x # xs) = (if pr t \<le> pr x then x # prio_insert pr t xs else t # x # xs)"
  by (simp_all add: prio_insert_def)

lemma prio_sorted_Cons:
  "prio_sorted pr (x # xs) \<longleftrightarrow> (\<forall>y\<in>set xs. pr y \<le> pr x) \<and> prio_sorted pr xs"
  by (simp add: prio_sorted_def)

lemma prio_sorted_insert: "prio_sorted pr ts \<Longrightarrow> prio_sorted pr (prio_insert pr t ts)"
proof (induction ts)
  case Nil
  show ?case by (simp add: prio_insert_simps prio_sorted_def)
next
  case (Cons x xs)
  then have x: "\<forall>y\<in>set xs. pr y \<le> pr x" and xs: "prio_sorted pr xs"
    and IH: "prio_sorted pr (prio_insert pr t xs)"
    by (auto simp: prio_sorted_Cons)
  show ?case
  proof (cases "pr t \<le> pr x")
    case True
    then show ?thesis using x IH by (simp add: prio_insert_simps prio_sorted_Cons)
  next
    case False
    then have "\<forall>y\<in>set (x # xs). pr y \<le> pr t" using x by auto
    then show ?thesis using False Cons.prems by (simp add: prio_insert_simps prio_sorted_Cons)
  qed
qed

text \<open>The head of a priority-ordered list is a waiter of the highest priority.\<close>

lemma prio_sorted_head: "prio_sorted pr (t # ts) \<Longrightarrow> x \<in> set ts \<Longrightarrow> pr x \<le> pr t"
  by (simp add: prio_sorted_def)

lemma prio_sorted_removeAll: "prio_sorted pr ts \<Longrightarrow> prio_sorted pr (removeAll t ts)"
  by (simp add: prio_sorted_def removeAll_filter_not_eq sorted_wrt_filter)

lemma prio_sorted_cong:
  "(\<And>x. x \<in> set ts \<Longrightarrow> pr x = pr' x) \<Longrightarrow> prio_sorted pr ts = prio_sorted pr' ts"
  unfolding prio_sorted_def by (induction ts) auto

section \<open>The search loop\<close>

lemma wait_links:
  assumes "shape H N L" "k \<in> H" "wait_head k"
  shows "\<exists>ts. L k = map EventLink ts"
  using shape_fits [OF assms(1,2)] fits_wait_head [OF assms(3)] by (simp add: ex_map_conv)

lemma waiter_position_eq:
  assumes r: "repr H N L (heap s)" and k: "k \<in> H" "wait_head k"
    and L: "L k = map EventLink (xs @ ys)"
  shows "waiter_position k prio (hd (map EventLink ys @ [k])) s =
           Some (hd (map EventLink (dropWhile (\<lambda>x. prio \<le> task_priority s x) ys) @ [k]))"
  using L
proof (induction ys arbitrary: xs)
  case Nil
  show ?case by (subst waiter_position.simps) simp
next
  case (Cons y ys)
  have ny: "EventLink y \<noteq> k" using k(2) by auto
  have nx: "node_next (heap s) (EventLink y) = hd (map EventLink ys @ [k])"
    using repr_next_member [OF r k(1), of "map EventLink xs" "EventLink y" "map EventLink ys"]
      Cons.prems by simp
  show ?case
  proof (cases "prio \<le> task_priority s y")
    case True
    have "waiter_position k prio (hd (map EventLink ys @ [k])) s =
        Some (hd (map EventLink (dropWhile (\<lambda>x. prio \<le> task_priority s x) ys) @ [k]))"
      using Cons.IH [of "xs @ [y]"] Cons.prems by simp
    moreover have "\<not> task_priority s y < prio" using True by simp
    ultimately show ?thesis using True ny nx by (subst waiter_position.simps) simp
  next
    case False
    moreover have "task_priority s y < prio" using False by simp
    ultimately show ?thesis using ny by (subst waiter_position.simps) simp
  qed
qed

lemma insert_waiter_spec:
  assumes inv: "sched_inv b {} H N L s" and k: "k \<in> H" "wait_head k" and t: "Link t \<in> N"
    and fe: "free_node H L (EventLink t)" and L: "L k = map EventLink ts"
    and ins: "ins = (\<lambda>waiters t s.
        do { node \<leftarrow> waiter_position waiters (task_priority s t) (node_next (heap s) waiters) s;
             Some (update_heap (link_before node (EventLink t)) s) })"
  shows "\<exists>s'. ins k t s = Some s' \<and>
     sched_inv b {t} H N (L(k := map EventLink (prio_insert (task_priority s) t ts))) s' \<and>
     s' = s\<lparr>heap := heap s'\<rparr>"
proof -
  let ?P = "\<lambda>x. task_priority s t \<le> task_priority s x"
  let ?q = "hd (map EventLink (dropWhile ?P ts) @ [k])"
  have r: "repr H N L (heap s)" using inv by (rule sched_inv_repr)
  have "node_next (heap s) k = hd (map EventLink ts @ [k])" using repr_next_head [OF r k(1)] L by simp
  then have pos: "waiter_position k (task_priority s t) (node_next (heap s) k) s = Some ?q"
    using waiter_position_eq [OF r k, of "[]" ts] L by simp
  have "L k = map EventLink (takeWhile ?P ts) @ map EventLink (dropWhile ?P ts)"
    using L by (simp flip: map_append)
  from wait_insert_inv [OF inv k t fe this]
  have "sched_inv b {t} H N (L(k := map EventLink (prio_insert (task_priority s) t ts)))
      (update_heap (link_before ?q (EventLink t)) s)"
    by (simp add: prio_insert_def)
  then show ?thesis using pos by (simp add: ins update_heap_def)
qed

section \<open>Initialising a wait list\<close>

lemma init_head_inv:
  assumes inv: "sched_inv b X H N L s" and hd: "is_head k" and new: "k \<notin> H"
    and nr: "\<And>p. k \<noteq> ReadyList p" "k \<noteq> DelayedList"
  shows "sched_inv b X (insert k H) N (L(k := [])) (update_heap (nimble_list_init k) s)"
proof -
  have r: "repr H N L (heap s)" and sh: "shape H N L"
    using inv by (auto intro: sched_inv_repr sched_inv_shape)
  have "k \<notin> H \<union> N" using new shape_nodes [OF sh, of k] hd by auto
  from repr_init_head [OF r this]
  have "repr (insert k H) N (L(k := [])) (heap (update_heap (nimble_list_init k) s))"
    by (simp add: update_heap_def)
  moreover have "shape (insert k H) N (L(k := []))"
    using sh hd nr unfolding shape_def by auto
  moreover have "tasks_inv b X (insert k H) N (L(k := [])) (update_heap (nimble_list_init k) s)"
  proof -
    note D = tasks_invD [OF sched_inv_tasks [OF inv]]
    have R: "(L(k := [])) (ReadyList p) = L (ReadyList p)" "(L(k := [])) DelayedList = L DelayedList" for p
      using nr by (metis fun_upd_other)+
    have E: "k' \<in> H \<and> EventLink t \<in> set (L k')"
      if "k' \<in> insert k H" "EventLink t \<in> set ((L(k := [])) k')" for k' t
      using that by (auto split: if_splits)
    have "tasks_inv b X (insert k H) N (L(k := [])) s"
      by (rule tasks_invI; (unfold R)?)
        (fact D(1), fact D(2), fact D(3), fact D(4), fact D(5), fact D(6), use E D(7) in blast,
         fact D(8), fact D(9))
    then show ?thesis by (simp add: update_heap_def)
  qed
  moreover have "bitmap_inv b (L(k := [])) (ready_bitmap s)"
    using nr by (intro bitmap_cong [OF sched_inv_bitmap [OF inv]]) auto
  ultimately show ?thesis by (simp add: sched_inv_def update_heap_def)
qed

lemma init_wait_head_inv:
  assumes "sched_inv b X H N L s" "wait_head k" "k \<notin> H"
  shows "sched_inv b X (insert k H) N (L(k := [])) (update_heap (nimble_list_init k) s)"
  using assms(2) by (intro init_head_inv [OF assms(1) _ assms(3)]) (cases k; simp)+

section \<open>Leaving a wait list after the switch\<close>

text \<open>A running task is on no wait list, so the defensive removal changes nothing.\<close>

lemma resume_detach_inv:
  assumes inv: "sched_inv b {} H N L s" and t: "Link t \<in> N"
    and run: "task_state s t = NIMBLE_TASK_RUNNING"
  shows "sched_inv b {} H N L (update_heap (nimble_list_remove (EventLink t)) s)"
proof -
  have "free_node H L (EventLink t)" using event_free [OF inv, of t] run by simp
  then show ?thesis
    by (intro sched_inv_lists_cong [OF delist_event_inv [OF inv t]]) (simp add: free_node_def)
qed

section \<open>What a blocking call relies on\<close>

locale wait_list =
  fixes ins :: "node \<Rightarrow> tcb_ptr \<Rightarrow> kernel \<Rightarrow> kernel option"
  assumes ins_spec:
    "\<lbrakk>sched_inv b {} H N L s; k \<in> H; wait_head k; Link t \<in> N; free_node H L (EventLink t);
      L k = map EventLink ts\<rbrakk> \<Longrightarrow>
     \<exists>s'. ins k t s = Some s' \<and>
       sched_inv b {t} H N (L(k := map EventLink (prio_insert (task_priority s) t ts))) s' \<and>
       s' = s\<lparr>heap := heap s'\<rparr>"
begin

text \<open>
  The blocking half that all three kinds of object share: join the wait list in priority
  order, leave the ready structures, and arm the timeout.
\<close>

lemma block_on:
  assumes inv: "sched_inv b {} H N L s" and cur: "nimble_current_tcb s = Some t"
    and run: "task_state s t = NIMBLE_TASK_RUNNING" and k: "k \<in> H" "wait_head k"
    and L: "L k = map EventLink ts"
  shows "\<exists>s'. do { s \<leftarrow> ins k t s; nimble_scheduler_prepare_block t w s } = Some s' \<and>
     sched_inv b {} H N
       (block_lists t w (L(k := map EventLink (prio_insert (task_priority s) t ts)))) s' \<and>
     s' = s\<lparr>tcbs := (tcbs s)(t := (tcbs s t)\<lparr>tcb_state := NIMBLE_TASK_BLOCKED,
                 tcb_wake_tick := if w = NIMBLE_WAIT_FOREVER then tcb_wake_tick (tcbs s t)
                                  else g_tick_count s + w\<rparr>),
            heap := heap s', ready_bitmap := ready_bitmap s'\<rparr>"
proof -
  have tN: "Link t \<in> N" using tasks_inv_current [OF sched_inv_tasks [OF inv] cur] .
  have fe: "free_node H L (EventLink t)" using event_free [OF inv, of t] run by simp
  let ?L = "L(k := map EventLink (prio_insert (task_priority s) t ts))"
  obtain s1 where s1: "ins k t s = Some s1" and i1: "sched_inv b {t} H N ?L s1"
    and f1: "s1 = s\<lparr>heap := heap s1\<rparr>"
    using ins_spec [OF inv k tN fe L] by blast
  obtain s2 where s2: "nimble_scheduler_prepare_block t w s1 = Some s2"
    using prepare_block_returns [OF i1 tN] by blast
  have "do { s \<leftarrow> ins k t s; nimble_scheduler_prepare_block t w s } = Some s2"
    using s1 s2 by simp
  moreover have "sched_inv b {} H N (block_lists t w ?L) s2"
    using prepare_block_inv [OF i1 tN s2] by simp
  moreover have "s2 = s\<lparr>tcbs := (tcbs s)(t := (tcbs s t)\<lparr>tcb_state := NIMBLE_TASK_BLOCKED,
                 tcb_wake_tick := if w = NIMBLE_WAIT_FOREVER then tcb_wake_tick (tcbs s t)
                                  else g_tick_count s + w\<rparr>),
            heap := heap s2, ready_bitmap := ready_bitmap s2\<rparr>"
    using prepare_block_frame [OF s2] f1 by (cases s1; cases s; cases s2) simp
  ultimately show ?thesis by blast
qed

lemma block_call:
  assumes inv: "sched_inv b {} H N L s" and cur: "nimble_current_tcb s = Some t"
    and run: "task_state s t = NIMBLE_TASK_RUNNING" and k: "k \<in> H" "wait_head k"
    and L: "L k = map EventLink ts"
  shows "\<exists>s'. do { s1 \<leftarrow> ins k t (s\<lparr>basepri := NIMBLE_KERNEL_SYSCALL_BASEPRI\<rparr>);
              s2 \<leftarrow> nimble_scheduler_prepare_block t w s1;
              Some (Blocks, nimble_port_request_context_switch (nimble_port_exit_critical (basepri s) s2)) }
            = Some (Blocks, s') \<and>
     sched_inv b {} H N
       (block_lists t w (L(k := map EventLink (prio_insert (task_priority s) t ts)))) s' \<and>
     s' = s\<lparr>tcbs := (tcbs s)(t := (tcbs s t)\<lparr>tcb_state := NIMBLE_TASK_BLOCKED,
                 tcb_wake_tick := if w = NIMBLE_WAIT_FOREVER then tcb_wake_tick (tcbs s t)
                                  else g_tick_count s + w\<rparr>),
            pendsv := True, heap := heap s', ready_bitmap := ready_bitmap s'\<rparr>"
proof -
  let ?s = "s\<lparr>basepri := NIMBLE_KERNEL_SYSCALL_BASEPRI\<rparr>"
  let ?L = "block_lists t w (L(k := map EventLink (prio_insert (task_priority s) t ts)))"
  let ?T = "(tcbs s)(t := (tcbs s t)\<lparr>tcb_state := NIMBLE_TASK_BLOCKED,
                 tcb_wake_tick := if w = NIMBLE_WAIT_FOREVER then tcb_wake_tick (tcbs s t)
                                  else g_tick_count s + w\<rparr>)"
  have i: "sched_inv b {} H N L ?s" using inv by simp
  obtain s2 where s2: "do { s \<leftarrow> ins k t ?s; nimble_scheduler_prepare_block t w s } = Some s2"
    and i2: "sched_inv b {} H N ?L s2"
    and f2: "s2 = ?s\<lparr>tcbs := ?T, heap := heap s2, ready_bitmap := ready_bitmap s2\<rparr>"
    using block_on [OF i _ _ k L, of t w] cur run by (auto cong: if_cong)
  obtain s1 where "ins k t ?s = Some s1" "nimble_scheduler_prepare_block t w s1 = Some s2"
    using s2 by (auto split: bind_splits)
  moreover have "sched_inv b {} H N ?L
      (nimble_port_request_context_switch (nimble_port_exit_critical (basepri s) s2))" (is "sched_inv _ _ _ _ _ ?s'")
    using i2 by (simp add: nimble_port_request_context_switch_def nimble_port_exit_critical_def)
  moreover have "?s' = s\<lparr>tcbs := ?T, pendsv := True, heap := heap ?s', ready_bitmap := ready_bitmap ?s'\<rparr>"
    by (subst f2) (simp add: nimble_port_request_context_switch_def nimble_port_exit_critical_def)
  ultimately show ?thesis by auto
qed

end

interpretation mutex_wait: wait_list mutex_insert_waiter_priority_sorted
  by unfold_locales
    (rule insert_waiter_spec, (assumption | simp add: fun_eq_iff mutex_insert_waiter_priority_sorted_def)+)

interpretation semaphore_wait: wait_list semaphore_insert_waiter_priority_sorted
  by unfold_locales
    (rule insert_waiter_spec, (assumption | simp add: fun_eq_iff semaphore_insert_waiter_priority_sorted_def)+)

interpretation queue_wait: wait_list queue_insert_waiter_priority_sorted
  by unfold_locales
    (rule insert_waiter_spec, (assumption | simp add: fun_eq_iff queue_insert_waiter_priority_sorted_def)+)

section \<open>Priority-ordered wait lists\<close>

definition waits_sorted :: "node set \<Rightarrow> (node \<Rightarrow> node list) \<Rightarrow> (tcb_ptr \<Rightarrow> u8) \<Rightarrow> bool" where
  "waits_sorted H L pr \<longleftrightarrow>
     (\<forall>k\<in>H. wait_head k \<longrightarrow> (\<exists>ts. L k = map EventLink ts \<and> prio_sorted pr ts))"

lemma waits_sorted_at:
  assumes "waits_sorted H L pr" "k \<in> H" "wait_head k" "L k = map EventLink ts"
  shows "prio_sorted pr ts"
proof -
  obtain ts' where "L k = map EventLink ts'" "prio_sorted pr ts'"
    using assms(1-3) unfolding waits_sorted_def by blast
  moreover have "ts' = ts" using calculation(1) assms(4) by (auto intro: map_injective simp: inj_def)
  ultimately show ?thesis by simp
qed

section \<open>Waking the first waiter, if there is one\<close>

definition first_waiter :: "node \<Rightarrow> (node \<Rightarrow> node list) \<Rightarrow> tcb_ptr option" where
  "first_waiter k L = (case L k of [] \<Rightarrow> None | n # _ \<Rightarrow> container_of_event_link n)"

definition woken_lists :: "kernel \<Rightarrow> tcb_ptr option \<Rightarrow> (node \<Rightarrow> node list) \<Rightarrow> node \<Rightarrow> node list" where
  "woken_lists s w L = (case w of None \<Rightarrow> L | Some t \<Rightarrow> wake_lists (unat (task_priority s t)) t L)"

definition woken_tcbs :: "tcb_ptr option \<Rightarrow> (tcb_ptr \<Rightarrow> nimble_tcb) \<Rightarrow> tcb_ptr \<Rightarrow> nimble_tcb" where
  "woken_tcbs w T =
     (case w of None \<Rightarrow> T
      | Some t \<Rightarrow> T(t := (T t)\<lparr>tcb_last_wait_result := NIMBLE_OK, tcb_state := NIMBLE_TASK_READY\<rparr>))"

lemma first_waiter_simps [simp]:
  "L k = [] \<Longrightarrow> first_waiter k L = None"
  "L k = EventLink t # ws \<Longrightarrow> first_waiter k L = Some t"
  by (simp_all add: first_waiter_def)

lemma wake_waiter_total:
  assumes inv: "sched_inv b {} H N L s" and k: "k \<in> H" "wait_head k"
  shows "\<exists>s'. nimble_scheduler_wake_waiter k s = Some (first_waiter k L, s') \<and>
     sched_inv b {} H N (woken_lists s (first_waiter k L) L) s' \<and>
     s' = s\<lparr>tcbs := woken_tcbs (first_waiter k L) (tcbs s), heap := heap s', ready_bitmap := ready_bitmap s'\<rparr>"
proof (cases "L k")
  case Nil
  then show ?thesis
    using wake_waiter_empty [OF sched_inv_repr [OF inv] k(1)] inv
    by (simp add: woken_lists_def woken_tcbs_def)
next
  case (Cons n ns)
  obtain t where "n = EventLink t"
    using shape_wait_member [OF sched_inv_shape [OF inv] k, of n] Cons by auto
  then have "L k = EventLink t # ns" and e: "t \<notin> {}" using Cons by simp_all
  from wake_waiter_inv [OF inv k(1) this] this(1) show ?thesis
    by (simp add: woken_lists_def woken_tcbs_def)
qed

lemma woken_lists_cong: "tcbs s' = tcbs s \<Longrightarrow> woken_lists s' w L = woken_lists s w L"
  by (simp add: woken_lists_def split: option.splits)

text \<open>Waking a waiter can only shorten a wait list.\<close>

lemma woken_lists_wait:
  assumes "wait_head k"
  shows "set (woken_lists s w L k) \<subseteq> set (L k)"
  using assms by (cases k) (auto simp: woken_lists_def wake_lists_def split: option.splits)

end
