(* ===== verification/Mutex.thy ===== *)
theory Mutex
  imports Wait_List
begin

text \<open>
  The priority-inheritance mutex of \<^verbatim>\<open>kernel/src/mutex.c\<close>.
  \<^verbatim>\<open>nimble_mutex_lock\<close> is split where it gives up the processor:
  \<open>nimble_mutex_lock\<close> runs to the return or to the context switch, and
  \<open>nimble_mutex_lock_resume\<close> is the rest of the function, run when the task is
  switched in again.
\<close>

section \<open>Operations\<close>

definition nimble_mutex_init :: "mutex_ptr \<Rightarrow> kernel \<Rightarrow> kernel" where
  "nimble_mutex_init m s =
     (let s = update_mutex m (mutex_owner_update (\<lambda>_. None)) s;
          s = update_mutex m (mutex_lock_count_update (\<lambda>_. 0)) s
      in update_heap (nimble_list_init (MutexWaiters m)) s)"

definition nimble_mutex_lock ::
  "mutex_ptr \<Rightarrow> nimble_tick_t \<Rightarrow> kernel \<Rightarrow> (nimble_status_t call_result \<times> kernel) option" where
  "nimble_mutex_lock m timeout_ticks s =
     (let (crit, s) = nimble_port_enter_critical s;
          self = nimble_current_tcb s
      in if mutex_owner (mutexes s m) = None then
           let s = update_mutex m (mutex_owner_update (\<lambda>_. self)) s;
               s = update_mutex m (mutex_lock_count_update (\<lambda>_. 1)) s
           in Some (Returns NIMBLE_OK, nimble_port_exit_critical crit s)
         else if mutex_owner (mutexes s m) = self then
           let s = update_mutex m (mutex_lock_count_update (\<lambda>c. c + 1)) s
           in Some (Returns NIMBLE_OK, nimble_port_exit_critical crit s)
         else if timeout_ticks = NIMBLE_NO_WAIT then
           Some (Returns NIMBLE_ERR_TIMEOUT, nimble_port_exit_critical crit s)
         else
           do { owner \<leftarrow> mutex_owner (mutexes s m);
                t \<leftarrow> self;
                let s = (if task_priority s t > task_priority s owner
                         then update_tcb owner (tcb_priority_update (\<lambda>_. task_priority s t)) s
                         else s);
                s \<leftarrow> mutex_insert_waiter_priority_sorted (MutexWaiters m) t s;
                s \<leftarrow> nimble_scheduler_prepare_block t timeout_ticks s;
                let s = nimble_port_exit_critical crit s;
                Some (Blocks, nimble_port_request_context_switch s) })"

definition nimble_mutex_lock_resume ::
  "mutex_ptr \<Rightarrow> tcb_ptr \<Rightarrow> kernel \<Rightarrow> nimble_status_t \<times> kernel" where
  "nimble_mutex_lock_resume m self s =
     (let (crit, s) = nimble_port_enter_critical s;
          (result, s) =
            (if mutex_owner (mutexes s m) = Some self then (NIMBLE_OK, s)
             else (NIMBLE_ERR_TIMEOUT, update_heap (nimble_list_remove (EventLink self)) s))
      in (result, nimble_port_exit_critical crit s))"

definition nimble_mutex_unlock :: "mutex_ptr \<Rightarrow> kernel \<Rightarrow> (nimble_status_t \<times> kernel) option" where
  "nimble_mutex_unlock m s =
     (let (crit, s) = nimble_port_enter_critical s
      in if mutex_owner (mutexes s m) \<noteq> nimble_current_tcb s
         then Some (NIMBLE_ERR_NOT_OWNER, nimble_port_exit_critical crit s)
         else
           let s = update_mutex m (mutex_lock_count_update (\<lambda>c. c - 1)) s
           in if mutex_lock_count (mutexes s m) > 0
              then Some (NIMBLE_OK, nimble_port_exit_critical crit s)
              else
                do { owner \<leftarrow> mutex_owner (mutexes s m);
                     let s = update_tcb owner (\<lambda>c. c\<lparr>tcb_priority := tcb_base_priority c\<rparr>) s;
                     let s = update_mutex m (mutex_owner_update (\<lambda>_. None)) s;
                     (woken, s) \<leftarrow> nimble_scheduler_wake_waiter (MutexWaiters m) s;
                     let s = (case woken of
                                None \<Rightarrow> s
                              | Some t \<Rightarrow>
                                  let s = update_mutex m (mutex_owner_update (\<lambda>_. Some t)) s
                                  in update_mutex m (mutex_lock_count_update (\<lambda>_. 1)) s);
                     let s = nimble_port_exit_critical crit s;
                     Some (NIMBLE_OK,
                       if woken \<noteq> None then nimble_port_request_context_switch s else s) })"

section \<open>Changing a priority\<close>

lemma set_priority_inv:
  assumes inv: "sched_inv b X H N L s" and p: "Link t \<in> N \<Longrightarrow> unat p < 32"
    and ok: "b' \<Longrightarrow> b \<and> (task_state s t \<noteq> NIMBLE_TASK_READY \<or> p = task_priority s t)"
  shows "sched_inv b' X H N L (update_tcb t (tcb_priority_update (\<lambda>_. p)) s)" (is "sched_inv _ _ _ _ _ ?s")
proof -
  note D = tasks_invD [OF sched_inv_tasks [OF inv]]
  have st: "task_state ?s t' = task_state s t'"
    "tcb_base_priority (tcbs ?s t') = tcb_base_priority (tcbs s t')"
    "task_priority ?s t' = (if t' = t then p else task_priority s t')"
    "nimble_current_tcb ?s = nimble_current_tcb s" for t'
    by (simp_all add: update_tcb_def)
  have "tasks_inv b' X H N L ?s"
  proof (rule tasks_invI)
    fix t' assume "Link t' \<in> N"
    then show "unat (task_priority ?s t') < 32" using D(1) [of t'] p by (cases "t' = t") (auto simp: st)
  next
    fix t' q assume b': b' and q: "q < 32" "Link t' \<in> set (L (ReadyList q))"
    have b using ok [OF b'] by simp
    then show "unat (task_priority ?s t') = q"
      using D(4) [OF _ q] D(3) [OF q] ok [OF b'] by (auto simp: st)
  qed (unfold st, fact D(2), fact D(3), fact D(5), fact D(6), fact D(7), fact D(8), fact D(9))
  moreover have "bitmap_inv b' L (ready_bitmap s)"
    by (rule bitmap_invI, erule (1) bitmap_inv_set [OF sched_inv_bitmap [OF inv]])
      (rule bitmap_inv_exact [OF sched_inv_bitmap [OF inv]], use ok in blast)
  ultimately show ?thesis using inv by (simp add: sched_inv_def update_tcb_def)
qed

section \<open>Initialisation\<close>

lemma mutex_init_inv:
  assumes inv: "sched_inv b X H N L s" and new: "MutexWaiters m \<notin> H"
  shows "sched_inv b X (insert (MutexWaiters m) H) N (L(MutexWaiters m := [])) (nimble_mutex_init m s)"
    and "mutexes (nimble_mutex_init m s) m = \<lparr>mutex_owner = None, mutex_lock_count = 0\<rparr>"
proof -
  have "nimble_mutex_init m s = (update_heap (nimble_list_init (MutexWaiters m)) s)
      \<lparr>mutexes := mutexes (nimble_mutex_init m s)\<rparr>"
    by (simp add: nimble_mutex_init_def Let_def update_mutex_def update_heap_def)
  moreover have "sched_inv b X (insert (MutexWaiters m) H) N (L(MutexWaiters m := []))
      (update_heap (nimble_list_init (MutexWaiters m)) s)"
    by (rule init_wait_head_inv [OF inv _ new]) simp
  ultimately show "sched_inv b X (insert (MutexWaiters m) H) N (L(MutexWaiters m := []))
      (nimble_mutex_init m s)"
    using sched_inv_fields(3) by metis
  show "mutexes (nimble_mutex_init m s) m = \<lparr>mutex_owner = None, mutex_lock_count = 0\<rparr>"
    by (simp add: nimble_mutex_init_def Let_def update_mutex_def update_heap_def)
qed

section \<open>Locking\<close>

lemma lock_free:
  "mutex_owner (mutexes s m) = None \<Longrightarrow>
   nimble_mutex_lock m w s =
     Some (Returns NIMBLE_OK, s\<lparr>mutexes := (mutexes s)(m :=
       (mutexes s m)\<lparr>mutex_owner := nimble_current_tcb s, mutex_lock_count := 1\<rparr>)\<rparr>)"
  by (cases s) (simp add: nimble_mutex_lock_def kdefs Let_def)

lemma lock_recursive:
  "mutex_owner (mutexes s m) = nimble_current_tcb s \<Longrightarrow> nimble_current_tcb s = Some t \<Longrightarrow>
   nimble_mutex_lock m w s =
     Some (Returns NIMBLE_OK, s\<lparr>mutexes := (mutexes s)(m :=
       mutex_lock_count_update (\<lambda>c. c + 1) (mutexes s m))\<rparr>)"
  by (cases s) (simp add: nimble_mutex_lock_def kdefs Let_def)

lemma lock_no_wait:
  "mutex_owner (mutexes s m) \<noteq> None \<Longrightarrow> mutex_owner (mutexes s m) \<noteq> nimble_current_tcb s \<Longrightarrow>
   nimble_mutex_lock m NIMBLE_NO_WAIT s = Some (Returns NIMBLE_ERR_TIMEOUT, s)"
  by (cases s) (auto simp: nimble_mutex_lock_def kdefs Let_def)

text \<open>The one assignment of priority inheritance.\<close>

definition boost :: "tcb_ptr \<Rightarrow> u8 \<Rightarrow> kernel \<Rightarrow> kernel" where
  "boost owner p s =
     (if p > task_priority s owner then update_tcb owner (tcb_priority_update (\<lambda>_. p)) s else s)"

lemma boost_fields [simp]:
  "task_state (boost w p s) t = task_state s t"
  "nimble_current_tcb (boost w p s) = nimble_current_tcb s"
  "mutexes (boost w p s) = mutexes s"
  "g_tick_count (boost w p s) = g_tick_count s"
  "tcb_base_priority (tcbs (boost w p s) t) = tcb_base_priority (tcbs s t)"
  "task_priority (boost w p s) t = (if t = w then max p (task_priority s w) else task_priority s t)"
  "t \<noteq> w \<Longrightarrow> tcbs (boost w p s) t = tcbs s t"
  by (auto simp: boost_def update_tcb_def max_def)

text \<open>
  Boosting keeps the scheduler's structures exact only when the owner is not on a ready list
  or keeps its priority.
\<close>

definition boost_ok :: "tcb_ptr \<Rightarrow> u8 \<Rightarrow> kernel \<Rightarrow> bool" where
  "boost_ok owner p s \<longleftrightarrow> task_state s owner \<noteq> NIMBLE_TASK_READY \<or> p \<le> task_priority s owner"

lemma boost_inv:
  assumes inv: "sched_inv b X H N L s" and p: "unat p < 32"
  shows "sched_inv (b \<and> boost_ok w p s) X H N L (boost w p s)"
proof (cases "p > task_priority s w")
  case True
  then show ?thesis
    unfolding boost_def if_P [OF True]
    by (intro set_priority_inv [OF inv]) (use p True in \<open>auto simp: boost_ok_def\<close>)
next
  case False
  then have "p \<le> task_priority s w" by simp
  with False show ?thesis using inv by (simp add: boost_def boost_ok_def)
qed

lemma lock_blocks:
  assumes inv: "sched_inv b {} H N L s" and cur: "nimble_current_tcb s = Some t"
    and run: "task_state s t = NIMBLE_TASK_RUNNING" and m: "MutexWaiters m \<in> H"
    and L: "L (MutexWaiters m) = map EventLink ts"
    and own: "mutex_owner (mutexes s m) = Some w" "w \<noteq> t" and to: "timeout \<noteq> NIMBLE_NO_WAIT"
  shows "\<exists>s'. nimble_mutex_lock m timeout s = Some (Blocks, s') \<and>
     sched_inv (b \<and> boost_ok w (task_priority s t) s) {} H N
       (block_lists t timeout (L(MutexWaiters m :=
          map EventLink (prio_insert (task_priority (boost w (task_priority s t) s)) t ts)))) s' \<and>
     s' = (boost w (task_priority s t) s)\<lparr>
            tcbs := (tcbs (boost w (task_priority s t) s))(t := (tcbs s t)\<lparr>tcb_state := NIMBLE_TASK_BLOCKED,
                 tcb_wake_tick := if timeout = NIMBLE_WAIT_FOREVER then tcb_wake_tick (tcbs s t)
                                  else g_tick_count s + timeout\<rparr>),
            pendsv := True, heap := heap s', ready_bitmap := ready_bitmap s'\<rparr>"
proof -
  let ?s0 = "s\<lparr>basepri := NIMBLE_KERNEL_SYSCALL_BASEPRI\<rparr>"
  let ?p = "task_priority s t"
  let ?s1 = "boost w ?p ?s0"
  let ?L = "L(MutexWaiters m := map EventLink (prio_insert (task_priority (boost w ?p s)) t ts))"
  have tN: "Link t \<in> N" using tasks_inv_current [OF sched_inv_tasks [OF inv] cur] .
  have p: "unat ?p < 32" using sched_inv_prio [OF inv tN] .
  have "sched_inv b {} H N L ?s0" using inv by simp
  from boost_inv [OF this p, of w] have i1: "sched_inv (b \<and> boost_ok w ?p s) {} H N L ?s1"
    by (simp add: boost_ok_def)
  have pr: "task_priority ?s1 = task_priority (boost w ?p s)" by (auto simp: fun_eq_iff)
  have tt: "tcbs ?s1 t = tcbs s t" using own(2) by simp
  obtain s2 where s2: "do { s \<leftarrow> mutex_insert_waiter_priority_sorted (MutexWaiters m) t ?s1;
        nimble_scheduler_prepare_block t timeout s } = Some s2"
    and i2: "sched_inv (b \<and> boost_ok w ?p s) {} H N (block_lists t timeout ?L) s2"
    and f2: "s2 = ?s1\<lparr>tcbs := (tcbs ?s1)(t := (tcbs s t)\<lparr>tcb_state := NIMBLE_TASK_BLOCKED,
                 tcb_wake_tick := if timeout = NIMBLE_WAIT_FOREVER then tcb_wake_tick (tcbs s t)
                                  else g_tick_count s + timeout\<rparr>),
            heap := heap s2, ready_bitmap := ready_bitmap s2\<rparr>"
    using mutex_wait.block_on [OF i1 _ _ m _ L, of t timeout] cur run
    unfolding pr tt boost_fields kernel.simps by (auto cong: if_cong)
  let ?s' = "nimble_port_request_context_switch (nimble_port_exit_critical (basepri s) s2)"
  have "nimble_mutex_lock m timeout s = Some (Blocks, ?s')"
  proof -
    obtain x where "mutex_insert_waiter_priority_sorted (MutexWaiters m) t ?s1 = Some x"
      "nimble_scheduler_prepare_block t timeout x = Some s2"
      using s2 by (auto split: bind_splits)
    then show ?thesis using own cur to
      by (cases "task_priority s w < task_priority s t")
        (simp_all add: nimble_mutex_lock_def Let_def nimble_port_enter_critical_def boost_def)
  qed
  moreover have "sched_inv (b \<and> boost_ok w ?p s) {} H N (block_lists t timeout ?L) ?s'"
    using i2 by (simp add: nimble_port_request_context_switch_def nimble_port_exit_critical_def)
  moreover have "?s' = (boost w ?p s)\<lparr>
            tcbs := (tcbs (boost w ?p s))(t := (tcbs s t)\<lparr>tcb_state := NIMBLE_TASK_BLOCKED,
                 tcb_wake_tick := if timeout = NIMBLE_WAIT_FOREVER then tcb_wake_tick (tcbs s t)
                                  else g_tick_count s + timeout\<rparr>),
            pendsv := True, heap := heap ?s', ready_bitmap := ready_bitmap ?s'\<rparr>"
    by (subst f2) (simp add: kdefs boost_def)
  ultimately show ?thesis by blast
qed

section \<open>After the context switch\<close>

lemma lock_resume_owner:
  "mutex_owner (mutexes s m) = Some t \<Longrightarrow> nimble_mutex_lock_resume m t s = (NIMBLE_OK, s)"
  by (cases s) (simp add: nimble_mutex_lock_resume_def kdefs)

lemma lock_resume_timeout:
  assumes inv: "sched_inv b {} H N L s" and t: "Link t \<in> N"
    and run: "task_state s t = NIMBLE_TASK_RUNNING" and own: "mutex_owner (mutexes s m) \<noteq> Some t"
  shows "\<exists>s'. nimble_mutex_lock_resume m t s = (NIMBLE_ERR_TIMEOUT, s') \<and>
     sched_inv b {} H N L s' \<and> s' = s\<lparr>heap := heap s'\<rparr>"
proof -
  let ?s' = "update_heap (nimble_list_remove (EventLink t)) s"
  have "nimble_mutex_lock_resume m t s = (NIMBLE_ERR_TIMEOUT, ?s')"
    using own by (cases s) (simp add: nimble_mutex_lock_resume_def kdefs)
  moreover have "?s' = s\<lparr>heap := heap ?s'\<rparr>" by (simp add: update_heap_def)
  ultimately show ?thesis using resume_detach_inv [OF inv t run] by blast
qed

section \<open>Unlocking\<close>

lemma unlock_not_owner:
  "mutex_owner (mutexes s m) \<noteq> nimble_current_tcb s \<Longrightarrow>
   nimble_mutex_unlock m s = Some (NIMBLE_ERR_NOT_OWNER, s)"
  by (cases s) (simp add: nimble_mutex_unlock_def kdefs)

lemma unlock_nested:
  assumes "mutex_owner (mutexes s m) = nimble_current_tcb s" "mutex_lock_count (mutexes s m) \<noteq> 1"
  shows "nimble_mutex_unlock m s =
     Some (NIMBLE_OK, s\<lparr>mutexes := (mutexes s)(m :=
       mutex_lock_count_update (\<lambda>c. c - 1) (mutexes s m))\<rparr>)"
proof -
  have "0 < mutex_lock_count (mutexes s m) - 1" using assms(2) by (simp add: word_gt_0)
  then show ?thesis using assms(1)
    by (cases s) (simp add: nimble_mutex_unlock_def kdefs Let_def)
qed

text \<open>What the last unlock does before it looks for a waiter.\<close>

definition release_state :: "mutex_ptr \<Rightarrow> tcb_ptr \<Rightarrow> kernel \<Rightarrow> kernel" where
  "release_state m c s =
     s\<lparr>tcbs := (tcbs s)(c := (tcbs s c)\<lparr>tcb_priority := tcb_base_priority (tcbs s c)\<rparr>),
       mutexes := (mutexes s)(m := \<lparr>mutex_owner = None, mutex_lock_count = 0\<rparr>),
       basepri := NIMBLE_KERNEL_SYSCALL_BASEPRI\<rparr>"

lemma release_state_inv:
  assumes inv: "sched_inv b {} H N L s" and cur: "nimble_current_tcb s = Some c"
    and run: "task_state s c = NIMBLE_TASK_RUNNING"
  shows "sched_inv b {} H N L (release_state m c s)"
proof -
  let ?p = "tcb_base_priority (tcbs s c)"
  have "Link c \<in> N" using tasks_inv_current [OF sched_inv_tasks [OF inv] cur] .
  then have "unat ?p < 32" by (rule tasks_inv_base [OF sched_inv_tasks [OF inv]])
  then have "sched_inv b {} H N L (update_tcb c (tcb_priority_update (\<lambda>_. ?p)) s)"
    using run by (intro set_priority_inv [OF inv]) auto
  then show ?thesis by (simp add: release_state_def update_tcb_def)
qed

lemma unlock_last:
  assumes "nimble_current_tcb s = Some c" "mutex_owner (mutexes s m) = Some c"
    "mutex_lock_count (mutexes s m) = 1"
    and "nimble_scheduler_wake_waiter (MutexWaiters m) (release_state m c s) = Some (woken, s1)"
  shows "nimble_mutex_unlock m s =
     Some (NIMBLE_OK, (case woken of
         None \<Rightarrow> s1\<lparr>basepri := basepri s\<rparr>
       | Some t \<Rightarrow> s1\<lparr>mutexes := (mutexes s1)(m := \<lparr>mutex_owner = Some t, mutex_lock_count = 1\<rparr>),
                      basepri := basepri s, pendsv := True\<rparr>))"
proof -
  have m: "(mutex_lock_count_update (\<lambda>c. c - 1) (mutexes s m))\<lparr>mutex_owner := None\<rparr> =
      \<lparr>mutex_owner = None, mutex_lock_count = 0\<rparr>"
    using assms(3) by (cases "mutexes s m") simp
  have r: "update_mutex m (mutex_owner_update (\<lambda>_. None))
      (update_tcb c (\<lambda>c. c\<lparr>tcb_priority := tcb_base_priority c\<rparr>)
        (update_mutex m (mutex_lock_count_update (\<lambda>c. c - 1))
          (s\<lparr>basepri := NIMBLE_KERNEL_SYSCALL_BASEPRI\<rparr>))) = release_state m c s"
    unfolding update_mutex_def update_tcb_def release_state_def by (simp add: m)
  have o: "x\<lparr>mutex_owner := Some t, mutex_lock_count := 1\<rparr> =
      \<lparr>mutex_owner = Some t, mutex_lock_count = 1\<rparr>" for x :: nimble_mutex and t
    by (cases x) simp
  have w: "update_mutex m (mutex_lock_count_update (\<lambda>_. 1))
      (update_mutex m (mutex_owner_update (\<lambda>_. Some t)) s1) =
      s1\<lparr>mutexes := (mutexes s1)(m := \<lparr>mutex_owner = Some t, mutex_lock_count = 1\<rparr>)\<rparr>" for t
    by (simp add: update_mutex_def o)
  have sel: "mutexes (update_mutex m f s') m = f (mutexes s' m)" for f s'
    by (simp add: update_mutex_def)
  show ?thesis
    using assms by (cases woken) (simp_all add: nimble_mutex_unlock_def Let_def r w sel
        nimble_port_enter_critical_def nimble_port_exit_critical_def
        nimble_port_request_context_switch_def)
qed

lemma unlock_no_waiter:
  assumes inv: "sched_inv b {} H N L s" and cur: "nimble_current_tcb s = Some c"
    and run: "task_state s c = NIMBLE_TASK_RUNNING" and m: "MutexWaiters m \<in> H"
    and own: "mutex_owner (mutexes s m) = Some c" "mutex_lock_count (mutexes s m) = 1"
    and L: "L (MutexWaiters m) = []"
  shows "nimble_mutex_unlock m s = Some (NIMBLE_OK, (release_state m c s)\<lparr>basepri := basepri s\<rparr>)"
  using unlock_last [OF cur own wake_waiter_empty [OF sched_inv_repr [OF release_state_inv
    [OF inv cur run]] m L]] by simp

lemma unlock_handoff:
  assumes inv: "sched_inv b {} H N L s" and cur: "nimble_current_tcb s = Some c"
    and run: "task_state s c = NIMBLE_TASK_RUNNING" and m: "MutexWaiters m \<in> H"
    and own: "mutex_owner (mutexes s m) = Some c" "mutex_lock_count (mutexes s m) = 1"
    and L: "L (MutexWaiters m) = EventLink t # ws"
  shows "\<exists>s'. nimble_mutex_unlock m s = Some (NIMBLE_OK, s') \<and> t \<noteq> c \<and>
     sched_inv b {} H N (wake_lists (unat (task_priority s t)) t L) s' \<and>
     s' = s\<lparr>tcbs := (tcbs s)(c := (tcbs s c)\<lparr>tcb_priority := tcb_base_priority (tcbs s c)\<rparr>,
                 t := (tcbs s t)\<lparr>tcb_last_wait_result := NIMBLE_OK, tcb_state := NIMBLE_TASK_READY\<rparr>),
            mutexes := (mutexes s)(m := \<lparr>mutex_owner = Some t, mutex_lock_count = 1\<rparr>),
            pendsv := True, heap := heap s', ready_bitmap := ready_bitmap s'\<rparr>"
proof -
  let ?r = "release_state m c s"
  have "task_state s t = NIMBLE_TASK_BLOCKED"
    using tasks_inv_event [OF sched_inv_tasks [OF inv] _ m] L by simp
  then have tc: "t \<noteq> c" using run by auto
  have e: "t \<notin> {}" by simp
  have tt: "tcbs ?r t = tcbs s t" using tc by (simp add: release_state_def)
  obtain s1 where w: "nimble_scheduler_wake_waiter (MutexWaiters m) ?r = Some (Some t, s1)"
    and i1: "sched_inv b {} H N (wake_lists (unat (task_priority s t)) t L) s1"
    and f1: "s1 = ?r\<lparr>tcbs := (tcbs ?r)(t := (tcbs s t)\<lparr>tcb_last_wait_result := NIMBLE_OK,
                 tcb_state := NIMBLE_TASK_READY\<rparr>), heap := heap s1, ready_bitmap := ready_bitmap s1\<rparr>"
    using wake_waiter_inv [OF release_state_inv [OF inv cur run, of m] m L e] unfolding tt by blast
  let ?s' = "s1\<lparr>mutexes := (mutexes s1)(m := \<lparr>mutex_owner = Some t, mutex_lock_count = 1\<rparr>),
                 basepri := basepri s, pendsv := True\<rparr>"
  obtain h b' where f2: "s1 = ?r\<lparr>tcbs := (tcbs ?r)(t := (tcbs s t)\<lparr>tcb_last_wait_result := NIMBLE_OK,
                 tcb_state := NIMBLE_TASK_READY\<rparr>), heap := h, ready_bitmap := b'\<rparr>"
    using f1 by blast
  have "nimble_mutex_unlock m s = Some (NIMBLE_OK, ?s')" using unlock_last [OF cur own w] by simp
  moreover have "sched_inv b {} H N (wake_lists (unat (task_priority s t)) t L) ?s'" using i1 by simp
  moreover have "?s' = s\<lparr>tcbs := (tcbs s)(c := (tcbs s c)\<lparr>tcb_priority := tcb_base_priority (tcbs s c)\<rparr>,
                 t := (tcbs s t)\<lparr>tcb_last_wait_result := NIMBLE_OK, tcb_state := NIMBLE_TASK_READY\<rparr>),
            mutexes := (mutexes s)(m := \<lparr>mutex_owner = Some t, mutex_lock_count = 1\<rparr>),
            pendsv := True, heap := heap ?s', ready_bitmap := ready_bitmap ?s'\<rparr>"
    by (simp add: f2 release_state_def)
  ultimately show ?thesis using tc by blast
qed

end
