(* ===== verification/Semaphore.thy ===== *)
theory Semaphore
  imports Mutex
begin

text \<open>
  The counting semaphore of \<^verbatim>\<open>kernel/src/semaphore.c\<close>.
  \<open>nimble_semaphore_take\<close> runs to the return or to the context switch;
  \<open>nimble_semaphore_take_resume\<close> is the code after the switch. The locale
  \<open>sem_give\<close> is the contract that the task-level and the interrupt-level give share.
\<close>

section \<open>Operations\<close>

definition nimble_semaphore_init :: "sem_ptr \<Rightarrow> u32 \<Rightarrow> u32 \<Rightarrow> kernel \<Rightarrow> kernel" where
  "nimble_semaphore_init q initial_count max_count s =
     (let s = update_semaphore q (sem_count_update (\<lambda>_. initial_count)) s;
          s = update_semaphore q (sem_max_count_update (\<lambda>_. max_count)) s
      in update_heap (nimble_list_init (SemWaiters q)) s)"

definition nimble_semaphore_take ::
  "sem_ptr \<Rightarrow> nimble_tick_t \<Rightarrow> kernel \<Rightarrow> (nimble_status_t call_result \<times> kernel) option" where
  "nimble_semaphore_take q timeout_ticks s =
     (let (crit, s) = nimble_port_enter_critical s
      in if sem_count (semaphores s q) > 0 then
           let s = update_semaphore q (sem_count_update (\<lambda>c. c - 1)) s
           in Some (Returns NIMBLE_OK, nimble_port_exit_critical crit s)
         else if timeout_ticks = NIMBLE_NO_WAIT then
           Some (Returns NIMBLE_ERR_TIMEOUT, nimble_port_exit_critical crit s)
         else
           do { self \<leftarrow> nimble_current_tcb s;
                s \<leftarrow> semaphore_insert_waiter_priority_sorted (SemWaiters q) self s;
                s \<leftarrow> nimble_scheduler_prepare_block self timeout_ticks s;
                let s = nimble_port_exit_critical crit s;
                Some (Blocks, nimble_port_request_context_switch s) })"

definition nimble_semaphore_take_resume ::
  "sem_ptr \<Rightarrow> tcb_ptr \<Rightarrow> kernel \<Rightarrow> nimble_status_t \<times> kernel" where
  "nimble_semaphore_take_resume q self s =
     (let (crit, s) = nimble_port_enter_critical s;
          s = update_heap (nimble_list_remove (EventLink self)) s;
          result = tcb_last_wait_result (tcbs s self)
      in (result, nimble_port_exit_critical crit s))"

definition nimble_semaphore_give :: "sem_ptr \<Rightarrow> kernel \<Rightarrow> (nimble_status_t \<times> kernel) option" where
  "nimble_semaphore_give q s =
     do { let (crit, s) = nimble_port_enter_critical s;
          (woken, s) \<leftarrow> nimble_scheduler_wake_waiter (SemWaiters q) s;
          if woken \<noteq> None then
            let s = nimble_port_exit_critical crit s
            in Some (NIMBLE_OK, nimble_port_request_context_switch s)
          else
            let s = (if sem_count (semaphores s q) < sem_max_count (semaphores s q)
                     then update_semaphore q (sem_count_update (\<lambda>c. c + 1)) s else s)
            in Some (NIMBLE_OK, nimble_port_exit_critical crit s) }"

definition nimble_semaphore_give_from_isr ::
  "sem_ptr \<Rightarrow> kernel \<Rightarrow> (nimble_status_t \<times> bool \<times> kernel) option" where
  "nimble_semaphore_give_from_isr q s =
     do { (woken, s) \<leftarrow> nimble_scheduler_wake_waiter (SemWaiters q) s;
          if woken \<noteq> None then Some (NIMBLE_OK, True, s)
          else
            let s = (if sem_count (semaphores s q) < sem_max_count (semaphores s q)
                     then update_semaphore q (sem_count_update (\<lambda>c. c + 1)) s else s)
            in Some (NIMBLE_OK, False, s) }"

section \<open>Initialisation and the semaphore invariant\<close>

definition sem_inv :: "node set \<Rightarrow> (node \<Rightarrow> node list) \<Rightarrow> kernel \<Rightarrow> bool" where
  "sem_inv H L s \<longleftrightarrow>
     (\<forall>q. SemWaiters q \<in> H \<longrightarrow>
        sem_count (semaphores s q) \<le> sem_max_count (semaphores s q) \<and>
        (L (SemWaiters q) \<noteq> [] \<longrightarrow> sem_count (semaphores s q) = 0))"

lemma sem_invD:
  "sem_inv H L s \<Longrightarrow> SemWaiters q \<in> H \<Longrightarrow> sem_count (semaphores s q) \<le> sem_max_count (semaphores s q)"
  "sem_inv H L s \<Longrightarrow> SemWaiters q \<in> H \<Longrightarrow> L (SemWaiters q) \<noteq> [] \<Longrightarrow> sem_count (semaphores s q) = 0"
  by (simp_all add: sem_inv_def)

lemma sem_inv_shrink:
  assumes "sem_inv H L s" "semaphores s' = semaphores s"
    and "\<And>q. SemWaiters q \<in> H \<Longrightarrow> L (SemWaiters q) = [] \<Longrightarrow> L' (SemWaiters q) = []"
  shows "sem_inv H L' s'"
  using assms unfolding sem_inv_def by metis

lemma semaphore_init_inv:
  assumes inv: "sched_inv b X H N L s" and new: "SemWaiters q \<notin> H"
  shows "sched_inv b X (insert (SemWaiters q) H) N (L(SemWaiters q := [])) (nimble_semaphore_init q i m s)"
    and "semaphores (nimble_semaphore_init q i m s) = (semaphores s)(q := \<lparr>sem_count = i, sem_max_count = m\<rparr>)"
proof -
  have r: "(semaphores s q)\<lparr>sem_count := i, sem_max_count := m\<rparr> = \<lparr>sem_count = i, sem_max_count = m\<rparr>"
    by (cases "semaphores s q") simp
  have e: "nimble_semaphore_init q i m s = (update_heap (nimble_list_init (SemWaiters q)) s)
      \<lparr>semaphores := (semaphores s)(q := \<lparr>sem_count = i, sem_max_count = m\<rparr>)\<rparr>"
    by (simp add: nimble_semaphore_init_def Let_def update_semaphore_def update_heap_def r)
  show "semaphores (nimble_semaphore_init q i m s) = (semaphores s)(q := \<lparr>sem_count = i, sem_max_count = m\<rparr>)"
    by (simp add: e)
  show "sched_inv b X (insert (SemWaiters q) H) N (L(SemWaiters q := [])) (nimble_semaphore_init q i m s)"
    unfolding e using init_wait_head_inv [OF inv _ new] by simp
qed

section \<open>Taking\<close>

lemma take_available:
  "0 < sem_count (semaphores s q) \<Longrightarrow>
   nimble_semaphore_take q w s = Some (Returns NIMBLE_OK,
     s\<lparr>semaphores := (semaphores s)(q := sem_count_update (\<lambda>c. c - 1) (semaphores s q))\<rparr>)"
  by (cases s) (simp add: nimble_semaphore_take_def kdefs Let_def)

lemma take_no_wait:
  "sem_count (semaphores s q) = 0 \<Longrightarrow>
   nimble_semaphore_take q NIMBLE_NO_WAIT s = Some (Returns NIMBLE_ERR_TIMEOUT, s)"
  by (cases s) (simp add: nimble_semaphore_take_def kdefs Let_def)

lemma take_blocks:
  assumes inv: "sched_inv b {} H N L s" and cur: "nimble_current_tcb s = Some t"
    and run: "task_state s t = NIMBLE_TASK_RUNNING" and q: "SemWaiters q \<in> H"
    and L: "L (SemWaiters q) = map EventLink ts"
    and c: "sem_count (semaphores s q) = 0" and to: "timeout \<noteq> NIMBLE_NO_WAIT"
  shows "\<exists>s'. nimble_semaphore_take q timeout s = Some (Blocks, s') \<and>
     sched_inv b {} H N
       (block_lists t timeout (L(SemWaiters q := map EventLink (prio_insert (task_priority s) t ts)))) s' \<and>
     s' = s\<lparr>tcbs := (tcbs s)(t := (tcbs s t)\<lparr>tcb_state := NIMBLE_TASK_BLOCKED,
                 tcb_wake_tick := if timeout = NIMBLE_WAIT_FOREVER then tcb_wake_tick (tcbs s t)
                                  else g_tick_count s + timeout\<rparr>),
            pendsv := True, heap := heap s', ready_bitmap := ready_bitmap s'\<rparr>"
  using semaphore_wait.block_call [OF inv cur run q _ L, of timeout] c cur to
  by (simp add: nimble_semaphore_take_def nimble_port_enter_critical_def Let_def cong: if_cong)

lemma take_resume_inv:
  assumes inv: "sched_inv b {} H N L s" and t: "Link t \<in> N"
    and run: "task_state s t = NIMBLE_TASK_RUNNING"
  shows "\<exists>s'. nimble_semaphore_take_resume q t s = (tcb_last_wait_result (tcbs s t), s') \<and>
     sched_inv b {} H N L s' \<and> s' = s\<lparr>heap := heap s'\<rparr>"
proof -
  let ?s' = "update_heap (nimble_list_remove (EventLink t)) s"
  have "nimble_semaphore_take_resume q t s = (tcb_last_wait_result (tcbs s t), ?s')"
    by (cases s) (simp add: nimble_semaphore_take_resume_def kdefs)
  moreover have "?s' = s\<lparr>heap := heap ?s'\<rparr>" by (simp add: update_heap_def)
  ultimately show ?thesis using resume_detach_inv [OF inv t run] by blast
qed

section \<open>Giving\<close>

text \<open>
  The contract of a give: the first waiter receives the unit and becomes ready, and the count
  is left alone; without a waiter the count goes up by one but never beyond its maximum.
\<close>

definition bump :: "nimble_semaphore \<Rightarrow> nimble_semaphore" where
  "bump c = (if sem_count c < sem_max_count c then sem_count_update (\<lambda>n. n + 1) c else c)"

locale sem_give =
  fixes give :: "sem_ptr \<Rightarrow> kernel \<Rightarrow> (bool \<times> kernel) option"
  assumes give_wakes:
    "\<lbrakk>sched_inv b {} H N L s; SemWaiters q \<in> H; L (SemWaiters q) = EventLink t # ws\<rbrakk> \<Longrightarrow>
     \<exists>s'. give q s = Some (True, s') \<and>
       sched_inv b {} H N (wake_lists (unat (task_priority s t)) t L) s' \<and>
       s' = s\<lparr>tcbs := (tcbs s)(t := (tcbs s t)\<lparr>tcb_last_wait_result := NIMBLE_OK,
                                              tcb_state := NIMBLE_TASK_READY\<rparr>),
              pendsv := pendsv s', heap := heap s', ready_bitmap := ready_bitmap s'\<rparr>"
  and give_counts:
    "\<lbrakk>sched_inv b {} H N L s; SemWaiters q \<in> H; L (SemWaiters q) = []\<rbrakk> \<Longrightarrow>
     give q s = Some (False, s\<lparr>semaphores := (semaphores s)(q := bump (semaphores s q))\<rparr>)"
begin

lemma give_total:
  assumes inv: "sched_inv b {} H N L s" and q: "SemWaiters q \<in> H"
  shows "\<exists>w L' s'. give q s = Some (w, s') \<and> sched_inv b {} H N L' s'"
proof (cases "L (SemWaiters q)")
  case Nil
  then show ?thesis using give_counts [OF inv q] inv by auto
next
  case (Cons n ns)
  obtain t where "n = EventLink t"
    using shape_wait_member [OF sched_inv_shape [OF inv] q, of n] Cons by auto
  then show ?thesis using give_wakes [OF inv q] Cons by blast
qed

lemma give_sem_inv:
  assumes inv: "sched_inv b {} H N L s" and q: "SemWaiters q \<in> H" and si: "sem_inv H L s"
  shows "\<exists>w L' s'. give q s = Some (w, s') \<and> sched_inv b {} H N L' s' \<and> sem_inv H L' s'"
proof (cases "L (SemWaiters q)")
  case Nil
  let ?s' = "s\<lparr>semaphores := (semaphores s)(q := bump (semaphores s q))\<rparr>"
  have "sem_inv H L ?s'"
    unfolding sem_inv_def
  proof (intro allI impI)
    fix r assume r: "SemWaiters r \<in> H"
    show "sem_count (semaphores ?s' r) \<le> sem_max_count (semaphores ?s' r) \<and>
        (L (SemWaiters r) \<noteq> [] \<longrightarrow> sem_count (semaphores ?s' r) = 0)"
      using sem_invD [OF si r] Nil by (auto simp: bump_def inc_le)
  qed
  moreover have "sched_inv b {} H N L ?s'" using inv by simp
  ultimately show ?thesis using give_counts [OF inv q Nil] by blast
next
  case (Cons n ns)
  obtain t where t: "n = EventLink t"
    using shape_wait_member [OF sched_inv_shape [OF inv] q, of n] Cons by auto
  let ?L = "wake_lists (unat (task_priority s t)) t L"
  obtain s' where s': "give q s = Some (True, s')" "sched_inv b {} H N ?L s'"
    and f: "s' = s\<lparr>tcbs := (tcbs s)(t := (tcbs s t)\<lparr>tcb_last_wait_result := NIMBLE_OK,
                                              tcb_state := NIMBLE_TASK_READY\<rparr>),
              pendsv := pendsv s', heap := heap s', ready_bitmap := ready_bitmap s'\<rparr>"
    using give_wakes [OF inv q] Cons t by blast
  have "semaphores s' = semaphores s" by (subst f) simp
  then have "sem_inv H ?L s'" by (rule sem_inv_shrink [OF si]) (simp add: wake_lists_def)
  then show ?thesis using s' by blast
qed

end

lemma give_wakes_task:
  assumes inv: "sched_inv b {} H N L s" and q: "SemWaiters q \<in> H"
    and L: "L (SemWaiters q) = EventLink t # ws"
  shows "\<exists>s'. nimble_semaphore_give q s = Some (NIMBLE_OK, s') \<and>
       sched_inv b {} H N (wake_lists (unat (task_priority s t)) t L) s' \<and>
       s' = s\<lparr>tcbs := (tcbs s)(t := (tcbs s t)\<lparr>tcb_last_wait_result := NIMBLE_OK,
                                              tcb_state := NIMBLE_TASK_READY\<rparr>),
              pendsv := True, heap := heap s', ready_bitmap := ready_bitmap s'\<rparr>"
proof -
  let ?s = "s\<lparr>basepri := NIMBLE_KERNEL_SYSCALL_BASEPRI\<rparr>"
  let ?T = "(tcbs s)(t := (tcbs s t)\<lparr>tcb_last_wait_result := NIMBLE_OK, tcb_state := NIMBLE_TASK_READY\<rparr>)"
  have i: "sched_inv b {} H N L ?s" using inv by simp
  obtain s1 where w: "nimble_scheduler_wake_waiter (SemWaiters q) ?s = Some (Some t, s1)"
    and i1: "sched_inv b {} H N (wake_lists (unat (task_priority s t)) t L) s1"
    and f1: "s1 = ?s\<lparr>tcbs := ?T, heap := heap s1, ready_bitmap := ready_bitmap s1\<rparr>"
    using wake_waiter_inv [OF i q L] by auto
  let ?s' = "s1\<lparr>basepri := basepri s, pendsv := True\<rparr>"
  have "nimble_semaphore_give q s = Some (NIMBLE_OK, ?s')"
    using w by (simp add: nimble_semaphore_give_def nimble_port_enter_critical_def
        nimble_port_exit_critical_def nimble_port_request_context_switch_def)
  moreover have "?s' = s\<lparr>tcbs := ?T, pendsv := True, heap := heap ?s', ready_bitmap := ready_bitmap ?s'\<rparr>"
    by (subst f1) simp
  moreover have "sched_inv b {} H N (wake_lists (unat (task_priority s t)) t L) ?s'" using i1 by simp
  ultimately show ?thesis by blast
qed

lemma give_counts_task:
  assumes inv: "sched_inv b {} H N L s" and q: "SemWaiters q \<in> H" and L: "L (SemWaiters q) = []"
  shows "nimble_semaphore_give q s =
     Some (NIMBLE_OK, s\<lparr>semaphores := (semaphores s)(q := bump (semaphores s q))\<rparr>)"
proof -
  let ?s = "s\<lparr>basepri := NIMBLE_KERNEL_SYSCALL_BASEPRI\<rparr>"
  have "sched_inv b {} H N L ?s" using inv by simp
  then have "nimble_scheduler_wake_waiter (SemWaiters q) ?s = Some (None, ?s)"
    using q L by (intro wake_waiter_empty [OF sched_inv_repr])
  then show ?thesis
    by (cases s) (simp add: nimble_semaphore_give_def kdefs bump_def fun_upd_idem)
qed

text \<open>Both cases in one statement.\<close>

lemma give_spec:
  assumes inv: "sched_inv b {} H N L s" and q: "SemWaiters q \<in> H"
  defines "w \<equiv> first_waiter (SemWaiters q) L"
  shows "\<exists>s'. nimble_semaphore_give q s = Some (NIMBLE_OK, s') \<and>
     sched_inv b {} H N (woken_lists s w L) s' \<and>
     s' = s\<lparr>semaphores := (if w = None then (semaphores s)(q := bump (semaphores s q)) else semaphores s),
            tcbs := woken_tcbs w (tcbs s), pendsv := (pendsv s \<or> w \<noteq> None),
            heap := heap s', ready_bitmap := ready_bitmap s'\<rparr>"
proof (cases "L (SemWaiters q)")
  case Nil
  then show ?thesis
    using give_counts_task [OF inv q Nil] inv by (simp add: w_def woken_lists_def woken_tcbs_def)
next
  case (Cons n ns)
  then obtain t where "n = EventLink t"
    using shape_wait_member [OF sched_inv_shape [OF inv] q, of n] by auto
  then have L: "L (SemWaiters q) = EventLink t # ns" using Cons by simp
  then have w: "w = Some t" by (simp add: w_def)
  show ?thesis
    using give_wakes_task [OF inv q L] by (simp add: w woken_lists_def woken_tcbs_def)
qed

definition give_outcome :: "sem_ptr \<Rightarrow> kernel \<Rightarrow> (bool \<times> kernel) option" where
  "give_outcome q s =
     (case nimble_semaphore_give q s of
        None \<Rightarrow> None
      | Some (_, s') \<Rightarrow> Some (\<not> nimble_list_is_empty (SemWaiters q) (heap s), s'))"

definition give_from_isr_outcome :: "sem_ptr \<Rightarrow> kernel \<Rightarrow> (bool \<times> kernel) option" where
  "give_from_isr_outcome q s = map_option snd (nimble_semaphore_give_from_isr q s)"

interpretation task_give: sem_give give_outcome
proof
  fix b H N L s q t ws
  assume a: "sched_inv b {} H N L s" "SemWaiters q \<in> H" "L (SemWaiters q) = EventLink t # ws"
  have e: "nimble_list_is_empty (SemWaiters q) (heap s) = False"
    using repr_is_empty [OF sched_inv_repr [OF a(1)] a(2)] a(3) by simp
  obtain s' where s': "nimble_semaphore_give q s = Some (NIMBLE_OK, s')"
    "sched_inv b {} H N (wake_lists (unat (task_priority s t)) t L) s'"
    and f: "s' = s\<lparr>tcbs := (tcbs s)(t := (tcbs s t)\<lparr>tcb_last_wait_result := NIMBLE_OK,
                                              tcb_state := NIMBLE_TASK_READY\<rparr>),
              pendsv := True, heap := heap s', ready_bitmap := ready_bitmap s'\<rparr>"
    using give_wakes_task [OF a] by blast
  have "s' = s\<lparr>tcbs := (tcbs s)(t := (tcbs s t)\<lparr>tcb_last_wait_result := NIMBLE_OK,
                                              tcb_state := NIMBLE_TASK_READY\<rparr>),
              pendsv := pendsv s', heap := heap s', ready_bitmap := ready_bitmap s'\<rparr>"
    by (subst (1 2) f) simp
  moreover have "give_outcome q s = Some (True, s')" using s'(1) e by (simp add: give_outcome_def)
  ultimately show "\<exists>s'. give_outcome q s = Some (True, s') \<and>
       sched_inv b {} H N (wake_lists (unat (task_priority s t)) t L) s' \<and>
       s' = s\<lparr>tcbs := (tcbs s)(t := (tcbs s t)\<lparr>tcb_last_wait_result := NIMBLE_OK,
                                              tcb_state := NIMBLE_TASK_READY\<rparr>),
              pendsv := pendsv s', heap := heap s', ready_bitmap := ready_bitmap s'\<rparr>"
    using s'(2) by blast
next
  fix b H N L s q
  assume a: "sched_inv b {} H N L s" "SemWaiters q \<in> H" "L (SemWaiters q) = []"
  then show "give_outcome q s = Some (False, s\<lparr>semaphores := (semaphores s)(q := bump (semaphores s q))\<rparr>)"
    using repr_is_empty [OF sched_inv_repr [OF a(1)] a(2)] give_counts_task [OF a]
    by (simp add: give_outcome_def)
qed

interpretation isr_give: sem_give give_from_isr_outcome
proof
  fix b H N L s q t ws
  assume a: "sched_inv b {} H N L s" "SemWaiters q \<in> H" "L (SemWaiters q) = EventLink t # ws"
  have "t \<notin> {}" by simp
  from wake_waiter_inv [OF a this] obtain s' where
    s': "nimble_scheduler_wake_waiter (SemWaiters q) s = Some (Some t, s')"
    "sched_inv b {} H N (wake_lists (unat (task_priority s t)) t L) s'"
    and f: "s' = s\<lparr>tcbs := (tcbs s)(t := (tcbs s t)\<lparr>tcb_last_wait_result := NIMBLE_OK,
                                              tcb_state := NIMBLE_TASK_READY\<rparr>),
              heap := heap s', ready_bitmap := ready_bitmap s'\<rparr>"
    by blast
  have "s' = s\<lparr>tcbs := (tcbs s)(t := (tcbs s t)\<lparr>tcb_last_wait_result := NIMBLE_OK,
                                              tcb_state := NIMBLE_TASK_READY\<rparr>),
              pendsv := pendsv s', heap := heap s', ready_bitmap := ready_bitmap s'\<rparr>"
    by (subst (1 2) f) simp
  moreover have "give_from_isr_outcome q s = Some (True, s')"
    using s'(1) by (simp add: give_from_isr_outcome_def nimble_semaphore_give_from_isr_def)
  ultimately show "\<exists>s'. give_from_isr_outcome q s = Some (True, s') \<and>
       sched_inv b {} H N (wake_lists (unat (task_priority s t)) t L) s' \<and>
       s' = s\<lparr>tcbs := (tcbs s)(t := (tcbs s t)\<lparr>tcb_last_wait_result := NIMBLE_OK,
                                              tcb_state := NIMBLE_TASK_READY\<rparr>),
              pendsv := pendsv s', heap := heap s', ready_bitmap := ready_bitmap s'\<rparr>"
    using s'(2) by blast
next
  fix b H N L s q
  assume a: "sched_inv b {} H N L s" "SemWaiters q \<in> H" "L (SemWaiters q) = []"
  have "nimble_scheduler_wake_waiter (SemWaiters q) s = Some (None, s)"
    by (rule wake_waiter_empty [OF sched_inv_repr [OF a(1)] a(2,3)])
  then show "give_from_isr_outcome q s = Some (False, s\<lparr>semaphores := (semaphores s)(q := bump (semaphores s q))\<rparr>)"
    by (cases s) (simp add: give_from_isr_outcome_def nimble_semaphore_give_from_isr_def bump_def
        update_semaphore_def fun_upd_idem)
qed

end
