(* ===== verification/Queue.thy ===== *)
theory Queue
  imports Semaphore
begin

text \<open>
  The message queue of \<^verbatim>\<open>kernel/src/queue.c\<close>: a ring of \<^verbatim>\<open>capacity\<close> slots of
  \<^verbatim>\<open>item_size\<close> bytes in a caller-supplied buffer. \<open>copy_in\<close> and \<open>copy_out\<close> act on
  the queue's struct and are undefined (\<open>None\<close>) where the C code would read or write
  outside the buffer or the item, or divide by zero. The blocking calls are split at the
  context switch as in theory \<open>Mutex\<close>. The locale \<open>bounded_fifo\<close> is the abstract
  contract, which the ring implements.
\<close>

section \<open>Operations\<close>

definition nimble_queue_init :: "queue_ptr \<Rightarrow> u8 list \<Rightarrow> u32 \<Rightarrow> u32 \<Rightarrow> kernel \<Rightarrow> kernel" where
  "nimble_queue_init q buffer item_size capacity s =
     (let s = update_queue q (\<lambda>c. c\<lparr>queue_buffer := buffer, queue_item_size := item_size,
                queue_capacity := capacity, queue_count := 0, queue_head := 0, queue_tail := 0\<rparr>) s;
          s = update_heap (nimble_list_init (QueueReceivers q)) s
      in update_heap (nimble_list_init (QueueSenders q)) s)"

definition copy_in :: "u8 list \<Rightarrow> nimble_queue \<Rightarrow> nimble_queue option" where
  "copy_in item c =
     (let off = unat (queue_tail c * queue_item_size c);
          n = unat (queue_item_size c)
      in if length item < n \<or> length (queue_buffer c) < off + n \<or> queue_capacity c = 0 then None
         else
           let c = c\<lparr>queue_buffer := take off (queue_buffer c) @ take n item @ drop (off + n) (queue_buffer c)\<rparr>;
               c = c\<lparr>queue_tail := (queue_tail c + 1) mod queue_capacity c\<rparr>
           in Some (c\<lparr>queue_count := queue_count c + 1\<rparr>))"

definition copy_out :: "nimble_queue \<Rightarrow> (u8 list \<times> nimble_queue) option" where
  "copy_out c =
     (let off = unat (queue_head c * queue_item_size c);
          n = unat (queue_item_size c)
      in if length (queue_buffer c) < off + n \<or> queue_capacity c = 0 then None
         else
           let out_item = take n (drop off (queue_buffer c));
               c = c\<lparr>queue_head := (queue_head c + 1) mod queue_capacity c\<rparr>
           in Some (out_item, c\<lparr>queue_count := queue_count c - 1\<rparr>))"

definition queue_copy_in :: "queue_ptr \<Rightarrow> u8 list \<Rightarrow> kernel \<Rightarrow> kernel option" where
  "queue_copy_in q item s =
     do { c \<leftarrow> copy_in item (queues s q);
          Some (update_queue q (\<lambda>_. c) s) }"

definition queue_copy_out :: "queue_ptr \<Rightarrow> kernel \<Rightarrow> (u8 list \<times> kernel) option" where
  "queue_copy_out q s =
     do { (out_item, c) \<leftarrow> copy_out (queues s q);
          Some (out_item, update_queue q (\<lambda>_. c) s) }"

definition nimble_queue_send ::
  "queue_ptr \<Rightarrow> u8 list \<Rightarrow> nimble_tick_t \<Rightarrow> kernel \<Rightarrow> (nimble_status_t call_result \<times> kernel) option" where
  "nimble_queue_send q item timeout_ticks s =
     (let (crit, s) = nimble_port_enter_critical s
      in if queue_count (queues s q) < queue_capacity (queues s q) then
           do { s \<leftarrow> queue_copy_in q item s;
                (woken, s) \<leftarrow> nimble_scheduler_wake_waiter (QueueReceivers q) s;
                let s = nimble_port_exit_critical crit s;
                let s = (if woken \<noteq> None then nimble_port_request_context_switch s else s);
                Some (Returns NIMBLE_OK, s) }
         else if timeout_ticks = NIMBLE_NO_WAIT then
           Some (Returns NIMBLE_ERR_FULL, nimble_port_exit_critical crit s)
         else
           do { self \<leftarrow> nimble_current_tcb s;
                s \<leftarrow> queue_insert_waiter_priority_sorted (QueueSenders q) self s;
                s \<leftarrow> nimble_scheduler_prepare_block self timeout_ticks s;
                let s = nimble_port_exit_critical crit s;
                Some (Blocks, nimble_port_request_context_switch s) })"

definition nimble_queue_send_resume ::
  "queue_ptr \<Rightarrow> u8 list \<Rightarrow> tcb_ptr \<Rightarrow> kernel \<Rightarrow> (nimble_status_t \<times> kernel) option" where
  "nimble_queue_send_resume q item self s =
     do { let (crit, s) = nimble_port_enter_critical s;
          let s = update_heap (nimble_list_remove (EventLink self)) s;
          (result, s) \<leftarrow>
            (if tcb_last_wait_result (tcbs s self) = NIMBLE_ERR_TIMEOUT then Some (NIMBLE_ERR_TIMEOUT, s)
             else if queue_count (queues s q) < queue_capacity (queues s q) then
               do { s \<leftarrow> queue_copy_in q item s; Some (NIMBLE_OK, s) }
             else Some (NIMBLE_ERR_FULL, s));
          Some (result, nimble_port_exit_critical crit s) }"

definition nimble_queue_receive ::
  "queue_ptr \<Rightarrow> nimble_tick_t \<Rightarrow> kernel \<Rightarrow> ((nimble_status_t \<times> u8 list option) call_result \<times> kernel) option" where
  "nimble_queue_receive q timeout_ticks s =
     (let (crit, s) = nimble_port_enter_critical s
      in if queue_count (queues s q) > 0 then
           do { (out_item, s) \<leftarrow> queue_copy_out q s;
                (woken, s) \<leftarrow> nimble_scheduler_wake_waiter (QueueSenders q) s;
                let s = nimble_port_exit_critical crit s;
                let s = (if woken \<noteq> None then nimble_port_request_context_switch s else s);
                Some (Returns (NIMBLE_OK, Some out_item), s) }
         else if timeout_ticks = NIMBLE_NO_WAIT then
           Some (Returns (NIMBLE_ERR_EMPTY, None), nimble_port_exit_critical crit s)
         else
           do { self \<leftarrow> nimble_current_tcb s;
                s \<leftarrow> queue_insert_waiter_priority_sorted (QueueReceivers q) self s;
                s \<leftarrow> nimble_scheduler_prepare_block self timeout_ticks s;
                let s = nimble_port_exit_critical crit s;
                Some (Blocks, nimble_port_request_context_switch s) })"

definition nimble_queue_receive_resume ::
  "queue_ptr \<Rightarrow> tcb_ptr \<Rightarrow> kernel \<Rightarrow> ((nimble_status_t \<times> u8 list option) \<times> kernel) option" where
  "nimble_queue_receive_resume q self s =
     do { let (crit, s) = nimble_port_enter_critical s;
          let s = update_heap (nimble_list_remove (EventLink self)) s;
          (result, s) \<leftarrow>
            (if tcb_last_wait_result (tcbs s self) = NIMBLE_ERR_TIMEOUT
             then Some ((NIMBLE_ERR_TIMEOUT, None), s)
             else if queue_count (queues s q) > 0 then
               do { (out_item, s) \<leftarrow> queue_copy_out q s; Some ((NIMBLE_OK, Some out_item), s) }
             else Some ((NIMBLE_ERR_EMPTY, None), s));
          Some (result, nimble_port_exit_critical crit s) }"

definition nimble_queue_send_from_isr ::
  "queue_ptr \<Rightarrow> u8 list \<Rightarrow> kernel \<Rightarrow> (nimble_status_t \<times> bool \<times> kernel) option" where
  "nimble_queue_send_from_isr q item s =
     (if queue_count (queues s q) \<ge> queue_capacity (queues s q) then Some (NIMBLE_ERR_FULL, False, s)
      else
        do { s \<leftarrow> queue_copy_in q item s;
             (woken, s) \<leftarrow> nimble_scheduler_wake_waiter (QueueReceivers q) s;
             Some (NIMBLE_OK, woken \<noteq> None, s) })"

section \<open>The abstract queue\<close>

text \<open>Several items in a row, for any put and get.\<close>

primrec put_all :: "('a \<Rightarrow> 'q \<Rightarrow> 'q option) \<Rightarrow> 'a list \<Rightarrow> 'q \<Rightarrow> 'q option" where
  "put_all put [] q = Some q"
| "put_all put (x # xs) q = Option.bind (put x q) (put_all put xs)"

primrec get_all :: "('q \<Rightarrow> ('a \<times> 'q) option) \<Rightarrow> nat \<Rightarrow> 'q \<Rightarrow> ('a list \<times> 'q) option" where
  "get_all get 0 q = Some ([], q)"
| "get_all get (Suc n) q =
     Option.bind (get q) (\<lambda>(x, q). Option.bind (get_all get n q) (\<lambda>(xs, q). Some (x # xs, q)))"

locale bounded_fifo =
  fixes wf :: "'q \<Rightarrow> bool" and abs :: "'q \<Rightarrow> 'a list" and cap :: "'q \<Rightarrow> nat"
    and fits_item :: "'q \<Rightarrow> 'a \<Rightarrow> bool"
    and put :: "'a \<Rightarrow> 'q \<Rightarrow> 'q option" and get :: "'q \<Rightarrow> ('a \<times> 'q) option"
  assumes put_spec:
    "\<lbrakk>wf q; fits_item q x; length (abs q) < cap q\<rbrakk> \<Longrightarrow>
     \<exists>q'. put x q = Some q' \<and> wf q' \<and> abs q' = abs q @ [x] \<and> cap q' = cap q \<and> fits_item q' = fits_item q"
  and get_spec:
    "\<lbrakk>wf q; abs q = x # xs\<rbrakk> \<Longrightarrow>
     \<exists>q'. get q = Some (x, q') \<and> wf q' \<and> abs q' = xs \<and> cap q' = cap q \<and> fits_item q' = fits_item q"
begin

lemma put_all_spec:
  assumes "wf q" "\<And>x. x \<in> set xs \<Longrightarrow> fits_item q x" "length (abs q) + length xs \<le> cap q"
  shows "\<exists>q'. put_all put xs q = Some q' \<and> wf q' \<and> abs q' = abs q @ xs \<and> cap q' = cap q"
  using assms
proof (induction xs arbitrary: q)
  case (Cons x xs)
  then obtain q1 where q1: "put x q = Some q1" "wf q1" "abs q1 = abs q @ [x]" "cap q1 = cap q"
      "fits_item q1 = fits_item q"
    using put_spec [of q x] by auto
  then show ?case using Cons.IH [of q1] Cons.prems by auto
qed simp

lemma get_all_spec:
  assumes "wf q" "n \<le> length (abs q)"
  shows "\<exists>q'. get_all get n q = Some (take n (abs q), q') \<and> wf q' \<and> abs q' = drop n (abs q) \<and> cap q' = cap q"
  using assms
proof (induction n arbitrary: q)
  case (Suc n)
  then obtain x xs where x: "abs q = x # xs" by (cases "abs q") auto
  then obtain q1 where "get q = Some (x, q1)" "wf q1" "abs q1 = xs" "cap q1 = cap q"
    using get_spec [OF Suc.prems(1) x] by blast
  then show ?case using Suc.IH [of q1] Suc.prems(2) x by auto
qed simp

text \<open>What was put into an empty queue comes out in the same order.\<close>

lemma fifo_round_trip:
  assumes "wf q" "abs q = []" "\<And>x. x \<in> set xs \<Longrightarrow> fits_item q x" "length xs \<le> cap q"
  shows "\<exists>q1 q2. put_all put xs q = Some q1 \<and> get_all get (length xs) q1 = Some (xs, q2) \<and> wf q2 \<and> abs q2 = []"
proof -
  obtain q1 where q1: "put_all put xs q = Some q1" "wf q1" "abs q1 = xs"
    using put_all_spec [of q xs] assms by auto
  then show ?thesis using get_all_spec [OF q1(2), of "length xs"] by auto
qed

end

section \<open>The ring buffer implements the abstract queue\<close>

definition queue_wf :: "nimble_queue \<Rightarrow> bool" where
  "queue_wf c \<longleftrightarrow>
     0 < queue_capacity c \<and>
     unat (queue_capacity c) * unat (queue_item_size c) \<le> length (queue_buffer c) \<and>
     length (queue_buffer c) < 2 ^ 32 \<and>
     queue_head c < queue_capacity c \<and> queue_tail c < queue_capacity c \<and>
     queue_count c \<le> queue_capacity c \<and>
     unat (queue_tail c) = (unat (queue_head c) + unat (queue_count c)) mod unat (queue_capacity c)"

definition slot :: "nimble_queue \<Rightarrow> nat \<Rightarrow> u8 list" where
  "slot c i = take (unat (queue_item_size c)) (drop (i * unat (queue_item_size c)) (queue_buffer c))"

definition queue_items :: "nimble_queue \<Rightarrow> u8 list list" where
  "queue_items c =
     map (\<lambda>j. slot c ((unat (queue_head c) + j) mod unat (queue_capacity c))) [0..<unat (queue_count c)]"

definition item_fits :: "nimble_queue \<Rightarrow> u8 list \<Rightarrow> bool" where
  "item_fits c item \<longleftrightarrow> length item = unat (queue_item_size c)"

lemma length_queue_items [simp]: "length (queue_items c) = unat (queue_count c)"
  by (simp add: queue_items_def)

lemma slot_offset:
  assumes wf: "queue_wf c" and i: "i < queue_capacity c"
  shows "unat (i * queue_item_size c) = unat i * unat (queue_item_size c)"
    and "unat i * unat (queue_item_size c) + unat (queue_item_size c) \<le> length (queue_buffer c)"
proof -
  let ?n = "unat (queue_item_size c)"
  have "Suc (unat i) \<le> unat (queue_capacity c)" using i by (simp add: word_less_nat_alt)
  then have "Suc (unat i) * ?n \<le> unat (queue_capacity c) * ?n" by (rule mult_le_mono1)
  also have "\<dots> \<le> length (queue_buffer c)" using wf by (simp add: queue_wf_def)
  finally show le: "unat i * ?n + ?n \<le> length (queue_buffer c)" by simp
  have "length (queue_buffer c) < 2 ^ 32" using wf by (simp add: queue_wf_def)
  then have "unat i * ?n < 2 ^ 32" using le by linarith
  then show "unat (i * queue_item_size c) = unat i * ?n" by (simp add: unat_word_ariths)
qed

lemma next_index:
  assumes "i < (n :: u32)"
  shows "unat ((i + 1) mod n) = Suc (unat i) mod unat n" and "(i + 1) mod n < n"
proof -
  have "unat i < unat n" using assms by (simp add: word_less_nat_alt)
  moreover have "unat n < 2 ^ 32" using unsigned_less [of n] by simp
  ultimately have "unat (i + 1) = Suc (unat i)" by (simp add: unat_word_ariths)
  then show *: "unat ((i + 1) mod n) = Suc (unat i) mod unat n" by (simp add: unat_mod)
  show "(i + 1) mod n < n" using * \<open>unat i < unat n\<close> by (simp add: word_less_nat_alt)
qed

lemma slot_update_same:
  "length item = n \<Longrightarrow> i * n + n \<le> length buf \<Longrightarrow>
   take n (drop (i * n) (take (i * n) buf @ item @ drop (i * n + n) buf)) = item"
  by simp

lemma slot_update_other:
  assumes "i \<noteq> (j::nat)" "length item = n" "i * n + n \<le> length buf" "j * n + n \<le> length buf"
  shows "take n (drop (j * n) (take (i * n) buf @ item @ drop (i * n + n) buf)) = take n (drop (j * n) buf)"
proof (cases "j < i")
  case True
  then have "Suc j * n \<le> i * n" by (intro mult_le_mono1) simp
  then have le: "j * n + n \<le> i * n" by simp
  have "drop (j * n) (take (i * n) buf) ! k = buf ! (j * n + k)" if "k < n" for k
  proof -
    have "j * n \<le> length buf" "j * n \<le> i * n" "j * n + k < i * n" using le that assms(4) by linarith+
    then show ?thesis by (simp only: nth_drop nth_take length_take min.bounded_iff)
  qed
  then show ?thesis using assms le by (intro nth_equalityI) (auto simp: nth_append)
next
  case False
  then have "Suc i * n \<le> j * n" using assms(1) by (intro mult_le_mono1) simp
  then have le: "i * n + n \<le> j * n" by simp
  define A where "A = take (i * n) buf @ item"
  have "length A = i * n + n" using assms by (simp add: A_def)
  then have "drop (j * n) (A @ drop (i * n + n) buf) = drop (j * n) buf"
    using le by (simp only: drop_append drop_drop drop_all append_Nil le_add_diff_inverse2)
  then show ?thesis by (simp add: A_def)
qed

lemma mod_index_neq:
  assumes "j < k" "k \<le> j + d" "d < (m::nat)"
  shows "(h + j) mod m \<noteq> (h + k) mod m"
proof
  assume "(h + j) mod m = (h + k) mod m"
  then have "m dvd (h + k) - (h + j)" using assms(1) by (intro mod_eq_dvd_iff_nat [THEN iffD1]) simp_all
  then have "m dvd k - j" by simp
  then show False using assms by (auto dest!: dvd_imp_le)
qed

lemma copy_in_spec:
  assumes wf: "queue_wf c" and it: "item_fits c item"
    and room: "length (queue_items c) < unat (queue_capacity c)"
  shows "\<exists>c'. copy_in item c = Some c' \<and> queue_wf c' \<and> queue_items c' = queue_items c @ [item] \<and>
     unat (queue_capacity c') = unat (queue_capacity c) \<and> item_fits c' = item_fits c"
proof -
  let ?n = "unat (queue_item_size c)" and ?m = "unat (queue_capacity c)"
  let ?t = "unat (queue_tail c)" and ?h = "unat (queue_head c)" and ?k = "unat (queue_count c)"
  let ?buf = "take (?t * ?n) (queue_buffer c) @ item @ drop (?t * ?n + ?n) (queue_buffer c)"
  have lt: "queue_tail c < queue_capacity c" "0 < ?m" "?h < ?m" "?t = (?h + ?k) mod ?m" "?k < ?m"
    and len: "?m * ?n \<le> length (queue_buffer c)" "length (queue_buffer c) < 2 ^ 32"
    using wf room by (auto simp: queue_wf_def word_less_nat_alt)
  have off: "unat (queue_tail c * queue_item_size c) = ?t * ?n"
    "?t * ?n + ?n \<le> length (queue_buffer c)"
    using slot_offset [OF wf lt(1)] by simp_all
  have "?m < 2 ^ 32" using unsigned_less [of "queue_capacity c"] by simp
  then have k1: "unat (queue_count c + 1) = Suc ?k" using lt(5) by (simp add: unat_word_ariths)
  let ?c' = "c\<lparr>queue_buffer := ?buf, queue_tail := (queue_tail c + 1) mod queue_capacity c,
      queue_count := queue_count c + 1\<rparr>"
  have res: "copy_in item c = Some ?c'"
    using off it lt(2) by (auto simp: copy_in_def item_fits_def Let_def)
  have "Suc ?t mod ?m = (?h + Suc ?k) mod ?m" unfolding lt(4) by (simp add: mod_Suc_eq)
  then have wf': "queue_wf ?c'"
    using wf off it lt k1 next_index [OF lt(1)] len
    by (simp add: queue_wf_def item_fits_def word_le_nat_alt)
  have new: "slot ?c' ?t = item"
    using slot_update_same [of item ?n ?t "queue_buffer c"] off(2) it by (simp add: slot_def item_fits_def)
  have old: "slot ?c' ((?h + j) mod ?m) = slot c ((?h + j) mod ?m)" if "j < ?k" for j
  proof -
    have "?t \<noteq> (?h + j) mod ?m" using mod_index_neq [of j ?k ?k ?m ?h] that lt(4,5) by simp
    moreover have "Suc ((?h + j) mod ?m) * ?n \<le> ?m * ?n" using lt(2) by (intro mult_le_mono1) (simp add: Suc_leI)
    then have "(?h + j) mod ?m * ?n + ?n \<le> length (queue_buffer c)" using len(1) by simp
    ultimately show ?thesis
      using slot_update_other [of ?t "(?h + j) mod ?m" item ?n "queue_buffer c"] off(2) it
      by (simp add: slot_def item_fits_def)
  qed
  have "queue_items ?c' = queue_items c @ [item]"
    using new old k1 lt(4) by (simp add: queue_items_def)
  then show ?thesis using res wf' by (simp add: item_fits_def fun_eq_iff)
qed

lemma copy_out_spec:
  assumes wf: "queue_wf c" and ne: "queue_items c = x # xs"
  shows "\<exists>c'. copy_out c = Some (x, c') \<and> queue_wf c' \<and> queue_items c' = xs \<and>
     unat (queue_capacity c') = unat (queue_capacity c) \<and> item_fits c' = item_fits c"
proof -
  let ?n = "unat (queue_item_size c)" and ?m = "unat (queue_capacity c)"
  let ?t = "unat (queue_tail c)" and ?h = "unat (queue_head c)" and ?k = "unat (queue_count c)"
  have lt: "queue_head c < queue_capacity c" "0 < ?m" "?h < ?m" "?t = (?h + ?k) mod ?m" "?k \<le> ?m"
    using wf by (auto simp: queue_wf_def word_less_nat_alt word_le_nat_alt)
  have "?k = Suc (length xs)" using arg_cong [OF ne, of length] by simp
  then have k1: "unat (queue_count c - 1) = ?k - 1" "?k = Suc (?k - 1)"
    by (auto simp: unat_sub word_le_nat_alt)
  have off: "unat (queue_head c * queue_item_size c) = ?h * ?n"
    "?h * ?n + ?n \<le> length (queue_buffer c)"
    using slot_offset [OF wf lt(1)] by simp_all
  let ?c' = "c\<lparr>queue_head := (queue_head c + 1) mod queue_capacity c, queue_count := queue_count c - 1\<rparr>"
  have split: "queue_items c = slot c ?h # map (\<lambda>j. slot c ((?h + Suc j) mod ?m)) [0..<?k - 1]"
  proof -
    have "[0..<?k] = 0 # map Suc [0..<?k - 1]" by (subst k1(2)) (simp only: upt_conv_Cons map_Suc_upt zero_less_Suc)
    then show ?thesis unfolding queue_items_def using lt(3) by (simp add: comp_def)
  qed
  have "copy_out c = Some (slot c ?h, ?c')"
    using off lt(2) by (auto simp: copy_out_def slot_def Let_def)
  moreover have "(Suc ?h mod ?m + (?k - 1)) mod ?m = (?h + ?k) mod ?m"
    by (subst mod_add_left_eq) (use k1(2) in simp)
  then have "queue_wf ?c'"
    using wf lt k1 next_index [OF lt(1)] by (simp add: queue_wf_def word_le_nat_alt)
  moreover have "queue_items ?c' = map (\<lambda>j. slot c ((?h + Suc j) mod ?m)) [0..<?k - 1]"
    using k1(1) next_index(1) [OF lt(1)] by (simp add: queue_items_def slot_def mod_add_left_eq)
  ultimately show ?thesis using ne split by (simp add: item_fits_def fun_eq_iff)
qed

interpretation ring: bounded_fifo queue_wf queue_items "\<lambda>c. unat (queue_capacity c)" item_fits copy_in copy_out
  by unfold_locales (rule copy_in_spec copy_out_spec; assumption)+

section \<open>Initialisation\<close>

definition new_queue :: "u8 list \<Rightarrow> u32 \<Rightarrow> u32 \<Rightarrow> nimble_queue" where
  "new_queue buffer item_size capacity =
     \<lparr>queue_buffer = buffer, queue_item_size = item_size, queue_capacity = capacity,
      queue_count = 0, queue_head = 0, queue_tail = 0\<rparr>"

lemma new_queue_wf:
  assumes "0 < capacity" "unat capacity * unat item_size \<le> length buffer" "length buffer < 2 ^ 32"
  shows "queue_wf (new_queue buffer item_size capacity)"
    and "queue_items (new_queue buffer item_size capacity) = []"
  using assms by (simp_all add: queue_wf_def new_queue_def queue_items_def)

lemma queue_init_inv:
  assumes inv: "sched_inv b X H N L s" and new: "QueueReceivers q \<notin> H" "QueueSenders q \<notin> H"
  shows "sched_inv b X (insert (QueueSenders q) (insert (QueueReceivers q) H)) N
           (L(QueueReceivers q := [], QueueSenders q := [])) (nimble_queue_init q buf n m s)"
    and "queues (nimble_queue_init q buf n m s) = (queues s)(q := new_queue buf n m)"
proof -
  have r: "(queues s q)\<lparr>queue_buffer := buf, queue_item_size := n, queue_capacity := m,
      queue_count := 0, queue_head := 0, queue_tail := 0\<rparr> = new_queue buf n m"
    by (cases "queues s q") (simp add: new_queue_def)
  let ?s = "update_heap (nimble_list_init (QueueReceivers q)) s"
  have e: "nimble_queue_init q buf n m s = (update_heap (nimble_list_init (QueueSenders q)) ?s)
      \<lparr>queues := (queues s)(q := new_queue buf n m)\<rparr>"
    by (simp add: nimble_queue_init_def Let_def update_queue_def update_heap_def r)
  show "queues (nimble_queue_init q buf n m s) = (queues s)(q := new_queue buf n m)" by (simp add: e)
  have "sched_inv b X (insert (QueueReceivers q) H) N (L(QueueReceivers q := [])) ?s"
    by (rule init_wait_head_inv [OF inv _ new(1)]) simp
  from init_wait_head_inv [OF this, of "QueueSenders q"] new(2)
  show "sched_inv b X (insert (QueueSenders q) (insert (QueueReceivers q) H)) N
           (L(QueueReceivers q := [], QueueSenders q := [])) (nimble_queue_init q buf n m s)"
    unfolding e by simp
qed

section \<open>Sending and receiving\<close>

text \<open>
  The half that a successful send and a successful receive share: store the changed queue,
  then wake the first task waiting on the other side.
\<close>

lemma store_and_wake:
  assumes inv: "sched_inv b {} H N L s" and k: "k \<in> H" "wait_head k"
  shows "\<exists>s'. nimble_scheduler_wake_waiter k (update_queue q (\<lambda>_. c) (s\<lparr>basepri := v\<rparr>)) =
            Some (first_waiter k L, s') \<and>
     sched_inv b {} H N (woken_lists s (first_waiter k L) L) s' \<and>
     s' = s\<lparr>basepri := v, queues := (queues s)(q := c), tcbs := woken_tcbs (first_waiter k L) (tcbs s),
            heap := heap s', ready_bitmap := ready_bitmap s'\<rparr>"
proof -
  let ?s = "update_queue q (\<lambda>_. c) (s\<lparr>basepri := v\<rparr>)"
  have i: "sched_inv b {} H N L ?s" using inv by (simp add: update_queue_def)
  have l: "woken_lists ?s w L = woken_lists s w L" for w
    by (rule woken_lists_cong) (simp add: update_queue_def)
  show ?thesis using wake_waiter_total [OF i k] unfolding l by (simp add: update_queue_def)
qed

lemma send_room:
  assumes inv: "sched_inv b {} H N L s" and q: "QueueReceivers q \<in> H"
    and room: "queue_count (queues s q) < queue_capacity (queues s q)"
    and c: "copy_in item (queues s q) = Some c"
  defines "w \<equiv> first_waiter (QueueReceivers q) L"
  shows "\<exists>s'. nimble_queue_send q item timeout s = Some (Returns NIMBLE_OK, s') \<and>
     sched_inv b {} H N (woken_lists s w L) s' \<and>
     s' = s\<lparr>queues := (queues s)(q := c), tcbs := woken_tcbs w (tcbs s),
            pendsv := (pendsv s \<or> w \<noteq> None), heap := heap s', ready_bitmap := ready_bitmap s'\<rparr>"
proof -
  let ?v = "NIMBLE_KERNEL_SYSCALL_BASEPRI"
  obtain s1 where w1: "nimble_scheduler_wake_waiter (QueueReceivers q)
      (update_queue q (\<lambda>_. c) (s\<lparr>basepri := ?v\<rparr>)) = Some (w, s1)"
    and i1: "sched_inv b {} H N (woken_lists s w L) s1"
    and f1: "s1 = s\<lparr>basepri := ?v, queues := (queues s)(q := c), tcbs := woken_tcbs w (tcbs s),
            heap := heap s1, ready_bitmap := ready_bitmap s1\<rparr>"
    using store_and_wake [OF inv q, of q c ?v] unfolding w_def by auto
  let ?s' = "s1\<lparr>basepri := basepri s, pendsv := (pendsv s \<or> w \<noteq> None)\<rparr>"
  have p: "pendsv s1 = pendsv s" by (subst f1) simp
  have "nimble_queue_send q item timeout s = Some (Returns NIMBLE_OK, ?s')"
    using w1 room c p by (cases w; cases s1) (simp_all add: nimble_queue_send_def queue_copy_in_def
        nimble_port_enter_critical_def nimble_port_exit_critical_def nimble_port_request_context_switch_def)
  moreover have "sched_inv b {} H N (woken_lists s w L) ?s'" using i1 by simp
  moreover have "?s' = s\<lparr>queues := (queues s)(q := c), tcbs := woken_tcbs w (tcbs s),
      pendsv := (pendsv s \<or> w \<noteq> None), heap := heap ?s', ready_bitmap := ready_bitmap ?s'\<rparr>"
    by (subst (1) f1) simp
  ultimately show ?thesis by blast
qed

lemma send_full:
  "\<not> queue_count (queues s q) < queue_capacity (queues s q) \<Longrightarrow>
   nimble_queue_send q item NIMBLE_NO_WAIT s = Some (Returns NIMBLE_ERR_FULL, s)"
  by (cases s) (simp add: nimble_queue_send_def kdefs)

lemma send_blocks:
  assumes inv: "sched_inv b {} H N L s" and cur: "nimble_current_tcb s = Some t"
    and run: "task_state s t = NIMBLE_TASK_RUNNING" and q: "QueueSenders q \<in> H"
    and L: "L (QueueSenders q) = map EventLink ts"
    and full: "\<not> queue_count (queues s q) < queue_capacity (queues s q)" and to: "timeout \<noteq> NIMBLE_NO_WAIT"
  shows "\<exists>s'. nimble_queue_send q item timeout s = Some (Blocks, s') \<and>
     sched_inv b {} H N
       (block_lists t timeout (L(QueueSenders q := map EventLink (prio_insert (task_priority s) t ts)))) s' \<and>
     s' = s\<lparr>tcbs := (tcbs s)(t := (tcbs s t)\<lparr>tcb_state := NIMBLE_TASK_BLOCKED,
                 tcb_wake_tick := if timeout = NIMBLE_WAIT_FOREVER then tcb_wake_tick (tcbs s t)
                                  else g_tick_count s + timeout\<rparr>),
            pendsv := True, heap := heap s', ready_bitmap := ready_bitmap s'\<rparr>"
  using queue_wait.block_call [OF inv cur run q _ L, of timeout] full cur to
  by (simp add: nimble_queue_send_def nimble_port_enter_critical_def Let_def cong: if_cong)

lemma receive_item:
  assumes inv: "sched_inv b {} H N L s" and q: "QueueSenders q \<in> H"
    and ne: "0 < queue_count (queues s q)"
    and c: "copy_out (queues s q) = Some (x, c)"
  defines "w \<equiv> first_waiter (QueueSenders q) L"
  shows "\<exists>s'. nimble_queue_receive q timeout s = Some (Returns (NIMBLE_OK, Some x), s') \<and>
     sched_inv b {} H N (woken_lists s w L) s' \<and>
     s' = s\<lparr>queues := (queues s)(q := c), tcbs := woken_tcbs w (tcbs s),
            pendsv := (pendsv s \<or> w \<noteq> None), heap := heap s', ready_bitmap := ready_bitmap s'\<rparr>"
proof -
  let ?v = "NIMBLE_KERNEL_SYSCALL_BASEPRI"
  obtain s1 where w1: "nimble_scheduler_wake_waiter (QueueSenders q)
      (update_queue q (\<lambda>_. c) (s\<lparr>basepri := ?v\<rparr>)) = Some (w, s1)"
    and i1: "sched_inv b {} H N (woken_lists s w L) s1"
    and f1: "s1 = s\<lparr>basepri := ?v, queues := (queues s)(q := c), tcbs := woken_tcbs w (tcbs s),
            heap := heap s1, ready_bitmap := ready_bitmap s1\<rparr>"
    using store_and_wake [OF inv q, of q c ?v] unfolding w_def by auto
  let ?s' = "s1\<lparr>basepri := basepri s, pendsv := (pendsv s \<or> w \<noteq> None)\<rparr>"
  have p: "pendsv s1 = pendsv s" by (subst f1) simp
  have "nimble_queue_receive q timeout s = Some (Returns (NIMBLE_OK, Some x), ?s')"
    using w1 ne c p by (cases w; cases s1) (simp_all add: nimble_queue_receive_def queue_copy_out_def
        nimble_port_enter_critical_def nimble_port_exit_critical_def nimble_port_request_context_switch_def)
  moreover have "sched_inv b {} H N (woken_lists s w L) ?s'" using i1 by simp
  moreover have "?s' = s\<lparr>queues := (queues s)(q := c), tcbs := woken_tcbs w (tcbs s),
      pendsv := (pendsv s \<or> w \<noteq> None), heap := heap ?s', ready_bitmap := ready_bitmap ?s'\<rparr>"
    by (subst (1) f1) simp
  ultimately show ?thesis by blast
qed

lemma receive_empty:
  "queue_count (queues s q) = 0 \<Longrightarrow>
   nimble_queue_receive q NIMBLE_NO_WAIT s = Some (Returns (NIMBLE_ERR_EMPTY, None), s)"
  by (cases s) (simp add: nimble_queue_receive_def kdefs)

lemma receive_blocks:
  assumes inv: "sched_inv b {} H N L s" and cur: "nimble_current_tcb s = Some t"
    and run: "task_state s t = NIMBLE_TASK_RUNNING" and q: "QueueReceivers q \<in> H"
    and L: "L (QueueReceivers q) = map EventLink ts"
    and empty: "queue_count (queues s q) = 0" and to: "timeout \<noteq> NIMBLE_NO_WAIT"
  shows "\<exists>s'. nimble_queue_receive q timeout s = Some (Blocks, s') \<and>
     sched_inv b {} H N
       (block_lists t timeout (L(QueueReceivers q := map EventLink (prio_insert (task_priority s) t ts)))) s' \<and>
     s' = s\<lparr>tcbs := (tcbs s)(t := (tcbs s t)\<lparr>tcb_state := NIMBLE_TASK_BLOCKED,
                 tcb_wake_tick := if timeout = NIMBLE_WAIT_FOREVER then tcb_wake_tick (tcbs s t)
                                  else g_tick_count s + timeout\<rparr>),
            pendsv := True, heap := heap s', ready_bitmap := ready_bitmap s'\<rparr>"
  using queue_wait.block_call [OF inv cur run q _ L, of timeout] empty cur to
  by (simp add: nimble_queue_receive_def nimble_port_enter_critical_def Let_def cong: if_cong)

section \<open>After the context switch\<close>

text \<open>
  The resumed halves touch the ring and nothing else of the scheduler: in particular the lists
  \<open>L\<close> are the same before and after, so no task on the other side is woken.
\<close>

lemma send_resume_inv:
  assumes inv: "sched_inv b {} H N L s" and t: "Link t \<in> N"
    and run: "task_state s t = NIMBLE_TASK_RUNNING"
    and c: "tcb_last_wait_result (tcbs s t) \<noteq> NIMBLE_ERR_TIMEOUT \<Longrightarrow>
            queue_count (queues s q) < queue_capacity (queues s q) \<Longrightarrow>
            copy_in item (queues s q) = Some c"
  shows "\<exists>s'. nimble_queue_send_resume q item t s =
       Some (if tcb_last_wait_result (tcbs s t) = NIMBLE_ERR_TIMEOUT then NIMBLE_ERR_TIMEOUT
             else if queue_count (queues s q) < queue_capacity (queues s q) then NIMBLE_OK
             else NIMBLE_ERR_FULL, s') \<and>
     sched_inv b {} H N L s' \<and>
     s' = s\<lparr>queues := (if tcb_last_wait_result (tcbs s t) \<noteq> NIMBLE_ERR_TIMEOUT \<and>
                          queue_count (queues s q) < queue_capacity (queues s q)
                       then (queues s)(q := c) else queues s), heap := heap s'\<rparr>"
proof -
  let ?h = "nimble_list_remove (EventLink t) (heap s)"
  have i: "sched_inv b {} H N L (s\<lparr>heap := ?h\<rparr>)"
    using resume_detach_inv [OF inv t run] by (simp add: update_heap_def)
  then have "sched_inv b {} H N L (s\<lparr>heap := ?h, queues := v\<rparr>)" for v by simp
  then show ?thesis
    using i c by (cases s) (auto simp: nimble_queue_send_resume_def queue_copy_in_def kdefs Let_def)
qed

lemma receive_resume_inv:
  assumes inv: "sched_inv b {} H N L s" and t: "Link t \<in> N"
    and run: "task_state s t = NIMBLE_TASK_RUNNING"
    and c: "tcb_last_wait_result (tcbs s t) \<noteq> NIMBLE_ERR_TIMEOUT \<Longrightarrow>
            0 < queue_count (queues s q) \<Longrightarrow> copy_out (queues s q) = Some (x, c)"
  shows "\<exists>s'. nimble_queue_receive_resume q t s =
       Some (if tcb_last_wait_result (tcbs s t) = NIMBLE_ERR_TIMEOUT then (NIMBLE_ERR_TIMEOUT, None)
             else if 0 < queue_count (queues s q) then (NIMBLE_OK, Some x)
             else (NIMBLE_ERR_EMPTY, None), s') \<and>
     sched_inv b {} H N L s' \<and>
     s' = s\<lparr>queues := (if tcb_last_wait_result (tcbs s t) \<noteq> NIMBLE_ERR_TIMEOUT \<and>
                          0 < queue_count (queues s q)
                       then (queues s)(q := c) else queues s), heap := heap s'\<rparr>"
proof -
  let ?h = "nimble_list_remove (EventLink t) (heap s)"
  have i: "sched_inv b {} H N L (s\<lparr>heap := ?h\<rparr>)"
    using resume_detach_inv [OF inv t run] by (simp add: update_heap_def)
  then have "sched_inv b {} H N L (s\<lparr>heap := ?h, queues := v\<rparr>)" for v by simp
  then show ?thesis
    using i c by (cases s) (auto simp: nimble_queue_receive_resume_def queue_copy_out_def kdefs Let_def)
qed

section \<open>Sending from an interrupt\<close>

lemma send_from_isr_full:
  "\<not> queue_count (queues s q) < queue_capacity (queues s q) \<Longrightarrow>
   nimble_queue_send_from_isr q item s = Some (NIMBLE_ERR_FULL, False, s)"
  by (simp add: nimble_queue_send_from_isr_def not_less)

lemma send_from_isr_room:
  assumes inv: "sched_inv b {} H N L s" and q: "QueueReceivers q \<in> H"
    and room: "queue_count (queues s q) < queue_capacity (queues s q)"
    and c: "copy_in item (queues s q) = Some c"
  defines "w \<equiv> first_waiter (QueueReceivers q) L"
  shows "\<exists>s'. nimble_queue_send_from_isr q item s = Some (NIMBLE_OK, w \<noteq> None, s') \<and>
     sched_inv b {} H N (woken_lists s w L) s' \<and>
     s' = s\<lparr>queues := (queues s)(q := c), tcbs := woken_tcbs w (tcbs s),
            heap := heap s', ready_bitmap := ready_bitmap s'\<rparr>"
proof -
  have s: "s\<lparr>basepri := basepri s\<rparr> = s" by simp
  show ?thesis
    using store_and_wake [OF inv q, of q c "basepri s"] room c
    unfolding s w_def by (auto simp: nimble_queue_send_from_isr_def queue_copy_in_def not_le)
qed

end
