(* ===== verification/Timer.thy ===== *)
theory Timer
  imports Queue
begin

text \<open>
  Software timers (\<^verbatim>\<open>kernel/src/timer.c\<close>). The endless loop of
  \<^verbatim>\<open>timer_task_fn\<close> is given by its two halves: \<open>timer_task_wait\<close> runs to the
  \<^verbatim>\<open>nimble_semaphore_take\<close>, and \<open>timer_expiry_loop\<close> is the inner loop that fires
  the due timers. The callbacks are code of the application: they are the argument
  \<open>run_callback\<close>.
\<close>

section \<open>Operations\<close>

partial_function (option) timer_position :: "nimble_tick_t \<Rightarrow> node \<Rightarrow> kernel \<Rightarrow> node option" where
  "timer_position expiry node s =
     (if node = ActiveTimers then Some node
      else do { other \<leftarrow> container_of_timer_link node;
                if sint (expiry - timer_expiry_tick (timers s other)) < 0 then Some node
                else timer_position expiry (node_next (heap s) node) s })"

definition insert_sorted_by_expiry :: "timer_ptr \<Rightarrow> kernel \<Rightarrow> kernel option" where
  "insert_sorted_by_expiry t s =
     do { node \<leftarrow> timer_position (timer_expiry_tick (timers s t)) (node_next (heap s) ActiveTimers) s;
          Some (update_heap (link_before node (TimerLink t)) s) }"

definition timer_wait_ticks :: "kernel \<Rightarrow> (nimble_tick_t \<times> kernel) option" where
  "timer_wait_ticks s =
     do { let (crit, s) = nimble_port_enter_critical s;
          wait_ticks \<leftarrow>
            (if nimble_list_is_empty ActiveTimers (heap s) then Some NIMBLE_WAIT_FOREVER
             else do { head \<leftarrow> container_of_timer_link (node_next (heap s) ActiveTimers);
                       let now = nimble_scheduler_get_tick_count s;
                       let delta = sint (timer_expiry_tick (timers s head) - now);
                       Some (if delta > 0 then word_of_int delta else NIMBLE_NO_WAIT) });
          Some (wait_ticks, nimble_port_exit_critical crit s) }"

definition timer_task_wait :: "kernel \<Rightarrow> (nimble_status_t call_result \<times> kernel) option" where
  "timer_task_wait s =
     do { (wait_ticks, s) \<leftarrow> timer_wait_ticks s;
          nimble_semaphore_take timer_wake_sem wait_ticks s }"

text \<open>
  One round of the inner loop up to the callback: \<open>None\<close> where the loop breaks, otherwise the
  callback and its argument.
\<close>

definition timer_expire_one :: "kernel \<Rightarrow> ((addr \<times> addr) option \<times> kernel) option" where
  "timer_expire_one s =
     do { let (crit, s) = nimble_port_enter_critical s;
          if nimble_list_is_empty ActiveTimers (heap s)
          then Some (None, nimble_port_exit_critical crit s)
          else
            do { head \<leftarrow> container_of_timer_link (node_next (heap s) ActiveTimers);
                 let now = nimble_scheduler_get_tick_count s;
                 if sint (timer_expiry_tick (timers s head) - now) > 0
                 then Some (None, nimble_port_exit_critical crit s)
                 else
                   do { let s = update_heap (nimble_list_remove (TimerLink head)) s;
                        let callback = timer_callback (timers s head);
                        let cb_arg = timer_arg (timers s head);
                        s \<leftarrow>
                          (if timer_is_periodic (timers s head) then
                             do { let next_expiry = timer_expiry_tick (timers s head) + timer_period_ticks (timers s head);
                                  let next_expiry =
                                    (if sint (next_expiry - now) < 0
                                     then now + timer_period_ticks (timers s head) else next_expiry);
                                  let s = update_timer head (timer_expiry_tick_update (\<lambda>_. next_expiry)) s;
                                  insert_sorted_by_expiry head s }
                           else Some (update_timer head (timer_is_active_update (\<lambda>_. False)) s));
                        Some (Some (callback, cb_arg), nimble_port_exit_critical crit s) } } }"

partial_function (option) timer_expiry_loop ::
  "(addr \<Rightarrow> addr \<Rightarrow> kernel \<Rightarrow> kernel option) \<Rightarrow> kernel \<Rightarrow> kernel option" where
  "timer_expiry_loop run_callback s =
     do { (fired, s) \<leftarrow> timer_expire_one s;
          case fired of
            None \<Rightarrow> Some s
          | Some (callback, cb_arg) \<Rightarrow>
              do { s \<leftarrow> (if callback \<noteq> 0 then run_callback callback cb_arg s else Some s);
                   timer_expiry_loop run_callback s } }"

definition nimble_timer_service_start ::
  "u8 \<Rightarrow> addr \<Rightarrow> u32 \<Rightarrow> kernel \<Rightarrow> (nimble_status_t \<times> kernel) option" where
  "nimble_timer_service_start priority stack stack_words s =
     (let s = update_heap (nimble_list_init ActiveTimers) s;
          s = nimble_semaphore_init timer_wake_sem 0 1 s
      in nimble_task_create (Some timer_task_tcb) (Some ''timer_svc'') (sym_timer_task_fn (syms s)) 0
           stack stack_words priority s)"

definition zero_timer :: nimble_timer where
  "zero_timer = \<lparr>timer_period_ticks = 0, timer_expiry_tick = 0, timer_is_periodic = False,
     timer_is_active = False, timer_callback = 0, timer_arg = 0, timer_name = replicate 16 (CHR 0x00)\<rparr>"

definition nimble_timer_init ::
  "timer_ptr \<Rightarrow> string option \<Rightarrow> nimble_tick_t \<Rightarrow> bool \<Rightarrow> addr \<Rightarrow> addr \<Rightarrow> kernel \<Rightarrow> kernel" where
  "nimble_timer_init t name period_ticks is_periodic callback arg s =
     (let s = s\<lparr>timers := (timers s)(t := zero_timer)\<rparr>;
          s = update_heap (nimble_list_init (TimerLink t)) s
      in update_timer t (\<lambda>c. c\<lparr>timer_period_ticks := period_ticks, timer_is_periodic := is_periodic,
           timer_callback := callback, timer_arg := arg, timer_is_active := False,
           timer_name := copy_name 16 name\<rparr>) s)"

text \<open>
  \<^verbatim>\<open>nimble_timer_start\<close> is a critical section followed by a call: \<open>timer_arm\<close> is the
  section, with \<^verbatim>\<open>became_new_head\<close> as its result, and between it and the give of the semaphore
  interrupts and other tasks may run. \<open>timer_set_period\<close> is the section that
  \<^verbatim>\<open>nimble_timer_reset\<close> has before it calls the start.
\<close>

definition timer_arm :: "timer_ptr \<Rightarrow> kernel \<Rightarrow> (bool \<times> kernel) option" where
  "timer_arm t s =
     do { let (crit, s) = nimble_port_enter_critical s;
          let s = (if timer_is_active (timers s t)
                   then update_heap (nimble_list_remove (TimerLink t)) s else s);
          let s = update_timer t (\<lambda>c. c\<lparr>timer_expiry_tick :=
                    nimble_scheduler_get_tick_count s + timer_period_ticks c\<rparr>) s;
          let s = update_timer t (timer_is_active_update (\<lambda>_. True)) s;
          s \<leftarrow> insert_sorted_by_expiry t s;
          let became_new_head = (node_next (heap s) ActiveTimers = TimerLink t);
          Some (became_new_head, nimble_port_exit_critical crit s) }"

definition nimble_timer_start :: "timer_ptr \<Rightarrow> kernel \<Rightarrow> (nimble_status_t \<times> kernel) option" where
  "nimble_timer_start t s =
     do { (became_new_head, s) \<leftarrow> timer_arm t s;
          s \<leftarrow> (if became_new_head
                then do { (_, s) \<leftarrow> nimble_semaphore_give timer_wake_sem s; Some s }
                else Some s);
          Some (NIMBLE_OK, s) }"

definition nimble_timer_stop :: "timer_ptr \<Rightarrow> kernel \<Rightarrow> nimble_status_t \<times> kernel" where
  "nimble_timer_stop t s =
     (let (crit, s) = nimble_port_enter_critical s;
          s = (if timer_is_active (timers s t)
               then let s = update_heap (nimble_list_remove (TimerLink t)) s
                    in update_timer t (timer_is_active_update (\<lambda>_. False)) s
               else s)
      in (NIMBLE_OK, nimble_port_exit_critical crit s))"

definition timer_set_period :: "timer_ptr \<Rightarrow> nimble_tick_t \<Rightarrow> kernel \<Rightarrow> kernel" where
  "timer_set_period t new_period_ticks s =
     (let (crit, s) = nimble_port_enter_critical s;
          s = update_timer t (timer_period_ticks_update (\<lambda>_. new_period_ticks)) s
      in nimble_port_exit_critical crit s)"

definition nimble_timer_reset :: "timer_ptr \<Rightarrow> nimble_tick_t \<Rightarrow> kernel \<Rightarrow> (nimble_status_t \<times> kernel) option" where
  "nimble_timer_reset t new_period_ticks s = nimble_timer_start t (timer_set_period t new_period_ticks s)"

section \<open>The list of active timers\<close>

definition expiry_insert :: "(timer_ptr \<Rightarrow> nimble_tick_t) \<Rightarrow> timer_ptr \<Rightarrow> timer_ptr list \<Rightarrow> timer_ptr list" where
  "expiry_insert ex t ts =
     takeWhile (\<lambda>x. 0 \<le> sint (ex t - ex x)) ts @ t # dropWhile (\<lambda>x. 0 \<le> sint (ex t - ex x)) ts"

lemma set_expiry_insert [simp]: "set (expiry_insert ex t ts) = insert t (set ts)"
proof -
  let ?P = "\<lambda>x. 0 \<le> sint (ex t - ex x)"
  have "set ts = set (takeWhile ?P ts) \<union> set (dropWhile ?P ts)"
    by (metis set_append takeWhile_dropWhile_id)
  then show ?thesis unfolding expiry_insert_def by (simp add: Un_commute)
qed

lemma expiry_insert_simps:
  "expiry_insert ex t [] = [t]"
  "expiry_insert ex t (x # xs) =
     (if 0 \<le> sint (ex t - ex x) then x # expiry_insert ex t xs else t # x # xs)"
  by (simp_all add: expiry_insert_def)

text \<open>Time to go, seen from tick \<open>now\<close>, and the order of the list.\<close>

definition time_left :: "nimble_tick_t \<Rightarrow> nimble_tick_t \<Rightarrow> int" where
  "time_left now expiry = sint (expiry - now)"

definition expiry_sorted :: "nimble_tick_t \<Rightarrow> (timer_ptr \<Rightarrow> nimble_tick_t) \<Rightarrow> timer_ptr list \<Rightarrow> bool" where
  "expiry_sorted now ex ts \<longleftrightarrow> sorted_wrt (\<lambda>x y. time_left now (ex x) \<le> time_left now (ex y)) ts"

text \<open>
  The signed comparison of two expiry ticks agrees with their distance from \<open>now\<close> while both
  are less than \<open>2^30\<close> ticks away.
\<close>

definition near :: "nimble_tick_t \<Rightarrow> nimble_tick_t \<Rightarrow> bool" where
  "near now expiry \<longleftrightarrow> \<bar>time_left now expiry\<bar> < 2 ^ 30"

lemma sint_diff_near:
  assumes "near now a" "near now b"
  shows "sint (a - b) = time_left now a - time_left now b"
proof -
  have "a - b = word_of_int (sint (a - now) - sint (b - now))"
    by simp
  moreover have "sint (word_of_int (sint (a - now) - sint (b - now)) :: u32) = sint (a - now) - sint (b - now)"
    using assms by (intro sint_diff_u32) (auto simp: near_def time_left_def)
  ultimately show ?thesis unfolding time_left_def by metis
qed

lemma expiry_sorted_Cons:
  "expiry_sorted now ex (x # xs) \<longleftrightarrow>
     (\<forall>y\<in>set xs. time_left now (ex x) \<le> time_left now (ex y)) \<and> expiry_sorted now ex xs"
  by (simp add: expiry_sorted_def)

lemma expiry_sorted_insert:
  assumes "expiry_sorted now ex ts" "near now (ex t)" "\<And>x. x \<in> set ts \<Longrightarrow> near now (ex x)"
  shows "expiry_sorted now ex (expiry_insert ex t ts)"
  using assms
proof (induction ts)
  case Nil
  show ?case by (simp add: expiry_insert_simps expiry_sorted_def)
next
  case (Cons x xs)
  have cmp: "0 \<le> sint (ex t - ex x) \<longleftrightarrow> time_left now (ex x) \<le> time_left now (ex t)"
    using sint_diff_near [OF Cons.prems(2), of "ex x"] Cons.prems(3) by auto
  have x: "\<forall>y\<in>set xs. time_left now (ex x) \<le> time_left now (ex y)" and xs: "expiry_sorted now ex xs"
    using Cons.prems(1) by (simp_all add: expiry_sorted_Cons)
  have IH: "expiry_sorted now ex (expiry_insert ex t xs)" using Cons.IH xs Cons.prems(2,3) by simp
  show ?case
  proof (cases "0 \<le> sint (ex t - ex x)")
    case True
    then show ?thesis using x IH cmp by (simp add: expiry_insert_simps expiry_sorted_Cons)
  next
    case False
    then have "\<forall>y\<in>set (x # xs). time_left now (ex t) \<le> time_left now (ex y)" using x cmp by force
    then show ?thesis using False Cons.prems(1) by (simp add: expiry_insert_simps expiry_sorted_Cons)
  qed
qed

lemma expiry_sorted_removeAll: "expiry_sorted now ex ts \<Longrightarrow> expiry_sorted now ex (removeAll t ts)"
  by (simp add: expiry_sorted_def removeAll_filter_not_eq sorted_wrt_filter)

lemma expiry_sorted_cong:
  "(\<And>x. x \<in> set ts \<Longrightarrow> ex x = ex' x) \<Longrightarrow> expiry_sorted now ex ts = expiry_sorted now ex' ts"
  unfolding expiry_sorted_def by (induction ts) auto

section \<open>The invariant with timers\<close>

definition timers_inv :: "node set \<Rightarrow> node set \<Rightarrow> (node \<Rightarrow> node list) \<Rightarrow> timer_ptr list \<Rightarrow> kernel \<Rightarrow> bool" where
  "timers_inv H N L ts s \<longleftrightarrow>
     ActiveTimers \<in> H \<and> L ActiveTimers = map TimerLink ts \<and>
     (\<forall>t. TimerLink t \<in> N \<longrightarrow> timer_is_active (timers s t) = (t \<in> set ts))"

lemma timer_position_eq:
  assumes r: "repr H N L (heap s)" and k: "ActiveTimers \<in> H"
    and L: "L ActiveTimers = map TimerLink (xs @ ys)"
  shows "timer_position e (hd (map TimerLink ys @ [ActiveTimers])) s =
           Some (hd (map TimerLink (dropWhile (\<lambda>x. 0 \<le> sint (e - timer_expiry_tick (timers s x))) ys)
                     @ [ActiveTimers]))"
  using L
proof (induction ys arbitrary: xs)
  case Nil
  show ?case by (subst timer_position.simps) simp
next
  case (Cons y ys)
  have nx: "node_next (heap s) (TimerLink y) = hd (map TimerLink ys @ [ActiveTimers])"
    using repr_next_member [OF r k, of "map TimerLink xs" "TimerLink y" "map TimerLink ys"]
      Cons.prems by simp
  have "timer_position e (hd (map TimerLink ys @ [ActiveTimers])) s =
      Some (hd (map TimerLink (dropWhile (\<lambda>x. 0 \<le> sint (e - timer_expiry_tick (timers s x))) ys)
                     @ [ActiveTimers]))"
    using Cons.IH [of "xs @ [y]"] Cons.prems by simp
  then show ?case using nx by (subst timer_position.simps) simp
qed

text \<open>Changing only the timer list keeps the scheduler's invariant.\<close>

lemma sched_inv_timer_list:
  assumes inv: "sched_inv b X H N L s" and r: "repr H N L' h"
    and L': "\<And>k. k \<noteq> ActiveTimers \<Longrightarrow> L' k = L k" "\<exists>ts. L' ActiveTimers = map TimerLink ts"
  shows "sched_inv b X H N L' (s\<lparr>heap := h\<rparr>)"
proof -
  note D = tasks_invD [OF sched_inv_tasks [OF inv]]
  have R: "L' (ReadyList p) = L (ReadyList p)" "L' DelayedList = L DelayedList" for p
    using L'(1) by simp_all
  have E: "EventLink t \<in> set (L k)" if "EventLink t \<in> set (L' k)" for t k
    using that L' by (cases "k = ActiveTimers") auto
  have "tasks_inv b X H N L' s"
    by (rule tasks_invI; (unfold R)?)
      (fact D(1), fact D(2), fact D(3), fact D(4), fact D(5), fact D(6), use E D(7) in blast,
       fact D(8), fact D(9))
  moreover have "shape H N L'"
  proof (rule shape_change [OF sched_inv_shape [OF inv]])
    fix k n assume "k \<in> H" "n \<in> set (L' k)"
    then show "n \<in> set (L k) \<or> fits k n" using L' by (cases "k = ActiveTimers") auto
  qed
  moreover have "bitmap_inv b L' (ready_bitmap s)"
    by (rule bitmap_cong [OF sched_inv_bitmap [OF inv]]) (simp add: R)
  ultimately show ?thesis using r by (simp add: sched_inv_def)
qed

lemma timer_free:
  assumes inv: "sched_inv b X H N L s" and ti: "timers_inv H N L ts s" and t: "t \<notin> set ts"
  shows "free_node H L (TimerLink t)"
  unfolding free_node_def
proof (intro ballI notI)
  fix k assume k: "k \<in> H" "TimerLink t \<in> set (L k)"
  then have "fits k (TimerLink t)" by (rule shape_fits [OF sched_inv_shape [OF inv]])
  then have "k = ActiveTimers" by (cases k) auto
  then show False using k ti t by (auto simp: timers_inv_def)
qed

lemma insert_sorted_by_expiry_inv:
  assumes inv: "sched_inv b X H N L s" and H: "ActiveTimers \<in> H"
    and L: "L ActiveTimers = map TimerLink ts"
    and t: "TimerLink t \<in> N" and fr: "free_node H L (TimerLink t)"
  defines "ex \<equiv> \<lambda>x. timer_expiry_tick (timers s x)"
  shows "\<exists>h. insert_sorted_by_expiry t s = Some (s\<lparr>heap := h\<rparr>) \<and>
     sched_inv b X H N (L(ActiveTimers := map TimerLink (expiry_insert ex t ts))) (s\<lparr>heap := h\<rparr>)"
proof -
  let ?P = "\<lambda>x. 0 \<le> sint (ex t - ex x)"
  let ?q = "hd (map TimerLink (dropWhile ?P ts) @ [ActiveTimers])"
  let ?L = "L(ActiveTimers := map TimerLink (expiry_insert ex t ts))"
  have r: "repr H N L (heap s)" by (rule sched_inv_repr [OF inv])
  have "node_next (heap s) ActiveTimers = hd (map TimerLink ts @ [ActiveTimers])"
    using repr_next_head [OF r H] L by simp
  then have pos: "insert_sorted_by_expiry t s = Some (s\<lparr>heap := link_before ?q (TimerLink t) (heap s)\<rparr>)"
    using timer_position_eq [OF r H, of "[]" ts "ex t"] L
    by (simp add: insert_sorted_by_expiry_def ex_def update_heap_def)
  have "L ActiveTimers = map TimerLink (takeWhile ?P ts) @ map TimerLink (dropWhile ?P ts)"
    using L by (simp flip: map_append)
  from repr_link_before [OF r H t fr this]
  have "repr H N ?L (link_before ?q (TimerLink t) (heap s))" by (simp add: expiry_insert_def)
  then show ?thesis using pos sched_inv_timer_list [OF inv, of ?L] by auto
qed

lemma timer_remove_inv:
  assumes inv: "sched_inv b X H N L s" and H: "ActiveTimers \<in> H"
    and L: "L ActiveTimers = map TimerLink ts" and t: "TimerLink t \<in> N"
  defines "L' \<equiv> L(ActiveTimers := map TimerLink (removeAll t ts))"
  shows "sched_inv b X H N L' (s\<lparr>heap := nimble_list_remove (TimerLink t) (heap s)\<rparr>)"
proof (rule sched_inv_timer_list [OF inv])
  have "L' k = delist (TimerLink t) L k" if "k \<in> H" for k
  proof (cases "k = ActiveTimers")
    case True
    then show ?thesis by (simp add: L'_def L removeAll_map_inj inj_def)
  next
    case False
    then have "\<not> fits k (TimerLink t)" by (cases k) auto
    then have "TimerLink t \<notin> set (L k)" using shape_fits [OF sched_inv_shape [OF inv] that] by blast
    then show ?thesis using False by (simp add: L'_def)
  qed
  then show "repr H N L' (nimble_list_remove (TimerLink t) (heap s))"
    by (rule repr_cong [OF repr_remove [OF sched_inv_repr [OF inv] t]])
qed (auto simp: L'_def)

lemma timers_invD:
  assumes "timers_inv H N L ts s"
  shows "ActiveTimers \<in> H" "L ActiveTimers = map TimerLink ts"
    "TimerLink t \<in> N \<Longrightarrow> timer_is_active (timers s t) \<longleftrightarrow> t \<in> set ts"
  using assms by (auto simp: timers_inv_def)

lemma timers_inv_distinct: "sched_inv b X H N L s \<Longrightarrow> timers_inv H N L ts s \<Longrightarrow> distinct ts"
  using repr_distinct [OF sched_inv_repr] by (fastforce simp: timers_inv_def distinct_map)

lemma timers_inv_member:
  "sched_inv b X H N L s \<Longrightarrow> timers_inv H N L ts s \<Longrightarrow> t \<in> set ts \<Longrightarrow> TimerLink t \<in> N"
  using repr_member [OF sched_inv_repr, of b X H N L s ActiveTimers "TimerLink t"]
  by (auto simp: timers_inv_def)

lemma timer_head:
  assumes "sched_inv b X H N L s" "timers_inv H N L ts s"
  shows "nimble_list_is_empty ActiveTimers (heap s) \<longleftrightarrow> ts = []"
    and "ts = t # rest \<Longrightarrow> node_next (heap s) ActiveTimers = TimerLink t"
  using repr_is_empty [OF sched_inv_repr [OF assms(1)]] repr_next_head [OF sched_inv_repr [OF assms(1)]]
    timers_invD(1,2) [OF assms(2)] by auto

section \<open>Stopping\<close>

lemma timer_stop_inv:
  assumes inv: "sched_inv b X H N L s" and ti: "timers_inv H N L ts s" and t: "TimerLink t \<in> N"
  defines "L' \<equiv> L(ActiveTimers := map TimerLink (removeAll t ts))"
  shows "\<exists>s'. nimble_timer_stop t s = (NIMBLE_OK, s') \<and>
     sched_inv b X H N L' s' \<and> timers_inv H N L' (removeAll t ts) s' \<and>
     s' = s\<lparr>timers := (timers s)(t := (timers s t)\<lparr>timer_is_active := False\<rparr>), heap := heap s'\<rparr>"
proof (cases "timer_is_active (timers s t)")
  case True
  let ?s' = "s\<lparr>heap := nimble_list_remove (TimerLink t) (heap s),
      timers := (timers s)(t := (timers s t)\<lparr>timer_is_active := False\<rparr>)\<rparr>"
  have "nimble_timer_stop t s = (NIMBLE_OK, ?s')"
    using True by (cases s) (simp add: nimble_timer_stop_def kdefs Let_def)
  moreover have "sched_inv b X H N L' ?s'"
    using timer_remove_inv [OF inv timers_invD(1,2) [OF ti] t] by (simp add: L'_def)
  moreover have "timers_inv H N L' (removeAll t ts) ?s'"
    using ti by (auto simp: timers_inv_def L'_def)
  ultimately show ?thesis by auto
next
  case False
  then have "t \<notin> set ts" using timers_invD(3) [OF ti t] by simp
  then have rm: "removeAll t ts = ts" by simp
  moreover have L: "L' = L" using timers_invD(2) [OF ti] rm by (simp add: L'_def fun_upd_idem)
  moreover have "(timers s t)\<lparr>timer_is_active := False\<rparr> = timers s t" using False by simp
  moreover have "nimble_timer_stop t s = (NIMBLE_OK, s)"
    using False by (cases s) (simp add: nimble_timer_stop_def kdefs)
  ultimately show ?thesis using inv ti by simp
qed

section \<open>Starting\<close>

definition started :: "timer_ptr \<Rightarrow> kernel \<Rightarrow> nimble_timer" where
  "started t s = (timers s t)\<lparr>timer_expiry_tick := g_tick_count s + timer_period_ticks (timers s t),
                               timer_is_active := True\<rparr>"

definition start_list :: "timer_ptr \<Rightarrow> timer_ptr list \<Rightarrow> kernel \<Rightarrow> timer_ptr list" where
  "start_list t ts s =
     expiry_insert (\<lambda>x. timer_expiry_tick (((timers s)(t := started t s)) x)) t (removeAll t ts)"

lemma set_start_list [simp]: "set (start_list t ts s) = insert t (set ts)"
  by (auto simp: start_list_def)

lemma timer_insert_inv:
  assumes inv: "sched_inv b X H N L s" and ti: "timers_inv H N L ts s" and t: "TimerLink t \<in> N"
  defines "L' \<equiv> L(ActiveTimers := map TimerLink (start_list t ts s))"
    and "s0 \<equiv> s\<lparr>basepri := NIMBLE_KERNEL_SYSCALL_BASEPRI\<rparr>"
  defines "s1 \<equiv> (if timer_is_active (timers s t)
               then update_heap (nimble_list_remove (TimerLink t)) s0 else s0)
               \<lparr>timers := (timers s)(t := started t s)\<rparr>"
  shows "\<exists>h. insert_sorted_by_expiry t s1 = Some (s1\<lparr>heap := h\<rparr>) \<and>
     sched_inv b X H N L' (s1\<lparr>heap := h\<rparr>) \<and> timers_inv H N L' (start_list t ts s) (s1\<lparr>heap := h\<rparr>)"
proof -
  let ?L = "L(ActiveTimers := map TimerLink (removeAll t ts))"
  have s0: "sched_inv b X H N L s0" using inv by (simp add: s0_def)
  have i1: "sched_inv b X H N ?L s1"
  proof (cases "timer_is_active (timers s t)")
    case True
    then show ?thesis
      using timer_remove_inv [OF s0 timers_invD(1,2) [OF ti] t] by (simp add: s1_def update_heap_def)
  next
    case False
    then have "removeAll t ts = ts" using timers_invD(3) [OF ti t] by simp
    then have "?L = L" using timers_invD(2) [OF ti] by (simp add: fun_upd_idem)
    then show ?thesis using False s0 by (simp add: s1_def)
  qed
  have tm: "timers s1 = (timers s)(t := started t s)" by (simp add: s1_def)
  have fr: "free_node H ?L (TimerLink t)"
    unfolding free_node_def
  proof (intro ballI notI)
    fix k assume k: "k \<in> H" "TimerLink t \<in> set (?L k)"
    then have "fits k (TimerLink t)" by (rule shape_fits [OF sched_inv_shape [OF i1]])
    then have "k = ActiveTimers" by (cases k) auto
    then show False using k by auto
  qed
  obtain h where h: "insert_sorted_by_expiry t s1 = Some (s1\<lparr>heap := h\<rparr>)"
    and i2: "sched_inv b X H N (?L(ActiveTimers := map TimerLink (start_list t ts s))) (s1\<lparr>heap := h\<rparr>)"
    using insert_sorted_by_expiry_inv [OF i1 timers_invD(1) [OF ti] _ t fr, of "removeAll t ts"]
    by (auto simp: tm start_list_def)
  have "timers_inv H N L' (start_list t ts s) (s1\<lparr>heap := h\<rparr>)"
    using ti by (auto simp: timers_inv_def L'_def tm started_def)
  then show ?thesis using h i2 by (auto simp: L'_def)
qed

lemma woken_lists_timers [simp]:
  "shape H N L \<Longrightarrow> ActiveTimers \<in> H \<Longrightarrow> woken_lists s w L ActiveTimers = L ActiveTimers"
proof -
  assume sh: "shape H N L" and H: "ActiveTimers \<in> H"
  have "Link t \<notin> set (L ActiveTimers)" "EventLink t \<notin> set (L ActiveTimers)" for t
    using shape_fits [OF sh H, of "Link t"] shape_fits [OF sh H, of "EventLink t"] by auto
  then show ?thesis by (auto simp: woken_lists_def wake_lists_def split: option.splits)
qed

lemma timer_arm_inv:
  assumes inv: "sched_inv b {} H N L s" and ti: "timers_inv H N L ts s" and t: "TimerLink t \<in> N"
  defines "L1 \<equiv> L(ActiveTimers := map TimerLink (start_list t ts s))"
    and "new_head \<equiv> hd (start_list t ts s) = t"
  shows "\<exists>s'. timer_arm t s = Some (new_head, s') \<and> sched_inv b {} H N L1 s' \<and>
     timers_inv H N L1 (start_list t ts s) s' \<and>
     s' = s\<lparr>timers := (timers s)(t := started t s), heap := heap s'\<rparr>"
proof -
  let ?s0 = "s\<lparr>basepri := NIMBLE_KERNEL_SYSCALL_BASEPRI\<rparr>"
  define s1 where "s1 = (if timer_is_active (timers s t)
               then update_heap (nimble_list_remove (TimerLink t)) ?s0 else ?s0)
               \<lparr>timers := (timers s)(t := started t s)\<rparr>"
  obtain h where h: "insert_sorted_by_expiry t s1 = Some (s1\<lparr>heap := h\<rparr>)"
    and i2: "sched_inv b {} H N L1 (s1\<lparr>heap := h\<rparr>)"
    and t2: "timers_inv H N L1 (start_list t ts s) (s1\<lparr>heap := h\<rparr>)"
    using timer_insert_inv [OF inv ti t] unfolding s1_def L1_def by blast
  let ?s2 = "s1\<lparr>heap := h, basepri := basepri s\<rparr>"
  have i3: "sched_inv b {} H N L1 ?s2" and t3: "timers_inv H N L1 (start_list t ts s) ?s2"
    using i2 t2 by (simp_all add: timers_inv_def)
  have f: "timers ?s2 = (timers s)(t := started t s)" "semaphores ?s2 = semaphores s"
    "g_tick_count ?s2 = g_tick_count s" "tcbs ?s2 = tcbs s" "mutexes ?s2 = mutexes s" "queues ?s2 = queues s"
    by (simp_all add: s1_def update_heap_def)
  have nh: "node_next h ActiveTimers = TimerLink t \<longleftrightarrow> new_head"
  proof (cases "start_list t ts s")
    case Nil
    then have "t \<in> set []" using set_start_list [of t ts s] by simp
    then show ?thesis by simp
  next
    case (Cons x xs)
    then show ?thesis using timer_head(2) [OF i3 t3 Cons] by (simp add: new_head_def)
  qed
  have upd: "update_timer t (timer_is_active_update (\<lambda>_. True))
      (update_timer t (\<lambda>c. c\<lparr>timer_expiry_tick := g_tick_count s + timer_period_ticks c\<rparr>) x) =
      x\<lparr>timers := (timers s)(t := started t s)\<rparr>" if "timers x = timers s" for x
    using that by (simp add: update_timer_def started_def)
  have "timer_arm t s = Some (new_head, ?s2)"
    using h nh upd
    by (cases "timer_is_active (timers s t)")
      (simp_all add: timer_arm_def s1_def nimble_port_enter_critical_def
        nimble_port_exit_critical_def nimble_scheduler_get_tick_count_def update_heap_def Let_def split_def)
  moreover have "?s2 = s\<lparr>timers := (timers s)(t := started t s), heap := heap ?s2\<rparr>"
    by (simp add: s1_def update_heap_def)
  ultimately show ?thesis using i3 t3 by blast
qed

lemma timer_start_inv:
  assumes inv: "sched_inv b {} H N L s" and ti: "timers_inv H N L ts s" and t: "TimerLink t \<in> N"
    and sem: "SemWaiters timer_wake_sem \<in> H"
  defines "L1 \<equiv> L(ActiveTimers := map TimerLink (start_list t ts s))"
    and "w \<equiv> first_waiter (SemWaiters timer_wake_sem) L"
    and "new_head \<equiv> hd (start_list t ts s) = t"
  shows "\<exists>s'. nimble_timer_start t s = Some (NIMBLE_OK, s') \<and>
     sched_inv b {} H N (if new_head then woken_lists s w L1 else L1) s' \<and>
     timers_inv H N (if new_head then woken_lists s w L1 else L1) (start_list t ts s) s' \<and>
     timers s' = (timers s)(t := started t s) \<and> g_tick_count s' = g_tick_count s \<and>
     mutexes s' = mutexes s \<and> queues s' = queues s \<and>
     semaphores s' = (if new_head \<and> w = None
       then (semaphores s)(timer_wake_sem := bump (semaphores s timer_wake_sem)) else semaphores s) \<and>
     tcbs s' = (if new_head then woken_tcbs w (tcbs s) else tcbs s) \<and>
     (new_head \<longrightarrow> w \<noteq> None \<longrightarrow> pendsv s' \<and> task_state s' (the w) = NIMBLE_TASK_READY)"
proof -
  obtain s2 where arm: "timer_arm t s = Some (new_head, s2)" and i3: "sched_inv b {} H N L1 s2"
    and t3: "timers_inv H N L1 (start_list t ts s) s2"
    and f2: "s2 = s\<lparr>timers := (timers s)(t := started t s), heap := heap s2\<rparr>"
    using timer_arm_inv [OF inv ti t] unfolding L1_def new_head_def by blast
  have f: "timers s2 = (timers s)(t := started t s)" "semaphores s2 = semaphores s"
    "g_tick_count s2 = g_tick_count s" "tcbs s2 = tcbs s" "mutexes s2 = mutexes s" "queues s2 = queues s"
    by (subst f2, simp)+
  have start: "nimble_timer_start t s =
      (if new_head then do { (_, s') \<leftarrow> nimble_semaphore_give timer_wake_sem s2; Some (NIMBLE_OK, s') }
       else Some (NIMBLE_OK, s2))"
    by (simp add: nimble_timer_start_def arm split_def)
  show ?thesis
  proof (cases new_head)
    case False
    then show ?thesis using start i3 t3 f by simp
  next
    case True
    have w1: "first_waiter (SemWaiters timer_wake_sem) L1 = w"
      by (simp add: w_def L1_def first_waiter_def)
    have wl: "woken_lists s2 w L1 = woken_lists s w L1" by (rule woken_lists_cong) (simp add: f)
    have tl: "woken_lists s w L1 ActiveTimers = L1 ActiveTimers"
      by (rule woken_lists_timers [OF sched_inv_shape [OF i3] timers_invD(1) [OF ti]])
    obtain s' where g: "nimble_semaphore_give timer_wake_sem s2 = Some (NIMBLE_OK, s')"
      and i4: "sched_inv b {} H N (woken_lists s w L1) s'"
      and f4: "s' = s2\<lparr>semaphores := (if w = None
            then (semaphores s)(timer_wake_sem := bump (semaphores s timer_wake_sem)) else semaphores s),
            tcbs := woken_tcbs w (tcbs s), pendsv := (pendsv s2 \<or> w \<noteq> None),
            heap := heap s', ready_bitmap := ready_bitmap s'\<rparr>"
      using give_spec [OF i3 sem] unfolding w1 wl f by blast
    have "timers s' = (timers s)(t := started t s)" "g_tick_count s' = g_tick_count s"
      "mutexes s' = mutexes s" "queues s' = queues s"
      "pendsv s' = (pendsv s2 \<or> w \<noteq> None)" "tcbs s' = woken_tcbs w (tcbs s)"
      "semaphores s' = (if w = None
            then (semaphores s)(timer_wake_sem := bump (semaphores s timer_wake_sem)) else semaphores s)"
      using f by (subst f4, simp)+
    moreover have "timers_inv H N (woken_lists s w L1) (start_list t ts s) s'"
      using t3 tl f(1) calculation(1) by (simp add: timers_inv_def)
    ultimately show ?thesis using True start g i4 by (auto simp: woken_tcbs_def)
  qed
qed

lemma timer_set_period_eq:
  "timer_set_period t p s = s\<lparr>timers := (timers s)(t := (timers s t)\<lparr>timer_period_ticks := p\<rparr>)\<rparr>"
  by (simp add: timer_set_period_def kdefs)

lemma timer_reset_eq:
  "nimble_timer_reset t p s =
     nimble_timer_start t (s\<lparr>timers := (timers s)(t := (timers s t)\<lparr>timer_period_ticks := p\<rparr>)\<rparr>)"
  by (simp add: nimble_timer_reset_def timer_set_period_eq)

section \<open>Waiting for the next expiry\<close>

lemma timer_wait_ticks_eq:
  assumes inv: "sched_inv b X H N L s" and ti: "timers_inv H N L ts s"
  shows "timer_wait_ticks s =
     Some (case ts of
             [] \<Rightarrow> NIMBLE_WAIT_FOREVER
           | t # _ \<Rightarrow> let d = time_left (g_tick_count s) (timer_expiry_tick (timers s t))
                      in if d > 0 then word_of_int d else NIMBLE_NO_WAIT, s)"
proof -
  have s: "s\<lparr>basepri := basepri s\<rparr> = s" by simp
  show ?thesis
    using timer_head [OF inv ti]
    by (cases ts) (auto simp: timer_wait_ticks_def nimble_port_enter_critical_def s
        nimble_port_exit_critical_def nimble_scheduler_get_tick_count_def time_left_def Let_def)
qed

section \<open>Firing\<close>

definition next_expiry :: "nimble_tick_t \<Rightarrow> nimble_timer \<Rightarrow> nimble_tick_t" where
  "next_expiry now c =
     (let e = timer_expiry_tick c + timer_period_ticks c
      in if time_left now e < 0 then now + timer_period_ticks c else e)"

definition fire :: "nimble_tick_t \<Rightarrow> nimble_timer \<Rightarrow> nimble_timer" where
  "fire now c =
     (if timer_is_periodic c then c\<lparr>timer_expiry_tick := next_expiry now c\<rparr>
      else c\<lparr>timer_is_active := False\<rparr>)"

lemma fire_fields [simp]:
  "timer_is_periodic (fire now c) = timer_is_periodic c"
  "timer_period_ticks (fire now c) = timer_period_ticks c"
  by (simp_all add: fire_def)

definition fire_list :: "timer_ptr \<Rightarrow> timer_ptr list \<Rightarrow> kernel \<Rightarrow> timer_ptr list" where
  "fire_list t rest s =
     (if timer_is_periodic (timers s t)
      then expiry_insert (\<lambda>x. timer_expiry_tick
             (((timers s)(t := fire (g_tick_count s) (timers s t))) x)) t rest
      else rest)"

lemma expire_one_idle:
  assumes inv: "sched_inv b X H N L s" and ti: "timers_inv H N L ts s"
    and "ts = [] \<or> 0 < time_left (g_tick_count s) (timer_expiry_tick (timers s (hd ts)))"
  shows "timer_expire_one s = Some (None, s)"
  using timer_head [OF inv ti] assms(3)
  by (cases ts; cases s)
    (auto simp: timer_expire_one_def kdefs nimble_scheduler_get_tick_count_def time_left_def Let_def)

lemma expire_one_fires:
  assumes inv: "sched_inv b X H N L s" and ti: "timers_inv H N L (t # rest) s"
    and due: "time_left (g_tick_count s) (timer_expiry_tick (timers s t)) \<le> 0"
  defines "L' \<equiv> L(ActiveTimers := map TimerLink (fire_list t rest s))"
  shows "\<exists>s'. timer_expire_one s =
       Some (Some (timer_callback (timers s t), timer_arg (timers s t)), s') \<and>
     sched_inv b X H N L' s' \<and> timers_inv H N L' (fire_list t rest s) s' \<and>
     s' = s\<lparr>timers := (timers s)(t := fire (g_tick_count s) (timers s t)), heap := heap s'\<rparr>"
proof -
  let ?now = "g_tick_count s" and ?c = "timers s t"
  let ?s0 = "s\<lparr>basepri := NIMBLE_KERNEL_SYSCALL_BASEPRI\<rparr>"
  let ?L = "L(ActiveTimers := map TimerLink rest)"
  let ?s1 = "?s0\<lparr>heap := nimble_list_remove (TimerLink t) (heap s),
      timers := (timers s)(t := fire ?now ?c)\<rparr>"
  have tN: "TimerLink t \<in> N" using timers_inv_member [OF inv ti] by simp
  have tr: "t \<notin> set rest" using timers_inv_distinct [OF inv ti] by simp
  then have rm: "removeAll t (t # rest) = rest" by simp
  have i0: "sched_inv b X H N L ?s0" using inv by simp
  have i1: "sched_inv b X H N ?L ?s1"
    using timer_remove_inv [OF i0 timers_invD(1,2) [OF ti] tN] unfolding rm by simp
  have hd: "\<not> nimble_list_is_empty ActiveTimers (heap s)" "node_next (heap s) ActiveTimers = TimerLink t"
    using timer_head [OF inv ti] by simp_all
  have step: "timer_expire_one s =
      do { s' \<leftarrow> (if timer_is_periodic ?c then insert_sorted_by_expiry t ?s1 else Some ?s1);
           Some (Some (timer_callback ?c, timer_arg ?c), s'\<lparr>basepri := basepri s\<rparr>) }"
    using hd due
    by (auto simp: timer_expire_one_def nimble_port_enter_critical_def nimble_port_exit_critical_def
        nimble_scheduler_get_tick_count_def time_left_def update_heap_def update_timer_def
        fire_def next_expiry_def Let_def)
  have act: "timer_is_active ?c" using timers_invD(3) [OF ti tN] by simp
  have ti': "timers_inv H N L' (fire_list t rest s) s'"
    if "timers s' = (timers s)(t := fire ?now ?c)" for s'
    using ti that tr act by (auto simp: timers_inv_def L'_def fire_list_def fire_def)
  show ?thesis
  proof (cases "timer_is_periodic ?c")
    case True
    have fr: "free_node H ?L (TimerLink t)"
      using free_node_delist [of H "TimerLink t"] unfolding free_node_def
    proof (intro ballI notI)
      fix k assume k: "k \<in> H" "TimerLink t \<in> set (?L k)"
      then have "fits k (TimerLink t)" by (rule shape_fits [OF sched_inv_shape [OF i1]])
      then have "k = ActiveTimers" by (cases k) auto
      then show False using k tr by auto
    qed
    obtain h where h: "insert_sorted_by_expiry t ?s1 = Some (?s1\<lparr>heap := h\<rparr>)"
      and i2: "sched_inv b X H N (?L(ActiveTimers := map TimerLink (fire_list t rest s))) (?s1\<lparr>heap := h\<rparr>)"
      using insert_sorted_by_expiry_inv [OF i1 timers_invD(1) [OF ti] _ tN fr, of rest] True
      by (auto simp: fire_list_def)
    let ?s' = "s\<lparr>heap := h, timers := (timers s)(t := fire ?now ?c)\<rparr>"
    have "sched_inv b X H N L' (?s1\<lparr>heap := h, basepri := basepri s\<rparr>)"
      using i2 unfolding L'_def by (simp only: sched_inv_fields fun_upd_upd)
    moreover have "?s1\<lparr>heap := h, basepri := basepri s\<rparr> = ?s'" by simp
    ultimately have "sched_inv b X H N L' ?s'" by metis
    moreover have "timer_expire_one s = Some (Some (timer_callback ?c, timer_arg ?c), ?s')"
      using step h True by simp
    ultimately show ?thesis using ti' [of ?s'] by auto
  next
    case False
    let ?s' = "?s1\<lparr>basepri := basepri s\<rparr>"
    have "sched_inv b X H N L' ?s'" using i1 False unfolding L'_def fire_list_def
      by (simp only: sched_inv_fields if_False)
    moreover have "timer_expire_one s = Some (Some (timer_callback ?c, timer_arg ?c), ?s')"
      using step False by simp
    ultimately show ?thesis using ti' [of ?s'] by auto
  qed
qed

section \<open>The expiry loop\<close>

text \<open>How often a timer can still fire before it lies in the future.\<close>

definition firings :: "nimble_tick_t \<Rightarrow> nimble_timer \<Rightarrow> nat" where
  "firings now c =
     (if time_left now (timer_expiry_tick c) > 0 then 0
      else if time_left now (timer_expiry_tick c) = 0 \<or> \<not> timer_is_periodic c then 1 else 2)"

definition sane_timer :: "nimble_tick_t \<Rightarrow> nimble_timer \<Rightarrow> bool" where
  "sane_timer now c \<longleftrightarrow> near now (timer_expiry_tick c) \<and>
     (timer_is_periodic c \<longrightarrow> 0 < timer_period_ticks c \<and> unat (timer_period_ticks c) < 2 ^ 30)"

lemma time_left_add:
  assumes "near now e" "unat p < 2 ^ 30"
  shows "time_left now (e + p) = time_left now e + int (unat p)"
proof -
  have twice: "(2::int) ^ 31 = 2 * 2 ^ 30" by simp
  have "int (unat p) < int (2 ^ 30)" using assms(2) by (simp only: of_nat_less_iff)
  moreover have "\<bar>sint (e - now)\<bar> < 2 ^ 30" using assms(1) by (simp only: near_def time_left_def)
  ultimately have "- (2 ^ 31) \<le> sint (e - now) + int (unat p)" "sint (e - now) + int (unat p) < 2 ^ 31"
    unfolding of_nat_power of_nat_numeral twice by linarith+
  moreover have "e + p - now = word_of_int (sint (e - now) + int (unat p))" by simp
  moreover have "sint (word_of_int (sint (e - now) + int (unat p)) :: u32) = sint (e - now) + int (unat p)"
    using calculation(1,2) by (rule sint_diff_u32)
  ultimately show ?thesis unfolding time_left_def by metis
qed

lemma near_now [simp]: "near now now" "time_left now now = 0"
  by (simp_all add: near_def time_left_def)

lemma next_expiry_spec:
  assumes sane: "sane_timer now c" and p: "timer_is_periodic c"
    and due: "time_left now (timer_expiry_tick c) \<le> 0"
  shows "0 \<le> time_left now (next_expiry now c)"
    and "time_left now (next_expiry now c) \<le> int (unat (timer_period_ticks c))"
    and "time_left now (timer_expiry_tick c) = 0 \<Longrightarrow> 0 < time_left now (next_expiry now c)"
    and "near now (next_expiry now c)"
proof -
  have n: "near now (timer_expiry_tick c)" "0 < unat (timer_period_ticks c)"
    "unat (timer_period_ticks c) < 2 ^ 30"
    using sane p by (simp_all add: sane_timer_def word_less_nat_alt)
  have "int 0 < int (unat (timer_period_ticks c))" using n(2) by (simp only: of_nat_less_iff)
  then have pos: "0 < uint (timer_period_ticks c)" by simp
  note a = time_left_add [OF n(1,3)] and b = time_left_add [OF near_now(1) n(3), of now]
  show ge: "0 \<le> time_left now (next_expiry now c)"
    using b by (simp add: next_expiry_def Let_def)
  show le: "time_left now (next_expiry now c) \<le> int (unat (timer_period_ticks c))"
    using a b due by (simp add: next_expiry_def Let_def)
  show "time_left now (timer_expiry_tick c) = 0 \<Longrightarrow> 0 < time_left now (next_expiry now c)"
    using a b pos by (simp add: next_expiry_def Let_def)
  have "int (unat (timer_period_ticks c)) < int (2 ^ 30)" using n(3) by (simp only: of_nat_less_iff)
  then show "near now (next_expiry now c)" using ge le by (simp add: near_def)
qed

lemma fire_sane:
  "sane_timer now c \<Longrightarrow> time_left now (timer_expiry_tick c) \<le> 0 \<Longrightarrow> sane_timer now (fire now c)"
  using next_expiry_spec(4) [of now c] by (auto simp: sane_timer_def fire_def)

lemma fire_progress:
  "sane_timer now c \<Longrightarrow> timer_is_periodic c \<Longrightarrow> time_left now (timer_expiry_tick c) \<le> 0 \<Longrightarrow>
   firings now (fire now c) < firings now c"
  using next_expiry_spec(1,3) [of now c] by (auto simp: firings_def fire_def)

lemma firings_pos: "time_left now (timer_expiry_tick c) \<le> 0 \<Longrightarrow> 0 < firings now c"
  by (auto simp: firings_def)

text \<open>The loop's measure: the firings that are left over all active timers.\<close>

definition pending :: "timer_ptr list \<Rightarrow> kernel \<Rightarrow> nat" where
  "pending ts s = (\<Sum>x\<in>set ts. firings (g_tick_count s) (timers s x))"

lemma pending_fire:
  assumes "t \<notin> set rest" "sane_timer (g_tick_count s) (timers s t)"
    and due: "time_left (g_tick_count s) (timer_expiry_tick (timers s t)) \<le> 0"
    and s': "timers s' = (timers s)(t := fire (g_tick_count s) (timers s t))" "g_tick_count s' = g_tick_count s"
  shows "pending (fire_list t rest s) s' < pending (t # rest) s"
proof -
  let ?f = "firings (g_tick_count s)"
  have rest: "(\<Sum>x\<in>set rest. ?f (timers s' x)) = (\<Sum>x\<in>set rest. ?f (timers s x))"
    using assms(1) s'(1) by (intro sum.cong) auto
  have "pending (t # rest) s = ?f (timers s t) + (\<Sum>x\<in>set rest. ?f (timers s x))"
    using assms(1) by (simp add: pending_def)
  moreover have "pending (fire_list t rest s) s' =
      (if timer_is_periodic (timers s t) then ?f (fire (g_tick_count s) (timers s t)) else 0) +
      (\<Sum>x\<in>set rest. ?f (timers s x))"
    using assms(1) rest s' by (simp add: pending_def fire_list_def)
  ultimately show ?thesis
    using fire_progress [OF assms(2) _ due] firings_pos [OF due] by simp
qed

lemma fire_list_sorted:
  assumes so: "expiry_sorted (g_tick_count s) (\<lambda>x. timer_expiry_tick (timers s x)) (t # rest)"
    and t: "t \<notin> set rest" and sane: "\<And>x. x \<in> set (t # rest) \<Longrightarrow> sane_timer (g_tick_count s) (timers s x)"
    and due: "time_left (g_tick_count s) (timer_expiry_tick (timers s t)) \<le> 0"
  defines "T \<equiv> (timers s)(t := fire (g_tick_count s) (timers s t))"
  shows "expiry_sorted (g_tick_count s) (\<lambda>x. timer_expiry_tick (T x)) (fire_list t rest s)"
    and "\<And>x. x \<in> set (fire_list t rest s) \<Longrightarrow> sane_timer (g_tick_count s) (T x)"
proof -
  have rest: "expiry_sorted (g_tick_count s) (\<lambda>x. timer_expiry_tick (T x)) rest"
    using so t by (subst expiry_sorted_cong [where ex' = "\<lambda>x. timer_expiry_tick (timers s x)"])
      (auto simp: T_def expiry_sorted_Cons)
  have sT: "sane_timer (g_tick_count s) (T x)" if "x \<in> set (t # rest)" for x
    using that sane fire_sane [OF _ due] by (auto simp: T_def)
  then show "sane_timer (g_tick_count s) (T x)" if "x \<in> set (fire_list t rest s)" for x
    using that by (auto simp: fire_list_def split: if_splits)
  have "expiry_sorted (g_tick_count s) (\<lambda>x. timer_expiry_tick (T x))
      (expiry_insert (\<lambda>x. timer_expiry_tick (T x)) t rest)"
    using rest sT by (intro expiry_sorted_insert) (auto simp: sane_timer_def)
  then show "expiry_sorted (g_tick_count s) (\<lambda>x. timer_expiry_tick (T x)) (fire_list t rest s)"
    using rest by (simp add: fire_list_def T_def)
qed

text \<open>
  The active timers while the loop runs: in order of the time that is left, none further than
  \<open>2^30\<close> ticks away, and periodic ones with a period between 1 and \<open>2^30\<close>.
\<close>

definition timers_due_ok :: "node set \<Rightarrow> node set \<Rightarrow> (node \<Rightarrow> node list) \<Rightarrow> timer_ptr list \<Rightarrow> kernel \<Rightarrow> bool" where
  "timers_due_ok H N L ts s \<longleftrightarrow> timers_inv H N L ts s \<and>
     expiry_sorted (g_tick_count s) (\<lambda>x. timer_expiry_tick (timers s x)) ts \<and>
     (\<forall>x\<in>set ts. sane_timer (g_tick_count s) (timers s x))"

text \<open>
  What the loop relies on of a callback: it returns before the next tick and leaves no more
  firings behind than it found. It may use every part of the kernel, the timers included: starting
  or resetting a timer puts it into the future, stopping one takes it off the list.
\<close>

definition callback_ok ::
  "bool \<Rightarrow> node set \<Rightarrow> node set \<Rightarrow> (addr \<Rightarrow> addr \<Rightarrow> kernel \<Rightarrow> kernel option) \<Rightarrow> bool" where
  "callback_ok b H N run \<longleftrightarrow>
     (\<forall>cb a L ts s. sched_inv b {} H N L s \<longrightarrow> timers_due_ok H N L ts s \<longrightarrow>
        (\<exists>L' ts' s'. run cb a s = Some s' \<and> sched_inv b {} H N L' s' \<and> timers_due_ok H N L' ts' s' \<and>
           g_tick_count s' = g_tick_count s \<and> pending ts' s' \<le> pending ts s))"

lemma callback_step:
  assumes cb: "callback_ok b H N run" and inv: "sched_inv b {} H N L s" and ti: "timers_due_ok H N L ts s"
  shows "\<exists>L' ts' s'. (if cb \<noteq> 0 then run cb a s else Some s) = Some s' \<and> sched_inv b {} H N L' s' \<and>
     timers_due_ok H N L' ts' s' \<and> g_tick_count s' = g_tick_count s \<and> pending ts' s' \<le> pending ts s"
proof (cases "cb = 0")
  case True
  then show ?thesis using inv ti by auto
next
  case False
  then show ?thesis using cb inv ti unfolding callback_ok_def by simp
qed

lemma expiry_loop_spec:
  assumes "callback_ok b H N run" "sched_inv b {} H N L s" "timers_due_ok H N L ts s"
  shows "\<exists>L' ts' s'. timer_expiry_loop run s = Some s' \<and> sched_inv b {} H N L' s' \<and>
     timers_inv H N L' ts' s' \<and> g_tick_count s' = g_tick_count s \<and>
     (\<forall>x\<in>set ts'. 0 < time_left (g_tick_count s') (timer_expiry_tick (timers s' x)))"
  using assms
proof (induction "pending ts s" arbitrary: ts s L rule: less_induct)
  case less
  note inv = less.prems(2)
  have ti: "timers_inv H N L ts s" and so: "expiry_sorted (g_tick_count s) (\<lambda>x. timer_expiry_tick (timers s x)) ts"
    and sane: "\<And>x. x \<in> set ts \<Longrightarrow> sane_timer (g_tick_count s) (timers s x)"
    using less.prems(3) by (simp_all add: timers_due_ok_def)
  let ?now = "g_tick_count s"
  show ?case
  proof (cases "ts = [] \<or> 0 < time_left ?now (timer_expiry_tick (timers s (hd ts)))")
    case True
    have "timer_expiry_loop run s = Some s"
      by (subst timer_expiry_loop.simps) (simp add: expire_one_idle [OF inv ti True])
    moreover have "\<forall>x\<in>set ts. 0 < time_left ?now (timer_expiry_tick (timers s x))"
      using True so by (cases ts) (auto simp: expiry_sorted_Cons)
    ultimately show ?thesis using inv ti by blast
  next
    case False
    then obtain t rest where ts: "ts = t # rest"
      and due: "time_left ?now (timer_expiry_tick (timers s t)) \<le> 0"
      by (cases ts) auto
    have tr: "t \<notin> set rest" using timers_inv_distinct [OF inv ti] ts by simp
    obtain cb a s1 where one: "timer_expire_one s = Some (Some (cb, a), s1)"
      and i1: "sched_inv b {} H N (L(ActiveTimers := map TimerLink (fire_list t rest s))) s1"
      and t1: "timers_inv H N (L(ActiveTimers := map TimerLink (fire_list t rest s))) (fire_list t rest s) s1"
      and f1: "s1 = s\<lparr>timers := (timers s)(t := fire ?now (timers s t)), heap := heap s1\<rparr>"
      using expire_one_fires [OF inv _ due, of rest] ti ts by blast
    have tm1: "timers s1 = (timers s)(t := fire ?now (timers s t))" "g_tick_count s1 = ?now"
      by (subst f1; simp)+
    have sane_t: "sane_timer ?now (timers s t)" using sane ts by simp
    have "timers_due_ok H N (L(ActiveTimers := map TimerLink (fire_list t rest s))) (fire_list t rest s) s1"
      unfolding timers_due_ok_def tm1 using t1 fire_list_sorted [OF _ tr _ due] so sane ts by auto
    then obtain L2 ts2 s2 where cb: "(if cb \<noteq> 0 then run cb a s1 else Some s1) = Some s2"
      and i2: "sched_inv b {} H N L2 s2" and t2: "timers_due_ok H N L2 ts2 s2"
      and tm: "g_tick_count s2 = g_tick_count s1" and le: "pending ts2 s2 \<le> pending (fire_list t rest s) s1"
      using callback_step [OF less.prems(1) i1] by blast
    have "pending (fire_list t rest s) s1 < pending ts s"
      unfolding ts by (rule pending_fire [OF tr sane_t due tm1])
    then have "pending ts2 s2 < pending ts s" using le by simp
    from less.hyps [OF this less.prems(1) i2 t2] obtain L' ts' s' where
      "timer_expiry_loop run s2 = Some s'" "sched_inv b {} H N L' s'"
      "timers_inv H N L' ts' s'" "g_tick_count s' = g_tick_count s2"
      "\<forall>x\<in>set ts'. 0 < time_left (g_tick_count s') (timer_expiry_tick (timers s' x))"
      by blast
    moreover have "timer_expiry_loop run s = timer_expiry_loop run s2"
      by (subst timer_expiry_loop.simps) (simp add: one cb)
    ultimately show ?thesis using tm tm1(2) by metis
  qed
qed

text \<open>A callback that returns, leaves the timers alone and does not let a tick pass.\<close>

definition callback_quiet ::
  "bool \<Rightarrow> node set \<Rightarrow> node set \<Rightarrow> (addr \<Rightarrow> addr \<Rightarrow> kernel \<Rightarrow> kernel option) \<Rightarrow> bool" where
  "callback_quiet b H N run \<longleftrightarrow>
     (\<forall>cb a L s. sched_inv b {} H N L s \<longrightarrow>
        (\<exists>L' s'. run cb a s = Some s' \<and> sched_inv b {} H N L' s' \<and>
           L' ActiveTimers = L ActiveTimers \<and> timers s' = timers s \<and> g_tick_count s' = g_tick_count s))"

lemma quiet_step:
  assumes cb: "callback_quiet b H N run" and inv: "sched_inv b {} H N L s" and ti: "timers_inv H N L ts s"
  shows "\<exists>L' s'. (if cb \<noteq> 0 then run cb a s else Some s) = Some s' \<and> sched_inv b {} H N L' s' \<and>
     timers_inv H N L' ts s' \<and> timers s' = timers s \<and> g_tick_count s' = g_tick_count s"
proof (cases "cb = 0")
  case True
  then show ?thesis using inv ti by auto
next
  case False
  obtain L' s' where "run cb a s = Some s'" "sched_inv b {} H N L' s'"
      "L' ActiveTimers = L ActiveTimers" "timers s' = timers s" "g_tick_count s' = g_tick_count s"
    using cb inv unfolding callback_quiet_def by blast
  then show ?thesis using False ti by (auto simp: timers_inv_def)
qed

text \<open>A periodic timer of period zero is due again as soon as it has fired: the loop never ends.\<close>

lemma fire_zero_due:
  assumes "timer_period_ticks c = 0" "time_left now (timer_expiry_tick c) \<le> 0"
  shows "time_left now (timer_expiry_tick (fire now c)) \<le> 0"
  using assms by (auto simp: fire_def next_expiry_def Let_def)

definition spinning :: "bool \<Rightarrow> node set \<Rightarrow> node set \<Rightarrow> timer_ptr \<Rightarrow> kernel \<Rightarrow> bool" where
  "spinning b H N t s \<longleftrightarrow>
     (\<exists>L. sched_inv b {} H N L s \<and> timers_inv H N L [t] s) \<and>
     timer_is_periodic (timers s t) \<and> timer_period_ticks (timers s t) = 0 \<and>
     time_left (g_tick_count s) (timer_expiry_tick (timers s t)) \<le> 0"

lemma spinning_step:
  assumes cb: "callback_quiet b H N run" and sp: "spinning b H N t s"
  shows "\<exists>cb a s1 s2. timer_expire_one s = Some (Some (cb, a), s1) \<and>
     (if cb \<noteq> 0 then run cb a s1 else Some s1) = Some s2 \<and> spinning b H N t s2"
proof -
  let ?now = "g_tick_count s"
  obtain L where inv: "sched_inv b {} H N L s" and ti: "timers_inv H N L [t] s"
    and p: "timer_is_periodic (timers s t)" "timer_period_ticks (timers s t) = 0"
    and due: "time_left ?now (timer_expiry_tick (timers s t)) \<le> 0"
    using sp unfolding spinning_def by blast
  have fl: "fire_list t [] s = [t]" using p by (simp add: fire_list_def expiry_insert_simps)
  obtain c a s1 where one: "timer_expire_one s = Some (Some (c, a), s1)"
    and i1: "sched_inv b {} H N (L(ActiveTimers := map TimerLink [t])) s1"
    and t1: "timers_inv H N (L(ActiveTimers := map TimerLink [t])) [t] s1"
    and f1: "s1 = s\<lparr>timers := (timers s)(t := fire ?now (timers s t)), heap := heap s1\<rparr>"
    using expire_one_fires [OF inv ti due] unfolding fl by blast
  have tm1: "timers s1 t = fire ?now (timers s t)" "g_tick_count s1 = ?now" by (subst f1; simp)+
  obtain L2 s2 where c: "(if c \<noteq> 0 then run c a s1 else Some s1) = Some s2"
    and i2: "sched_inv b {} H N L2 s2" "timers_inv H N L2 [t] s2"
    and tm: "timers s2 = timers s1" "g_tick_count s2 = g_tick_count s1"
    using quiet_step [OF cb i1 t1] by blast
  have "spinning b H N t s2"
    using i2 tm tm1 p fire_zero_due [OF p(2) due] unfolding spinning_def by auto
  then show ?thesis using one c by blast
qed

lemma spinning_no_result:
  assumes "timer_expiry_loop run s = Some s'"
  shows "callback_quiet b H N run \<longrightarrow> \<not> spinning b H N t s"
proof (rule timer_expiry_loop.raw_induct [where P = "\<lambda>run s _. callback_quiet b H N run \<longrightarrow> \<not> spinning b H N t s",
      OF _ assms], intro impI notI)
  fix loop run s s'
  assume IH: "\<And>run s s'. loop run s = Some s' \<Longrightarrow> callback_quiet b H N run \<longrightarrow> \<not> spinning b H N t s"
    and res: "timer_expire_one s \<bind> (\<lambda>(fired, s). case fired of None \<Rightarrow> Some s
         | Some (callback, cb_arg) \<Rightarrow>
             (if callback \<noteq> 0 then run callback cb_arg s else Some s) \<bind> loop run) = Some s'"
    and cb: "callback_quiet b H N run" and sp: "spinning b H N t s"
  obtain c a s1 s2 where "timer_expire_one s = Some (Some (c, a), s1)"
    "(if c \<noteq> 0 then run c a s1 else Some s1) = Some s2" and sp2: "spinning b H N t s2"
    using spinning_step [OF cb sp] by blast
  then have "loop run s2 = Some s'" using res by simp
  then show False using IH cb sp2 by blast
qed

section \<open>Initialisation\<close>

lemma timer_init_inv:
  assumes inv: "sched_inv b X H N L s" and ti: "timers_inv H N L ts s" and new: "TimerLink t \<notin> N"
  shows "sched_inv b X H (insert (TimerLink t) N) L (nimble_timer_init t name p per cb arg s)"
    and "timers_inv H (insert (TimerLink t) N) L ts (nimble_timer_init t name p per cb arg s)"
    and "timers (nimble_timer_init t name p per cb arg s) t =
           \<lparr>timer_period_ticks = p, timer_expiry_tick = 0, timer_is_periodic = per,
            timer_is_active = False, timer_callback = cb, timer_arg = arg, timer_name = copy_name 16 name\<rparr>"
proof -
  let ?N = "insert (TimerLink t) N"
  let ?s1 = "s\<lparr>heap := nimble_list_init (TimerLink t) (heap s)\<rparr>"
  have sh: "shape H N L" by (rule sched_inv_shape [OF inv])
  have "TimerLink t \<notin> H \<union> N" using new shape_heads [OF sh, of "TimerLink t"] by auto
  then have "repr H ?N L (heap ?s1)" using repr_init_node [OF sched_inv_repr [OF inv]] by simp
  moreover have "shape H ?N L" using sh unfolding shape_def by auto
  moreover have "tasks_inv b X H ?N L s = tasks_inv b X H N L s" by (simp add: tasks_inv_def)
  ultimately have "sched_inv b X H ?N L ?s1" using inv by (simp add: sched_inv_def)
  moreover have e: "nimble_timer_init t name p per cb arg s = ?s1\<lparr>timers := (timers s)(t :=
      \<lparr>timer_period_ticks = p, timer_expiry_tick = 0, timer_is_periodic = per,
       timer_is_active = False, timer_callback = cb, timer_arg = arg, timer_name = copy_name 16 name\<rparr>)\<rparr>"
    by (simp add: nimble_timer_init_def kdefs zero_timer_def Let_def)
  ultimately show "sched_inv b X H ?N L (nimble_timer_init t name p per cb arg s)" by simp
  have "t \<notin> set ts" using timers_inv_member [OF inv ti] new by blast
  then show "timers_inv H ?N L ts (nimble_timer_init t name p per cb arg s)"
    using ti unfolding e by (auto simp: timers_inv_def)
  show "timers (nimble_timer_init t name p per cb arg s) t =
           \<lparr>timer_period_ticks = p, timer_expiry_tick = 0, timer_is_periodic = per,
            timer_is_active = False, timer_callback = cb, timer_arg = arg, timer_name = copy_name 16 name\<rparr>"
    by (simp add: e)
qed

lemma timer_service_start_inv:
  assumes inv: "sched_inv b {} H N L s"
    and new: "ActiveTimers \<notin> H" "SemWaiters timer_wake_sem \<notin> H" "Link timer_task_tcb \<notin> N"
    and no_timers: "\<And>t. TimerLink t \<notin> N"
    and ok: "create_ok (sym_timer_task_fn (syms s)) stack words priority"
  defines "H' \<equiv> insert (SemWaiters timer_wake_sem) (insert ActiveTimers H)"
    and "L' \<equiv> enlist (ReadyList (unat priority)) (Link timer_task_tcb)
               (L(ActiveTimers := [], SemWaiters timer_wake_sem := []))"
  shows "\<exists>s'. nimble_timer_service_start priority stack words s = Some (NIMBLE_OK, s') \<and>
     sched_inv b {} H' (task_nodes timer_task_tcb N) L' s' \<and>
     timers_inv H' (task_nodes timer_task_tcb N) L' [] s' \<and>
     semaphores s' = (semaphores s)(timer_wake_sem := \<lparr>sem_count = 0, sem_max_count = 1\<rparr>) \<and>
     task_state s' timer_task_tcb = NIMBLE_TASK_READY \<and> task_priority s' timer_task_tcb = priority \<and>
     tcb_base_priority (tcbs s' timer_task_tcb) = priority \<and>
     mutexes s' = mutexes s \<and> queues s' = queues s \<and> nimble_current_tcb s' = nimble_current_tcb s \<and>
     g_tick_count s' = g_tick_count s \<and> pendsv s' = pendsv s \<and>
     (\<forall>x. x \<noteq> timer_task_tcb \<longrightarrow> tcbs s' x = tcbs s x)"
proof -
  let ?s1 = "update_heap (nimble_list_init ActiveTimers) s"
  let ?s2 = "nimble_semaphore_init timer_wake_sem 0 1 ?s1"
  have i1: "sched_inv b {} (insert ActiveTimers H) N (L(ActiveTimers := [])) ?s1"
    by (rule init_head_inv [OF inv _ new(1)]) simp_all
  have i2: "sched_inv b {} H' N (L(ActiveTimers := [], SemWaiters timer_wake_sem := [])) ?s2"
    unfolding H'_def by (rule semaphore_init_inv(1) [OF i1]) (use new(2) in simp)
  have sy: "syms ?s2 = syms s" "mutexes ?s2 = mutexes s" "queues ?s2 = queues s" "tcbs ?s2 = tcbs s"
    "nimble_current_tcb ?s2 = nimble_current_tcb s" "g_tick_count ?s2 = g_tick_count s" "pendsv ?s2 = pendsv s"
    by (simp_all add: nimble_semaphore_init_def Let_def kdefs)
  have e: "timer_task_tcb \<notin> {}" by simp
  obtain s' where s': "nimble_task_create (Some timer_task_tcb) (Some ''timer_svc'')
        (sym_timer_task_fn (syms s)) 0 stack words priority ?s2 = Some (NIMBLE_OK, s')"
    and i3: "sched_inv b {} H' (task_nodes timer_task_tcb N) L' s'"
    and sem: "semaphores s' = semaphores ?s2"
    and tc: "task_state s' timer_task_tcb = NIMBLE_TASK_READY" "task_priority s' timer_task_tcb = priority"
      "tcb_base_priority (tcbs s' timer_task_tcb) = priority"
    and fr: "mutexes s' = mutexes s" "queues s' = queues s" "nimble_current_tcb s' = nimble_current_tcb s"
      "g_tick_count s' = g_tick_count s" "pendsv s' = pendsv s"
      "\<And>x. x \<noteq> timer_task_tcb \<Longrightarrow> tcbs s' x = tcbs s x"
  proof -
    from create_inv [OF i2 new(3) e ok, of "Some ''timer_svc''" 0] obtain s' where
      "nimble_task_create (Some timer_task_tcb) (Some ''timer_svc'')
        (sym_timer_task_fn (syms s)) 0 stack words priority ?s2 = Some (NIMBLE_OK, s')"
      "sched_inv b {} H' (task_nodes timer_task_tcb N) L' s'"
      and f: "\<exists>T m. s' = ?s2\<lparr>tcbs := (tcbs ?s2)(timer_task_tcb := T), mem := m,
            heap := heap s', ready_bitmap := ready_bitmap s'\<rparr> \<and>
            tcb_state T = NIMBLE_TASK_READY \<and> tcb_priority T = priority \<and> tcb_base_priority T = priority"
      unfolding L'_def by force
    moreover obtain T m where f: "s' = ?s2\<lparr>tcbs := (tcbs ?s2)(timer_task_tcb := T), mem := m,
            heap := heap s', ready_bitmap := ready_bitmap s'\<rparr>"
      "tcb_state T = NIMBLE_TASK_READY" "tcb_priority T = priority" "tcb_base_priority T = priority" using f by blast
    moreover have "semaphores s' = semaphores ?s2" "tcbs s' timer_task_tcb = T" "mutexes s' = mutexes s"
      "queues s' = queues s" "nimble_current_tcb s' = nimble_current_tcb s" "g_tick_count s' = g_tick_count s"
      "pendsv s' = pendsv s" "\<And>x. x \<noteq> timer_task_tcb \<Longrightarrow> tcbs s' x = tcbs s x"
      by (subst f(1), simp add: sy)+
    ultimately show thesis using that by simp
  qed
  have "semaphores ?s2 = (semaphores s)(timer_wake_sem := \<lparr>sem_count = 0, sem_max_count = 1\<rparr>)"
    using semaphore_init_inv(2) [OF i1] new(2) by (simp add: update_heap_def)
  moreover have "nimble_timer_service_start priority stack words s = Some (NIMBLE_OK, s')"
    using s' by (simp add: nimble_timer_service_start_def Let_def sy)
  moreover have "timers_inv H' (task_nodes timer_task_tcb N) L' [] s'"
    using no_timers by (simp add: timers_inv_def H'_def L'_def)
  ultimately show ?thesis using i3 sem tc fr by simp
qed

end
