(* ===== verification/Example_System.thy ===== *)
theory Example_System
  imports Timer
begin

text \<open>
  A small concrete system, booted with the kernel's own calls: two tasks of priorities 2 and 5,
  a mutex, a semaphore and a queue of two 4-byte items. It is the input at which the
  properties with hypotheses are exercised.
\<close>

section \<open>Power-on state\<close>

definition zero_kernel :: kernel where
  "zero_kernel = \<lparr>heap = \<lparr>node_next = \<lambda>_. DelayedList, node_prev = \<lambda>_. DelayedList\<rparr>,
     tcbs = \<lambda>_. zero_tcb, mutexes = \<lambda>_. \<lparr>mutex_owner = None, mutex_lock_count = 0\<rparr>,
     semaphores = \<lambda>_. \<lparr>sem_count = 0, sem_max_count = 0\<rparr>,
     queues = \<lambda>_. new_queue [] 0 0, timers = \<lambda>_. zero_timer, ready_bitmap = 0, g_tick_count = 0,
     nimble_current_tcb = None, nimble_next_tcb = None, mem = \<lambda>_. 0, reg = \<lambda>_. 0, psp = 0,
     basepri = 0, pendsv = False,
     syms = \<lparr>sym_idle_task_fn = 0x08000101, sym_idle_stack = 0x20000100,
             sym_task_exit_trap = 0x08000201, sym_timer_task_fn = 0x08000301\<rparr>\<rparr>"

section \<open>Booting\<close>

definition boot0 :: kernel where
  "boot0 = the (nimble_scheduler_init zero_kernel)"

definition boot1 :: kernel where
  "boot1 = snd (the (nimble_task_create (Some 2) (Some ''low'') 0x08001001 7 0x20001000 64 2 boot0))"

definition boot2 :: kernel where
  "boot2 = snd (the (nimble_task_create (Some 3) (Some ''high'') 0x08002001 9 0x20002000 64 5 boot1))"

definition boot3 :: kernel where
  "boot3 = nimble_queue_init 0 (replicate 8 0) 4 2
             (nimble_semaphore_init 5 1 3 (nimble_mutex_init 0 boot2))"

definition running :: kernel where
  "running = the (nimble_scheduler_start boot3)"

abbreviation example_heads :: "node set" where
  "example_heads \<equiv> insert (QueueSenders 0) (insert (QueueReceivers 0)
     (insert (SemWaiters 5) (insert (MutexWaiters 0) boot_heads)))"

abbreviation example_nodes :: "node set" where
  "example_nodes \<equiv> task_nodes 3 (task_nodes 2 (task_nodes idle_tcb {}))"

definition boot_lists :: "node \<Rightarrow> node list" where
  "boot_lists = (\<lambda>_. [])(ReadyList 0 := [Link idle_tcb], ReadyList 2 := [Link 2], ReadyList 5 := [Link 3])"

definition example_lists :: "node \<Rightarrow> node list" where
  "example_lists = (\<lambda>_. [])(ReadyList 0 := [Link idle_tcb], ReadyList 2 := [Link 2])"

section \<open>The invariant and the fields along the way\<close>

lemma boot0_inv:
  "sched_inv True {} boot_heads (task_nodes idle_tcb {})
     (enlist (ReadyList 0) (Link idle_tcb) (\<lambda>_. [])) boot0"
  "nimble_current_tcb boot0 = None" "g_tick_count boot0 = 0" "syms boot0 = syms zero_kernel"
  "basepri boot0 = 0" "pendsv boot0 = False" "task_priority boot0 idle_tcb = 0"
  "task_state boot0 idle_tcb = NIMBLE_TASK_READY"
proof -
  have "syms_ok (syms zero_kernel)" by (simp add: syms_ok_def zero_kernel_def)
  from init_inv [OF this] show
    "sched_inv True {} boot_heads (task_nodes idle_tcb {})
       (enlist (ReadyList 0) (Link idle_tcb) (\<lambda>_. [])) boot0"
    "nimble_current_tcb boot0 = None" "g_tick_count boot0 = 0" "syms boot0 = syms zero_kernel"
    "basepri boot0 = 0" "pendsv boot0 = False" "task_priority boot0 idle_tcb = 0"
    "task_state boot0 idle_tcb = NIMBLE_TASK_READY"
    by (auto simp: boot0_def zero_kernel_def)
qed

text \<open>What \<open>create_inv\<close> says of the state after a successful call.\<close>

lemma created:
  fixes name :: "string option" and arg :: addr
  assumes inv: "sched_inv b {} H N L s" and new: "Link t \<notin> N"
    and ok: "create_ok fn stack_base stack_words priority"
  defines "s' \<equiv> snd (the (nimble_task_create (Some t) name fn arg stack_base stack_words priority s))"
  shows "sched_inv b {} H (task_nodes t N) (enlist (ReadyList (unat priority)) (Link t) L) s'"
    and "nimble_current_tcb s' = nimble_current_tcb s" "g_tick_count s' = g_tick_count s"
    "syms s' = syms s" "basepri s' = basepri s" "pendsv s' = pendsv s"
    "task_priority s' t = priority" "tcb_base_priority (tcbs s' t) = priority"
    "task_state s' t = NIMBLE_TASK_READY"
    "tcb_sp (tcbs s' t) = stack_base + 4 * stack_words - 64"
    "tcb_last_wait_result (tcbs s' t) = NIMBLE_OK"
    and "t' \<noteq> t \<Longrightarrow> tcbs s' t' = tcbs s t'"
    and "mutexes s' = mutexes s" "semaphores s' = semaphores s" "queues s' = queues s"
    and "nimble_task_create (Some t) name fn arg stack_base stack_words priority s = Some (NIMBLE_OK, s')"
proof -
  have e: "t \<notin> {}" by simp
  obtain s1 c m where c: "nimble_task_create (Some t) name fn arg stack_base stack_words priority s =
       Some (NIMBLE_OK, s1)"
    and i: "sched_inv b {} H (task_nodes t N) (enlist (ReadyList (unat priority)) (Link t) L) s1"
    and f: "s1 = s\<lparr>tcbs := (tcbs s)(t := c), mem := m, heap := heap s1, ready_bitmap := ready_bitmap s1\<rparr>"
    and cf: "tcb_priority c = priority" "tcb_base_priority c = priority" "tcb_state c = NIMBLE_TASK_READY"
      "tcb_sp c = stack_base + 4 * stack_words - 64" "tcb_last_wait_result c = NIMBLE_OK"
    using create_inv [OF inv new e ok] by force
  have s': "s' = s1" using c by (simp add: s'_def)
  show "sched_inv b {} H (task_nodes t N) (enlist (ReadyList (unat priority)) (Link t) L) s'"
    using i s' by simp
  show "nimble_current_tcb s' = nimble_current_tcb s" "g_tick_count s' = g_tick_count s"
    "syms s' = syms s" "basepri s' = basepri s" "pendsv s' = pendsv s"
    "task_priority s' t = priority" "tcb_base_priority (tcbs s' t) = priority"
    "task_state s' t = NIMBLE_TASK_READY"
    "tcb_sp (tcbs s' t) = stack_base + 4 * stack_words - 64" "tcb_last_wait_result (tcbs s' t) = NIMBLE_OK"
    "t' \<noteq> t \<Longrightarrow> tcbs s' t' = tcbs s t'"
    "mutexes s' = mutexes s" "semaphores s' = semaphores s" "queues s' = queues s"
    unfolding s' using cf by (subst f, simp)+
  show "nimble_task_create (Some t) name fn arg stack_base stack_words priority s = Some (NIMBLE_OK, s')"
    using c s' by simp
qed

lemma create_ok_example:
  "create_ok 0x08001001 0x20001000 64 2" "create_ok 0x08002001 0x20002000 64 5"
  by (simp_all add: create_ok_def kdefs)

lemma boot1_inv:
  "sched_inv True {} boot_heads (task_nodes 2 (task_nodes idle_tcb {}))
     (enlist (ReadyList 2) (Link 2) (enlist (ReadyList 0) (Link idle_tcb) (\<lambda>_. []))) boot1"
  "nimble_current_tcb boot1 = None" "g_tick_count boot1 = 0" "basepri boot1 = 0" "pendsv boot1 = False"
  "task_priority boot1 2 = 2" "tcb_base_priority (tcbs boot1 2) = 2" "task_state boot1 2 = NIMBLE_TASK_READY"
  "tcbs boot1 idle_tcb = tcbs boot0 idle_tcb" "syms boot1 = syms zero_kernel"
proof -
  have "Link 2 \<notin> task_nodes idle_tcb {}" by (simp add: idle_tcb_def)
  note c = created [OF boot0_inv(1) this create_ok_example(1), where name = "Some ''low''" and arg = 7, folded boot1_def]
  show "sched_inv True {} boot_heads (task_nodes 2 (task_nodes idle_tcb {}))
     (enlist (ReadyList 2) (Link 2) (enlist (ReadyList 0) (Link idle_tcb) (\<lambda>_. []))) boot1"
    using c(1) by simp
  show "nimble_current_tcb boot1 = None" "g_tick_count boot1 = 0" "basepri boot1 = 0" "pendsv boot1 = False"
    "task_priority boot1 2 = 2" "tcb_base_priority (tcbs boot1 2) = 2" "task_state boot1 2 = NIMBLE_TASK_READY"
    "syms boot1 = syms zero_kernel"
    using c boot0_inv by simp_all
  show "tcbs boot1 idle_tcb = tcbs boot0 idle_tcb" by (rule c(12)) (simp add: idle_tcb_def)
qed

lemma boot2_inv:
  "sched_inv True {} boot_heads example_nodes boot_lists boot2"
  "nimble_current_tcb boot2 = None" "g_tick_count boot2 = 0" "basepri boot2 = 0" "pendsv boot2 = False"
  "task_priority boot2 3 = 5" "tcb_base_priority (tcbs boot2 3) = 5" "task_state boot2 3 = NIMBLE_TASK_READY"
  "tcbs boot2 idle_tcb = tcbs boot0 idle_tcb" "tcbs boot2 2 = tcbs boot1 2"
  "syms boot2 = syms zero_kernel" "tcb_last_wait_result (tcbs boot2 3) = NIMBLE_OK"
proof -
  have "Link 3 \<notin> task_nodes 2 (task_nodes idle_tcb {})" by (simp add: idle_tcb_def)
  note c = created [OF boot1_inv(1) this create_ok_example(2), where name = "Some ''high''" and arg = 9, folded boot2_def]
  have L: "enlist (ReadyList (unat (5::u8))) (Link 3)
      (enlist (ReadyList 2) (Link 2) (enlist (ReadyList 0) (Link idle_tcb) (\<lambda>_. []))) = boot_lists"
    by (auto simp: boot_lists_def fun_eq_iff)
  show "sched_inv True {} boot_heads example_nodes boot_lists boot2" using c(1) unfolding L .
  show "nimble_current_tcb boot2 = None" "g_tick_count boot2 = 0" "basepri boot2 = 0" "pendsv boot2 = False"
    "task_priority boot2 3 = 5" "tcb_base_priority (tcbs boot2 3) = 5" "task_state boot2 3 = NIMBLE_TASK_READY"
    "syms boot2 = syms zero_kernel" "tcb_last_wait_result (tcbs boot2 3) = NIMBLE_OK"
    using c boot1_inv by simp_all
  show "tcbs boot2 2 = tcbs boot1 2" by (rule c(12)) simp
  have "tcbs boot2 idle_tcb = tcbs boot1 idle_tcb" by (rule c(12)) (simp add: idle_tcb_def)
  then show "tcbs boot2 idle_tcb = tcbs boot0 idle_tcb" using boot1_inv(9) by simp
qed

lemma boot3_inv:
  "sched_inv True {} example_heads example_nodes boot_lists boot3"
  "tcbs boot3 = tcbs boot2" "nimble_current_tcb boot3 = None" "g_tick_count boot3 = 0"
  "basepri boot3 = 0" "pendsv boot3 = False"
  "mutexes boot3 0 = \<lparr>mutex_owner = None, mutex_lock_count = 0\<rparr>"
  "semaphores boot3 5 = \<lparr>sem_count = 1, sem_max_count = 3\<rparr>"
  "queues boot3 0 = new_queue (replicate 8 0) 4 2" "syms boot3 = syms zero_kernel"
proof -
  let ?m = "nimble_mutex_init 0 boot2" and ?H = "insert (MutexWaiters 0) boot_heads"
  let ?s = "nimble_semaphore_init 5 1 3 ?m"
  have m: "sched_inv True {} ?H example_nodes (boot_lists(MutexWaiters 0 := [])) ?m"
    by (rule mutex_init_inv(1) [OF boot2_inv(1)]) (auto simp: boot_heads_def)
  have s: "sched_inv True {} (insert (SemWaiters 5) ?H) example_nodes
      (boot_lists(MutexWaiters 0 := [], SemWaiters 5 := [])) ?s"
    by (rule semaphore_init_inv(1) [OF m]) (auto simp: boot_heads_def)
  have q: "sched_inv True {} example_heads example_nodes
      (boot_lists(MutexWaiters 0 := [], SemWaiters 5 := [], QueueReceivers 0 := [], QueueSenders 0 := [])) boot3"
    unfolding boot3_def by (rule queue_init_inv(1) [OF s]) (auto simp: boot_heads_def)
  have "boot_lists(MutexWaiters 0 := [], SemWaiters 5 := [], QueueReceivers 0 := [], QueueSenders 0 := [])
      = boot_lists"
    by (auto simp: boot_lists_def fun_eq_iff)
  then show "sched_inv True {} example_heads example_nodes boot_lists boot3" using q by simp
  show "tcbs boot3 = tcbs boot2" "nimble_current_tcb boot3 = None" "g_tick_count boot3 = 0"
    "basepri boot3 = 0" "pendsv boot3 = False"
    "mutexes boot3 0 = \<lparr>mutex_owner = None, mutex_lock_count = 0\<rparr>"
    "semaphores boot3 5 = \<lparr>sem_count = 1, sem_max_count = 3\<rparr>"
    "queues boot3 0 = new_queue (replicate 8 0) 4 2" "syms boot3 = syms zero_kernel"
    by (simp_all add: boot3_def nimble_mutex_init_def nimble_semaphore_init_def nimble_queue_init_def
        kdefs Let_def boot2_inv new_queue_def)
qed

lemma running_inv:
  "sched_inv True {} example_heads example_nodes example_lists running"
  "nimble_current_tcb running = Some 3" "task_state running 3 = NIMBLE_TASK_RUNNING"
  "pendsv running = False" "basepri running = 0" "g_tick_count running = 0"
  "tcbs running = (tcbs boot3)(3 := (tcbs boot3 3)\<lparr>tcb_state := NIMBLE_TASK_RUNNING\<rparr>)"
  "mutexes running = mutexes boot3" "semaphores running = semaphores boot3"
  "queues running = queues boot3" "syms running = syms zero_kernel"
proof -
  have ne: "boot_lists (ReadyList q) \<noteq> [] \<longleftrightarrow> q = 0 \<or> q = 2 \<or> q = 5" for q
    by (simp add: boot_lists_def)
  have H: "top_ready boot_lists p \<longleftrightarrow> p = 5" for p
  proof
    assume t: "top_ready boot_lists p"
    then have "p = 0 \<or> p = 2 \<or> p = 5" by (simp add: top_ready_def ne)
    moreover have "\<not> p < 5"
    proof
      assume "p < 5"
      then have "boot_lists (ReadyList 5) = []" using t by (simp add: top_ready_def)
      then show False by (simp add: boot_lists_def)
    qed
    ultimately show "p = 5" by auto
  next
    assume p: "p = 5"
    have "boot_lists (ReadyList q) = []" if "5 < q" for q using ne [of q] that by auto
    then show "top_ready boot_lists p" by (simp add: top_ready_def ne p)
  qed
  have "\<exists>p<32. boot_lists (ReadyList p) \<noteq> []" by (rule exI [of _ 5]) (simp add: boot_lists_def)
  from start_inv [OF boot3_inv(1,3) this] obtain n p ns s' where
    s': "nimble_scheduler_start boot3 = Some s'" and p: "p = 5" and n: "boot_lists (ReadyList p) = Link n # ns"
    and i: "sched_inv True {} example_heads example_nodes (delist (Link n) boot_lists) s'"
    and f: "nimble_current_tcb s' = Some n" "task_state s' n = NIMBLE_TASK_RUNNING" "basepri s' = 0"
     "pendsv s' = pendsv boot3" "g_tick_count s' = g_tick_count boot3"
     "tcbs s' = (tcbs boot3)(n := (tcbs boot3 n)\<lparr>tcb_state := NIMBLE_TASK_RUNNING\<rparr>)"
     "mutexes s' = mutexes boot3" "semaphores s' = semaphores boot3" "queues s' = queues boot3" "syms s' = syms boot3"
    unfolding H by blast
  have r: "running = s'" using s' by (simp add: running_def)
  have n3: "n = 3" using n p by (simp add: boot_lists_def)
  have "delist (Link 3) boot_lists = example_lists"
    by (auto simp: boot_lists_def example_lists_def fun_eq_iff idle_tcb_def)
  then show "sched_inv True {} example_heads example_nodes example_lists running"
    using i n3 r by simp
  show "nimble_current_tcb running = Some 3" "task_state running 3 = NIMBLE_TASK_RUNNING"
    "pendsv running = False" "basepri running = 0" "g_tick_count running = 0"
    "tcbs running = (tcbs boot3)(3 := (tcbs boot3 3)\<lparr>tcb_state := NIMBLE_TASK_RUNNING\<rparr>)"
    "mutexes running = mutexes boot3" "semaphores running = semaphores boot3"
    "queues running = queues boot3" "syms running = syms zero_kernel"
    unfolding r using f n3 boot3_inv by simp_all
qed

lemma running_tasks:
  "task_priority running 2 = 2" "task_state running 2 = NIMBLE_TASK_READY"
  "tcb_base_priority (tcbs running 2) = 2"
  "task_priority running 3 = 5" "tcb_base_priority (tcbs running 3) = 5"
  "task_priority running idle_tcb = 0" "task_state running idle_tcb = NIMBLE_TASK_READY"
  "tcb_last_wait_result (tcbs running 3) = NIMBLE_OK"
  by (simp_all add: running_inv boot3_inv boot2_inv boot1_inv boot0_inv idle_tcb_def [symmetric])
    (simp_all add: idle_tcb_def)

end
