(* ===== verification/Kernel_Properties.thy ===== *)
theory Kernel_Properties
  imports Example_System
begin

text \<open>
  The properties of the intrusive list, the scheduler, the tasks and the port.
\<close>

section \<open>Lists\<close>

text \<open>
  C19. On heaps that represent abstract lists, \<^verbatim>\<open>nimble_list_insert_tail\<close>,
  \<^verbatim>\<open>nimble_list_insert_head\<close> and \<^verbatim>\<open>nimble_list_remove\<close> implement append, cons and
  removal on exactly the list concerned, and removing a node just inserted gives back a
  representation of the original lists.
\<close>

theorem list_operations_refine:
  assumes "repr H N L h" "k \<in> H" "n \<in> N" "free_node H L n"
  shows "repr H N (L(k := L k @ [n])) (nimble_list_insert_tail k n h) \<and>
    repr H N (L(k := n # L k)) (nimble_list_insert_head k n h) \<and>
    (\<forall>m\<in>N. repr H N (\<lambda>j. removeAll m (L j)) (nimble_list_remove m h)) \<and>
    repr H N L (nimble_list_remove n (nimble_list_insert_tail k n h)) \<and>
    repr H N L (nimble_list_remove n (nimble_list_insert_head k n h)) \<and>
    (nimble_list_is_empty k h \<longleftrightarrow> L k = [])"
proof -
  have t: "repr H N (L(k := L k @ [n])) (nimble_list_insert_tail k n h)"
    using repr_insert_tail [OF assms] by (simp add: enlist_def)
  have hd: "repr H N (L(k := n # L k)) (nimble_list_insert_head k n h)"
    by (rule repr_insert_head [OF assms])
  have undo: "repr H N L (nimble_list_remove n g)"
    if "repr H N (L(k := x)) g" "removeAll n x = L k" for x g
    using that assms(4) by (intro repr_cong [OF repr_remove [OF that(1) assms(3)]])
      (auto simp: free_node_def)
  have nk: "n \<notin> set (L k)" using assms(2,4) by (auto simp: free_node_def)
  show ?thesis
    using t hd undo [OF t] undo [OF hd] nk repr_remove [OF assms(1)] repr_is_empty [OF assms(1,2)]
    by (simp add: delist_def)
qed

theorem list_operations_refine_witness:
  "repr {0::nat} {1, 2} ((\<lambda>_. [])(0 := [1, 2]))
     (nimble_list_insert_tail 0 2 (nimble_list_insert_tail 0 1
       (fold nimble_list_init [0, 1, 2] \<lparr>node_next = \<lambda>_. 0, node_prev = \<lambda>_. 0\<rparr>)))"
proof -
  let ?h = "fold nimble_list_init [0, 1, 2] \<lparr>node_next = \<lambda>_. 0::nat, node_prev = \<lambda>_. 0\<rparr>"
  have "repr {0} {} (\<lambda>_. []) (nimble_list_init 0 \<lparr>node_next = \<lambda>_. 0::nat, node_prev = \<lambda>_. 0\<rparr>)"
    using repr_init_head [of "{}" "{}" "\<lambda>_. []" _ "0::nat"] by (simp add: repr_def fun_upd_idem)
  from repr_init_node [OF repr_init_node [OF this, of 1], of 2]
  have r0: "repr {0} {1, 2} (\<lambda>_. []) ?h" by (simp add: insert_commute)
  have f1: "free_node {0} (\<lambda>_. []) (1::nat)" by (simp add: free_node_def)
  have r1: "repr {0} {1, 2} ((\<lambda>_. [])(0 := [1])) (nimble_list_insert_tail 0 1 ?h)"
    using list_operations_refine [OF r0 _ _ f1, of 0] by simp
  have f2: "free_node {0} ((\<lambda>_. [])(0 := [1])) (2::nat)" by (simp add: free_node_def)
  show ?thesis using list_operations_refine [OF r1 _ _ f2, of 0] by simp
qed

section \<open>Choosing the next task\<close>

text \<open>
  C20. \<^verbatim>\<open>highest_set_bit\<close>, which is \<^verbatim>\<open>31 - __builtin_clz(bitmap)\<close>, is the largest
  index of a set bit, and is undefined for the empty bitmap only.
\<close>

theorem highest_set_bit_is_max:
  "highest_set_bit b = (if b = 0 then None else Some (word_of_nat (Max {i. bit b i})))"
proof (cases "b = 0")
  case False
  obtain p where p: "highest_set_bit b = Some p" "unat p < 32" "bit b (unat p)"
      "\<And>i. bit b i \<Longrightarrow> i \<le> unat p"
    by (rule highest_set_bit_max [OF False]) (rule that)
  have "{i. bit b i} \<subseteq> {..unat p}" using p(4) by blast
  then have "finite {i. bit b i}" by (rule finite_subset) simp
  then have "Max {i. bit b i} = unat p" by (rule Max_eqI) (use p(3,4) in blast)+
  then show ?thesis using p(1) False by simp
qed (simp add: highest_set_bit_zero)

definition can_run :: "node set \<Rightarrow> kernel \<Rightarrow> tcb_ptr \<Rightarrow> bool" where
  "can_run N s t \<longleftrightarrow> Link t \<in> N \<and>
     (task_state s t = NIMBLE_TASK_READY \<or> task_state s t = NIMBLE_TASK_RUNNING)"

lemma can_run_listed:
  assumes inv: "sched_inv True {} H N L s" and t: "can_run N s t"
  shows "Link t \<in> set (requeue_lists s L (ReadyList (unat (task_priority s t))))"
proof -
  note D = sched_inv_tasks [OF inv]
  show ?thesis
  proof (cases "task_state s t = NIMBLE_TASK_RUNNING")
    case True
    then have "nimble_current_tcb s = Some t" using t tasks_inv_running [OF D] by (simp add: can_run_def)
    then show ?thesis using True by (simp add: requeue_lists_def)
  next
    case False
    then have r: "task_state s t = NIMBLE_TASK_READY" "Link t \<in> N" using t by (auto simp: can_run_def)
    then obtain p where "p < 32" "Link t \<in> set (L (ReadyList p))"
      using tasks_inv_ready_listed [OF D] by blast
    then have "Link t \<in> set (L (ReadyList (unat (task_priority s t))))"
      using tasks_inv_ready_prio [OF D] by simp
    then show ?thesis by (auto simp: requeue_lists_def split: option.splits)
  qed
qed

lemma PendSV_highest:
  assumes inv: "sched_inv True {} H N L s" and some: "can_run N s t0"
  shows "\<exists>n s'. PendSV_Handler s = Some s' \<and> nimble_current_tcb s' = Some n \<and> can_run N s n \<and>
     (\<forall>t. can_run N s t \<longrightarrow> task_priority s t \<le> task_priority s n) \<and>
     (\<forall>t. Link t \<in> N \<longrightarrow> (task_state s' t = NIMBLE_TASK_RUNNING \<longleftrightarrow> t = n)) \<and>
     (\<exists>L'. sched_inv True {} H N L' s')"
proof -
  let ?R = "requeue_lists s L"
  have "unat (task_priority s t0) < 32"
    using sched_inv_prio [OF inv] some by (simp add: can_run_def)
  then have ex: "\<exists>p<32. ?R (ReadyList p) \<noteq> []" using can_run_listed [OF inv some] by force
  obtain n p ns s1 s' where ph: "PendSV_Handler s = Some s'" and top: "top_ready ?R p"
    and n: "?R (ReadyList p) = Link n # ns"
    and i': "sched_inv True {} H N (delist (Link n) ?R) s'" and run: "task_state s' n = NIMBLE_TASK_RUNNING"
    and f: "s' = (load_r4_r11 (tcb_sp (tcbs s1 n)) (s1\<lparr>nimble_current_tcb := Some n\<rparr>))
            \<lparr>psp := tcb_sp (tcbs s1 n) + 32\<rparr>"
    using PendSV_inv [OF inv _ ex] by blast
  have cur: "nimble_current_tcb s' = Some n" by (simp add: f load_r4_r11_def)
  have p: "p < 32" and higher: "\<And>q. p < q \<Longrightarrow> q < 32 \<Longrightarrow> ?R (ReadyList q) = []"
    using top by (auto simp: top_ready_def)
  obtain s2 where i2: "sched_inv True {} H N ?R s2"
    and f2: "s2 = s\<lparr>tcbs := \<lambda>t. if nimble_current_tcb s = Some t \<and> task_state s t = NIMBLE_TASK_RUNNING
                       then (tcbs s t)\<lparr>tcb_state := NIMBLE_TASK_READY\<rparr> else tcbs s t,
            heap := heap s2, ready_bitmap := ready_bitmap s2\<rparr>"
    using requeue_current_inv [OF inv] by blast
  have t2: "tcbs s2 n = (if nimble_current_tcb s = Some n \<and> task_state s n = NIMBLE_TASK_RUNNING
      then (tcbs s n)\<lparr>tcb_state := NIMBLE_TASK_READY\<rparr> else tcbs s n)"
    by (subst f2) simp
  have h: "ReadyList p \<in> H" using sched_inv_shape [OF inv] p by (simp add: shape_ready)
  have nN: "Link n \<in> N" using repr_member [OF sched_inv_repr [OF i2] h] n by simp
  have s2n: "task_state s2 n = NIMBLE_TASK_READY" "unat (task_priority s2 n) = p"
    using tasks_inv_ready_state [OF sched_inv_tasks [OF i2] p]
      tasks_inv_ready_prio [OF sched_inv_tasks [OF i2] _ p] n by simp_all
  have pn: "unat (task_priority s n) = p" and cn: "can_run N s n"
    using s2n nN by (auto simp: t2 can_run_def split: if_splits)
  have "task_priority s t \<le> task_priority s n" if "can_run N s t" for t
  proof (rule ccontr)
    assume "\<not> task_priority s t \<le> task_priority s n"
    then have "p < unat (task_priority s t)" using pn by (simp add: word_le_nat_alt)
    moreover have "unat (task_priority s t) < 32" using sched_inv_prio [OF inv] that by (simp add: can_run_def)
    ultimately show False using higher can_run_listed [OF inv that] by simp
  qed
  moreover have "task_state s' t = NIMBLE_TASK_RUNNING \<longleftrightarrow> t = n" if "Link t \<in> N" for t
    using run tasks_inv_running [OF sched_inv_tasks [OF i'] that] cur by auto
  ultimately show ?thesis using ph cur cn i' by blast
qed

text \<open>
  C15. While the scheduler's invariant holds and some task can run, a context switch request
  is served: \<^verbatim>\<open>PendSV_Handler\<close> returns, the task it switches to is the head of its ready
  list, has the highest priority of all tasks that were ready or running, and is the only
  running task afterwards; the invariant holds again.
\<close>

theorem PendSV_runs_highest_priority:
  assumes inv: "sched_inv True {} H N L s" and some: "can_run N s t0"
  shows "\<exists>n s'. PendSV_Handler s = Some s' \<and> nimble_current_tcb s' = Some n \<and> can_run N s n \<and>
     (\<forall>t. can_run N s t \<longrightarrow> task_priority s t \<le> task_priority s n) \<and>
     (\<forall>t. Link t \<in> N \<longrightarrow> (task_state s' t = NIMBLE_TASK_RUNNING \<longleftrightarrow> t = n)) \<and>
     (\<exists>L'. sched_inv True {} H N L' s')"
  by (rule PendSV_highest [OF assms])

theorem PendSV_runs_highest_priority_witness:
  "\<exists>n s'. PendSV_Handler running = Some s' \<and> nimble_current_tcb s' = Some n \<and>
     (\<forall>t. can_run example_nodes running t \<longrightarrow> task_priority running t \<le> task_priority running n)"
proof -
  have "can_run example_nodes running 3" by (simp add: can_run_def running_inv)
  from PendSV_runs_highest_priority [OF running_inv(1) this] show ?thesis by blast
qed

text \<open>
  Round robin: when the running task yields or is preempted by the tick and another task
  is ready at its priority (and none above), \<^verbatim>\<open>PendSV_Handler\<close> switches to the first of them
  and puts the running task behind all the others of that priority.
\<close>

lemma PendSV_round_robin:
  assumes inv: "sched_inv True {} H N L s"
    and cur: "nimble_current_tcb s = Some c" "task_state s c = NIMBLE_TASK_RUNNING"
    and peers: "L (ReadyList (unat (task_priority s c))) = Link n # ns"
    and top: "\<And>q. unat (task_priority s c) < q \<Longrightarrow> q < 32 \<Longrightarrow> L (ReadyList q) = []"
  shows "\<exists>s' L'. PendSV_Handler s = Some s' \<and> nimble_current_tcb s' = Some n \<and>
     sched_inv True {} H N L' s' \<and> L' (ReadyList (unat (task_priority s c))) = ns @ [Link c]"
proof -
  let ?p = "unat (task_priority s c)" and ?R = "requeue_lists s L"
  have cN: "Link c \<in> N" using tasks_inv_current [OF sched_inv_tasks [OF inv] cur(1)] .
  have p: "?p < 32" by (rule sched_inv_prio [OF inv cN])
  have R: "?R = enlist (ReadyList ?p) (Link c) L" using cur by (simp add: requeue_lists_def)
  have h: "ReadyList ?p \<in> H" using sched_inv_shape [OF inv] p by (simp add: shape_ready)
  have dist: "distinct (Link n # ns)" using repr_distinct [OF sched_inv_repr [OF inv] h] peers by simp
  have nc: "n \<noteq> c"
    using tasks_inv_ready_state [OF sched_inv_tasks [OF inv] p, of n] peers cur(2) by auto
  have tp: "top_ready ?R q \<longleftrightarrow> q = ?p" for q
  proof
    assume q: "top_ready ?R q"
    show "q = ?p"
    proof (rule linorder_cases [of q ?p])
      assume "q < ?p"
      then have "?R (ReadyList ?p) = []" using q p by (simp add: top_ready_def)
      then show ?thesis using R by simp
    next
      assume "?p < q"
      then have "?R (ReadyList q) = []" using top [of q] q R by (simp add: top_ready_def)
      then show ?thesis using q by (simp add: top_ready_def)
    qed
  next
    assume "q = ?p"
    then show "top_ready ?R q" using p top R by (simp add: top_ready_def)
  qed
  have "?R (ReadyList ?p) \<noteq> []" using R by simp
  then have ex: "\<exists>p<32. ?R (ReadyList p) \<noteq> []" using p by blast
  have ok: "True \<or> PendSV_Handler s \<noteq> None" by simp
  obtain m ns' s1 s' where ph: "PendSV_Handler s = Some s'" and m: "?R (ReadyList ?p) = Link m # ns'"
    and i': "sched_inv True {} H N (delist (Link m) ?R) s'"
    and f: "s' = (load_r4_r11 (tcb_sp (tcbs s1 m)) (s1\<lparr>nimble_current_tcb := Some m\<rparr>))
            \<lparr>psp := tcb_sp (tcbs s1 m) + 32\<rparr>"
    using PendSV_inv [OF inv ok ex] unfolding tp by blast
  have mn: "m = n" using m peers R by simp
  have "delist (Link n) ?R (ReadyList ?p) = ns @ [Link c]" using R peers dist nc by simp
  moreover have "nimble_current_tcb s' = Some n" by (simp add: f load_r4_r11_def mn)
  ultimately show ?thesis using ph i' mn by blast
qed

section \<open>The tick\<close>

text \<open>
  C16. \<^verbatim>\<open>SysTick_Handler\<close> advances the tick count and requests a switch; a task on the
  delayed list whose wake tick has been reached (in the signed comparison) leaves it, becomes
  ready with the result \<^verbatim>\<open>NIMBLE_ERR_TIMEOUT\<close> and is on no wait list any more; every other
  task is unchanged, and a task that is not due stays on the delayed list.
\<close>

theorem SysTick_wakes_exactly_due:
  assumes inv: "sched_inv b {} H N L s"
  defines "due \<equiv> \<lambda>t. Link t \<in> set (L DelayedList) \<and>
     0 \<le> sint (g_tick_count s + 1 - tcb_wake_tick (tcbs s t))"
  shows "\<exists>s' L'. SysTick_Handler s = Some s' \<and> sched_inv b {} H N L' s' \<and>
     g_tick_count s' = g_tick_count s + 1 \<and> pendsv s' \<and> nimble_current_tcb s' = nimble_current_tcb s \<and>
     (\<forall>t. due t \<longrightarrow> task_state s' t = NIMBLE_TASK_READY \<and>
        tcb_last_wait_result (tcbs s' t) = NIMBLE_ERR_TIMEOUT \<and>
        Link t \<notin> set (L' DelayedList) \<and> free_node H L' (EventLink t)) \<and>
     (\<forall>t. \<not> due t \<longrightarrow> tcbs s' t = tcbs s t \<and> (Link t \<in> set (L' DelayedList) \<longleftrightarrow> Link t \<in> set (L DelayedList)))"
proof -
  obtain ts where ts: "L DelayedList = map Link ts"
    using delayed_links [OF sched_inv_shape [OF inv]] by blast
  obtain s' where s': "SysTick_Handler s = Some s'" and i': "sched_inv b {} H N (tick_lists s ts L) s'"
    and f: "s' = s\<lparr>g_tick_count := g_tick_count s + 1, pendsv := True,
            tcbs := \<lambda>t. if t \<in> set ts \<and> tick_due (s\<lparr>g_tick_count := g_tick_count s + 1\<rparr>) t
                       then timed_out (tcbs s t) else tcbs s t,
            heap := heap s', ready_bitmap := ready_bitmap s'\<rparr>"
    using SysTick_inv [OF inv ts] by blast
  have d: "due t \<longleftrightarrow> t \<in> set ts \<and> tick_due (s\<lparr>g_tick_count := g_tick_count s + 1\<rparr>) t" for t
    by (auto simp: due_def ts tick_due_def)
  have tc: "tcbs s' t = (if due t then timed_out (tcbs s t) else tcbs s t)"
    "g_tick_count s' = g_tick_count s + 1" "pendsv s'" "nimble_current_tcb s' = nimble_current_tcb s" for t
    using d by (subst f, simp)+
  have dl: "Link t \<in> set (tick_lists s ts L DelayedList) \<longleftrightarrow> t \<in> set ts \<and> \<not> due t" for t
    using tick_lists_delayed [where L = L, OF ts] by (auto simp: d)
  have "free_node H (tick_lists s ts L) (EventLink t)" if "due t" for t
    using event_free [OF i', of t] tc(1) that by simp
  then show ?thesis using s' i' tc dl ts by (intro exI [of _ s'] exI [of _ "tick_lists s ts L"]) auto
qed

theorem SysTick_wakes_exactly_due_witness:
  "\<exists>s' L'. SysTick_Handler running = Some s' \<and> sched_inv True {} example_heads example_nodes L' s' \<and>
     g_tick_count s' = g_tick_count running + 1 \<and> pendsv s'"
  using SysTick_wakes_exactly_due [OF running_inv(1)] by blast

section \<open>Delays\<close>

text \<open>The number of ticks that pass, one scheduler tick each.\<close>

primrec ticks :: "nat \<Rightarrow> kernel \<Rightarrow> kernel option" where
  "ticks 0 s = Some s"
| "ticks (Suc k) s = do { s \<leftarrow> ticks k s; SysTick_Handler s }"

definition asleep :: "bool \<Rightarrow> node set \<Rightarrow> node set \<Rightarrow> tcb_ptr \<Rightarrow> nimble_tick_t \<Rightarrow> nimble_tick_t \<Rightarrow> kernel \<Rightarrow> bool" where
  "asleep b H N t wake now s \<longleftrightarrow>
     (\<exists>L. sched_inv b {} H N L s \<and> Link t \<in> set (L DelayedList)) \<and>
     tcb_wake_tick (tcbs s t) = wake \<and> g_tick_count s = now"

lemma asleep_blocked: "asleep b H N t wake now s \<Longrightarrow> task_state s t = NIMBLE_TASK_BLOCKED"
  using tasks_inv_delayed [OF sched_inv_tasks] by (auto simp: asleep_def)

lemma asleep_tick:
  assumes "asleep b H N t wake now s"
  shows "\<exists>s'. SysTick_Handler s = Some s' \<and>
     (if 0 \<le> sint (now + 1 - wake) then task_state s' t = NIMBLE_TASK_READY
      else asleep b H N t wake (now + 1) s')"
proof -
  obtain L where inv: "sched_inv b {} H N L s" and t: "Link t \<in> set (L DelayedList)"
    and w: "tcb_wake_tick (tcbs s t) = wake" "g_tick_count s = now"
    using assms by (auto simp: asleep_def)
  obtain ts where ts: "L DelayedList = map Link ts"
    using delayed_links [OF sched_inv_shape [OF inv]] by blast
  obtain s' where s': "SysTick_Handler s = Some s'" and i': "sched_inv b {} H N (tick_lists s ts L) s'"
    and f: "s' = s\<lparr>g_tick_count := g_tick_count s + 1, pendsv := True,
            tcbs := \<lambda>t. if t \<in> set ts \<and> tick_due (s\<lparr>g_tick_count := g_tick_count s + 1\<rparr>) t
                       then timed_out (tcbs s t) else tcbs s t,
            heap := heap s', ready_bitmap := ready_bitmap s'\<rparr>"
    using SysTick_inv [OF inv ts] by blast
  have tt: "t \<in> set ts" using t ts by auto
  have due: "tick_due (s\<lparr>g_tick_count := g_tick_count s + 1\<rparr>) t \<longleftrightarrow> 0 \<le> sint (now + 1 - wake)"
    using w by (simp add: tick_due_def)
  have f': "tcbs s' t = (if 0 \<le> sint (now + 1 - wake) then timed_out (tcbs s t) else tcbs s t)"
    "g_tick_count s' = now + 1"
    using tt due w by (subst f, simp)+
  show ?thesis
  proof (cases "0 \<le> sint (now + 1 - wake)")
    case True
    then show ?thesis using s' f' by simp
  next
    case False
    then have "Link t \<in> set (tick_lists s ts L DelayedList)"
      using tick_lists_delayed [where L = L, OF ts] tt due by auto
    then have "asleep b H N t wake (now + 1) s'" using i' f' False w by (auto simp: asleep_def)
    then show ?thesis using s' False by simp
  qed
qed

lemma delay_asleep:
  assumes inv: "sched_inv b {} H N L s" and cur: "nimble_current_tcb s = Some t"
    and run: "task_state s t = NIMBLE_TASK_RUNNING" and n: "n \<noteq> 0"
  shows "\<exists>s'. nimble_task_delay n s = Some s' \<and> asleep b H N t (g_tick_count s + n) (g_tick_count s) s'"
proof -
  obtain s' where s': "nimble_task_delay n s = Some s'"
    "sched_inv b {} H N (enlist DelayedList (Link t) L) s'"
    and f: "s' = s\<lparr>tcbs := (tcbs s)(t := (tcbs s t)\<lparr>tcb_wake_tick := g_tick_count s + n,
                                            tcb_state := NIMBLE_TASK_BLOCKED\<rparr>),
            pendsv := True, heap := heap s', ready_bitmap := ready_bitmap s'\<rparr>"
    using delay_inv [OF inv cur run n] by blast
  have "tcb_wake_tick (tcbs s' t) = g_tick_count s + n" "g_tick_count s' = g_tick_count s"
    by (subst f, simp)+
  then have "asleep b H N t (g_tick_count s + n) (g_tick_count s) s'"
    using s'(2) unfolding asleep_def by (auto intro!: exI [of _ "enlist DelayedList (Link t) L"])
  then show ?thesis using s'(1) by blast
qed

lemma asleep_ticks:
  assumes "asleep b H N t (c + word_of_nat n) c s" "n \<le> 2 ^ 31"
  shows "k < n \<Longrightarrow> \<exists>s'. ticks k s = Some s' \<and> asleep b H N t (c + word_of_nat n) (c + word_of_nat k) s'"
proof (induction k)
  case 0
  then show ?case using assms by simp
next
  case (Suc k)
  then obtain s1 where s1: "ticks k s = Some s1"
    and a: "asleep b H N t (c + word_of_nat n) (c + word_of_nat k) s1"
    by auto
  have e: "c + word_of_nat k + 1 = c + word_of_nat (Suc k)" by simp
  have "\<not> 0 \<le> sint (c + word_of_nat (Suc k) - (c + word_of_nat n))"
    using tick_reached_iff [of "Suc k" n c] Suc.prems assms(2) by simp
  then show ?case using asleep_tick [OF a] s1 unfolding e by auto
qed

text \<open>
  C17. A delay of \<open>n\<close> ticks, for \<open>1 \<le> n \<le> 2^31\<close>, is exact: however the tick counter wraps,
  the task is blocked through the first \<open>n - 1\<close> ticks and becomes ready at the \<open>n\<close>-th.
\<close>

theorem delay_wakes_at_nth_tick:
  assumes "sched_inv b {} H N L s" "nimble_current_tcb s = Some t"
    "task_state s t = NIMBLE_TASK_RUNNING" "0 < n" "n \<le> 2 ^ 31"
  shows "\<exists>s'. nimble_task_delay (word_of_nat n) s = Some s' \<and>
     (\<forall>k<n. \<exists>sk. ticks k s' = Some sk \<and> task_state sk t = NIMBLE_TASK_BLOCKED) \<and>
     (\<exists>sn. ticks n s' = Some sn \<and> task_state sn t = NIMBLE_TASK_READY)"
proof -
  have n0: "(word_of_nat n :: u32) \<noteq> 0"
  proof
    assume "(word_of_nat n :: u32) = 0"
    then have "unat (word_of_nat n :: u32) = 0" by simp
    then show False using assms(4,5) by (simp add: unat_of_nat)
  qed
  let ?c = "g_tick_count s"
  obtain s' where s': "nimble_task_delay (word_of_nat n) s = Some s'"
    and a: "asleep b H N t (?c + word_of_nat n) ?c s'"
    using delay_asleep [OF assms(1-3) n0] by blast
  note run = asleep_ticks [OF a assms(5)]
  obtain m where m: "n = Suc m" using assms(4) by (cases n) auto
  obtain sm where sm: "ticks m s' = Some sm" and am: "asleep b H N t (?c + word_of_nat n) (?c + word_of_nat m) sm"
    using run [of m] m by auto
  have "?c + word_of_nat m + 1 = ?c + word_of_nat n" using m by simp
  then have "0 \<le> sint (?c + word_of_nat m + 1 - (?c + word_of_nat n))" by (simp only: diff_self signed_0)
  then have "\<exists>sn. SysTick_Handler sm = Some sn \<and> task_state sn t = NIMBLE_TASK_READY"
    using asleep_tick [OF am] by (simp only: if_True)
  then have "\<exists>sn. ticks n s' = Some sn \<and> task_state sn t = NIMBLE_TASK_READY" using sm m by auto
  moreover have "\<forall>k<n. \<exists>sk. ticks k s' = Some sk \<and> task_state sk t = NIMBLE_TASK_BLOCKED"
    using run asleep_blocked by blast
  ultimately show ?thesis using s' by blast
qed

theorem delay_wakes_at_nth_tick_witness:
  "\<exists>s'. nimble_task_delay (word_of_nat 5) running = Some s' \<and>
     (\<exists>sk. ticks 4 s' = Some sk \<and> task_state sk 3 = NIMBLE_TASK_BLOCKED) \<and>
     (\<exists>sn. ticks 5 s' = Some sn \<and> task_state sn 3 = NIMBLE_TASK_READY)"
proof -
  have "(0::nat) < 5" "(5::nat) \<le> 2 ^ 31" "(4::nat) < 5" by simp_all
  then show ?thesis using delay_wakes_at_nth_tick [OF running_inv(1,2,3), of 5] by blast
qed

text \<open>
  C18. A delay of more than \<open>2^31 + 1\<close> ticks does not last: the signed comparison takes the
  wake tick for one in the past and the first tick makes the task ready.
\<close>

theorem long_delay_ends_at_first_tick:
  assumes "sched_inv b {} H N L s" "nimble_current_tcb s = Some t"
    "task_state s t = NIMBLE_TASK_RUNNING" "2 ^ 31 + 2 \<le> unat n"
  shows "\<exists>s' s1. nimble_task_delay n s = Some s' \<and> SysTick_Handler s' = Some s1 \<and>
     task_state s1 t = NIMBLE_TASK_READY"
proof -
  let ?c = "g_tick_count s"
  have n0: "n \<noteq> 0" using assms(4) by auto
  obtain s' where s': "nimble_task_delay n s = Some s'" and a: "asleep b H N t (?c + n) ?c s'"
    using delay_asleep [OF assms(1-3) n0] by blast
  define k where "k = int (unat n)"
  have "2147483650 \<le> unat n" "unat n < 4294967296" using assms(4) unsigned_less [of n] by simp_all
  then have k: "2147483650 \<le> k" "k < 4294967296" unfolding k_def by linarith+
  have "n = word_of_int k" by (simp add: k_def)
  then have "?c + 1 - (?c + n) = word_of_int (4294967297 - k)" by simp
  moreover have "sint (word_of_int (4294967297 - k) :: u32) = 4294967297 - k"
    using k by (intro sint_diff_u32) simp_all
  ultimately have "sint (?c + 1 - (?c + n)) = 4294967297 - k" by (simp only:)
  then have "0 \<le> sint (?c + 1 - (?c + n))" using k by linarith
  then show ?thesis using asleep_tick [OF a] s' by auto
qed

theorem long_delay_ends_at_first_tick_witness:
  "\<exists>s' s1. nimble_task_delay 0xF0000000 running = Some s' \<and> SysTick_Handler s' = Some s1 \<and>
     task_state s1 3 = NIMBLE_TASK_READY"
  by (rule long_delay_ends_at_first_tick [OF running_inv(1,2,3)]) simp

section \<open>Tasks\<close>

text \<open>
  C21. \<^verbatim>\<open>nimble_task_create\<close> rejects a null task, entry function or stack, a stack below
  the minimum and a priority out of range with \<^verbatim>\<open>NIMBLE_ERR_INVALID_ARG\<close>, changing nothing;
  with valid arguments and a task not in use it succeeds: the task is ready at the tail of the
  list of its priority, no other task changes, and the invariant holds.
\<close>

theorem task_create_behaviour:
  fixes name :: "string option"
  assumes inv: "sched_inv b {} H N L s" and new: "Link t \<notin> N"
  shows "nimble_task_create None name fn arg base words prio s = Some (NIMBLE_ERR_INVALID_ARG, s) \<and>
    (fn = 0 \<or> base = 0 \<or> words < 64 \<or> 32 \<le> prio \<longrightarrow>
       nimble_task_create (Some t) name fn arg base words prio s = Some (NIMBLE_ERR_INVALID_ARG, s)) \<and>
    (fn \<noteq> 0 \<and> base \<noteq> 0 \<and> 64 \<le> words \<and> prio < 32 \<longrightarrow>
       (\<exists>s'. nimble_task_create (Some t) name fn arg base words prio s = Some (NIMBLE_OK, s') \<and>
         sched_inv b {} H (task_nodes t N)
           (L(ReadyList (unat prio) := L (ReadyList (unat prio)) @ [Link t])) s' \<and>
         task_state s' t = NIMBLE_TASK_READY \<and> task_priority s' t = prio \<and>
         (\<forall>t'. t' \<noteq> t \<longrightarrow> tcbs s' t' = tcbs s t')))"
proof (intro conjI impI)
  show "nimble_task_create None name fn arg base words prio s = Some (NIMBLE_ERR_INVALID_ARG, s)"
    by (rule create_rejects) simp
next
  assume "fn = 0 \<or> base = 0 \<or> words < 64 \<or> 32 \<le> prio"
  then show "nimble_task_create (Some t) name fn arg base words prio s = Some (NIMBLE_ERR_INVALID_ARG, s)"
    by (intro create_rejects) (auto simp: create_ok_def kdefs)
next
  assume a: "fn \<noteq> 0 \<and> base \<noteq> 0 \<and> 64 \<le> words \<and> prio < 32"
  then have ok: "create_ok fn base words prio" by (auto simp: create_ok_def kdefs)
  have "\<exists>s'. nimble_task_create (Some t) name fn arg base words prio s = Some (NIMBLE_OK, s')"
    using create_inv [OF inv new _ ok] by blast
  then obtain s' where s': "nimble_task_create (Some t) name fn arg base words prio s = Some (NIMBLE_OK, s')"
    by blast
  then show "\<exists>s'. nimble_task_create (Some t) name fn arg base words prio s = Some (NIMBLE_OK, s') \<and>
         sched_inv b {} H (task_nodes t N)
           (L(ReadyList (unat prio) := L (ReadyList (unat prio)) @ [Link t])) s' \<and>
         task_state s' t = NIMBLE_TASK_READY \<and> task_priority s' t = prio \<and>
         (\<forall>t'. t' \<noteq> t \<longrightarrow> tcbs s' t' = tcbs s t')"
    using created [OF inv new ok, where name = name and arg = arg] by (simp add: enlist_def)
qed

theorem task_create_behaviour_witness:
  "\<exists>s'. nimble_task_create (Some 9) (Some ''x'') 0x08009001 0 0x20009000 64 31 running = Some (NIMBLE_OK, s') \<and>
     task_state s' 9 = NIMBLE_TASK_READY"
proof -
  have "Link 9 \<notin> example_nodes" by (simp add: idle_tcb_def)
  from task_create_behaviour [OF running_inv(1) this, where name = "Some ''x''" and fn = "0x08009001"
      and arg = 0 and base = "0x20009000" and words = 64 and prio = 31]
  show ?thesis by auto
qed

lemma high_water_loop_mem:
  "mem s' = mem s \<Longrightarrow> high_water_loop s' base words i = high_water_loop s base words i"
proof (induction s base words i rule: high_water_loop.induct)
  case (1 s base words i)
  show ?case
    using "1.IH" "1.prems"
    by (subst high_water_loop.simps, subst (2) high_water_loop.simps) simp
qed

text \<open>
  The high-water mark is the number of untouched canary words at the low end of the stack
  (it is counted from the base and stops at the first word that is not the canary); for a task
  that has just been created it is the stack size less the sixteen words of the first frame.
\<close>

lemma high_water_mark_correct:
  fixes name :: "string option"
  assumes "nimble_task_create (Some t) name fn arg base words prio s = Some (NIMBLE_OK, s')"
    "unat words \<le> 2 ^ 30"
  shows "nimble_task_get_stack_high_water_mark t s' = words - 16 \<and>
    (\<forall>s2. let h = high_water_loop s2 base (unat words) 0
          in h \<le> unat words \<and> (\<forall>j<h. mem s2 (base + 4 * word_of_nat j) = NIMBLE_STACK_CANARY) \<and>
             (h < unat words \<longrightarrow> mem s2 (base + 4 * word_of_nat h) \<noteq> NIMBLE_STACK_CANARY))"
proof
  let ?i = "nimble_port_init_task_stack (base + 4 * words) fn arg
              (s\<lparr>mem := fill_canary (unat words) base (mem s)\<rparr>)"
  have ok: "create_ok fn base words prio"
    using assms(1) create_rejects [of "Some t" fn base words prio] by fastforce
  then have w: "16 \<le> unat words" and p: "unat prio < 32"
    by (auto simp: create_ok_def kdefs word_le_nat_alt word_less_nat_alt)
  have s': "mem s' = mem (snd ?i)" "tcb_stack_base (tcbs s' t) = base" "tcb_stack_words (tcbs s' t) = words"
    using assms(1) ok p
    by (auto simp: nimble_task_create_def create_ok_def kdefs Let_def nimble_port_init_task_stack_def
        push_word_pair zero_tcb_def add_ready_eq split: if_splits)
  have eq: "high_water_loop s' base (unat words) 0 = high_water_loop (snd ?i) base (unat words) 0"
    by (rule high_water_loop_mem) (rule s'(1))
  have "high_water_loop (snd ?i) base (unat words) 0 = unat words - 16"
    by (rule fresh_stack_high_water [OF prod.collapse [symmetric] w assms(2)])
  then have "nimble_task_get_stack_high_water_mark t s' = word_of_nat (unat words - 16)"
    by (simp add: nimble_task_get_stack_high_water_mark_def s' eq)
  also have "\<dots> = words - 16" using w by (simp add: of_nat_diff)
  finally show "nimble_task_get_stack_high_water_mark t s' = words - 16" .
next
  show "\<forall>s2. let h = high_water_loop s2 base (unat words) 0
          in h \<le> unat words \<and> (\<forall>j<h. mem s2 (base + 4 * word_of_nat j) = NIMBLE_STACK_CANARY) \<and>
             (h < unat words \<longrightarrow> mem s2 (base + 4 * word_of_nat h) \<noteq> NIMBLE_STACK_CANARY)"
    using high_water_loop_sound [of 0 "unat words"] by (simp add: Let_def)
qed

text \<open>
  The first context: after \<^verbatim>\<open>nimble_task_create\<close> the saved stack pointer is sixteen
  words below the top, and the frame that the processor unstacks there enters \<^verbatim>\<open>fn\<close> in
  Thumb state with \<^verbatim>\<open>arg\<close> in \<^verbatim>\<open>r0\<close> and \<^verbatim>\<open>task_exit_trap\<close> as return address; no word
  outside the task's own stack is written.
\<close>

lemma task_first_frame:
  fixes name :: "string option"
  assumes "nimble_task_create (Some t) name fn arg base words prio s = Some (NIMBLE_OK, s')"
    "unat words \<le> 2 ^ 30"
  shows "tcb_sp (tcbs s' t) = base + 4 * words - 64 \<and>
    hw_frame s' (tcb_sp (tcbs s' t) + 32) =
      [arg, 0x01010101, 0x02020202, 0x03030303, 0x12121212,
       sym_task_exit_trap (syms s), fn, 0x01000000] \<and>
    (\<forall>a. (\<forall>j<unat words. a \<noteq> base + 4 * word_of_nat j) \<longrightarrow> mem s' a = mem s a)"
proof -
  let ?s = "s\<lparr>mem := fill_canary (unat words) base (mem s)\<rparr>"
  let ?i = "nimble_port_init_task_stack (base + 4 * words) fn arg ?s"
  have ok: "create_ok fn base words prio"
    using assms(1) create_rejects [of "Some t" fn base words prio] by fastforce
  then have w: "16 \<le> unat words" and p: "unat prio < 32"
    by (auto simp: create_ok_def kdefs word_le_nat_alt word_less_nat_alt)
  have s': "mem s' = mem (snd ?i)" "tcb_sp (tcbs s' t) = fst ?i"
    using assms(1) ok p
    by (auto simp: nimble_task_create_def create_ok_def kdefs Let_def nimble_port_init_task_stack_def
        push_word_pair zero_tcb_def add_ready_eq split: if_splits)
  have fr: "fst ?i = base + 4 * words - 64"
    "hw_frame (snd ?i) (fst ?i + 32) = [arg, 0x01010101, 0x02020202, 0x03030303, 0x12121212,
       sym_task_exit_trap (syms s), fn, 0x01000000]"
  proof -
    have e: "?i = (fst ?i, snd ?i)" and sy: "syms ?s = syms s" by simp_all
    show "fst ?i = base + 4 * words - 64" by (rule init_task_stack_frame(1) [OF e])
    show "hw_frame (snd ?i) (fst ?i + 32) = [arg, 0x01010101, 0x02020202, 0x03030303, 0x12121212,
       sym_task_exit_trap (syms s), fn, 0x01000000]"
      using init_task_stack_frame(3) [OF e] unfolding sy .
  qed
  have "mem s' a = mem s a" if "\<forall>j<unat words. a \<noteq> base + 4 * word_of_nat j" for a
  proof -
    have at: "base + 4 * words - 4 * word_of_nat (Suc k) = base + 4 * word_of_nat (unat words - Suc k)"
      if "k < 16" for k
      using that w by (simp add: of_nat_diff algebra_simps)
    have "mem (snd ?i) a = mem ?s a"
    proof (rule init_task_stack_outside [OF prod.collapse [symmetric]])
      fix k :: nat assume k: "k < 16"
      have "unat words - Suc k < unat words" using w by simp
      then show "a \<noteq> base + 4 * words - 4 * word_of_nat (Suc k)" unfolding at [OF k] using that by blast
    qed
    moreover have "fill_canary n base m a = m a" if "\<forall>j<n. a \<noteq> base + 4 * word_of_nat j" for n m
      using that by (induction n) auto
    ultimately show ?thesis using that s'(1) by simp
  qed
  moreover have "hw_frame s' (fst ?i + 32) = hw_frame (snd ?i) (fst ?i + 32)"
    by (simp add: hw_frame_def s'(1))
  ultimately show ?thesis using s'(2) fr by simp
qed

lemma ready_stacks:
  "nimble_scheduler_add_ready t s = Some s' \<Longrightarrow> mem s' = mem s \<and> tcb_sp (tcbs s' x) = tcb_sp (tcbs s x)"
  "nimble_scheduler_remove t s = Some s' \<Longrightarrow> mem s' = mem s \<and> tcb_sp (tcbs s' x) = tcb_sp (tcbs s x)"
  by (auto simp: nimble_scheduler_add_ready_def nimble_scheduler_remove_def Let_def kdefs split: if_splits bind_splits)

lemma select_next_stacks:
  assumes "nimble_scheduler_select_next s = Some (n, s')"
  shows "nimble_next_tcb s' = Some n" "mem s' = mem s" "tcb_sp (tcbs s' t) = tcb_sp (tcbs s t)"
proof -
  obtain s1 s2 where s1: "requeue_current s = Some s1" and s2: "nimble_scheduler_remove n s1 = Some s2"
    and s': "s' = (update_tcb n (tcb_state_update (\<lambda>_. NIMBLE_TASK_RUNNING)) s2)\<lparr>nimble_next_tcb := Some n\<rparr>"
    using assms by (auto simp: nimble_scheduler_select_next_def Let_def split: bind_splits)
  have "mem s1 = mem s \<and> tcb_sp (tcbs s1 t) = tcb_sp (tcbs s t)"
    using s1 ready_stacks(1) by (auto simp: requeue_current_def split: option.splits if_splits)
  then show "nimble_next_tcb s' = Some n" "mem s' = mem s" "tcb_sp (tcbs s' t) = tcb_sp (tcbs s t)"
    using ready_stacks(2) [OF s2, of t] by (auto simp: s' update_tcb_def)
qed

text \<open>The restoring half, for any state: what the handler loads is the frame of the task it switches to.\<close>

lemma PendSV_restores:
  assumes "PendSV_Handler s = Some s'"
  shows "\<exists>n. nimble_current_tcb s' = Some n \<and> psp s' = tcb_sp (tcbs s' n) + 32 \<and>
     (\<forall>i<8. reg s' (4 + i) = mem s' (tcb_sp (tcbs s' n) + 4 * word_of_nat i)) \<and>
     (nimble_current_tcb s \<noteq> Some n \<longrightarrow> tcb_sp (tcbs s' n) = tcb_sp (tcbs s n))"
proof -
  obtain n s1 where sel: "nimble_scheduler_select_next (switch_out s) = Some (n, s1)"
    and f: "s' = (load_r4_r11 (tcb_sp (tcbs s1 n)) (s1\<lparr>nimble_current_tcb := Some n\<rparr>))
            \<lparr>psp := tcb_sp (tcbs s1 n) + 32\<rparr>"
    using assms select_next_stacks(1)
    by (fastforce simp: PendSV_Handler_def switch_out_def Let_def split: option.splits bind_splits)
  have "tcb_sp (tcbs (switch_out s) n) = tcb_sp (tcbs s n)" if "nimble_current_tcb s \<noteq> Some n"
    using that by (auto simp: switch_out_def update_tcb_def store_r4_r11_def split: option.splits)
  then have "nimble_current_tcb s \<noteq> Some n \<longrightarrow> tcb_sp (tcbs s' n) = tcb_sp (tcbs s n)"
    using select_next_stacks(3) [OF sel] by (simp add: f load_r4_r11_def)
  then show ?thesis by (intro exI [of _ n]) (simp add: f load_r4_r11_def)
qed

text \<open>
  C22. Context save and restore. \<^verbatim>\<open>PendSV_Handler\<close> leaves \<^verbatim>\<open>r4\<close>--\<^verbatim>\<open>r11\<close> of the outgoing task
  \<open>c\<close> in the eight words at its saved stack pointer, which is its process stack pointer less 32.
  It resumes the incoming task \<open>n\<close> with \<^verbatim>\<open>r4\<close>--\<^verbatim>\<open>r11\<close> from the eight words at the
  stack pointer saved for \<open>n\<close>, and the process stack pointer just above them. So when a later run of the
  handler switches back to \<open>c\<close>, with its saved pointer and these words as they were left, \<open>c\<close>
  has exactly the registers and the process stack pointer it had.
\<close>

theorem context_save_restore:
  assumes inv: "sched_inv True {} H N L s" and some: "can_run N s t0"
    and cur: "nimble_current_tcb s = Some c" and sw: "PendSV_Handler s = Some s'"
    and other: "nimble_current_tcb s' \<noteq> Some c"
  shows "tcb_sp (tcbs s' c) + 32 = psp s \<and>
    (\<forall>i<8. mem s' (tcb_sp (tcbs s' c) + 4 * word_of_nat i) = reg s (4 + i)) \<and>
    (\<exists>n. nimble_current_tcb s' = Some n \<and> psp s' = tcb_sp (tcbs s n) + 32 \<and>
       (\<forall>i<8. reg s' (4 + i) = mem s' (tcb_sp (tcbs s n) + 4 * word_of_nat i))) \<and>
    (\<forall>s2 s3. PendSV_Handler s2 = Some s3 \<longrightarrow> nimble_current_tcb s2 \<noteq> Some c \<longrightarrow> nimble_current_tcb s3 = Some c \<longrightarrow>
       tcb_sp (tcbs s2 c) = tcb_sp (tcbs s' c) \<longrightarrow>
       (\<forall>i<8. mem s3 (tcb_sp (tcbs s' c) + 4 * word_of_nat i) = mem s' (tcb_sp (tcbs s' c) + 4 * word_of_nat i)) \<longrightarrow>
       psp s3 = psp s \<and> (\<forall>i<8. reg s3 (4 + i) = reg s (4 + i)))"
proof -
  let ?a = "psp s - 32"
  have "unat (task_priority s t0) < 32"
    using sched_inv_prio [OF inv] some by (simp add: can_run_def)
  then have ex: "\<exists>p<32. requeue_lists s L (ReadyList p) \<noteq> []" using can_run_listed [OF inv some] by force
  obtain n s1 where sel: "nimble_scheduler_select_next (switch_out s) = Some (n, s1)"
    and f: "s' = (load_r4_r11 (tcb_sp (tcbs s1 n)) (s1\<lparr>nimble_current_tcb := Some n\<rparr>))
            \<lparr>psp := tcb_sp (tcbs s1 n) + 32\<rparr>"
    using PendSV_inv [OF inv _ ex] sw by auto
  have L: "requeue_lists (switch_out s) L = requeue_lists s L" by (rule requeue_lists_cong) simp_all
  have i: "sched_inv True {} H N L (switch_out s)" using inv by simp
  have nc: "n \<noteq> c" using other f by (auto simp: load_r4_r11_def)
  have s1: "mem s1 = mem (switch_out s)" "tcb_sp (tcbs s1 c) = tcb_sp (tcbs (switch_out s) c)"
  proof -
    obtain n' s'' where "nimble_scheduler_select_next (switch_out s) = Some (n', s'')"
      and f': "s'' = (switch_out s)\<lparr>tcbs := \<lambda>t. if t = n' then (tcbs (switch_out s) t)\<lparr>tcb_state := NIMBLE_TASK_RUNNING\<rparr>
                       else if nimble_current_tcb (switch_out s) = Some t \<and> task_state (switch_out s) t = NIMBLE_TASK_RUNNING
                       then (tcbs (switch_out s) t)\<lparr>tcb_state := NIMBLE_TASK_READY\<rparr> else tcbs (switch_out s) t,
            nimble_next_tcb := Some n', heap := heap s'', ready_bitmap := ready_bitmap s''\<rparr>"
      using select_next_inv [OF i] ex unfolding L by blast
    then have e: "n' = n" "s'' = s1" using sel by simp_all
    show "mem s1 = mem (switch_out s)" unfolding e(2) [symmetric] by (subst f') simp
    show "tcb_sp (tcbs s1 c) = tcb_sp (tcbs (switch_out s) c)"
      unfolding e(2) [symmetric] by (subst f') (simp add: e(1) nc)
  qed
  have so: "mem (switch_out s) = mem (store_r4_r11 ?a s)" "tcb_sp (tcbs (switch_out s) c) = ?a"
    using cur by (simp_all add: switch_out_def update_tcb_def store_r4_r11_def)
  have sp: "tcb_sp (tcbs s' c) = ?a" "mem s' = mem (store_r4_r11 ?a s)"
    using s1 so by (simp_all add: f load_r4_r11_def)
  have st: "mem (store_r4_r11 ?a s) (?a + 4 * word_of_nat i) = reg s (4 + i)" if "i < 8" for i
    using load_store_r4_r11 [of "store_r4_r11 ?a s" ?a s "4 + i"] that by (simp add: load_r4_r11_def)
  have words: "\<forall>i<8. mem s' (?a + 4 * word_of_nat i) = reg s (4 + i)" using sp(2) st by simp
  obtain n' where n': "nimble_current_tcb s' = Some n'" "psp s' = tcb_sp (tcbs s' n') + 32"
    "\<forall>i<8. reg s' (4 + i) = mem s' (tcb_sp (tcbs s' n') + 4 * word_of_nat i)"
    "tcb_sp (tcbs s' n') = tcb_sp (tcbs s n')"
    using PendSV_restores [OF sw] cur other by auto
  have "psp s3 = psp s \<and> (\<forall>i<8. reg s3 (4 + i) = reg s (4 + i))"
    if bk: "PendSV_Handler s2 = Some s3" "nimble_current_tcb s2 \<noteq> Some c" "nimble_current_tcb s3 = Some c"
      "tcb_sp (tcbs s2 c) = ?a" "\<forall>i<8. mem s3 (?a + 4 * word_of_nat i) = mem s' (?a + 4 * word_of_nat i)" for s2 s3
    using PendSV_restores [OF bk(1)] bk(2-5) words by auto
  then show ?thesis unfolding sp(1) using words n' by (intro conjI) auto
qed

theorem context_save_restore_witness:
  "\<exists>s s'. PendSV_Handler s = Some s' \<and> nimble_current_tcb s = Some 3 \<and> nimble_current_tcb s' \<noteq> Some 3 \<and>
     tcb_sp (tcbs s' 3) + 32 = psp s \<and> (\<exists>n. nimble_current_tcb s' = Some n \<and> psp s' = tcb_sp (tcbs s n) + 32)"
proof -
  obtain s where inv: "sched_inv True {} example_heads example_nodes (enlist DelayedList (Link 3) example_lists) s"
    and f: "s = running\<lparr>tcbs := (tcbs running)(3 := (tcbs running 3)\<lparr>tcb_wake_tick := g_tick_count running + 1,
                                            tcb_state := NIMBLE_TASK_BLOCKED\<rparr>),
            pendsv := True, heap := heap s, ready_bitmap := ready_bitmap s\<rparr>"
    using delay_inv [OF running_inv(1,2,3), of 1] by auto
  have cur: "nimble_current_tcb s = Some 3" "task_state s 3 = NIMBLE_TASK_BLOCKED"
    "task_state s 2 = NIMBLE_TASK_READY"
    by (subst f, simp add: running_inv(2) running_tasks)+
  have c2: "can_run example_nodes s 2" using cur(3) by (simp add: can_run_def)
  have "\<not> can_run example_nodes s 3" using cur(2) by (simp add: can_run_def)
  with PendSV_runs_highest_priority [OF inv c2] obtain s' where s': "PendSV_Handler s = Some s'"
    "nimble_current_tcb s' \<noteq> Some 3"
    by auto
  have "tcb_sp (tcbs s' 3) + 32 = psp s \<and> (\<exists>n. nimble_current_tcb s' = Some n \<and> psp s' = tcb_sp (tcbs s n) + 32)"
    using context_save_restore [OF inv c2 cur(1) s'] by blast
  then show ?thesis using s' cur(1) by blast
qed

text \<open>
  With non-null kernel symbols, \<^verbatim>\<open>nimble_scheduler_init\<close> establishes the invariant whatever the memory held before:
  all lists empty except that the idle task, of priority 0, is ready; and
  \<^verbatim>\<open>nimble_scheduler_start\<close> then always has a task to start.
\<close>

lemma boot_establishes_invariant:
  assumes "syms_ok (syms s)"
  shows "\<exists>s' s''. nimble_scheduler_init s = Some s' \<and>
     sched_inv True {} boot_heads (task_nodes idle_tcb {}) ((\<lambda>_. [])(ReadyList 0 := [Link idle_tcb])) s' \<and>
     task_priority s' idle_tcb = 0 \<and> g_tick_count s' = 0 \<and>
     nimble_scheduler_start s' = Some s'' \<and> nimble_current_tcb s'' = Some idle_tcb \<and>
     task_state s'' idle_tcb = NIMBLE_TASK_RUNNING \<and> basepri s'' = 0"
proof -
  have L: "enlist (ReadyList 0) (Link idle_tcb) (\<lambda>_. []) = (\<lambda>_. [])(ReadyList 0 := [Link idle_tcb])"
    by (auto simp: fun_eq_iff)
  from init_inv [OF assms] obtain s' where s': "nimble_scheduler_init s = Some s'"
    and inv: "sched_inv True {} boot_heads (task_nodes idle_tcb {}) ((\<lambda>_. [])(ReadyList 0 := [Link idle_tcb])) s'"
    and f: "nimble_current_tcb s' = None" "task_priority s' idle_tcb = 0" "g_tick_count s' = 0"
    unfolding L by blast
  have "\<exists>p<32. ((\<lambda>_. [])(ReadyList 0 := [Link idle_tcb])) (ReadyList p) \<noteq> []" by (rule exI [of _ 0]) simp
  from start_inv [OF inv f(1) this] obtain n p ns s'' where s'': "nimble_scheduler_start s' = Some s''"
    "((\<lambda>_. [])(ReadyList 0 := [Link idle_tcb])) (ReadyList p) = Link n # ns"
    "nimble_current_tcb s'' = Some n" "task_state s'' n = NIMBLE_TASK_RUNNING" "basepri s'' = 0"
    by blast
  have "n = idle_tcb" using s''(2) by (auto split: if_splits)
  then show ?thesis using s' inv f s'' by blast
qed

text \<open>
  Suspending a ready or running task takes it off the ready list, and resuming it puts it
  back at the tail of the list of its priority; a task in any other state is left alone by
  either call, so resuming a task that is not suspended and suspending a blocked one do nothing.
\<close>

lemma suspend_resume:
  assumes inv: "sched_inv b {} H N L s" and t: "Link t \<in> N" "can_run N s t"
  shows "\<exists>s1 s2. nimble_task_suspend t s = Some s1 \<and> task_state s1 t = NIMBLE_TASK_SUSPENDED \<and>
     sched_inv b {} H N (delist (Link t) L) s1 \<and> (nimble_current_tcb s = Some t \<longrightarrow> pendsv s1) \<and>
     nimble_task_suspend t s1 = Some s1 \<and>
     nimble_task_resume t s1 = Some s2 \<and> task_state s2 t = NIMBLE_TASK_READY \<and>
     sched_inv b {} H N
       (enlist (ReadyList (unat (task_priority s t))) (Link t) (delist (Link t) L)) s2 \<and>
     nimble_task_resume t s2 = Some s2 \<and> (\<forall>t'. t' \<noteq> t \<longrightarrow> tcbs s2 t' = tcbs s t')"
proof -
  have st: "task_state s t = NIMBLE_TASK_READY \<or> task_state s t = NIMBLE_TASK_RUNNING"
    using t(2) by (auto simp: can_run_def)
  obtain s1 where s1: "nimble_task_suspend t s = Some s1" and i1: "sched_inv b {} H N (delist (Link t) L) s1"
    and f1: "s1 = s\<lparr>tcbs := (tcbs s)(t := (tcbs s t)\<lparr>tcb_state := NIMBLE_TASK_SUSPENDED\<rparr>),
            pendsv := (pendsv s \<or> nimble_current_tcb s = Some t),
            heap := heap s1, ready_bitmap := ready_bitmap s1\<rparr>"
    using suspend_inv [OF inv t(1) st] by blast
  have t1: "tcbs s1 = (tcbs s)(t := (tcbs s t)\<lparr>tcb_state := NIMBLE_TASK_SUSPENDED\<rparr>)"
    "pendsv s1 = (pendsv s \<or> nimble_current_tcb s = Some t)" by (subst f1, simp)+
  then have st1: "task_state s1 t = NIMBLE_TASK_SUSPENDED" "task_priority s1 t = task_priority s t" by simp_all
  obtain s2 where s2: "nimble_task_resume t s1 = Some s2"
    and i2: "sched_inv b {} H N (enlist (ReadyList (unat (task_priority s t))) (Link t) (delist (Link t) L)) s2"
    and f2: "s2 = s1\<lparr>tcbs := (tcbs s1)(t := (tcbs s1 t)\<lparr>tcb_state := NIMBLE_TASK_READY\<rparr>),
            heap := heap s2, ready_bitmap := ready_bitmap s2\<rparr>"
    using resume_inv [OF i1 t(1) st1(1)] unfolding st1(2) by blast
  have t2: "tcbs s2 = (tcbs s1)(t := (tcbs s1 t)\<lparr>tcb_state := NIMBLE_TASK_READY\<rparr>)" by (subst f2) simp
  have "nimble_task_suspend t s1 = Some s1" "nimble_task_resume t s2 = Some s2"
    using suspend_other [of s1 t] resume_other [of s2 t] st1 t2 by simp_all
  then show ?thesis using s1 s2 i1 i2 st1 t1 t2 by auto
qed

end
