(* ===== verification/Sync_Properties.thy ===== *)
theory Sync_Properties
  imports Kernel_Properties
begin

text \<open>
  The properties of the wait lists, the mutex, the semaphore and the queue.
\<close>

section \<open>Wait lists\<close>

text \<open>
  Each of the three copies of \<^verbatim>\<open>insert_waiter_priority_sorted\<close> puts the task before
  the first waiter of lower priority: the waiters of at least its priority stay ahead of it in
  their order, the others stay behind, and an ordered list stays ordered.
\<close>

lemma waiter_insertion:
  assumes inv: "sched_inv b {} H N L s" and k: "k \<in> H" "wait_head k" and t: "Link t \<in> N"
    and fe: "free_node H L (EventLink t)" and L: "L k = map EventLink ts"
    and ins: "ins = mutex_insert_waiter_priority_sorted \<or> ins = semaphore_insert_waiter_priority_sorted \<or>
              ins = queue_insert_waiter_priority_sorted"
  shows "\<exists>s' ts1 ts2. ins k t s = Some s' \<and> ts = ts1 @ ts2 \<and>
     sched_inv b {t} H N (L(k := map EventLink (ts1 @ t # ts2))) s' \<and>
     (\<forall>x\<in>set ts1. task_priority s t \<le> task_priority s x) \<and>
     (ts2 \<noteq> [] \<longrightarrow> task_priority s (hd ts2) < task_priority s t) \<and>
     (prio_sorted (task_priority s) ts \<longrightarrow> prio_sorted (task_priority s) (ts1 @ t # ts2))"
proof -
  let ?P = "\<lambda>x. task_priority s t \<le> task_priority s x"
  have "\<exists>s'. ins k t s = Some s' \<and>
      sched_inv b {t} H N (L(k := map EventLink (prio_insert (task_priority s) t ts))) s'"
    using ins mutex_wait.ins_spec [OF inv k t fe L] semaphore_wait.ins_spec [OF inv k t fe L]
      queue_wait.ins_spec [OF inv k t fe L] by blast
  then obtain s' where "ins k t s = Some s'"
      "sched_inv b {t} H N (L(k := map EventLink (takeWhile ?P ts @ t # dropWhile ?P ts))) s'"
    by (auto simp: prio_insert_def)
  moreover have "\<forall>x\<in>set (takeWhile ?P ts). task_priority s t \<le> task_priority s x"
    by (auto dest: set_takeWhileD)
  moreover have "dropWhile ?P ts \<noteq> [] \<longrightarrow> task_priority s (hd (dropWhile ?P ts)) < task_priority s t"
    by (intro impI) (drule hd_dropWhile, simp only: not_le)
  moreover have "prio_sorted (task_priority s) ts \<longrightarrow>
      prio_sorted (task_priority s) (takeWhile ?P ts @ t # dropWhile ?P ts)"
    using prio_sorted_insert [of "task_priority s" ts t] by (simp add: prio_insert_def)
  moreover have "ts = takeWhile ?P ts @ dropWhile ?P ts" by simp
  ultimately show ?thesis by blast
qed

lemma first_waiter_iff:
  assumes inv: "sched_inv b U H N L s" and k: "k \<in> H" "wait_head k"
  shows "first_waiter k L \<noteq> None \<longleftrightarrow> L k \<noteq> []"
proof -
  obtain ts where "L k = map EventLink ts" using wait_links [OF sched_inv_shape [OF inv] k] by auto
  then show ?thesis by (cases ts) (auto simp: first_waiter_def)
qed

section \<open>Mutex\<close>

text \<open>The branch of the lock that waits, with the effect on the caller and on the owner.\<close>

lemma lock_waits:
  assumes inv: "sched_inv b {} H N L s" and cur: "nimble_current_tcb s = Some t"
    and run: "task_state s t = NIMBLE_TASK_RUNNING" and m: "MutexWaiters m \<in> H"
    and w: "mutex_owner (mutexes s m) = Some w" "w \<noteq> t" and to: "timeout \<noteq> NIMBLE_NO_WAIT"
  shows "\<exists>s' L'. nimble_mutex_lock m timeout s = Some (Blocks, s') \<and>
           task_state s' t = NIMBLE_TASK_BLOCKED \<and> pendsv s' \<and> mutexes s' = mutexes s \<and>
           task_priority s' w = max (task_priority s t) (task_priority s w) \<and>
           tcb_base_priority (tcbs s' w) = tcb_base_priority (tcbs s w) \<and>
           (\<forall>x. x \<noteq> t \<and> x \<noteq> w \<longrightarrow> tcbs s' x = tcbs s x) \<and>
           EventLink t \<in> set (L' (MutexWaiters m)) \<and>
           (\<forall>p. Link t \<notin> set (L' (ReadyList p))) \<and>
           sched_inv (b \<and> boost_ok w (task_priority s t) s) {} H N L' s'"
proof -
  obtain ts where ts: "L (MutexWaiters m) = map EventLink ts"
    using wait_links [OF sched_inv_shape [OF inv] m] by auto
  let ?B = "boost w (task_priority s t) s"
  let ?L = "block_lists t timeout (L(MutexWaiters m := map EventLink (prio_insert (task_priority ?B) t ts)))"
  obtain s' where s': "nimble_mutex_lock m timeout s = Some (Blocks, s')"
    and i': "sched_inv (b \<and> boost_ok w (task_priority s t) s) {} H N ?L s'"
    and f: "s' = ?B\<lparr>tcbs := (tcbs ?B)(t := (tcbs s t)\<lparr>tcb_state := NIMBLE_TASK_BLOCKED,
                 tcb_wake_tick := if timeout = NIMBLE_WAIT_FOREVER then tcb_wake_tick (tcbs s t)
                                  else g_tick_count s + timeout\<rparr>),
            pendsv := True, heap := heap s', ready_bitmap := ready_bitmap s'\<rparr>"
    using lock_blocks [OF inv cur run m ts _ _ to] w by blast
  have tc: "tcbs s' = (tcbs ?B)(t := (tcbs s t)\<lparr>tcb_state := NIMBLE_TASK_BLOCKED,
                 tcb_wake_tick := if timeout = NIMBLE_WAIT_FOREVER then tcb_wake_tick (tcbs s t)
                                  else g_tick_count s + timeout\<rparr>)" "pendsv s'" "mutexes s' = mutexes s"
    by (subst f, simp)+
  have "EventLink t \<in> set (?L (MutexWaiters m))" "\<forall>p. Link t \<notin> set (?L (ReadyList p))"
    by (auto simp: block_lists_def)
  then show ?thesis
    using s' i' tc w by (intro exI [of _ s'] exI [of _ ?L]) simp
qed

text \<open>
  C23. \<^verbatim>\<open>nimble_mutex_lock\<close>, branch by branch: a free mutex is taken, the owner's own lock
  nests, a contended lock without waiting fails with \<^verbatim>\<open>NIMBLE_ERR_TIMEOUT\<close> and changes nothing,
  and otherwise the caller blocks on the waiter list, off the ready lists, with the owner's
  priority raised to the caller's if it was lower and its base priority untouched.
\<close>

theorem mutex_lock_behaviour:
  assumes inv: "sched_inv b {} H N L s" and cur: "nimble_current_tcb s = Some t"
    and run: "task_state s t = NIMBLE_TASK_RUNNING" and m: "MutexWaiters m \<in> H"
  shows "(mutex_owner (mutexes s m) = None \<longrightarrow>
      (\<exists>s'. nimble_mutex_lock m timeout s = Some (Returns NIMBLE_OK, s') \<and> sched_inv b {} H N L s' \<and>
         mutexes s' m = \<lparr>mutex_owner = Some t, mutex_lock_count = 1\<rparr> \<and> tcbs s' = tcbs s)) \<and>
    (mutex_owner (mutexes s m) = Some t \<longrightarrow>
      (\<exists>s'. nimble_mutex_lock m timeout s = Some (Returns NIMBLE_OK, s') \<and> sched_inv b {} H N L s' \<and>
         mutexes s' m = \<lparr>mutex_owner = Some t, mutex_lock_count = mutex_lock_count (mutexes s m) + 1\<rparr> \<and>
         tcbs s' = tcbs s)) \<and>
    (\<forall>w. mutex_owner (mutexes s m) = Some w \<and> w \<noteq> t \<longrightarrow>
      nimble_mutex_lock m NIMBLE_NO_WAIT s = Some (Returns NIMBLE_ERR_TIMEOUT, s) \<and>
      (timeout \<noteq> NIMBLE_NO_WAIT \<longrightarrow>
        (\<exists>s' L'. nimble_mutex_lock m timeout s = Some (Blocks, s') \<and>
           task_state s' t = NIMBLE_TASK_BLOCKED \<and> pendsv s' \<and> mutexes s' = mutexes s \<and>
           task_priority s' w = max (task_priority s t) (task_priority s w) \<and>
           tcb_base_priority (tcbs s' w) = tcb_base_priority (tcbs s w) \<and>
           (\<forall>x. x \<noteq> t \<and> x \<noteq> w \<longrightarrow> tcbs s' x = tcbs s x) \<and>
           EventLink t \<in> set (L' (MutexWaiters m)) \<and>
           (\<forall>p. Link t \<notin> set (L' (ReadyList p))) \<and>
           sched_inv (b \<and> boost_ok w (task_priority s t) s) {} H N L' s')))"
proof (intro conjI allI impI)
  assume "mutex_owner (mutexes s m) = None"
  then show "\<exists>s'. nimble_mutex_lock m timeout s = Some (Returns NIMBLE_OK, s') \<and> sched_inv b {} H N L s' \<and>
         mutexes s' m = \<lparr>mutex_owner = Some t, mutex_lock_count = 1\<rparr> \<and> tcbs s' = tcbs s"
    using inv cur by (simp add: lock_free nimble_mutex.equality)
next
  assume "mutex_owner (mutexes s m) = Some t"
  then show "\<exists>s'. nimble_mutex_lock m timeout s = Some (Returns NIMBLE_OK, s') \<and> sched_inv b {} H N L s' \<and>
         mutexes s' m = \<lparr>mutex_owner = Some t, mutex_lock_count = mutex_lock_count (mutexes s m) + 1\<rparr> \<and>
         tcbs s' = tcbs s"
    using inv cur by (simp add: lock_recursive nimble_mutex.equality)
next
  fix w assume w: "mutex_owner (mutexes s m) = Some w \<and> w \<noteq> t"
  then show "nimble_mutex_lock m NIMBLE_NO_WAIT s = Some (Returns NIMBLE_ERR_TIMEOUT, s)"
    using cur by (simp add: lock_no_wait)
  assume to: "timeout \<noteq> NIMBLE_NO_WAIT"
  show "\<exists>s' L'. nimble_mutex_lock m timeout s = Some (Blocks, s') \<and>
           task_state s' t = NIMBLE_TASK_BLOCKED \<and> pendsv s' \<and> mutexes s' = mutexes s \<and>
           task_priority s' w = max (task_priority s t) (task_priority s w) \<and>
           tcb_base_priority (tcbs s' w) = tcb_base_priority (tcbs s w) \<and>
           (\<forall>x. x \<noteq> t \<and> x \<noteq> w \<longrightarrow> tcbs s' x = tcbs s x) \<and>
           EventLink t \<in> set (L' (MutexWaiters m)) \<and>
           (\<forall>p. Link t \<notin> set (L' (ReadyList p))) \<and>
           sched_inv (b \<and> boost_ok w (task_priority s t) s) {} H N L' s'"
    using lock_waits [OF inv cur run m _ _ to] w by blast
qed

text \<open>A state of the example in which the low task owns the mutex.\<close>

definition contended :: kernel where
  "contended = running\<lparr>mutexes := (mutexes running)(0 := \<lparr>mutex_owner = Some 2, mutex_lock_count = 1\<rparr>)\<rparr>"

lemma contended_inv:
  "sched_inv True {} example_heads example_nodes example_lists contended"
  "nimble_current_tcb contended = Some 3" "task_state contended 3 = NIMBLE_TASK_RUNNING"
  "mutexes contended 0 = \<lparr>mutex_owner = Some 2, mutex_lock_count = 1\<rparr>"
  "tcbs contended = tcbs running"
  using running_inv(1,2,3) by (simp_all add: contended_def)

theorem mutex_lock_behaviour_witness:
  "\<exists>s'. nimble_mutex_lock 0 10 contended = Some (Blocks, s') \<and> task_priority s' 2 = 5"
proof -
  have m: "MutexWaiters 0 \<in> example_heads" by simp
  have "mutex_owner (mutexes contended 0) = Some 2 \<and> (2::nat) \<noteq> 3" "(10::u32) \<noteq> NIMBLE_NO_WAIT"
    by (simp_all add: contended_inv(4) kdefs)
  then obtain s' where "nimble_mutex_lock 0 10 contended = Some (Blocks, s')"
    "task_priority s' 2 = max (task_priority contended 3) (task_priority contended 2)"
    using mutex_lock_behaviour [OF contended_inv(1-3) m, of 10] by blast
  moreover have "max (5::u8) 2 = 5" by simp
  ultimately show ?thesis unfolding contended_inv(5) running_tasks by metis
qed

text \<open>The last unlock: the base priority is restored and the first waiter becomes the owner.\<close>

lemma unlock_final:
  assumes inv: "sched_inv b {} H N L s" and cur: "nimble_current_tcb s = Some c"
    and run: "task_state s c = NIMBLE_TASK_RUNNING" and m: "MutexWaiters m \<in> H"
    and L: "L (MutexWaiters m) = map EventLink ts"
    and own: "mutex_owner (mutexes s m) = Some c" "mutex_lock_count (mutexes s m) = 1"
  shows "\<exists>s' L'. nimble_mutex_unlock m s = Some (NIMBLE_OK, s') \<and> sched_inv b {} H N L' s' \<and>
          task_priority s' c = tcb_base_priority (tcbs s c) \<and>
          (ts = [] \<longrightarrow> mutexes s' m = \<lparr>mutex_owner = None, mutex_lock_count = 0\<rparr>) \<and>
          (\<forall>t ws. ts = t # ws \<longrightarrow> mutexes s' m = \<lparr>mutex_owner = Some t, mutex_lock_count = 1\<rparr> \<and>
             task_state s' t = NIMBLE_TASK_READY \<and> tcb_last_wait_result (tcbs s' t) = NIMBLE_OK \<and>
             L' (MutexWaiters m) = map EventLink ws \<and> pendsv s' \<and>
             (prio_sorted (task_priority s) ts \<longrightarrow> (\<forall>x\<in>set ws. task_priority s x \<le> task_priority s t)))"
proof (cases ts)
  case Nil
  then have "L (MutexWaiters m) = []" using L by simp
  from unlock_no_waiter [OF inv cur run m own this] release_state_inv [OF inv cur run, of m]
  show ?thesis using Nil by (intro exI [of _ "(release_state m c s)\<lparr>basepri := basepri s\<rparr>"] exI [of _ L])
      (auto simp: release_state_def)
next
  case (Cons t ws)
  let ?L = "wake_lists (unat (task_priority s t)) t L"
  have Lm: "L (MutexWaiters m) = EventLink t # map EventLink ws" using L Cons by simp
  obtain s' where s': "nimble_mutex_unlock m s = Some (NIMBLE_OK, s')" "t \<noteq> c"
    and i': "sched_inv b {} H N ?L s'"
    and f: "s' = s\<lparr>tcbs := (tcbs s)(c := (tcbs s c)\<lparr>tcb_priority := tcb_base_priority (tcbs s c)\<rparr>,
               t := (tcbs s t)\<lparr>tcb_last_wait_result := NIMBLE_OK, tcb_state := NIMBLE_TASK_READY\<rparr>),
          mutexes := (mutexes s)(m := \<lparr>mutex_owner = Some t, mutex_lock_count = 1\<rparr>),
          pendsv := True, heap := heap s', ready_bitmap := ready_bitmap s'\<rparr>"
    using unlock_handoff [OF inv cur run m own Lm] by blast
  have fs: "task_priority s' c = tcb_base_priority (tcbs s c)" "task_state s' t = NIMBLE_TASK_READY"
    "tcb_last_wait_result (tcbs s' t) = NIMBLE_OK" "pendsv s'"
    "mutexes s' m = \<lparr>mutex_owner = Some t, mutex_lock_count = 1\<rparr>"
    using s'(2) by (subst f, simp)+
  have "distinct (EventLink t # map EventLink ws)"
    using repr_distinct [OF sched_inv_repr [OF inv] m] Lm by simp
  moreover have "Link t \<notin> set (map EventLink ws)" by auto
  ultimately have "?L (MutexWaiters m) = map EventLink ws"
    using Lm by (simp add: wake_lists_def)
  then show ?thesis
    using s' i' fs Cons prio_sorted_head [of "task_priority s" t ws]
    by (intro exI [of _ s'] exI [of _ ?L]) simp
qed

text \<open>
  C24. \<^verbatim>\<open>nimble_mutex_unlock\<close>: a task that is not the owner gets \<^verbatim>\<open>NIMBLE_ERR_NOT_OWNER\<close>
  and changes nothing; a nested lock is only counted down; the last unlock restores the owner's
  base priority and hands the mutex directly to the first waiter, which becomes ready; with no
  waiter the mutex is free. While the waiters are in the order of their priorities, as the insertion
  leaves them (\<open>waiter_insertion\<close>), the first is one of the highest priority; a waiter that is boosted after it
  was inserted, because it owns another mutex, is not moved, and the order is lost then. The
  witness is a last unlock with a waiter.
\<close>

theorem mutex_unlock_behaviour:
  assumes inv: "sched_inv b {} H N L s" and cur: "nimble_current_tcb s = Some c"
    and run: "task_state s c = NIMBLE_TASK_RUNNING" and m: "MutexWaiters m \<in> H"
    and L: "L (MutexWaiters m) = map EventLink ts"
  shows "(mutex_owner (mutexes s m) \<noteq> Some c \<longrightarrow> nimble_mutex_unlock m s = Some (NIMBLE_ERR_NOT_OWNER, s)) \<and>
    (mutex_owner (mutexes s m) = Some c \<and> mutex_lock_count (mutexes s m) \<noteq> 1 \<longrightarrow>
       nimble_mutex_unlock m s = Some (NIMBLE_OK, s\<lparr>mutexes := (mutexes s)(m :=
         \<lparr>mutex_owner = Some c, mutex_lock_count = mutex_lock_count (mutexes s m) - 1\<rparr>)\<rparr>)) \<and>
    (mutex_owner (mutexes s m) = Some c \<and> mutex_lock_count (mutexes s m) = 1 \<longrightarrow>
       (\<exists>s' L'. nimble_mutex_unlock m s = Some (NIMBLE_OK, s') \<and> sched_inv b {} H N L' s' \<and>
          task_priority s' c = tcb_base_priority (tcbs s c) \<and>
          (ts = [] \<longrightarrow> mutexes s' m = \<lparr>mutex_owner = None, mutex_lock_count = 0\<rparr>) \<and>
          (\<forall>t ws. ts = t # ws \<longrightarrow> mutexes s' m = \<lparr>mutex_owner = Some t, mutex_lock_count = 1\<rparr> \<and>
             task_state s' t = NIMBLE_TASK_READY \<and> tcb_last_wait_result (tcbs s' t) = NIMBLE_OK \<and>
             L' (MutexWaiters m) = map EventLink ws \<and> pendsv s' \<and>
             (prio_sorted (task_priority s) ts \<longrightarrow> (\<forall>x\<in>set ws. task_priority s x \<le> task_priority s t)))))"
proof (intro conjI impI)
  assume "mutex_owner (mutexes s m) \<noteq> Some c"
  then show "nimble_mutex_unlock m s = Some (NIMBLE_ERR_NOT_OWNER, s)" using cur by (simp add: unlock_not_owner)
next
  assume a: "mutex_owner (mutexes s m) = Some c \<and> mutex_lock_count (mutexes s m) \<noteq> 1"
  then have r: "mutex_lock_count_update (\<lambda>c. c - 1) (mutexes s m) =
      \<lparr>mutex_owner = Some c, mutex_lock_count = mutex_lock_count (mutexes s m) - 1\<rparr>"
    by (simp add: nimble_mutex.equality)
  then show "nimble_mutex_unlock m s = Some (NIMBLE_OK, s\<lparr>mutexes := (mutexes s)(m :=
         \<lparr>mutex_owner = Some c, mutex_lock_count = mutex_lock_count (mutexes s m) - 1\<rparr>)\<rparr>)"
    unfolding r [symmetric] using unlock_nested [of s m] a cur by simp
next
  assume a: "mutex_owner (mutexes s m) = Some c \<and> mutex_lock_count (mutexes s m) = 1"
  then have own: "mutex_owner (mutexes s m) = Some c" "mutex_lock_count (mutexes s m) = 1" by simp_all
  show "\<exists>s' L'. nimble_mutex_unlock m s = Some (NIMBLE_OK, s') \<and> sched_inv b {} H N L' s' \<and>
          task_priority s' c = tcb_base_priority (tcbs s c) \<and>
          (ts = [] \<longrightarrow> mutexes s' m = \<lparr>mutex_owner = None, mutex_lock_count = 0\<rparr>) \<and>
          (\<forall>t ws. ts = t # ws \<longrightarrow> mutexes s' m = \<lparr>mutex_owner = Some t, mutex_lock_count = 1\<rparr> \<and>
             task_state s' t = NIMBLE_TASK_READY \<and> tcb_last_wait_result (tcbs s' t) = NIMBLE_OK \<and>
             L' (MutexWaiters m) = map EventLink ws \<and> pendsv s' \<and>
             (prio_sorted (task_priority s) ts \<longrightarrow> (\<forall>x\<in>set ws. task_priority s x \<le> task_priority s t)))"
    by (rule unlock_final [OF inv cur run m L own])
qed

text \<open>The low task waits for a mutex of the high task, which runs.\<close>

lemma run_suspended:
  assumes inv: "sched_inv b {} H N L s" and x: "Link x \<in> N" "task_state s x = NIMBLE_TASK_SUSPENDED"
    and none: "\<And>t. Link t \<in> N \<Longrightarrow> task_state s t \<noteq> NIMBLE_TASK_RUNNING"
  shows "sched_inv b {} H N L (s\<lparr>nimble_current_tcb := Some x,
           tcbs := (tcbs s)(x := (tcbs s x)\<lparr>tcb_state := NIMBLE_TASK_RUNNING\<rparr>)\<rparr>)"
  using assms unfolding sched_inv_def tasks_inv_def by (auto split: if_splits)

lemma waited_for:
  "\<exists>s L. sched_inv True {} example_heads example_nodes L s \<and> nimble_current_tcb s = Some 3 \<and>
     task_state s 3 = NIMBLE_TASK_RUNNING \<and> L (MutexWaiters 0) = map EventLink [2] \<and>
     mutexes s 0 = \<lparr>mutex_owner = Some 3, mutex_lock_count = 1\<rparr>"
proof -
  let ?r = "running\<lparr>mutexes := (mutexes running)(0 := \<lparr>mutex_owner = Some 3, mutex_lock_count = 1\<rparr>)\<rparr>"
  have N: "Link 2 \<in> example_nodes" "Link 3 \<in> example_nodes" "MutexWaiters 0 \<in> example_heads" by simp_all
  have i0: "sched_inv True {} example_heads example_nodes example_lists ?r" using running_inv(1) by simp
  have "task_state ?r 2 = NIMBLE_TASK_READY" by (simp add: running_tasks)
  then obtain s1 where i1: "sched_inv True {} example_heads example_nodes (delist (Link 2) example_lists) s1"
    and f1: "s1 = ?r\<lparr>tcbs := (tcbs ?r)(2 := (tcbs ?r 2)\<lparr>tcb_state := NIMBLE_TASK_SUSPENDED\<rparr>),
            pendsv := (pendsv ?r \<or> nimble_current_tcb ?r = Some 2), heap := heap s1, ready_bitmap := ready_bitmap s1\<rparr>"
    using suspend_inv [OF i0 N(1)] by blast
  have t1: "tcbs s1 = (tcbs running)(2 := (tcbs running 2)\<lparr>tcb_state := NIMBLE_TASK_SUSPENDED\<rparr>)"
    "mutexes s1 0 = \<lparr>mutex_owner = Some 3, mutex_lock_count = 1\<rparr>" by (subst f1, simp)+
  have "task_state s1 3 = NIMBLE_TASK_RUNNING" using running_inv(3) by (simp add: t1)
  then obtain s2 L2 where i2: "sched_inv True {} example_heads example_nodes L2 s2" and L2: "L2 = delist (Link 3) (delist (Link 2) example_lists)"
    and f2: "s2 = s1\<lparr>tcbs := (tcbs s1)(3 := (tcbs s1 3)\<lparr>tcb_state := NIMBLE_TASK_SUSPENDED\<rparr>),
            pendsv := (pendsv s1 \<or> nimble_current_tcb s1 = Some 3), heap := heap s2, ready_bitmap := ready_bitmap s2\<rparr>"
    using suspend_inv [OF i1 N(2)] by blast
  have t2: "tcbs s2 = (tcbs s1)(3 := (tcbs s1 3)\<lparr>tcb_state := NIMBLE_TASK_SUSPENDED\<rparr>)" "mutexes s2 = mutexes s1"
    by (subst f2, simp)+
  have none: "task_state s2 t \<noteq> NIMBLE_TASK_RUNNING" if "Link t \<in> example_nodes" for t
    using that running_tasks(7) by (auto simp: t2 t1)
  let ?s3 = "s2\<lparr>nimble_current_tcb := Some 2, tcbs := (tcbs s2)(2 := (tcbs s2 2)\<lparr>tcb_state := NIMBLE_TASK_RUNNING\<rparr>)\<rparr>"
  have i3: "sched_inv True {} example_heads example_nodes L2 ?s3"
    by (rule run_suspended [OF i2 N(1) _ none]) (simp_all add: t2 t1)
  have p3: "task_priority ?s3 2 = 2" "task_priority ?s3 3 = 5" by (simp_all add: t2 t1 running_tasks)
  have e: "L2 (MutexWaiters 0) = map EventLink []" by (simp add: L2 example_lists_def)
  have c3: "nimble_current_tcb ?s3 = Some 2" "task_state ?s3 2 = NIMBLE_TASK_RUNNING"
    "mutex_owner (mutexes ?s3 0) = Some 3" "(3::nat) \<noteq> 2" by (simp_all add: t2 t1)
  have b: "boost 3 (task_priority ?s3 2) ?s3 = ?s3" "boost_ok 3 (task_priority ?s3 2) ?s3"
    using p3 by (simp_all add: boost_def boost_ok_def)
  let ?L4 = "block_lists 2 NIMBLE_WAIT_FOREVER (L2(MutexWaiters 0 := map EventLink [2]))"
  obtain s4 where i4: "sched_inv True {} example_heads example_nodes ?L4 s4"
    and f4: "s4 = ?s3\<lparr>tcbs := (tcbs ?s3)(2 := (tcbs ?s3 2)\<lparr>tcb_state := NIMBLE_TASK_BLOCKED,
                 tcb_wake_tick := if NIMBLE_WAIT_FOREVER = NIMBLE_WAIT_FOREVER then tcb_wake_tick (tcbs ?s3 2)
                                  else g_tick_count ?s3 + NIMBLE_WAIT_FOREVER\<rparr>),
            pendsv := True, heap := heap s4, ready_bitmap := ready_bitmap s4\<rparr>"
    using lock_blocks [OF i3 c3(1,2) N(3) e c3(3,4), of NIMBLE_WAIT_FOREVER]
    b(2)
    unfolding b(1) prio_insert_simps by (auto simp: NIMBLE_WAIT_FOREVER_def NIMBLE_NO_WAIT_def)
  have t4: "tcbs s4 = (tcbs s2)(2 := (tcbs s2 2)\<lparr>tcb_state := NIMBLE_TASK_BLOCKED\<rparr>)" "mutexes s4 = mutexes s2"
    by (subst f4, simp)+
  let ?s5 = "s4\<lparr>nimble_current_tcb := Some 3, tcbs := (tcbs s4)(3 := (tcbs s4 3)\<lparr>tcb_state := NIMBLE_TASK_RUNNING\<rparr>)\<rparr>"
  have "task_state s4 t \<noteq> NIMBLE_TASK_RUNNING" if "Link t \<in> example_nodes" for t
    using none [OF that] by (simp add: t4)
  then have "sched_inv True {} example_heads example_nodes ?L4 ?s5"
    by (intro run_suspended [OF i4 N(2)]) (simp_all add: t4 t2)
  moreover have "?L4 (MutexWaiters 0) = map EventLink [2]" by (simp add: block_lists_def)
  moreover have "mutexes ?s5 0 = \<lparr>mutex_owner = Some 3, mutex_lock_count = 1\<rparr>" by (simp add: t4 t2 t1)
  ultimately show ?thesis by (intro exI [of _ ?s5] exI [of _ ?L4]) simp
qed

theorem mutex_unlock_behaviour_witness:
  "\<exists>s s'. mutex_owner (mutexes s 0) = Some 3 \<and> nimble_mutex_unlock 0 s = Some (NIMBLE_OK, s') \<and>
     mutexes s' 0 = \<lparr>mutex_owner = Some 2, mutex_lock_count = 1\<rparr> \<and> task_state s' 2 = NIMBLE_TASK_READY"
proof -
  have m: "MutexWaiters 0 \<in> example_heads" by simp
  obtain s L where i: "sched_inv True {} example_heads example_nodes L s" "nimble_current_tcb s = Some 3"
     "task_state s 3 = NIMBLE_TASK_RUNNING" and L: "L (MutexWaiters 0) = map EventLink [2]"
    and o: "mutexes s 0 = \<lparr>mutex_owner = Some 3, mutex_lock_count = 1\<rparr>"
    using waited_for by blast
  from mutex_unlock_behaviour [OF i m L] o show ?thesis by fastforce
qed

section \<open>Semaphore\<close>

lemma take_keeps_sem_inv:
  assumes si: "sem_inv H L s" and q: "SemWaiters q \<in> H" and c: "0 < sem_count (semaphores s q)"
  shows "sem_inv H L (s\<lparr>semaphores := (semaphores s)(q := sem_count_update (\<lambda>c. c - 1) (semaphores s q))\<rparr>)"
    (is "sem_inv H L ?s'")
    unfolding sem_inv_def
proof (intro allI impI)
  fix r assume r: "SemWaiters r \<in> H"
  have "sem_count (semaphores s q) - 1 \<le> sem_count (semaphores s q)"
    using c by (simp add: word_le_nat_alt word_less_nat_alt unat_sub)
  moreover have "L (SemWaiters q) = []"
    by (rule ccontr) (drule sem_invD(2) [OF si q], use c in simp)
  ultimately show "sem_count (semaphores ?s' r) \<le> sem_max_count (semaphores ?s' r) \<and>
      (L (SemWaiters r) \<noteq> [] \<longrightarrow> sem_count (semaphores ?s' r) = 0)"
    using sem_invD [OF si r] by auto
qed

lemma take_waits:
  assumes inv: "sched_inv b {} H N L s" and cur: "nimble_current_tcb s = Some t"
    and run: "task_state s t = NIMBLE_TASK_RUNNING" and q: "SemWaiters q \<in> H" and si: "sem_inv H L s"
    and c: "sem_count (semaphores s q) = 0" and to: "timeout \<noteq> NIMBLE_NO_WAIT"
  shows "\<exists>s' L'. nimble_semaphore_take q timeout s = Some (Blocks, s') \<and>
           task_state s' t = NIMBLE_TASK_BLOCKED \<and> EventLink t \<in> set (L' (SemWaiters q)) \<and>
           pendsv s' \<and> sched_inv b {} H N L' s' \<and> sem_inv H L' s'"
proof -
  obtain ts where ts: "L (SemWaiters q) = map EventLink ts"
    using wait_links [OF sched_inv_shape [OF inv] q] by auto
  let ?L = "block_lists t timeout (L(SemWaiters q := map EventLink (prio_insert (task_priority s) t ts)))"
  obtain s' where s': "nimble_semaphore_take q timeout s = Some (Blocks, s')" "sched_inv b {} H N ?L s'"
    and f: "s' = s\<lparr>tcbs := (tcbs s)(t := (tcbs s t)\<lparr>tcb_state := NIMBLE_TASK_BLOCKED,
                 tcb_wake_tick := if timeout = NIMBLE_WAIT_FOREVER then tcb_wake_tick (tcbs s t)
                                  else g_tick_count s + timeout\<rparr>),
            pendsv := True, heap := heap s', ready_bitmap := ready_bitmap s'\<rparr>"
    using take_blocks [OF inv cur run q ts c to] by blast
  have fs: "task_state s' t = NIMBLE_TASK_BLOCKED" "pendsv s'" "semaphores s' = semaphores s"
    by (subst f, simp)+
  have "EventLink t \<in> set (?L (SemWaiters q))" by (simp add: block_lists_def)
  moreover have "sem_inv H ?L s'"
    using si c fs(3) by (auto simp: sem_inv_def block_lists_def)
  ultimately show ?thesis
    using s' fs by blast
qed

text \<open>
  C25. \<^verbatim>\<open>nimble_semaphore_take\<close> takes a unit if there is one, fails at once with
  \<^verbatim>\<open>NIMBLE_ERR_TIMEOUT\<close> when not allowed to wait, and otherwise blocks the caller on the
  waiter list; after the switch it returns the result the waker stored, and the semaphore
  invariant (count at most the maximum, no waiters while units are left) is kept throughout.
\<close>

theorem semaphore_take_behaviour:
  assumes inv: "sched_inv b {} H N L s" and cur: "nimble_current_tcb s = Some t"
    and run: "task_state s t = NIMBLE_TASK_RUNNING" and q: "SemWaiters q \<in> H" and si: "sem_inv H L s"
  shows "(0 < sem_count (semaphores s q) \<longrightarrow>
      (\<exists>s'. nimble_semaphore_take q timeout s = Some (Returns NIMBLE_OK, s') \<and>
         sem_count (semaphores s' q) = sem_count (semaphores s q) - 1 \<and>
         sched_inv b {} H N L s' \<and> sem_inv H L s')) \<and>
    (sem_count (semaphores s q) = 0 \<longrightarrow>
      nimble_semaphore_take q NIMBLE_NO_WAIT s = Some (Returns NIMBLE_ERR_TIMEOUT, s) \<and>
      (timeout \<noteq> NIMBLE_NO_WAIT \<longrightarrow>
        (\<exists>s' L'. nimble_semaphore_take q timeout s = Some (Blocks, s') \<and>
           task_state s' t = NIMBLE_TASK_BLOCKED \<and> EventLink t \<in> set (L' (SemWaiters q)) \<and>
           pendsv s' \<and> sched_inv b {} H N L' s' \<and> sem_inv H L' s'))) \<and>
    (\<exists>s'. nimble_semaphore_take_resume q t s = (tcb_last_wait_result (tcbs s t), s') \<and>
       sched_inv b {} H N L s' \<and> sem_inv H L s')"
proof (intro conjI impI)
  assume c: "0 < sem_count (semaphores s q)"
  show "\<exists>s'. nimble_semaphore_take q timeout s = Some (Returns NIMBLE_OK, s') \<and>
         sem_count (semaphores s' q) = sem_count (semaphores s q) - 1 \<and>
         sched_inv b {} H N L s' \<and> sem_inv H L s'"
    using take_available [OF c] take_keeps_sem_inv [OF si q c] inv by simp
next
  assume "sem_count (semaphores s q) = 0"
  then show "nimble_semaphore_take q NIMBLE_NO_WAIT s = Some (Returns NIMBLE_ERR_TIMEOUT, s)"
    by (rule take_no_wait)
next
  assume c: "sem_count (semaphores s q) = 0" and to: "timeout \<noteq> NIMBLE_NO_WAIT"
  show "\<exists>s' L'. nimble_semaphore_take q timeout s = Some (Blocks, s') \<and>
           task_state s' t = NIMBLE_TASK_BLOCKED \<and> EventLink t \<in> set (L' (SemWaiters q)) \<and>
           pendsv s' \<and> sched_inv b {} H N L' s' \<and> sem_inv H L' s'"
    by (rule take_waits [OF inv cur run q si c to])
next
  have "Link t \<in> N" using tasks_inv_current [OF sched_inv_tasks [OF inv] cur] .
  then obtain s' where "nimble_semaphore_take_resume q t s = (tcb_last_wait_result (tcbs s t), s')"
    "sched_inv b {} H N L s'" and f: "s' = s\<lparr>heap := heap s'\<rparr>"
    using take_resume_inv [OF inv _ run] by blast
  moreover have "semaphores s' = semaphores s" by (subst f) simp
  then have "sem_inv H L s'" using si by (simp add: sem_inv_def)
  ultimately show "\<exists>s'. nimble_semaphore_take_resume q t s = (tcb_last_wait_result (tcbs s t), s') \<and>
       sched_inv b {} H N L s' \<and> sem_inv H L s'"
    by blast
qed

lemma running_sem_inv: "sem_inv example_heads example_lists running"
  by (auto simp: sem_inv_def boot_heads_def example_lists_def running_inv(9) boot3_inv(8))

theorem semaphore_take_behaviour_witness:
  "\<exists>s'. nimble_semaphore_take 5 0 running = Some (Returns NIMBLE_OK, s') \<and> sem_count (semaphores s' 5) = 0"
proof -
  have "SemWaiters 5 \<in> example_heads" by simp
  from semaphore_take_behaviour [OF running_inv(1-3) this running_sem_inv, of 0]
  show ?thesis by (auto simp: running_inv(9) boot3_inv(8))
qed

lemma woken_head:
  assumes inv: "sched_inv b {} H N L s" and q: "SemWaiters q \<in> H" and L: "L (SemWaiters q) = EventLink t # ws"
  shows "woken_lists s (first_waiter (SemWaiters q) L) L (SemWaiters q) = ws"
proof -
  have "distinct (EventLink t # ws)" using repr_distinct [OF sched_inv_repr [OF inv] q] L by simp
  moreover have "Link t \<notin> set (EventLink t # ws)"
    using shape_fits [OF sched_inv_shape [OF inv] q, of "Link t"] L by auto
  ultimately show ?thesis using L by (simp add: woken_lists_def wake_lists_def)
qed

text \<open>
  C26. Giving a semaphore, from a task or from an interrupt, has one contract: if a task waits,
  the first waiter gets the unit directly (it becomes ready with \<^verbatim>\<open>NIMBLE_OK\<close> and the count does
  not change, so no other task can take the unit), otherwise the count goes up by one and
  saturates at the maximum. Both calls return, keep the invariants, and the interrupt version
  reports in \<^verbatim>\<open>needs_yield\<close> whether a task was woken, without requesting the switch itself.
\<close>

theorem semaphore_give_behaviour:
  assumes inv: "sched_inv b {} H N L s" and q: "SemWaiters q \<in> H" and si: "sem_inv H L s"
  shows "\<exists>s1 s2 L'. nimble_semaphore_give q s = Some (NIMBLE_OK, s1) \<and>
     nimble_semaphore_give_from_isr q s = Some (NIMBLE_OK, L (SemWaiters q) \<noteq> [], s2) \<and>
     sched_inv b {} H N L' s1 \<and> sem_inv H L' s1 \<and> sched_inv b {} H N L' s2 \<and> sem_inv H L' s2 \<and>
     (pendsv s1 \<longleftrightarrow> pendsv s \<or> L (SemWaiters q) \<noteq> []) \<and> pendsv s2 = pendsv s \<and>
     tcbs s2 = tcbs s1 \<and> semaphores s2 = semaphores s1 \<and>
     (L (SemWaiters q) = [] \<longrightarrow> tcbs s1 = tcbs s \<and>
        sem_count (semaphores s1 q) =
          (if sem_count (semaphores s q) < sem_max_count (semaphores s q)
           then sem_count (semaphores s q) + 1 else sem_count (semaphores s q))) \<and>
     (\<forall>t ws. L (SemWaiters q) = EventLink t # ws \<longrightarrow> semaphores s1 = semaphores s \<and>
        task_state s1 t = NIMBLE_TASK_READY \<and> tcb_last_wait_result (tcbs s1 t) = NIMBLE_OK \<and>
        L' (SemWaiters q) = ws)"
proof -
  define w where "w = first_waiter (SemWaiters q) L"
  let ?L = "woken_lists s w L"
  let ?S = "if w = None then (semaphores s)(q := bump (semaphores s q)) else semaphores s"
  obtain s1 where g1: "nimble_semaphore_give q s = Some (NIMBLE_OK, s1)" "sched_inv b {} H N ?L s1"
    and f1: "s1 = s\<lparr>semaphores := ?S, tcbs := woken_tcbs w (tcbs s), pendsv := (pendsv s \<or> w \<noteq> None),
            heap := heap s1, ready_bitmap := ready_bitmap s1\<rparr>"
    using give_spec [OF inv q] unfolding w_def by blast
  have s1: "semaphores s1 = ?S" "tcbs s1 = woken_tcbs w (tcbs s)" "pendsv s1 = (pendsv s \<or> w \<noteq> None)"
    by (subst f1, simp)+
  obtain s0 where w0: "nimble_scheduler_wake_waiter (SemWaiters q) s = Some (w, s0)"
    and i0: "sched_inv b {} H N ?L s0"
    and f0: "s0 = s\<lparr>tcbs := woken_tcbs w (tcbs s), heap := heap s0, ready_bitmap := ready_bitmap s0\<rparr>"
    using wake_waiter_total [OF inv q] unfolding w_def by auto
  have s0: "semaphores s0 = semaphores s" "tcbs s0 = woken_tcbs w (tcbs s)" "pendsv s0 = pendsv s"
    by (subst f0, simp)+
  let ?s2 = "s0\<lparr>semaphores := ?S\<rparr>"
  have ww: "w \<noteq> None \<longleftrightarrow> L (SemWaiters q) \<noteq> []"
    unfolding w_def by (rule first_waiter_iff [OF inv q]) simp
  have g2: "nimble_semaphore_give_from_isr q s = Some (NIMBLE_OK, w \<noteq> None, ?s2)"
    using w0 s0(1) by (cases w; cases s0)
      (auto simp: nimble_semaphore_give_from_isr_def bump_def update_semaphore_def fun_upd_idem)
  have wl: "?L (SemWaiters r) = [] \<or> L (SemWaiters r) \<noteq> []" for r
    by (auto simp: woken_lists_def wake_lists_def split: option.splits)
  have sv: "sem_inv H ?L s'" if "semaphores s' = ?S" for s'
    unfolding sem_inv_def that
  proof (intro allI impI)
    fix r assume r: "SemWaiters r \<in> H"
    show "sem_count (?S r) \<le> sem_max_count (?S r) \<and> (?L (SemWaiters r) \<noteq> [] \<longrightarrow> sem_count (?S r) = 0)"
      using sem_invD [OF si r] wl [of r] ww by (auto simp: bump_def inc_le woken_lists_def)
  qed
  have hd: "?L (SemWaiters q) = ws" if "L (SemWaiters q) = EventLink t # ws" for t ws
    unfolding w_def by (rule woken_head [OF inv q that])
  show ?thesis
    using g1 g2 i0 sv [OF s1(1)] sv [of ?s2] s1 s0 hd ww
    by (intro exI [of _ s1] exI [of _ ?s2] exI [of _ ?L])
      (auto simp: woken_tcbs_def bump_def w_def)
qed

theorem semaphore_give_behaviour_witness:
  "\<exists>s1. nimble_semaphore_give 5 running = Some (NIMBLE_OK, s1) \<and> sem_count (semaphores s1 5) = 2"
proof -
  have "SemWaiters 5 \<in> example_heads" by simp
  from semaphore_give_behaviour [OF running_inv(1) this running_sem_inv]
  show ?thesis by (auto simp: running_inv(9) boot3_inv(8) example_lists_def)
qed

section \<open>Queue\<close>

lemma queue_items_nonempty:
  assumes "0 < queue_count c"
  shows "queue_items c \<noteq> []"
proof
  assume "queue_items c = []"
  with length_queue_items [of c] have "unat (queue_count c) = 0" by simp
  with assms show False by (simp add: word_less_nat_alt)
qed

text \<open>
  C27. The ring buffer refines the abstract bounded queue: on a well-formed ring with room,
  \<^verbatim>\<open>copy_in\<close> stays inside the buffer and appends the item to the represented sequence; on a
  non-empty one \<^verbatim>\<open>copy_out\<close> returns and removes its first item; both keep the ring well-formed,
  whatever the wrap-around of the indices.
\<close>

theorem ring_refines_fifo:
  assumes "queue_wf c"
  shows "(length item = unat (queue_item_size c) \<and> queue_count c < queue_capacity c \<longrightarrow>
      (\<exists>c'. copy_in item c = Some c' \<and> queue_wf c' \<and> queue_items c' = queue_items c @ [item] \<and>
        length (queue_buffer c') = length (queue_buffer c))) \<and>
    (0 < queue_count c \<longrightarrow>
      (\<exists>c'. copy_out c = Some (hd (queue_items c), c') \<and> queue_wf c' \<and>
        queue_items c' = tl (queue_items c)))"
proof (intro conjI impI)
  assume a: "length item = unat (queue_item_size c) \<and> queue_count c < queue_capacity c"
  then have "item_fits c item" "length (queue_items c) < unat (queue_capacity c)"
    by (simp_all add: item_fits_def word_less_nat_alt)
  from ring.put_spec [OF assms this] obtain c' where c': "copy_in item c = Some c'" "queue_wf c'"
    "queue_items c' = queue_items c @ [item]"
    by blast
  moreover have "length (queue_buffer c') = length (queue_buffer c)"
    using c'(1) a by (auto simp: copy_in_def Let_def split: if_splits)
  ultimately show "\<exists>c'. copy_in item c = Some c' \<and> queue_wf c' \<and> queue_items c' = queue_items c @ [item] \<and>
      length (queue_buffer c') = length (queue_buffer c)"
    by blast
next
  assume "0 < queue_count c"
  then have "queue_items c \<noteq> []" by (rule queue_items_nonempty)
  then have "queue_items c = hd (queue_items c) # tl (queue_items c)" by simp
  from ring.get_spec [OF assms this]
  show "\<exists>c'. copy_out c = Some (hd (queue_items c), c') \<and> queue_wf c' \<and> queue_items c' = tl (queue_items c)"
    by blast
qed

theorem ring_refines_fifo_witness:
  "\<exists>c'. copy_in [1, 2, 3, 4] (new_queue (replicate 8 0) 4 2) = Some c' \<and> queue_items c' = [[1, 2, 3, 4]]"
proof -
  have "queue_wf (new_queue (replicate 8 0) 4 2)" by (rule new_queue_wf) simp_all
  from ring_refines_fifo [OF this, of "[1, 2, 3, 4]"] show ?thesis
    by (auto simp: new_queue_def queue_items_def)
qed

text \<open>
  Round trip: up to \<^verbatim>\<open>capacity\<close> items copied into a new queue come out again,
  unchanged and in the order they were put in.
\<close>

lemma queue_round_trip:
  assumes "0 < capacity" "unat capacity * unat item_size \<le> length buffer" "length buffer < 2 ^ 32"
    and "\<And>x. x \<in> set xs \<Longrightarrow> length x = unat item_size" "length xs \<le> unat capacity"
  shows "\<exists>q1 q2. put_all copy_in xs (new_queue buffer item_size capacity) = Some q1 \<and>
     get_all copy_out (length xs) q1 = Some (xs, q2) \<and> queue_items q2 = []"
proof -
  have "\<And>x. x \<in> set xs \<Longrightarrow> item_fits (new_queue buffer item_size capacity) x"
    using assms(4) by (simp add: item_fits_def new_queue_def)
  moreover have "length xs \<le> unat (queue_capacity (new_queue buffer item_size capacity))"
    using assms(5) by (simp add: new_queue_def)
  ultimately show ?thesis using ring.fifo_round_trip [OF new_queue_wf [OF assms(1-3)], of xs] by blast
qed

text \<open>The branch of the send that waits for room.\<close>

lemma send_waits:
  assumes inv: "sched_inv b {} H N L s" and cur: "nimble_current_tcb s = Some t"
    and run: "task_state s t = NIMBLE_TASK_RUNNING" and q: "QueueSenders q \<in> H"
    and full: "\<not> queue_count (queues s q) < queue_capacity (queues s q)" and to: "timeout \<noteq> NIMBLE_NO_WAIT"
  shows "\<exists>s' L'. nimble_queue_send q item timeout s = Some (Blocks, s') \<and> sched_inv b {} H N L' s' \<and>
           EventLink t \<in> set (L' (QueueSenders q)) \<and> queues s' = queues s \<and>
           task_state s' t = NIMBLE_TASK_BLOCKED \<and> pendsv s'"
proof -
  obtain ts where ts: "L (QueueSenders q) = map EventLink ts"
    using wait_links [OF sched_inv_shape [OF inv] q] by auto
  let ?L = "block_lists t timeout (L(QueueSenders q := map EventLink (prio_insert (task_priority s) t ts)))"
  obtain s' where s': "nimble_queue_send q item timeout s = Some (Blocks, s')" "sched_inv b {} H N ?L s'"
    and f: "s' = s\<lparr>tcbs := (tcbs s)(t := (tcbs s t)\<lparr>tcb_state := NIMBLE_TASK_BLOCKED,
                 tcb_wake_tick := if timeout = NIMBLE_WAIT_FOREVER then tcb_wake_tick (tcbs s t)
                                  else g_tick_count s + timeout\<rparr>),
            pendsv := True, heap := heap s', ready_bitmap := ready_bitmap s'\<rparr>"
    using send_blocks [OF inv cur run q ts full to] by blast
  have "task_state s' t = NIMBLE_TASK_BLOCKED" "pendsv s'" "queues s' = queues s" by (subst f, simp)+
  moreover have "EventLink t \<in> set (?L (QueueSenders q))" by (simp add: block_lists_def)
  ultimately show ?thesis
    using s' by blast
qed

text \<open>
  C28. Sending: with room the item is appended and the first waiting receiver, if any, becomes
  ready; on a full queue the caller gets \<^verbatim>\<open>NIMBLE_ERR_FULL\<close> when not allowed to wait and blocks
  among the senders otherwise. \<^verbatim>\<open>nimble_queue_send_from_isr\<close> does the same with room and never
  blocks: on a full queue it fails and changes nothing.
\<close>

theorem queue_send_behaviour:
  assumes inv: "sched_inv b {} H N L s" and cur: "nimble_current_tcb s = Some t"
    and run: "task_state s t = NIMBLE_TASK_RUNNING"
    and q: "QueueReceivers q \<in> H" "QueueSenders q \<in> H" and wf: "queue_wf (queues s q)"
    and item: "length item = unat (queue_item_size (queues s q))"
  shows "(queue_count (queues s q) < queue_capacity (queues s q) \<longrightarrow>
      (\<exists>s1 s2 L'. nimble_queue_send q item timeout s = Some (Returns NIMBLE_OK, s1) \<and>
         nimble_queue_send_from_isr q item s = Some (NIMBLE_OK, L (QueueReceivers q) \<noteq> [], s2) \<and>
         sched_inv b {} H N L' s1 \<and> sched_inv b {} H N L' s2 \<and>
         queue_wf (queues s1 q) \<and> queue_items (queues s1 q) = queue_items (queues s q) @ [item] \<and>
         queues s2 = queues s1 \<and> tcbs s2 = tcbs s1 \<and> tcbs s1 = woken_tcbs (first_waiter (QueueReceivers q) L) (tcbs s))) \<and>
    (\<not> queue_count (queues s q) < queue_capacity (queues s q) \<longrightarrow>
      nimble_queue_send q item NIMBLE_NO_WAIT s = Some (Returns NIMBLE_ERR_FULL, s) \<and>
      nimble_queue_send_from_isr q item s = Some (NIMBLE_ERR_FULL, False, s) \<and>
      (timeout \<noteq> NIMBLE_NO_WAIT \<longrightarrow>
        (\<exists>s' L'. nimble_queue_send q item timeout s = Some (Blocks, s') \<and> sched_inv b {} H N L' s' \<and>
           EventLink t \<in> set (L' (QueueSenders q)) \<and> queues s' = queues s \<and>
           task_state s' t = NIMBLE_TASK_BLOCKED \<and> pendsv s')))"
proof (intro conjI impI)
  assume room: "queue_count (queues s q) < queue_capacity (queues s q)"
  let ?w = "first_waiter (QueueReceivers q) L"
  have "item_fits (queues s q) item" "length (queue_items (queues s q)) < unat (queue_capacity (queues s q))"
    using item room by (simp_all add: item_fits_def word_less_nat_alt)
  from ring.put_spec [OF wf this] obtain c where c: "copy_in item (queues s q) = Some c" "queue_wf c"
    "queue_items c = queue_items (queues s q) @ [item]"
    by blast
  obtain s1 where s1: "nimble_queue_send q item timeout s = Some (Returns NIMBLE_OK, s1)"
    "sched_inv b {} H N (woken_lists s ?w L) s1"
    and f1: "s1 = s\<lparr>queues := (queues s)(q := c), tcbs := woken_tcbs ?w (tcbs s),
            pendsv := (pendsv s \<or> ?w \<noteq> None), heap := heap s1, ready_bitmap := ready_bitmap s1\<rparr>"
    using send_room [OF inv q(1) room c(1)] by blast
  obtain s2 where s2: "nimble_queue_send_from_isr q item s = Some (NIMBLE_OK, ?w \<noteq> None, s2)"
    "sched_inv b {} H N (woken_lists s ?w L) s2"
    and f2: "s2 = s\<lparr>queues := (queues s)(q := c), tcbs := woken_tcbs ?w (tcbs s),
            heap := heap s2, ready_bitmap := ready_bitmap s2\<rparr>"
    using send_from_isr_room [OF inv q(1) room c(1)] by blast
  have q1: "queues s1 = (queues s)(q := c)" "tcbs s1 = woken_tcbs ?w (tcbs s)" by (subst f1, simp)+
  have q2: "queues s2 = (queues s)(q := c)" "tcbs s2 = woken_tcbs ?w (tcbs s)" by (subst f2, simp)+
  have "?w \<noteq> None \<longleftrightarrow> L (QueueReceivers q) \<noteq> []"
    by (rule first_waiter_iff [OF inv q(1)]) simp
  then show "\<exists>s1 s2 L'. nimble_queue_send q item timeout s = Some (Returns NIMBLE_OK, s1) \<and>
         nimble_queue_send_from_isr q item s = Some (NIMBLE_OK, L (QueueReceivers q) \<noteq> [], s2) \<and>
         sched_inv b {} H N L' s1 \<and> sched_inv b {} H N L' s2 \<and>
         queue_wf (queues s1 q) \<and> queue_items (queues s1 q) = queue_items (queues s q) @ [item] \<and>
         queues s2 = queues s1 \<and> tcbs s2 = tcbs s1 \<and> tcbs s1 = woken_tcbs ?w (tcbs s)"
    using s1 s2 q1 q2 c by (intro exI [of _ s1] exI [of _ s2] exI [of _ "woken_lists s ?w L"]) simp
next
  assume full: "\<not> queue_count (queues s q) < queue_capacity (queues s q)"
  then show "nimble_queue_send q item NIMBLE_NO_WAIT s = Some (Returns NIMBLE_ERR_FULL, s)"
    "nimble_queue_send_from_isr q item s = Some (NIMBLE_ERR_FULL, False, s)"
    by (rule send_full, rule send_from_isr_full)
  assume to: "timeout \<noteq> NIMBLE_NO_WAIT"
  show "\<exists>s' L'. nimble_queue_send q item timeout s = Some (Blocks, s') \<and> sched_inv b {} H N L' s' \<and>
           EventLink t \<in> set (L' (QueueSenders q)) \<and> queues s' = queues s \<and>
           task_state s' t = NIMBLE_TASK_BLOCKED \<and> pendsv s'"
    by (rule send_waits [OF inv cur run q(2) full to])
qed

theorem queue_send_behaviour_witness:
  "\<exists>s1. nimble_queue_send 0 [1, 2, 3, 4] 0 running = Some (Returns NIMBLE_OK, s1) \<and>
     queue_items (queues s1 0) = [[1, 2, 3, 4]]"
proof -
  have q: "QueueReceivers 0 \<in> example_heads" "QueueSenders 0 \<in> example_heads" by simp_all
  have wf: "queue_wf (queues running 0)"
    unfolding running_inv(10) boot3_inv(9) by (rule new_queue_wf) simp_all
  have "length [1, 2, 3, 4 :: u8] = unat (queue_item_size (queues running 0))"
    by (simp add: running_inv(10) boot3_inv(9) new_queue_def)
  from queue_send_behaviour [OF running_inv(1-3) q wf this, of 0] show ?thesis
    by (auto simp: running_inv(10) boot3_inv(9) new_queue_def queue_items_def)
qed

text \<open>
  C29. Receiving: from a non-empty queue the oldest item is returned and removed, and the first
  waiting sender, if any, becomes ready; on an empty queue the caller gets
  \<^verbatim>\<open>NIMBLE_ERR_EMPTY\<close> when not allowed to wait and blocks among the receivers otherwise.
\<close>

theorem queue_receive_behaviour:
  assumes inv: "sched_inv b {} H N L s" and cur: "nimble_current_tcb s = Some t"
    and run: "task_state s t = NIMBLE_TASK_RUNNING"
    and q: "QueueReceivers q \<in> H" "QueueSenders q \<in> H" and wf: "queue_wf (queues s q)"
  shows "(\<forall>x xs. queue_items (queues s q) = x # xs \<longrightarrow>
      (\<exists>s' L'. nimble_queue_receive q timeout s = Some (Returns (NIMBLE_OK, Some x), s') \<and>
         sched_inv b {} H N L' s' \<and> queue_wf (queues s' q) \<and> queue_items (queues s' q) = xs \<and>
         tcbs s' = woken_tcbs (first_waiter (QueueSenders q) L) (tcbs s))) \<and>
    (queue_items (queues s q) = [] \<longrightarrow>
      nimble_queue_receive q NIMBLE_NO_WAIT s = Some (Returns (NIMBLE_ERR_EMPTY, None), s) \<and>
      (timeout \<noteq> NIMBLE_NO_WAIT \<longrightarrow>
        (\<exists>s' L'. nimble_queue_receive q timeout s = Some (Blocks, s') \<and> sched_inv b {} H N L' s' \<and>
           EventLink t \<in> set (L' (QueueReceivers q)) \<and> queues s' = queues s \<and>
           task_state s' t = NIMBLE_TASK_BLOCKED \<and> pendsv s')))"
proof (intro conjI allI impI)
  fix x xs assume x: "queue_items (queues s q) = x # xs"
  then have ne: "0 < queue_count (queues s q)"
    using length_queue_items [of "queues s q"] by (auto simp: word_less_nat_alt)
  let ?w = "first_waiter (QueueSenders q) L"
  obtain c where c: "copy_out (queues s q) = Some (x, c)" "queue_wf c" "queue_items c = xs"
    using ring.get_spec [OF wf x] by blast
  obtain s' where s': "nimble_queue_receive q timeout s = Some (Returns (NIMBLE_OK, Some x), s')"
    "sched_inv b {} H N (woken_lists s ?w L) s'"
    and f: "s' = s\<lparr>queues := (queues s)(q := c), tcbs := woken_tcbs ?w (tcbs s),
            pendsv := (pendsv s \<or> ?w \<noteq> None), heap := heap s', ready_bitmap := ready_bitmap s'\<rparr>"
    using receive_item [OF inv q(2) ne c(1)] by blast
  have "queues s' q = c" "tcbs s' = woken_tcbs ?w (tcbs s)" by (subst f, simp)+
  then show "\<exists>s' L'. nimble_queue_receive q timeout s = Some (Returns (NIMBLE_OK, Some x), s') \<and>
         sched_inv b {} H N L' s' \<and> queue_wf (queues s' q) \<and> queue_items (queues s' q) = xs \<and>
         tcbs s' = woken_tcbs ?w (tcbs s)"
    using s' c by blast
next
  assume "queue_items (queues s q) = []"
  then have e: "queue_count (queues s q) = 0" using length_queue_items [of "queues s q"] by (simp add: unat_eq_zero)
  then show "nimble_queue_receive q NIMBLE_NO_WAIT s = Some (Returns (NIMBLE_ERR_EMPTY, None), s)"
    by (rule receive_empty)
  assume to: "timeout \<noteq> NIMBLE_NO_WAIT"
  obtain ts where ts: "L (QueueReceivers q) = map EventLink ts"
    using wait_links [OF sched_inv_shape [OF inv] q(1)] by auto
  let ?L = "block_lists t timeout (L(QueueReceivers q := map EventLink (prio_insert (task_priority s) t ts)))"
  obtain s' where s': "nimble_queue_receive q timeout s = Some (Blocks, s')" "sched_inv b {} H N ?L s'"
    and f: "s' = s\<lparr>tcbs := (tcbs s)(t := (tcbs s t)\<lparr>tcb_state := NIMBLE_TASK_BLOCKED,
                 tcb_wake_tick := if timeout = NIMBLE_WAIT_FOREVER then tcb_wake_tick (tcbs s t)
                                  else g_tick_count s + timeout\<rparr>),
            pendsv := True, heap := heap s', ready_bitmap := ready_bitmap s'\<rparr>"
    using receive_blocks [OF inv cur run q(1) ts e to] by blast
  have "task_state s' t = NIMBLE_TASK_BLOCKED" "pendsv s'" "queues s' = queues s" by (subst f, simp)+
  moreover have "EventLink t \<in> set (?L (QueueReceivers q))" by (simp add: block_lists_def)
  ultimately show "\<exists>s' L'. nimble_queue_receive q timeout s = Some (Blocks, s') \<and> sched_inv b {} H N L' s' \<and>
           EventLink t \<in> set (L' (QueueReceivers q)) \<and> queues s' = queues s \<and>
           task_state s' t = NIMBLE_TASK_BLOCKED \<and> pendsv s'"
    using s' by blast
qed

theorem queue_receive_behaviour_witness:
  "nimble_queue_receive 0 NIMBLE_NO_WAIT running = Some (Returns (NIMBLE_ERR_EMPTY, None), running)"
proof -
  have q: "QueueReceivers 0 \<in> example_heads" "QueueSenders 0 \<in> example_heads" by simp_all
  have wf: "queue_wf (queues running 0)"
    unfolding running_inv(10) boot3_inv(9) by (rule new_queue_wf) simp_all
  from queue_receive_behaviour [OF running_inv(1-3) q wf] show ?thesis
    by (simp add: running_inv(10) boot3_inv(9) new_queue_def queue_items_def)
qed

end
