(* ===== verification/Timer_Properties.thy ===== *)
theory Timer_Properties
  imports Sync_Properties
begin

text \<open>
  The properties of the software timers: the ordered list of active timers, the time the timer
  task sleeps, what one expiry does, and when the expiry loop ends.
\<close>

section \<open>A system with a timer\<close>

definition timed :: kernel where
  "timed = nimble_timer_init 7 (Some ''blink'') 10 True 0x08003001 4
             (snd (the (nimble_timer_service_start 4 0x20003000 64 running)))"

abbreviation timed_heads :: "node set" where
  "timed_heads \<equiv> insert (SemWaiters timer_wake_sem) (insert ActiveTimers example_heads)"

abbreviation timed_nodes :: "node set" where
  "timed_nodes \<equiv> insert (TimerLink 7) (task_nodes timer_task_tcb example_nodes)"

definition timed_lists :: "node \<Rightarrow> node list" where
  "timed_lists = enlist (ReadyList 4) (Link timer_task_tcb)
     (example_lists(ActiveTimers := [], SemWaiters timer_wake_sem := []))"

lemma timed_inv:
  "sched_inv True {} timed_heads timed_nodes timed_lists timed"
  "timers_inv timed_heads timed_nodes timed_lists [] timed"
  "timers timed 7 = \<lparr>timer_period_ticks = 10, timer_expiry_tick = 0, timer_is_periodic = True,
      timer_is_active = False, timer_callback = 0x08003001, timer_arg = 4, timer_name = copy_name 16 (Some ''blink'')\<rparr>"
  "semaphores timed = (semaphores running)(timer_wake_sem := \<lparr>sem_count = 0, sem_max_count = 1\<rparr>)"
  "queues timed = queues running" "mutexes timed = mutexes running" "nimble_current_tcb timed = Some 3"
  "x \<noteq> timer_task_tcb \<Longrightarrow> tcbs timed x = tcbs running x" "pendsv timed = False"
proof -
  have new: "ActiveTimers \<notin> example_heads" "SemWaiters timer_wake_sem \<notin> example_heads"
    "Link timer_task_tcb \<notin> example_nodes" "\<And>t. TimerLink t \<notin> example_nodes"
    by (auto simp: boot_heads_def timer_wake_sem_def timer_task_tcb_def idle_tcb_def)
  have ok: "create_ok (sym_timer_task_fn (syms running)) 0x20003000 64 4"
    by (simp add: create_ok_def kdefs running_inv(11) zero_kernel_def)
  let ?s = "snd (the (nimble_timer_service_start 4 0x20003000 64 running))"
  have s: "sched_inv True {} timed_heads (task_nodes timer_task_tcb example_nodes) timed_lists ?s"
    "timers_inv timed_heads (task_nodes timer_task_tcb example_nodes) timed_lists [] ?s"
    and f: "semaphores ?s = (semaphores running)(timer_wake_sem := \<lparr>sem_count = 0, sem_max_count = 1\<rparr>)"
      "queues ?s = queues running" "mutexes ?s = mutexes running" "nimble_current_tcb ?s = Some 3"
      "\<And>x. x \<noteq> timer_task_tcb \<Longrightarrow> tcbs ?s x = tcbs running x" "pendsv ?s = False"
    using running_inv(2,4) timer_service_start_inv [OF running_inv(1) new ok] by (auto simp: timed_lists_def)
  have nt: "TimerLink 7 \<notin> task_nodes timer_task_tcb example_nodes" by simp
  from timer_init_inv [OF s nt] show
    "sched_inv True {} timed_heads timed_nodes timed_lists timed"
    "timers_inv timed_heads timed_nodes timed_lists [] timed"
    "timers timed 7 = \<lparr>timer_period_ticks = 10, timer_expiry_tick = 0, timer_is_periodic = True,
      timer_is_active = False, timer_callback = 0x08003001, timer_arg = 4, timer_name = copy_name 16 (Some ''blink'')\<rparr>"
    by (simp_all add: timed_def)
  show "semaphores timed = (semaphores running)(timer_wake_sem := \<lparr>sem_count = 0, sem_max_count = 1\<rparr>)"
    "queues timed = queues running" "mutexes timed = mutexes running" "nimble_current_tcb timed = Some 3"
    "x \<noteq> timer_task_tcb \<Longrightarrow> tcbs timed x = tcbs running x" "pendsv timed = False"
    using f by (simp_all add: timed_def nimble_timer_init_def kdefs Let_def)
qed

section \<open>Starting, resetting and stopping\<close>

lemma timer_start_is_reset:
  "nimble_timer_start t s = nimble_timer_reset t (timer_period_ticks (timers s t)) s"
  by (simp add: timer_reset_eq)

lemma near_add:
  assumes "unat p < 2 ^ 30"
  shows "near now (now + p)"
proof -
  have "time_left now (now + p) = int (unat p)"
    using time_left_add [OF near_now(1) assms, of now] by simp
  moreover have "int (unat p) < 2 ^ 30" using assms by (metis of_nat_less_iff of_nat_numeral of_nat_power)
  ultimately show ?thesis by (simp add: near_def)
qed

lemma start_list_sorted:
  fixes t :: timer_ptr
  assumes p: "unat p < 2 ^ 30"
    and sorted: "expiry_sorted (g_tick_count s) (\<lambda>x. timer_expiry_tick (timers s x)) ts"
    and near: "\<forall>x\<in>set ts. near (g_tick_count s) (timer_expiry_tick (timers s x))"
  defines "T \<equiv> (timers s)(t := (timers s t)\<lparr>timer_period_ticks := p, timer_expiry_tick := g_tick_count s + p,
                                             timer_is_active := True\<rparr>)"
  shows "expiry_sorted (g_tick_count s) (\<lambda>x. timer_expiry_tick (T x))
           (start_list t ts (s\<lparr>timers := (timers s)(t := (timers s t)\<lparr>timer_period_ticks := p\<rparr>)\<rparr>))"
proof -
  let ?now = "g_tick_count s" and ?ex = "\<lambda>x. timer_expiry_tick (T x)"
  have "expiry_sorted ?now ?ex (removeAll t ts)"
    using expiry_sorted_removeAll [OF sorted, of t]
    by (subst expiry_sorted_cong [where ex' = "\<lambda>x. timer_expiry_tick (timers s x)"]) (auto simp: T_def)
  moreover have "near ?now (?ex t)"
    using near_add [OF p] by (simp add: T_def)
  moreover have "near ?now (?ex x)" if "x \<in> set (removeAll t ts)" for x
    using that near by (simp add: T_def)
  ultimately have "expiry_sorted ?now ?ex (expiry_insert ?ex t (removeAll t ts))"
    by (rule expiry_sorted_insert)
  then show ?thesis by (simp add: start_list_def T_def started_def)
qed

lemma timer_reset_inv:
  fixes p :: nimble_tick_t
  assumes inv: "sched_inv b {} H N L s" and ti: "timers_inv H N L ts s" and t: "TimerLink t \<in> N"
    and sem: "SemWaiters timer_wake_sem \<in> H"
  defines "c \<equiv> (timers s t)\<lparr>timer_period_ticks := p, timer_expiry_tick := g_tick_count s + p, timer_is_active := True\<rparr>"
    and "ts' \<equiv> start_list t ts (s\<lparr>timers := (timers s)(t := (timers s t)\<lparr>timer_period_ticks := p\<rparr>)\<rparr>)"
  shows "\<exists>s' L'. nimble_timer_reset t p s = Some (NIMBLE_OK, s') \<and> sched_inv b {} H N L' s' \<and>
     timers_inv H N L' ts' s' \<and> timers s' = (timers s)(t := c) \<and> g_tick_count s' = g_tick_count s \<and>
     (\<forall>w ws. hd ts' = t \<and> L (SemWaiters timer_wake_sem) = EventLink w # ws \<longrightarrow>
        task_state s' w = NIMBLE_TASK_READY \<and> pendsv s')"
proof -
  let ?s = "s\<lparr>timers := (timers s)(t := (timers s t)\<lparr>timer_period_ticks := p\<rparr>)\<rparr>"
  have inv': "sched_inv b {} H N L ?s" using inv by simp
  have ti': "timers_inv H N L ts ?s" using ti by (auto simp: timers_inv_def)
  let ?w = "first_waiter (SemWaiters timer_wake_sem) L"
  have tm: "(timers ?s)(t := started t ?s) = (timers s)(t := c)" by (simp add: started_def c_def)
  obtain s' L' where s': "nimble_timer_start t ?s = Some (NIMBLE_OK, s')" "sched_inv b {} H N L' s'"
    "timers_inv H N L' ts' s'" "timers s' = (timers ?s)(t := started t ?s)" "g_tick_count s' = g_tick_count ?s"
    and wk: "hd ts' = t \<longrightarrow> ?w \<noteq> None \<longrightarrow> pendsv s' \<and> task_state s' (the ?w) = NIMBLE_TASK_READY"
    using timer_start_inv [OF inv' ti' t sem] unfolding ts'_def by blast
  have "task_state s' w = NIMBLE_TASK_READY \<and> pendsv s'"
    if "hd ts' = t \<and> L (SemWaiters timer_wake_sem) = EventLink w # ws" for w ws
    using wk that by (simp add: first_waiter_def)
  moreover have "g_tick_count s' = g_tick_count s" using s'(5) by simp
  ultimately show ?thesis using s'(1-4) unfolding timer_reset_eq tm by blast
qed

text \<open>
  C30. \<^verbatim>\<open>nimble_timer_reset\<close> with period \<open>p\<close> (\<^verbatim>\<open>nimble_timer_start\<close> is the reset with the period
  the timer has) makes the timer active with its expiry \<open>p\<close> ticks from now, for every
  \<open>p\<close> and whether it was active before or not, puts it on the list once and leaves the other timers alone; when it
  comes to the head of the list, the timer task that waits on its semaphore is made ready. With a
  period below \<open>2^30\<close> and all active expiries within \<open>2^30\<close> ticks of now, a list that is
  ordered by the time that is left stays ordered. (Beyond \<open>2^31\<close> the signed comparison of the
  code does not order.)
\<close>

theorem timer_start_behaviour:
  assumes inv: "sched_inv b {} H N L s" and ti: "timers_inv H N L ts s" and t: "TimerLink t \<in> N"
    and sem: "SemWaiters timer_wake_sem \<in> H"
    and r: "r = nimble_timer_reset t p s \<or> (r = nimble_timer_start t s \<and> p = timer_period_ticks (timers s t))"
  shows "\<exists>s' L' ts'. r = Some (NIMBLE_OK, s') \<and> sched_inv b {} H N L' s' \<and> timers_inv H N L' ts' s' \<and>
     set ts' = insert t (set ts) \<and> distinct ts' \<and>
     timers s' t = (timers s t)\<lparr>timer_period_ticks := p, timer_expiry_tick := g_tick_count s + p,
                                 timer_is_active := True\<rparr> \<and>
     (\<forall>x. x \<noteq> t \<longrightarrow> timers s' x = timers s x) \<and> g_tick_count s' = g_tick_count s \<and>
     (unat p < 2 ^ 30 \<and> (\<forall>x\<in>set ts. near (g_tick_count s) (timer_expiry_tick (timers s x))) \<and>
        expiry_sorted (g_tick_count s) (\<lambda>x. timer_expiry_tick (timers s x)) ts \<longrightarrow>
        expiry_sorted (g_tick_count s) (\<lambda>x. timer_expiry_tick (timers s' x)) ts') \<and>
     (\<forall>w ws. hd ts' = t \<and> L (SemWaiters timer_wake_sem) = EventLink w # ws \<longrightarrow>
        task_state s' w = NIMBLE_TASK_READY \<and> pendsv s')"
proof -
  let ?ts = "start_list t ts (s\<lparr>timers := (timers s)(t := (timers s t)\<lparr>timer_period_ticks := p\<rparr>)\<rparr>)"
  obtain s' L' where s': "nimble_timer_reset t p s = Some (NIMBLE_OK, s')" "sched_inv b {} H N L' s'"
    "timers_inv H N L' ?ts s'" "g_tick_count s' = g_tick_count s"
    and tm: "timers s' = (timers s)(t := (timers s t)\<lparr>timer_period_ticks := p,
        timer_expiry_tick := g_tick_count s + p, timer_is_active := True\<rparr>)"
    and wk: "\<forall>w ws. hd ?ts = t \<and> L (SemWaiters timer_wake_sem) = EventLink w # ws \<longrightarrow>
        task_state s' w = NIMBLE_TASK_READY \<and> pendsv s'"
    using timer_reset_inv [OF inv ti t sem] by blast
  have r': "r = nimble_timer_reset t p s" using r timer_start_is_reset [of t s] by auto
  have so: "unat p < 2 ^ 30 \<and> (\<forall>x\<in>set ts. near (g_tick_count s) (timer_expiry_tick (timers s x))) \<and>
      expiry_sorted (g_tick_count s) (\<lambda>x. timer_expiry_tick (timers s x)) ts \<longrightarrow>
      expiry_sorted (g_tick_count s) (\<lambda>x. timer_expiry_tick (timers s' x)) ?ts"
    unfolding tm using start_list_sorted by blast
  have "timers s' t = (timers s t)\<lparr>timer_period_ticks := p, timer_expiry_tick := g_tick_count s + p,
      timer_is_active := True\<rparr>" "\<forall>x. x \<noteq> t \<longrightarrow> timers s' x = timers s x" by (simp_all add: tm)
  then show ?thesis
    unfolding r' using s' wk so timers_inv_distinct [OF s'(2,3)] set_start_list by blast
qed

theorem timer_start_behaviour_witness:
  "\<exists>s' L'. nimble_timer_start 7 timed = Some (NIMBLE_OK, s') \<and> timers_inv timed_heads timed_nodes L' [7] s'"
proof -
  have t: "TimerLink 7 \<in> timed_nodes" "SemWaiters timer_wake_sem \<in> timed_heads" by simp_all
  obtain s' L' ts' where "nimble_timer_start 7 timed = Some (NIMBLE_OK, s')"
      and i: "sched_inv True {} timed_heads timed_nodes L' s'"
      and ts: "timers_inv timed_heads timed_nodes L' ts' s'" "set ts' = insert 7 (set [])" "distinct ts'"
    using timer_start_behaviour [OF timed_inv(1,2) t, of "nimble_timer_start 7 timed" 10]
    by (auto simp: timed_inv(3))
  moreover have "ts' = [7]"
    using ts(2,3) by (cases ts'; cases "tl ts'") auto
  ultimately show ?thesis by auto
qed

text \<open>
  \<^verbatim>\<open>nimble_timer_stop\<close> takes an active timer off the list and marks it inactive, leaves
  every other timer and the order of the list alone, and does nothing to an inactive timer.
\<close>

lemma timer_stop_behaviour:
  assumes inv: "sched_inv b {} H N L s" and ti: "timers_inv H N L ts s" and t: "TimerLink t \<in> N"
    and sorted: "expiry_sorted (g_tick_count s) (\<lambda>x. timer_expiry_tick (timers s x)) ts"
  shows "\<exists>s' L'. nimble_timer_stop t s = (NIMBLE_OK, s') \<and> sched_inv b {} H N L' s' \<and>
     timers_inv H N L' (removeAll t ts) s' \<and>
     timers s' = (timers s)(t := (timers s t)\<lparr>timer_is_active := False\<rparr>) \<and>
     expiry_sorted (g_tick_count s) (\<lambda>x. timer_expiry_tick (timers s' x)) (removeAll t ts) \<and>
     (\<not> timer_is_active (timers s t) \<longrightarrow> s' = s)"
proof -
  obtain s' where s': "nimble_timer_stop t s = (NIMBLE_OK, s')"
    "sched_inv b {} H N (L(ActiveTimers := map TimerLink (removeAll t ts))) s'"
    "timers_inv H N (L(ActiveTimers := map TimerLink (removeAll t ts))) (removeAll t ts) s'"
    and f: "s' = s\<lparr>timers := (timers s)(t := (timers s t)\<lparr>timer_is_active := False\<rparr>), heap := heap s'\<rparr>"
    using timer_stop_inv [OF inv ti t] by blast
  have tm: "timers s' = (timers s)(t := (timers s t)\<lparr>timer_is_active := False\<rparr>)" by (subst f) simp
  have "expiry_sorted (g_tick_count s) (\<lambda>x. timer_expiry_tick (timers s' x)) (removeAll t ts)"
    using expiry_sorted_removeAll [OF sorted, of t]
    by (subst expiry_sorted_cong [where ex' = "\<lambda>x. timer_expiry_tick (timers s x)"]) (auto simp: tm)
  moreover have "\<not> timer_is_active (timers s t) \<longrightarrow> s' = s"
    using s'(1) by (cases s) (auto simp: nimble_timer_stop_def kdefs)
  ultimately show ?thesis using s' tm by blast
qed

section \<open>The timer task\<close>

lemma unat_word_of_int_pos: "0 < d \<Longrightarrow> d < 2 ^ 31 \<Longrightarrow> int (unat (word_of_int d :: u32)) = d"
  by (simp add: uint_word_of_int take_bit_int_eq_self)

text \<open>
  Before it waits, the timer task computes how long it may sleep: for ever with no active
  timer, not at all when the earliest one is due, and otherwise exactly the ticks that are left
  to the earliest, so no active timer expires during the wait.
\<close>

lemma timer_task_sleep:
  assumes inv: "sched_inv b {} H N L s" and ti: "timers_inv H N L ts s"
    and sorted: "expiry_sorted (g_tick_count s) (\<lambda>x. timer_expiry_tick (timers s x)) ts"
  shows "\<exists>n. timer_wait_ticks s = Some (n, s) \<and> timer_task_wait s = nimble_semaphore_take timer_wake_sem n s \<and>
     (ts = [] \<longrightarrow> n = NIMBLE_WAIT_FOREVER) \<and>
     (\<forall>x\<in>set ts. int (unat n) \<le> max 0 (time_left (g_tick_count s) (timer_expiry_tick (timers s x)))) \<and>
     (ts \<noteq> [] \<longrightarrow> (\<exists>x\<in>set ts. int (unat n) = max 0 (time_left (g_tick_count s) (timer_expiry_tick (timers s x)))))"
proof (cases ts)
  case Nil
  then show ?thesis using timer_wait_ticks_eq [OF inv ti] by (simp add: timer_task_wait_def)
next
  case (Cons t rest)
  let ?d = "\<lambda>x. time_left (g_tick_count s) (timer_expiry_tick (timers s x))"
  let ?n = "if ?d t > 0 then word_of_int (?d t) else NIMBLE_NO_WAIT"
  have n: "timer_wait_ticks s = Some (?n, s)" using timer_wait_ticks_eq [OF inv ti] Cons by (simp add: Let_def)
  have "?d t < 2 ^ 31" using sint_lt [of "timer_expiry_tick (timers s t) - g_tick_count s"] by (simp add: time_left_def)
  then have k: "int (unat ?n) = max 0 (?d t)"
    using unat_word_of_int_pos [of "?d t"] by (cases "?d t > 0") (simp_all add: NIMBLE_NO_WAIT_def)
  have "?d t \<le> ?d x" if "x \<in> set ts" for x
    using that sorted Cons by (auto simp: expiry_sorted_Cons)
  then have le: "\<forall>x\<in>set ts. int (unat ?n) \<le> max 0 (?d x)" unfolding k
    by (intro ballI max.mono) simp_all
  have ex: "\<exists>x\<in>set ts. int (unat ?n) = max 0 (?d x)" unfolding k using Cons by auto
  show ?thesis
    by (rule exI [of _ ?n], intro conjI impI)
      (use Cons n le ex in \<open>simp_all only: timer_task_wait_def Option.bind.bind_lunit prod.case list.distinct\<close>)
qed

text \<open>
  C31. One expiry: when the timer at the head of the list is due, its callback and argument are
  handed out; in a list ordered by the time that is left it is the earliest. A
  one-shot timer leaves the list and becomes inactive, a periodic timer stays active with its
  expiry one period after the one it missed or, when that already lies in the past, one period
  after now, so the expiries of a timer served in time do not drift. For a period between 1 and
  \<open>2^30\<close> and an expiry within \<open>2^30\<close> ticks of now (\<open>sane_timer\<close>) the next expiry is not
  in the past and at most one period away. When the head is not due nothing changes.
\<close>

theorem timer_expiry_step:
  assumes inv: "sched_inv b {} H N L s" and ti: "timers_inv H N L ts s"
  shows "(ts = [] \<or> 0 < time_left (g_tick_count s) (timer_expiry_tick (timers s (hd ts))) \<longrightarrow>
      timer_expire_one s = Some (None, s)) \<and>
    (\<forall>t rest. ts = t # rest \<and> time_left (g_tick_count s) (timer_expiry_tick (timers s t)) \<le> 0 \<longrightarrow>
      (expiry_sorted (g_tick_count s) (\<lambda>x. timer_expiry_tick (timers s x)) ts \<longrightarrow>
        (\<forall>x\<in>set ts. time_left (g_tick_count s) (timer_expiry_tick (timers s t)) \<le>
                    time_left (g_tick_count s) (timer_expiry_tick (timers s x)))) \<and>
      (\<exists>s' L' ts'. timer_expire_one s = Some (Some (timer_callback (timers s t), timer_arg (timers s t)), s') \<and>
        sched_inv b {} H N L' s' \<and> timers_inv H N L' ts' s' \<and> (\<forall>x. x \<noteq> t \<longrightarrow> timers s' x = timers s x) \<and>
        set ts' = (if timer_is_periodic (timers s t) then set ts else set rest) \<and>
        timer_is_active (timers s' t) = timer_is_periodic (timers s t) \<and>
        (timer_is_periodic (timers s t) \<longrightarrow>
          timer_expiry_tick (timers s' t) \<in> {timer_expiry_tick (timers s t) + timer_period_ticks (timers s t),
             g_tick_count s + timer_period_ticks (timers s t)} \<and>
          (0 \<le> time_left (g_tick_count s) (timer_expiry_tick (timers s t) + timer_period_ticks (timers s t)) \<longrightarrow>
             timer_expiry_tick (timers s' t) = timer_expiry_tick (timers s t) + timer_period_ticks (timers s t)) \<and>
          (sane_timer (g_tick_count s) (timers s t) \<longrightarrow>
             0 \<le> time_left (g_tick_count s) (timer_expiry_tick (timers s' t)) \<and>
             time_left (g_tick_count s) (timer_expiry_tick (timers s' t)) \<le> int (unat (timer_period_ticks (timers s t)))))))"
proof (intro conjI allI impI)
  assume "ts = [] \<or> 0 < time_left (g_tick_count s) (timer_expiry_tick (timers s (hd ts)))"
  then show "timer_expire_one s = Some (None, s)" by (rule expire_one_idle [OF inv ti])
next
  fix t rest
  let ?now = "g_tick_count s" and ?c = "timers s t" and ?p = "timer_period_ticks (timers s t)"
  assume a: "ts = t # rest \<and> time_left ?now (timer_expiry_tick ?c) \<le> 0"
  then have ti': "timers_inv H N L (t # rest) s" and due: "time_left ?now (timer_expiry_tick ?c) \<le> 0"
    using ti by simp_all
  show "\<forall>x\<in>set ts. time_left ?now (timer_expiry_tick ?c) \<le> time_left ?now (timer_expiry_tick (timers s x))"
    if "expiry_sorted ?now (\<lambda>x. timer_expiry_tick (timers s x)) ts"
    using that a by (auto simp: expiry_sorted_Cons)
  let ?L = "L(ActiveTimers := map TimerLink (fire_list t rest s))"
  obtain s' where s': "timer_expire_one s = Some (Some (timer_callback ?c, timer_arg ?c), s')"
    "sched_inv b {} H N ?L s'" "timers_inv H N ?L (fire_list t rest s) s'"
    and f: "s' = s\<lparr>timers := (timers s)(t := fire ?now ?c), heap := heap s'\<rparr>"
    using expire_one_fires [OF inv ti' due] by blast
  have tm: "timers s' = (timers s)(t := fire ?now ?c)" by (subst f) simp
  have act: "timer_is_active ?c" using timers_invD(3) [OF ti' timers_inv_member [OF inv ti']] by simp
  have per: "timer_expiry_tick (timers s' t) = next_expiry ?now ?c" if "timer_is_periodic ?c"
    using that by (simp add: tm fire_def)
  have bounds: "0 \<le> time_left ?now (next_expiry ?now ?c)" "time_left ?now (next_expiry ?now ?c) \<le> int (unat ?p)"
    if "timer_is_periodic ?c" "sane_timer ?now ?c"
    using next_expiry_spec(1,2) [OF that(2,1) due] by simp_all
  have cases: "next_expiry ?now ?c \<in> {timer_expiry_tick ?c + ?p, ?now + ?p}"
    "0 \<le> time_left ?now (timer_expiry_tick ?c + ?p) \<longrightarrow> next_expiry ?now ?c = timer_expiry_tick ?c + ?p"
    by (simp_all add: next_expiry_def Let_def)
  show "\<exists>s' L' ts'. timer_expire_one s = Some (Some (timer_callback ?c, timer_arg ?c), s') \<and>
        sched_inv b {} H N L' s' \<and> timers_inv H N L' ts' s' \<and> (\<forall>x. x \<noteq> t \<longrightarrow> timers s' x = timers s x) \<and>
        set ts' = (if timer_is_periodic ?c then set ts else set rest) \<and>
        timer_is_active (timers s' t) = timer_is_periodic ?c \<and>
        (timer_is_periodic ?c \<longrightarrow>
          timer_expiry_tick (timers s' t) \<in> {timer_expiry_tick ?c + ?p, ?now + ?p} \<and>
          (0 \<le> time_left ?now (timer_expiry_tick ?c + ?p) \<longrightarrow>
             timer_expiry_tick (timers s' t) = timer_expiry_tick ?c + ?p) \<and>
          (sane_timer ?now ?c \<longrightarrow> 0 \<le> time_left ?now (timer_expiry_tick (timers s' t)) \<and>
             time_left ?now (timer_expiry_tick (timers s' t)) \<le> int (unat ?p)))"
  proof (intro exI conjI impI)
    show "timer_is_active (timers s' t) = timer_is_periodic ?c" using act by (simp add: tm fire_def)
    show "set (fire_list t rest s) = (if timer_is_periodic ?c then set ts else set rest)"
      using a by (simp add: fire_list_def)
    show "\<forall>x. x \<noteq> t \<longrightarrow> timers s' x = timers s x" by (simp add: tm)
  qed (fact s' | simp only: per bounds, (use cases in blast)?)+
qed

text \<open>The example with the timer started with period \<open>p\<close>, \<open>n\<close> ticks later.\<close>

definition ringing :: "nimble_tick_t \<Rightarrow> nimble_tick_t \<Rightarrow> kernel" where
  "ringing p n = (let s = snd (the (nimble_timer_reset 7 p timed)) in s\<lparr>g_tick_count := g_tick_count s + n\<rparr>)"

lemma ringing_inv:
  assumes p: "unat p < 2 ^ 30"
  shows "\<exists>L. sched_inv True {} timed_heads timed_nodes L (ringing p n) \<and>
           timers_inv timed_heads timed_nodes L [7] (ringing p n)"
    and "timer_is_periodic (timers (ringing p n) 7)" "timer_period_ticks (timers (ringing p n) 7) = p"
    and "timer_expiry_tick (timers (ringing p n) 7) - g_tick_count (ringing p n) = p - n"
    and "timer_callback (timers (ringing p n) 7) = 0x08003001" "timer_arg (timers (ringing p n) 7) = 4"
proof -
  let ?s = "timed\<lparr>timers := (timers timed)(7 := (timers timed 7)\<lparr>timer_period_ticks := p\<rparr>)\<rparr>"
  have t: "TimerLink 7 \<in> timed_nodes" "SemWaiters timer_wake_sem \<in> timed_heads" by simp_all
  have i: "sched_inv True {} timed_heads timed_nodes timed_lists ?s"
    "timers_inv timed_heads timed_nodes timed_lists [] ?s"
    using timed_inv(1,2) by (auto simp: timers_inv_def)
  have "start_list 7 [] ?s = [7]" by (simp add: start_list_def expiry_insert_simps)
  then obtain s' L where s': "nimble_timer_reset 7 p timed = Some (NIMBLE_OK, s')"
    "sched_inv True {} timed_heads timed_nodes L s'" "timers_inv timed_heads timed_nodes L [7] s'"
    "timers s' = (timers ?s)(7 := started 7 ?s)" "g_tick_count s' = g_tick_count timed"
    using timer_start_inv [OF i t] by (auto simp: timer_reset_eq)
  then show "\<exists>L. sched_inv True {} timed_heads timed_nodes L (ringing p n) \<and>
           timers_inv timed_heads timed_nodes L [7] (ringing p n)"
    by (intro exI [of _ L]) (simp add: ringing_def timers_inv_def)
  show "timer_is_periodic (timers (ringing p n) 7)" "timer_period_ticks (timers (ringing p n) 7) = p"
    "timer_callback (timers (ringing p n) 7) = 0x08003001" "timer_arg (timers (ringing p n) 7) = 4"
    "timer_expiry_tick (timers (ringing p n) 7) - g_tick_count (ringing p n) = p - n"
    using s' by (simp_all add: ringing_def started_def timed_inv(3))
qed

lemma ringing_sane:
  assumes "0 < p" "unat p < 2 ^ 30" "\<bar>sint (p - n)\<bar> < 2 ^ 30"
  shows "sane_timer (g_tick_count (ringing p n)) (timers (ringing p n) 7)"
  using assms ringing_inv(2-4) [OF assms(2)] by (simp add: sane_timer_def near_def time_left_def)

theorem timer_expiry_step_witness:
  "\<exists>s'. timer_expire_one (ringing 10 12) = Some (Some (0x08003001, 4), s') \<and>
     0 \<le> time_left (g_tick_count (ringing 10 12)) (timer_expiry_tick (timers s' 7))"
proof -
  have p: "unat (10 :: u32) < 2 ^ 30" by simp
  obtain L where i: "sched_inv True {} timed_heads timed_nodes L (ringing 10 12)"
    "timers_inv timed_heads timed_nodes L [7] (ringing 10 12)"
    using ringing_inv(1) [OF p] by blast
  have sane: "sane_timer (g_tick_count (ringing 10 12)) (timers (ringing 10 12) 7)" by (rule ringing_sane) simp_all
  note step = timer_expiry_step [OF i, THEN conjunct2, rule_format, of 7 "[]"]
  have "time_left (g_tick_count (ringing 10 12)) (timer_expiry_tick (timers (ringing 10 12) 7)) \<le> 0"
    by (simp add: time_left_def ringing_inv(4) [OF p])
  then show ?thesis using step sane ringing_inv(2,5,6) [OF p] by auto
qed

text \<open>Callbacks that reset, start or stop a timer are among those the expiry loop allows.\<close>

lemma pending_le:
  assumes "set ts' \<subseteq> insert t (set ts)" "g_tick_count s' = g_tick_count s"
    and "\<And>x. x \<in> set ts' \<Longrightarrow> x \<noteq> t \<Longrightarrow> timers s' x = timers s x"
    and "t \<in> set ts' \<Longrightarrow> firings (g_tick_count s) (timers s' t) = 0"
  shows "pending ts' s' \<le> pending ts s"
proof -
  let ?f = "\<lambda>x. firings (g_tick_count s) (timers s' x)"
  have "pending ts' s' = (\<Sum>x\<in>set ts'. ?f x)" by (simp add: pending_def assms(2))
  also have "\<dots> = (\<Sum>x\<in>set ts' - {t}. ?f x)"
    by (rule sum.mono_neutral_right) (use assms(4) in auto)
  also have "\<dots> = (\<Sum>x\<in>set ts' - {t}. firings (g_tick_count s) (timers s x))"
    by (rule sum.cong) (use assms(3) in auto)
  also have "\<dots> \<le> pending ts s" unfolding pending_def
    by (rule sum_mono2) (use assms(1) in auto)
  finally show ?thesis .
qed

lemma callback_ok_reset:
  assumes t: "TimerLink t \<in> N" and sem: "SemWaiters timer_wake_sem \<in> H" and p: "0 < p" "unat p < 2 ^ 30"
  shows "callback_ok b H N (\<lambda>cb a s. map_option snd (nimble_timer_reset t p s))"
  unfolding callback_ok_def
proof (intro allI impI)
  fix L ts s assume i: "sched_inv b {} H N L s" and d: "timers_due_ok H N L ts s"
  let ?ts = "start_list t ts (s\<lparr>timers := (timers s)(t := (timers s t)\<lparr>timer_period_ticks := p\<rparr>)\<rparr>)"
  have ti: "timers_inv H N L ts s" and so: "expiry_sorted (g_tick_count s) (\<lambda>x. timer_expiry_tick (timers s x)) ts"
    and sane: "\<And>x. x \<in> set ts \<Longrightarrow> sane_timer (g_tick_count s) (timers s x)"
    using d by (simp_all add: timers_due_ok_def)
  obtain s' L' where s': "nimble_timer_reset t p s = Some (NIMBLE_OK, s')" "sched_inv b {} H N L' s'"
    "timers_inv H N L' ?ts s'" "g_tick_count s' = g_tick_count s"
    and tm: "timers s' = (timers s)(t := (timers s t)\<lparr>timer_period_ticks := p,
        timer_expiry_tick := g_tick_count s + p, timer_is_active := True\<rparr>)"
    using timer_reset_inv [OF i ti t sem, of p] by blast
  have so': "expiry_sorted (g_tick_count s) (\<lambda>x. timer_expiry_tick (timers s' x)) ?ts"
    unfolding tm by (rule start_list_sorted [OF p(2) so]) (use sane in \<open>auto simp: sane_timer_def\<close>)
  have "near (g_tick_count s) (g_tick_count s + p)" by (rule near_add [OF p(2)])
  then have sane': "sane_timer (g_tick_count s) (timers s' x)" if "x \<in> set ?ts" for x
    using that sane p by (auto simp: tm sane_timer_def)
  have "int 0 < int (unat p)" using p(1) by (simp only: of_nat_less_iff) (simp add: word_less_nat_alt)
  then have fut: "0 < time_left (g_tick_count s) (g_tick_count s + p)"
    using time_left_add [OF near_now(1) p(2), of "g_tick_count s"] by simp
  have "pending ?ts s' \<le> pending ts s"
    by (rule pending_le [where t = t]) (use s'(4) fut in \<open>auto simp: tm firings_def\<close>)
  then show "\<exists>L' ts' s'. map_option snd (nimble_timer_reset t p s) = Some s' \<and> sched_inv b {} H N L' s' \<and>
      timers_due_ok H N L' ts' s' \<and> g_tick_count s' = g_tick_count s \<and> pending ts' s' \<le> pending ts s"
    using s' so' sane' unfolding timers_due_ok_def by (intro exI [of _ L'] exI [of _ ?ts] exI [of _ s']) simp
qed

lemma callback_ok_stop:
  assumes t: "TimerLink t \<in> N"
  shows "callback_ok b H N (\<lambda>cb a s. Some (snd (nimble_timer_stop t s)))"
  unfolding callback_ok_def
proof (intro allI impI)
  fix L ts s assume i: "sched_inv b {} H N L s" and d: "timers_due_ok H N L ts s"
  have ti: "timers_inv H N L ts s" and so: "expiry_sorted (g_tick_count s) (\<lambda>x. timer_expiry_tick (timers s x)) ts"
    and sane: "\<And>x. x \<in> set ts \<Longrightarrow> sane_timer (g_tick_count s) (timers s x)"
    using d by (simp_all add: timers_due_ok_def)
  obtain s' L' where s': "nimble_timer_stop t s = (NIMBLE_OK, s')" "sched_inv b {} H N L' s'"
    "timers_inv H N L' (removeAll t ts) s'"
    and tm: "timers s' = (timers s)(t := (timers s t)\<lparr>timer_is_active := False\<rparr>)"
    and so': "expiry_sorted (g_tick_count s) (\<lambda>x. timer_expiry_tick (timers s' x)) (removeAll t ts)"
    using timer_stop_behaviour [OF i ti t so] by blast
  have tick: "g_tick_count s' = g_tick_count s"
    using s'(1) by (auto simp: nimble_timer_stop_def kdefs Let_def split: if_splits)
  have "pending (removeAll t ts) s' \<le> pending ts s"
    by (rule pending_le [where t = t]) (auto simp: tm tick)
  moreover have "sane_timer (g_tick_count s) (timers s' x)" if "x \<in> set (removeAll t ts)" for x
    using that sane by (simp add: tm)
  ultimately show "\<exists>L' ts' s'. Some (snd (nimble_timer_stop t s)) = Some s' \<and> sched_inv b {} H N L' s' \<and>
      timers_due_ok H N L' ts' s' \<and> g_tick_count s' = g_tick_count s \<and> pending ts' s' \<le> pending ts s"
    using s' so' tick unfolding timers_due_ok_def
    by (intro exI [of _ L'] exI [of _ "removeAll t ts"] exI [of _ s']) simp
qed

text \<open>
  C32. The expiry loop of the timer task ends. Let the active timers be ordered by the time that
  is left, within \<open>2^30\<close> ticks of now and, when periodic, of a period between 1 and \<open>2^30\<close>; let
  no tick come while the loop runs, and let each callback return and leave no more firings
  behind than it found (\<open>callback_ok\<close>: it may use the kernel and reset, start and stop
  timers). Then the loop returns, in a state where every active timer lies in the future. The
  witness restarts the periodic timer from its own callback.
\<close>

theorem timer_loop_terminates:
  assumes "callback_ok b H N run" "sched_inv b {} H N L s" "timers_due_ok H N L ts s"
  shows "\<exists>L' ts' s'. timer_expiry_loop run s = Some s' \<and> sched_inv b {} H N L' s' \<and>
     timers_inv H N L' ts' s' \<and> g_tick_count s' = g_tick_count s \<and>
     (\<forall>x\<in>set ts'. 0 < time_left (g_tick_count s') (timer_expiry_tick (timers s' x)))"
  using assms by (rule expiry_loop_spec)

theorem timer_loop_terminates_witness:
  "\<exists>s'. timer_expiry_loop (\<lambda>cb a s. map_option snd (nimble_timer_reset 7 25 s)) (ringing 10 12) = Some s'"
proof -
  have p: "unat (10 :: u32) < 2 ^ 30" by simp
  obtain L where i: "sched_inv True {} timed_heads timed_nodes L (ringing 10 12)"
    "timers_inv timed_heads timed_nodes L [7] (ringing 10 12)"
    using ringing_inv(1) [OF p] by blast
  have "sane_timer (g_tick_count (ringing 10 12)) (timers (ringing 10 12) 7)" by (rule ringing_sane) simp_all
  then have d: "timers_due_ok timed_heads timed_nodes L [7] (ringing 10 12)"
    using i(2) by (simp add: timers_due_ok_def expiry_sorted_def)
  have cb: "callback_ok True timed_heads timed_nodes (\<lambda>cb a s. map_option snd (nimble_timer_reset 7 25 s))"
    by (rule callback_ok_reset) simp_all
  show ?thesis using timer_loop_terminates [OF cb i(1) d] by blast
qed

text \<open>
  A periodic timer of period zero that is due hangs the timer task: the loop has no result,
  because the timer is due again as soon as it has fired.
\<close>

lemma zero_period_hangs:
  assumes "callback_quiet b H N run" "sched_inv b {} H N L s" "timers_inv H N L [t] s"
    and "timer_is_periodic (timers s t)" "timer_period_ticks (timers s t) = 0"
    and "time_left (g_tick_count s) (timer_expiry_tick (timers s t)) \<le> 0"
  shows "timer_expiry_loop run s = None"
proof (cases "timer_expiry_loop run s")
  case (Some s')
  have "spinning b H N t s" using assms unfolding spinning_def by blast
  then show ?thesis using spinning_no_result [OF Some] assms(1) by blast
qed

end
