(* ===== verification/Kernel_System.thy ===== *)
theory Kernel_System
  imports Timer_Properties
begin

text \<open>
  The kernel as one transition system. A state is the kernel's state together with the call each
  task is in the middle of. A step is one exception handler, run to its end (SysTick, PendSV, or
  an interrupt handler that uses the kernel), or one critical section of a kernel call of the
  running task, which the port runs with BASEPRI raised. A call with several
  sections is several steps, and anything may come between them: a blocking call is split at its
  context switch, \<^verbatim>\<open>nimble_timer_start\<close> before its give, \<^verbatim>\<open>nimble_timer_reset\<close> before the
  start. Requests of a context switch that a call makes after its section are part of the step of the
  section; as a pending request only permits a switch, a later one is a \<open>yield\<close>. That a
  handler, the context switch above all, is not interrupted by another one that uses the kernel is
  not the doing of the code but of the interrupt priorities: theory \<open>Preemption\<close> has the
  handlers' single accesses as steps, and says when the two agree.
\<close>

section \<open>States and steps\<close>

datatype call =
    NoCall
  | InLock mutex_ptr
  | InTake sem_ptr
  | InSend queue_ptr "u8 list"
  | InReceive queue_ptr
  | Arming timer_ptr
  | Armed

text \<open>
  \<open>Arming x\<close> is a reset that has set the period and is about to start the timer,
  \<open>Armed\<close> a start that is about to give the semaphore of the timer task.
\<close>

primrec waits_on :: "call \<Rightarrow> node option" where
  "waits_on NoCall = None"
| "waits_on (InLock m) = Some (MutexWaiters m)"
| "waits_on (InTake q) = Some (SemWaiters q)"
| "waits_on (InSend q item) = Some (QueueSenders q)"
| "waits_on (InReceive q) = Some (QueueReceivers q)"
| "waits_on (Arming x) = None"
| "waits_on Armed = None"

type_synonym calls = "tcb_ptr \<Rightarrow> call"

primrec after_call :: "'a call_result \<Rightarrow> tcb_ptr \<Rightarrow> call \<Rightarrow> calls \<Rightarrow> calls" where
  "after_call (Returns x) t call c = c"
| "after_call Blocks t call c = c(t := call)"

text \<open>The task that runs, in its own code. The idle task makes no calls.\<close>

definition thread :: "kernel \<Rightarrow> calls \<Rightarrow> tcb_ptr \<Rightarrow> call \<Rightarrow> bool" where
  "thread s c t call \<longleftrightarrow> nimble_current_tcb s = Some t \<and> task_state s t = NIMBLE_TASK_RUNNING \<and>
     c t = call \<and> t \<noteq> idle_tcb"

text \<open>
  With \<open>b\<close> set, a lock may not raise the priority of a task that sits on a ready list.
\<close>

definition may_boost :: "bool \<Rightarrow> mutex_ptr \<Rightarrow> tcb_ptr \<Rightarrow> kernel \<Rightarrow> bool" where
  "may_boost b m t s \<longleftrightarrow>
     (b \<longrightarrow> (case mutex_owner (mutexes s m) of None \<Rightarrow> True | Some w \<Rightarrow> boost_ok w (task_priority s t) s))"

inductive sys_step :: "bool \<Rightarrow> node set \<Rightarrow> node set \<Rightarrow> kernel \<times> calls \<Rightarrow> kernel \<times> calls \<Rightarrow> bool"
  for b H N where
  tick: "SysTick_Handler s = Some s' \<Longrightarrow> sys_step b H N (s, c) (s', c)"
| switch: "pendsv s \<Longrightarrow> PendSV_Handler s = Some s' \<Longrightarrow> sys_step b H N (s, c) (s', c)"
| isr_give: "SemWaiters q \<in> H \<Longrightarrow> nimble_semaphore_give_from_isr q s = Some (r, w, s') \<Longrightarrow>
    sys_step b H N (s, c) (if w then nimble_port_request_context_switch s' else s', c)"
| isr_send: "QueueReceivers q \<in> H \<Longrightarrow> length item = unat (queue_item_size (queues s q)) \<Longrightarrow>
    nimble_queue_send_from_isr q item s = Some (r, w, s') \<Longrightarrow>
    sys_step b H N (s, c) (if w then nimble_port_request_context_switch s' else s', c)"
| yield: "thread s c t call \<Longrightarrow> sys_step b H N (s, c) (nimble_task_yield s, c)"
| delay: "thread s c t NoCall \<Longrightarrow> nimble_task_delay n s = Some s' \<Longrightarrow> sys_step b H N (s, c) (s', c)"
| suspend: "thread s c t NoCall \<Longrightarrow> Link x \<in> N \<Longrightarrow> x \<noteq> idle_tcb \<Longrightarrow>
    nimble_task_suspend x s = Some s' \<Longrightarrow> sys_step b H N (s, c) (s', c)"
| resume: "thread s c t NoCall \<Longrightarrow> Link x \<in> N \<Longrightarrow>
    nimble_task_resume x s = Some s' \<Longrightarrow> sys_step b H N (s, c) (s', c)"
| lock: "thread s c t NoCall \<Longrightarrow> MutexWaiters m \<in> H \<Longrightarrow> may_boost b m t s \<Longrightarrow>
    nimble_mutex_lock m timeout s = Some (r, s') \<Longrightarrow>
    sys_step b H N (s, c) (s', after_call r t (InLock m) c)"
| lock_resume: "thread s c t (InLock m) \<Longrightarrow> nimble_mutex_lock_resume m t s = (r, s') \<Longrightarrow>
    sys_step b H N (s, c) (s', c(t := NoCall))"
| unlock: "thread s c t NoCall \<Longrightarrow> MutexWaiters m \<in> H \<Longrightarrow> nimble_mutex_unlock m s = Some (r, s') \<Longrightarrow>
    sys_step b H N (s, c) (s', c)"
| take: "thread s c t NoCall \<Longrightarrow> SemWaiters q \<in> H \<Longrightarrow> nimble_semaphore_take q timeout s = Some (r, s') \<Longrightarrow>
    sys_step b H N (s, c) (s', after_call r t (InTake q) c)"
| take_resume: "thread s c t (InTake q) \<Longrightarrow> nimble_semaphore_take_resume q t s = (r, s') \<Longrightarrow>
    sys_step b H N (s, c) (s', c(t := NoCall))"
| give: "thread s c t NoCall \<Longrightarrow> SemWaiters q \<in> H \<Longrightarrow> nimble_semaphore_give q s = Some (r, s') \<Longrightarrow>
    sys_step b H N (s, c) (s', c)"
| send: "thread s c t NoCall \<Longrightarrow> QueueReceivers q \<in> H \<Longrightarrow> QueueSenders q \<in> H \<Longrightarrow>
    length item = unat (queue_item_size (queues s q)) \<Longrightarrow>
    nimble_queue_send q item timeout s = Some (r, s') \<Longrightarrow>
    sys_step b H N (s, c) (s', after_call r t (InSend q item) c)"
| send_resume: "thread s c t (InSend q item) \<Longrightarrow> nimble_queue_send_resume q item t s = Some (r, s') \<Longrightarrow>
    sys_step b H N (s, c) (s', c(t := NoCall))"
| receive: "thread s c t NoCall \<Longrightarrow> QueueReceivers q \<in> H \<Longrightarrow> QueueSenders q \<in> H \<Longrightarrow>
    nimble_queue_receive q timeout s = Some (r, s') \<Longrightarrow>
    sys_step b H N (s, c) (s', after_call r t (InReceive q) c)"
| receive_resume: "thread s c t (InReceive q) \<Longrightarrow> nimble_queue_receive_resume q t s = Some (r, s') \<Longrightarrow>
    sys_step b H N (s, c) (s', c(t := NoCall))"
| timer_period: "thread s c t NoCall \<Longrightarrow> SemWaiters timer_wake_sem \<in> H \<Longrightarrow> TimerLink x \<in> N \<Longrightarrow>
    sys_step b H N (s, c) (timer_set_period x p s, c(t := Arming x))"
| timer_arm: "thread s c t call \<Longrightarrow> call = NoCall \<or> call = Arming x \<Longrightarrow> SemWaiters timer_wake_sem \<in> H \<Longrightarrow>
    TimerLink x \<in> N \<Longrightarrow> timer_arm x s = Some (became_new_head, s') \<Longrightarrow>
    sys_step b H N (s, c) (s', c(t := if became_new_head then Armed else NoCall))"
| timer_wake: "thread s c t Armed \<Longrightarrow> SemWaiters timer_wake_sem \<in> H \<Longrightarrow>
    nimble_semaphore_give timer_wake_sem s = Some (r, s') \<Longrightarrow> sys_step b H N (s, c) (s', c(t := NoCall))"
| timer_stop: "thread s c t NoCall \<Longrightarrow> TimerLink x \<in> N \<Longrightarrow>
    nimble_timer_stop x s = (r, s') \<Longrightarrow> sys_step b H N (s, c) (s', c)"
| timer_expire: "thread s c timer_task_tcb NoCall \<Longrightarrow> timer_expire_one s = Some (r, s') \<Longrightarrow>
    sys_step b H N (s, c) (s', c)"

section \<open>The invariant\<close>

definition mutex_inv :: "node set \<Rightarrow> (node \<Rightarrow> node list) \<Rightarrow> kernel \<Rightarrow> bool" where
  "mutex_inv H L s \<longleftrightarrow>
     (\<forall>m. MutexWaiters m \<in> H \<longrightarrow> mutex_owner (mutexes s m) = None \<longrightarrow> L (MutexWaiters m) = [])"

definition queue_inv :: "node set \<Rightarrow> kernel \<Rightarrow> bool" where
  "queue_inv H s \<longleftrightarrow> (\<forall>q. QueueReceivers q \<in> H \<longrightarrow> queue_wf (queues s q))"

text \<open>A task is only on the wait list of the object its call is about.\<close>

definition waits_inv :: "node set \<Rightarrow> (node \<Rightarrow> node list) \<Rightarrow> calls \<Rightarrow> bool" where
  "waits_inv H L c \<longleftrightarrow> (\<forall>k\<in>H. \<forall>t. EventLink t \<in> set (L k) \<longrightarrow> waits_on (c t) = Some k)"

text \<open>Inside a lock call, a task owns the mutex exactly when an unlock has woken it.\<close>

definition woken_ok :: "kernel \<Rightarrow> tcb_ptr \<Rightarrow> bool" where
  "woken_ok s t \<longleftrightarrow> task_state s t \<noteq> NIMBLE_TASK_BLOCKED \<and> tcb_last_wait_result (tcbs s t) = NIMBLE_OK"

definition handoff_inv :: "calls \<Rightarrow> kernel \<Rightarrow> bool" where
  "handoff_inv c s \<longleftrightarrow> (\<forall>t m. c t = InLock m \<longrightarrow> (mutex_owner (mutexes s m) = Some t \<longleftrightarrow> woken_ok s t))"

definition calls_inv :: "node set \<Rightarrow> calls \<Rightarrow> kernel \<Rightarrow> bool" where
  "calls_inv H c s \<longleftrightarrow>
     (\<forall>t q item. c t = InSend q item \<longrightarrow>
        QueueReceivers q \<in> H \<and> length item = unat (queue_item_size (queues s q))) \<and>
     (\<forall>t q. c t = InReceive q \<longrightarrow> QueueReceivers q \<in> H)"

definition idle_inv :: "node set \<Rightarrow> kernel \<Rightarrow> bool" where
  "idle_inv N s \<longleftrightarrow> can_run N s idle_tcb"

definition objs_inv :: "node set \<Rightarrow> node set \<Rightarrow> (node \<Rightarrow> node list) \<Rightarrow> calls \<Rightarrow> kernel \<Rightarrow> bool" where
  "objs_inv H N L c s \<longleftrightarrow>
     sem_inv H L s \<and> mutex_inv H L s \<and> queue_inv H s \<and> waits_inv H L c \<and> handoff_inv c s \<and>
     calls_inv H c s \<and> idle_inv N s \<and> (\<exists>ts. timers_inv H N L ts s)"

definition sys_inv :: "bool \<Rightarrow> node set \<Rightarrow> node set \<Rightarrow> kernel \<times> calls \<Rightarrow> bool" where
  "sys_inv b H N sc \<longleftrightarrow>
     (\<exists>L. sched_inv b {} H N L (fst sc) \<and> objs_inv H N L (snd sc) (fst sc))"

lemma sys_invI: "sched_inv b {} H N L s \<Longrightarrow> objs_inv H N L c s \<Longrightarrow> sys_inv b H N (s, c)"
  by (auto simp: sys_inv_def)

lemma sys_invE:
  assumes "sys_inv b H N (s, c)"
  obtains L where "sched_inv b {} H N L s" "objs_inv H N L c s"
  using assms by (auto simp: sys_inv_def)

lemma objs_invD:
  assumes "objs_inv H N L c s"
  shows "sem_inv H L s" "mutex_inv H L s" "queue_inv H s" "waits_inv H L c" "handoff_inv c s"
    "calls_inv H c s" "idle_inv N s" "\<exists>ts. timers_inv H N L ts s"
  using assms unfolding objs_inv_def by simp_all

subsection \<open>What shrinks the wait lists\<close>

definition shrinks :: "node set \<Rightarrow> (node \<Rightarrow> node list) \<Rightarrow> (node \<Rightarrow> node list) \<Rightarrow> bool" where
  "shrinks H L L' \<longleftrightarrow> (\<forall>k\<in>H. wait_head k \<longrightarrow> set (L' k) \<subseteq> set (L k)) \<and>
     ((\<exists>ts. L ActiveTimers = map TimerLink ts) \<longrightarrow> L' ActiveTimers = L ActiveTimers)"

lemma shrinks_refl: "shrinks H L L"
  by (simp add: shrinks_def)

lemma shrinks_trans:
  assumes "shrinks H L L'" "shrinks H L' L''"
  shows "shrinks H L L''"
  using assms unfolding shrinks_def by (metis subset_trans)

lemma shrinks_delist:
  "shrinks H L (delist (Link t) L)" "shrinks H L (delist (EventLink t) L)"
  by (auto simp: shrinks_def removeAll_filter_not_eq intro!: filter_True)

lemma shrinks_enlist:
  "shrinks H L (enlist (ReadyList p) n L)" "shrinks H L (enlist DelayedList n L)"
  by (auto simp: shrinks_def)

lemma shrinks_wake: "shrinks H L (wake_lists p t L)"
  unfolding wake_lists_def by (blast intro: shrinks_trans shrinks_delist shrinks_enlist)

lemma shrinks_woken: "shrinks H L (woken_lists s w L)"
  by (cases w) (simp_all add: woken_lists_def shrinks_refl shrinks_wake)

lemma shrinks_tick: "shrinks H L (tick_lists s ts L)"
proof -
  have "shrinks H L (fold (\<lambda>t. wake_lists (unat (task_priority s t)) t) xs L)" for xs L
    by (induction xs arbitrary: L) (auto intro: shrinks_refl shrinks_trans [OF shrinks_wake])
  then show ?thesis by (simp add: tick_lists_def wake_all_def)
qed

lemma shrinks_requeue: "shrinks H L (requeue_lists s L)"
  by (auto simp: requeue_lists_def shrinks_refl shrinks_enlist split: option.splits)

lemma shrinks_block: "shrinks H L (block_lists t w L)"
  unfolding block_lists_def by (auto intro: shrinks_trans shrinks_delist shrinks_enlist)

lemmas shrinks_intros = shrinks_refl shrinks_delist shrinks_enlist shrinks_wake shrinks_woken
  shrinks_tick shrinks_requeue shrinks_block

subsection \<open>Steps that leave the objects alone\<close>

lemma mutex_inv_shrink:
  "mutex_inv H L s \<Longrightarrow> shrinks H L L' \<Longrightarrow> mutexes s' = mutexes s \<Longrightarrow> mutex_inv H L' s'"
  by (force simp: mutex_inv_def shrinks_def)

lemma waits_inv_shrink:
  assumes "waits_inv H L c" "shrinks H L L'" "shape H N L'"
  shows "waits_inv H L' c"
  unfolding waits_inv_def
proof (intro ballI allI impI)
  fix k t assume k: "k \<in> H" "EventLink t \<in> set (L' k)"
  have "fits k (EventLink t)" by (rule shape_fits [OF assms(3) k])
  then have "wait_head k" by (cases k) auto
  then show "waits_on (c t) = Some k" using assms(1,2) k unfolding waits_inv_def shrinks_def by blast
qed

lemma timers_inv_shrink:
  "timers_inv H N L ts s \<Longrightarrow> shrinks H L L' \<Longrightarrow> timers s' = timers s \<Longrightarrow> timers_inv H N L' ts s'"
  by (auto simp: timers_inv_def shrinks_def)

lemma sem_inv_shrinks: "sem_inv H L s \<Longrightarrow> shrinks H L L' \<Longrightarrow> semaphores s' = semaphores s \<Longrightarrow> sem_inv H L' s'"
  by (erule sem_inv_shrink) (force simp: shrinks_def)+

lemma objs_quiet:
  assumes o: "objs_inv H N L c s" and sh: "shrinks H L L'" and i: "sched_inv b X H N L' s'"
    and same: "mutexes s' = mutexes s" "semaphores s' = semaphores s" "queues s' = queues s" "timers s' = timers s"
    and wk: "\<And>t m. c t = InLock m \<Longrightarrow> woken_ok s' t = woken_ok s t"
    and idle: "can_run N s' idle_tcb"
  shows "objs_inv H N L' c s'"
proof -
  note D = objs_invD [OF o]
  have "sem_inv H L' s'" by (rule sem_inv_shrinks [OF D(1) sh same(2)])
  moreover have "mutex_inv H L' s'" by (rule mutex_inv_shrink [OF D(2) sh same(1)])
  moreover have "queue_inv H s'" using D(3) same(3) by (simp add: queue_inv_def)
  moreover have "waits_inv H L' c" by (rule waits_inv_shrink [OF D(4) sh sched_inv_shape [OF i]])
  moreover have "handoff_inv c s'" using D(5) same(1) wk by (simp add: handoff_inv_def)
  moreover have "calls_inv H c s'" using D(6) same(3) by (simp add: calls_inv_def)
  moreover have "\<exists>ts. timers_inv H N L' ts s'" using D(8) timers_inv_shrink [OF _ sh same(4)] by blast
  ultimately show ?thesis using idle unfolding objs_inv_def idle_inv_def by simp
qed

end
