(* ===== verification/System_Steps.thy ===== *)
theory System_Steps
  imports Kernel_System
begin

text \<open>
  Every step of the transition system returns and keeps the invariant: one lemma per interrupt
  and kernel call, on the lemmas of the components, and their combination \<open>step_sound\<close>.
\<close>

section \<open>Interrupts\<close>

lemma tick_step:
  assumes inv: "sys_inv b H N (s, c)"
  shows "\<exists>s'. SysTick_Handler s = Some s' \<and> sys_inv b H N (s', c) \<and> mutexes s' = mutexes s"
proof -
  obtain L where i: "sched_inv b {} H N L s" and o: "objs_inv H N L c s" using inv by (rule sys_invE)
  obtain ts where ts: "L DelayedList = map Link ts" using delayed_links [OF sched_inv_shape [OF i]] by blast
  let ?due = "\<lambda>t. t \<in> set ts \<and> tick_due (s\<lparr>g_tick_count := g_tick_count s + 1\<rparr>) t"
  obtain s' where s': "SysTick_Handler s = Some s'" and i': "sched_inv b {} H N (tick_lists s ts L) s'"
    and f: "s' = s\<lparr>g_tick_count := g_tick_count s + 1, pendsv := True,
            tcbs := \<lambda>t. if ?due t then timed_out (tcbs s t) else tcbs s t,
            heap := heap s', ready_bitmap := ready_bitmap s'\<rparr>"
    using SysTick_inv [OF i ts] by blast
  have same: "mutexes s' = mutexes s" "semaphores s' = semaphores s" "queues s' = queues s" "timers s' = timers s"
    and tc: "tcbs s' = (\<lambda>t. if ?due t then timed_out (tcbs s t) else tcbs s t)"
    by (subst f, simp)+
  have bl: "task_state s t = NIMBLE_TASK_BLOCKED" if "t \<in> set ts" for t
    using tasks_inv_delayed [OF sched_inv_tasks [OF i], of t] ts that by simp
  have "woken_ok s' t = woken_ok s t" for t using bl by (simp add: woken_ok_def tc)
  moreover have "can_run N s' idle_tcb"
    using objs_invD(7) [OF o] bl by (auto simp: idle_inv_def can_run_def tc)
  ultimately have "objs_inv H N (tick_lists s ts L) c s'"
    by (intro objs_quiet [OF o shrinks_tick i' same]) auto
  then show ?thesis using s' i' same(1) by (blast intro: sys_invI)
qed

lemma runnable_listed:
  assumes inv: "sched_inv b {} H N L s" and t: "can_run N s t"
  shows "\<exists>p<32. requeue_lists s L (ReadyList p) \<noteq> []"
proof (cases "task_state s t = NIMBLE_TASK_RUNNING")
  case True
  then have "nimble_current_tcb s = Some t"
    using t tasks_inv_running [OF sched_inv_tasks [OF inv]] by (simp add: can_run_def)
  moreover have "unat (task_priority s t) < 32" using sched_inv_prio [OF inv] t by (simp add: can_run_def)
  ultimately show ?thesis using True
    by (intro exI [of _ "unat (task_priority s t)"]) (simp add: requeue_lists_def)
next
  case False
  then have "task_state s t = NIMBLE_TASK_READY" "Link t \<in> N" using t by (auto simp: can_run_def)
  then obtain p where "p < 32" "Link t \<in> set (L (ReadyList p))"
    using tasks_inv_ready_listed [OF sched_inv_tasks [OF inv]] by blast
  then show ?thesis by (intro exI [of _ p]) (auto simp: requeue_lists_def split: option.splits)
qed

lemma switch_out_same [simp]:
  "mutexes (switch_out s) = mutexes s" "semaphores (switch_out s) = semaphores s"
  "queues (switch_out s) = queues s" "timers (switch_out s) = timers s"
  "tcb_last_wait_result (tcbs (switch_out s) t) = tcb_last_wait_result (tcbs s t)"
  by (auto simp: switch_out_def update_tcb_def store_r4_r11_def split: option.splits)

text \<open>What a context switch leaves alone.\<close>

lemma PendSV_frame:
  assumes inv: "sched_inv b {} H N L s" and ok: "b \<or> PendSV_Handler s \<noteq> None"
    and run: "\<exists>p<32. requeue_lists s L (ReadyList p) \<noteq> []"
  shows "\<exists>n s'. PendSV_Handler s = Some s' \<and>
     sched_inv b {} H N (delist (Link n) (requeue_lists s L)) s' \<and> nimble_current_tcb s' = Some n \<and> can_run N s n \<and>
     mutexes s' = mutexes s \<and> semaphores s' = semaphores s \<and> queues s' = queues s \<and> timers s' = timers s \<and>
     (\<forall>t. tcb_last_wait_result (tcbs s' t) = tcb_last_wait_result (tcbs s t) \<and>
        task_state s' t = (if t = n then NIMBLE_TASK_RUNNING
          else if nimble_current_tcb s = Some t \<and> task_state s t = NIMBLE_TASK_RUNNING then NIMBLE_TASK_READY
          else task_state s t))"
proof -
  let ?s = "switch_out s" and ?R = "requeue_lists s L"
  have L: "requeue_lists ?s L = ?R" by (rule requeue_lists_cong) simp_all
  obtain n p ns s1 s' where h: "PendSV_Handler s = Some s'"
    and sel: "nimble_scheduler_select_next ?s = Some (n, s1)"
    and top: "top_ready ?R p" "?R (ReadyList p) = Link n # ns"
    and i': "sched_inv b {} H N (delist (Link n) ?R) s'"
    and f': "s' = (load_r4_r11 (tcb_sp (tcbs s1 n)) (s1\<lparr>nimble_current_tcb := Some n\<rparr>))
            \<lparr>psp := tcb_sp (tcbs s1 n) + 32\<rparr>"
    using PendSV_inv [OF inv ok run] by blast
  have iq: "sched_inv b {} H N L ?s" using inv by simp
  have ok': "b \<or> nimble_scheduler_select_next ?s \<noteq> None" using sel by simp
  obtain f: "s1 = ?s\<lparr>tcbs := \<lambda>t. if t = n then (tcbs ?s t)\<lparr>tcb_state := NIMBLE_TASK_RUNNING\<rparr>
                       else if nimble_current_tcb ?s = Some t \<and> task_state ?s t = NIMBLE_TASK_RUNNING
                       then (tcbs ?s t)\<lparr>tcb_state := NIMBLE_TASK_READY\<rparr> else tcbs ?s t,
            nimble_next_tcb := Some n, heap := heap s1, ready_bitmap := ready_bitmap s1\<rparr>"
    and n: "Link n \<in> N"
    using select_next_inv [OF iq ok'] run sel unfolding L by auto
  have "can_run N s n"
  proof (cases "nimble_current_tcb s = Some n \<and> task_state s n = NIMBLE_TASK_RUNNING")
    case True
    then show ?thesis using n by (simp add: can_run_def)
  next
    case False
    moreover have "Link n \<in> set (?R (ReadyList p))" using top(2) by simp
    ultimately have "Link n \<in> set (L (ReadyList p))"
      by (auto simp: requeue_lists_def split: option.splits if_splits)
    then show ?thesis
      using tasks_inv_ready_state [OF sched_inv_tasks [OF inv], of p n] top(1) n by (simp add: top_ready_def can_run_def)
  qed
  moreover have "mutexes s1 = mutexes s" "semaphores s1 = semaphores s" "queues s1 = queues s" "timers s1 = timers s"
    "tcbs s1 = (\<lambda>t. if t = n then (tcbs ?s t)\<lparr>tcb_state := NIMBLE_TASK_RUNNING\<rparr>
                       else if nimble_current_tcb ?s = Some t \<and> task_state ?s t = NIMBLE_TASK_RUNNING
                       then (tcbs ?s t)\<lparr>tcb_state := NIMBLE_TASK_READY\<rparr> else tcbs ?s t)"
    by (subst f, simp)+
  ultimately show ?thesis using h i'
    by (intro exI [of _ n] exI [of _ s']) (simp add: f' load_r4_r11_def)
qed

lemma switch_step:
  assumes inv: "sys_inv b H N (s, c)" and ok: "b \<or> PendSV_Handler s \<noteq> None"
  shows "\<exists>s'. PendSV_Handler s = Some s' \<and> sys_inv b H N (s', c) \<and> mutexes s' = mutexes s"
proof -
  obtain L where i: "sched_inv b {} H N L s" and o: "objs_inv H N L c s" using inv by (rule sys_invE)
  have idle: "can_run N s idle_tcb" using objs_invD(7) [OF o] by (simp add: idle_inv_def)
  let ?L = "\<lambda>n. delist (Link n) (requeue_lists s L)"
  obtain n s' where s': "PendSV_Handler s = Some s'" and i': "sched_inv b {} H N (?L n) s'" and n: "can_run N s n"
    and same: "mutexes s' = mutexes s" "semaphores s' = semaphores s" "queues s' = queues s" "timers s' = timers s"
    and tc: "\<And>t. tcb_last_wait_result (tcbs s' t) = tcb_last_wait_result (tcbs s t)"
      "\<And>t. task_state s' t = (if t = n then NIMBLE_TASK_RUNNING
          else if nimble_current_tcb s = Some t \<and> task_state s t = NIMBLE_TASK_RUNNING then NIMBLE_TASK_READY
          else task_state s t)"
    using PendSV_frame [OF i ok runnable_listed [OF i idle]] by blast
  have "woken_ok s' t = woken_ok s t" for t using n by (auto simp: woken_ok_def tc can_run_def)
  moreover have "can_run N s' idle_tcb" using idle by (auto simp: can_run_def tc)
  ultimately have "objs_inv H N (?L n) c s'"
    by (intro objs_quiet [OF o shrinks_trans [OF shrinks_requeue shrinks_delist(1)] i' same]) auto
  then show ?thesis using s' i' same(1) by (blast intro: sys_invI)
qed

section \<open>Changing one object\<close>

lemma objs_semaphores:
  "objs_inv H N L c s \<Longrightarrow> sem_inv H L (s\<lparr>semaphores := v\<rparr>) \<Longrightarrow> objs_inv H N L c (s\<lparr>semaphores := v\<rparr>)"
  by (simp add: objs_inv_def mutex_inv_def queue_inv_def handoff_inv_def woken_ok_def calls_inv_def
      idle_inv_def can_run_def timers_inv_def)

lemma objs_queues:
  assumes "objs_inv H N L c s" "QueueReceivers q \<in> H \<Longrightarrow> queue_wf x" "queue_item_size x = queue_item_size (queues s q)"
  shows "objs_inv H N L c (s\<lparr>queues := (queues s)(q := x)\<rparr>)"
  using assms
  by (simp add: objs_inv_def sem_inv_def mutex_inv_def queue_inv_def handoff_inv_def woken_ok_def calls_inv_def
      idle_inv_def can_run_def timers_inv_def)

lemma objs_timers:
  "objs_inv H N L c s \<Longrightarrow> \<exists>ts. timers_inv H N L ts (s\<lparr>timers := v\<rparr>) \<Longrightarrow> objs_inv H N L c (s\<lparr>timers := v\<rparr>)"
  by (simp add: objs_inv_def sem_inv_def mutex_inv_def queue_inv_def handoff_inv_def woken_ok_def calls_inv_def
      idle_inv_def can_run_def)

lemma objs_mutexes:
  "objs_inv H N L c s \<Longrightarrow> mutex_inv H L (s\<lparr>mutexes := v\<rparr>) \<Longrightarrow> handoff_inv c (s\<lparr>mutexes := v\<rparr>) \<Longrightarrow>
   objs_inv H N L c (s\<lparr>mutexes := v\<rparr>)"
  by (simp add: objs_inv_def sem_inv_def queue_inv_def calls_inv_def idle_inv_def can_run_def timers_inv_def)

text \<open>Waking the first waiter of a semaphore or a queue.\<close>

lemma objs_woken:
  assumes i: "sched_inv b {} H N L s" and o: "objs_inv H N L c s" and k: "k \<in> H" "wait_head k" "\<And>m. k \<noteq> MutexWaiters m"
    and i': "sched_inv b {} H N (woken_lists s (first_waiter k L) L) s'"
    and same: "mutexes s' = mutexes s" "semaphores s' = semaphores s" "queues s' = queues s" "timers s' = timers s"
    and tc: "tcbs s' = woken_tcbs (first_waiter k L) (tcbs s)"
  shows "objs_inv H N (woken_lists s (first_waiter k L) L) c s'"
proof (cases "L k")
  case Nil
  then have "tcbs s' = tcbs s" using tc by (simp add: woken_tcbs_def)
  then show ?thesis using objs_invD(7) [OF o]
    by (intro objs_quiet [OF o shrinks_woken i' same]) (simp_all add: woken_ok_def can_run_def idle_inv_def)
next
  case (Cons n ns)
  obtain t where n: "n = EventLink t"
    using shape_wait_member [OF sched_inv_shape [OF i] k(1,2), of n] Cons by auto
  then have fw: "first_waiter k L = Some t" using Cons by simp
  have in_k: "EventLink t \<in> set (L k)" using Cons n by simp
  have bl: "task_state s t = NIMBLE_TASK_BLOCKED"
    using tasks_inv_event [OF sched_inv_tasks [OF i] _ k(1) in_k] by simp
  have wt: "waits_on (c t) = Some k" using objs_invD(4) [OF o] k(1) in_k unfolding waits_inv_def by blast
  have tc': "tcbs s' x = tcbs s x" if "x \<noteq> t" for x using that tc fw by (simp add: woken_tcbs_def)
  have "woken_ok s' x = woken_ok s x" if "c x = InLock m" for x m
  proof -
    have "x \<noteq> t" using that wt k(3) [of m] by auto
    then show ?thesis using tc' by (simp add: woken_ok_def)
  qed
  moreover have "can_run N s' idle_tcb"
  proof -
    have idle: "can_run N s idle_tcb" using objs_invD(7) [OF o] by (simp add: idle_inv_def)
    then have "idle_tcb \<noteq> t" using bl by (auto simp: can_run_def)
    then show ?thesis using idle tc' by (simp add: can_run_def)
  qed
  ultimately show ?thesis by (rule objs_quiet [OF o shrinks_woken i' same])
qed

section \<open>Semaphores and queues from interrupts and tasks\<close>

lemma sem_inv_bump:
  assumes "sem_inv H L s" "L (SemWaiters q) = []"
  shows "sem_inv H L (s\<lparr>semaphores := (semaphores s)(q := bump (semaphores s q))\<rparr>)"
  unfolding sem_inv_def
proof (intro allI impI)
  fix r assume "SemWaiters r \<in> H"
  from sem_invD [OF assms(1) this] assms(2) show
    "sem_count (semaphores (s\<lparr>semaphores := (semaphores s)(q := bump (semaphores s q))\<rparr>) r)
       \<le> sem_max_count (semaphores (s\<lparr>semaphores := (semaphores s)(q := bump (semaphores s q))\<rparr>) r) \<and>
     (L (SemWaiters r) \<noteq> [] \<longrightarrow>
       sem_count (semaphores (s\<lparr>semaphores := (semaphores s)(q := bump (semaphores s q))\<rparr>) r) = 0)"
    by (auto simp: bump_def inc_le)
qed

lemma objs_give:
  assumes i: "sched_inv b {} H N L s" and o: "objs_inv H N L c s" and q: "SemWaiters q \<in> H"
    and i': "sched_inv b {} H N (woken_lists s w L) s'" and w: "w = first_waiter (SemWaiters q) L"
    and same: "mutexes s' = mutexes s" "queues s' = queues s" "timers s' = timers s"
    and sem: "semaphores s' = (if w = None then (semaphores s)(q := bump (semaphores s q)) else semaphores s)"
    and tc: "tcbs s' = woken_tcbs w (tcbs s)"
  shows "objs_inv H N (woken_lists s w L) c s'"
proof -
  let ?s = "s\<lparr>semaphores := semaphores s'\<rparr>"
  have "sem_inv H L ?s"
  proof (cases "w = None")
    case True
    then have "L (SemWaiters q) = []"
      using w wait_links [OF sched_inv_shape [OF i] q] by (auto simp: first_waiter_def split: list.splits)
    then show ?thesis using True sem sem_inv_bump [OF objs_invD(1) [OF o]] by simp
  next
    case False
    then show ?thesis using sem objs_invD(1) [OF o] by auto
  qed
  then have o': "objs_inv H N L c ?s" by (rule objs_semaphores [OF o])
  have "woken_lists ?s w L = woken_lists s w L" by (rule woken_lists_cong) simp
  moreover have "sched_inv b {} H N L ?s" using i by simp
  ultimately show ?thesis
    using objs_woken [OF _ o' q, of b s'] i' same tc w by simp
qed

lemma give_from_isr_spec:
  assumes inv: "sched_inv b {} H N L s" and q: "SemWaiters q \<in> H"
  defines "w \<equiv> first_waiter (SemWaiters q) L"
  shows "\<exists>s'. nimble_semaphore_give_from_isr q s = Some (NIMBLE_OK, w \<noteq> None, s') \<and>
     sched_inv b {} H N (woken_lists s w L) s' \<and>
     s' = s\<lparr>semaphores := (if w = None then (semaphores s)(q := bump (semaphores s q)) else semaphores s),
            tcbs := woken_tcbs w (tcbs s), heap := heap s', ready_bitmap := ready_bitmap s'\<rparr>"
proof -
  obtain s1 where s1: "nimble_scheduler_wake_waiter (SemWaiters q) s = Some (w, s1)"
    "sched_inv b {} H N (woken_lists s w L) s1"
    and f: "s1 = s\<lparr>tcbs := woken_tcbs w (tcbs s), heap := heap s1, ready_bitmap := ready_bitmap s1\<rparr>"
    using wake_waiter_total [OF inv q] unfolding w_def by auto
  have sm: "semaphores s1 = semaphores s" by (subst f) simp
  let ?s' = "s1\<lparr>semaphores := (if w = None then (semaphores s)(q := bump (semaphores s q)) else semaphores s)\<rparr>"
  have id: "s1\<lparr>semaphores := semaphores s\<rparr> = s1" using sm by (metis kernel.surjective kernel.update_convs(4))
  have "nimble_semaphore_give_from_isr q s = Some (NIMBLE_OK, w \<noteq> None, ?s')"
    using s1(1) sm id
    by (cases "w = None") (auto simp: nimble_semaphore_give_from_isr_def update_semaphore_def bump_def fun_upd_idem)
  moreover have "sched_inv b {} H N (woken_lists s w L) ?s'" using s1(2) by simp
  moreover have "?s' = s\<lparr>semaphores := (if w = None then (semaphores s)(q := bump (semaphores s q)) else semaphores s),
            tcbs := woken_tcbs w (tcbs s), heap := heap ?s', ready_bitmap := ready_bitmap ?s'\<rparr>"
    by (subst f) simp
  ultimately show ?thesis by blast
qed

lemma sys_inv_pendsv [simp]: "sys_inv b H N (s\<lparr>pendsv := v\<rparr>, c) = sys_inv b H N (s, c)"
  by (simp add: sys_inv_def objs_inv_def sem_inv_def mutex_inv_def queue_inv_def handoff_inv_def woken_ok_def
      calls_inv_def idle_inv_def can_run_def timers_inv_def)

lemma isr_give_step:
  assumes inv: "sys_inv b H N (s, c)" and q: "SemWaiters q \<in> H"
  shows "\<exists>w s'. nimble_semaphore_give_from_isr q s = Some (NIMBLE_OK, w, s') \<and>
     sys_inv b H N (s', c) \<and> mutexes s' = mutexes s"
proof -
  obtain L where i: "sched_inv b {} H N L s" and o: "objs_inv H N L c s" using inv by (rule sys_invE)
  let ?w = "first_waiter (SemWaiters q) L"
  obtain s' where s': "nimble_semaphore_give_from_isr q s = Some (NIMBLE_OK, ?w \<noteq> None, s')"
    and i': "sched_inv b {} H N (woken_lists s ?w L) s'"
    and f: "s' = s\<lparr>semaphores := (if ?w = None then (semaphores s)(q := bump (semaphores s q)) else semaphores s),
            tcbs := woken_tcbs ?w (tcbs s), heap := heap s', ready_bitmap := ready_bitmap s'\<rparr>"
    using give_from_isr_spec [OF i q] by blast
  have "objs_inv H N (woken_lists s ?w L) c s'"
    by (rule objs_give [OF i o q i' refl]) (subst f, simp)+
  moreover have "mutexes s' = mutexes s" by (subst f) simp
  ultimately show ?thesis using s' i' by (blast intro: sys_invI)
qed

lemma give_step:
  assumes inv: "sys_inv b H N (s, c)" and q: "SemWaiters q \<in> H"
  shows "\<exists>s'. nimble_semaphore_give q s = Some (NIMBLE_OK, s') \<and>
     sys_inv b H N (s', c) \<and> mutexes s' = mutexes s"
proof -
  obtain L where i: "sched_inv b {} H N L s" and o: "objs_inv H N L c s" using inv by (rule sys_invE)
  let ?w = "first_waiter (SemWaiters q) L"
  obtain s' where s': "nimble_semaphore_give q s = Some (NIMBLE_OK, s')"
    and i': "sched_inv b {} H N (woken_lists s ?w L) s'"
    and f: "s' = s\<lparr>semaphores := (if ?w = None then (semaphores s)(q := bump (semaphores s q)) else semaphores s),
            tcbs := woken_tcbs ?w (tcbs s), pendsv := (pendsv s \<or> ?w \<noteq> None),
            heap := heap s', ready_bitmap := ready_bitmap s'\<rparr>"
    using give_spec [OF i q] by blast
  have "objs_inv H N (woken_lists s ?w L) c s'"
    by (rule objs_give [OF i o q i' refl]) (subst f, simp)+
  moreover have "mutexes s' = mutexes s" by (subst f) simp
  ultimately show ?thesis using s' i' by (blast intro: sys_invI)
qed

section \<open>Blocking\<close>

lemma threadD:
  assumes "thread s c t call"
  shows "nimble_current_tcb s = Some t" "task_state s t = NIMBLE_TASK_RUNNING" "c t = call" "t \<noteq> idle_tcb"
  using assms by (simp_all add: thread_def)

lemma thread_node: "sched_inv b X H N L s \<Longrightarrow> thread s c t call \<Longrightarrow> Link t \<in> N"
  using tasks_inv_current [OF sched_inv_tasks] threadD(1) by blast

lemma objs_block:
  assumes i: "sched_inv b {} H N L s" and o: "objs_inv H N L c s" and th: "thread s c t NoCall"
    and k: "k \<in> H" "wait_head k" "waits_on x = Some k" and L: "L k = map EventLink ts"
    and i': "sched_inv b' {} H N (block_lists t w (L(k := map EventLink (prio_insert pr t ts)))) s'"
    and same: "mutexes s' = mutexes s" "semaphores s' = semaphores s" "queues s' = queues s" "timers s' = timers s"
    and tc: "\<And>y. y \<noteq> t \<Longrightarrow> task_state s' y = task_state s y \<and>
               tcb_last_wait_result (tcbs s' y) = tcb_last_wait_result (tcbs s y)"
      "task_state s' t = NIMBLE_TASK_BLOCKED"
    and sem: "\<And>q. k = SemWaiters q \<Longrightarrow> sem_count (semaphores s q) = 0"
    and mut: "\<And>m. x = InLock m \<Longrightarrow> mutex_owner (mutexes s m) \<noteq> None \<and> mutex_owner (mutexes s m) \<noteq> Some t"
    and calls: "calls_inv H (c(t := x)) s"
  shows "objs_inv H N (block_lists t w (L(k := map EventLink (prio_insert pr t ts)))) (c(t := x)) s'"
proof -
  let ?L = "L(k := map EventLink (prio_insert pr t ts))"
  note D = objs_invD [OF o]
  have sh: "shrinks H ?L (block_lists t w ?L)" by (rule shrinks_block)
  have free: "EventLink t \<notin> set (L j)" if "j \<in> H" for j
    using event_free [OF i, of t] threadD(2) [OF th] that by (auto simp: free_node_def)
  have "sem_inv H ?L s"
    using D(1) sem by (auto simp: sem_inv_def)
  then have "sem_inv H (block_lists t w ?L) s'" using same(2) by (rule sem_inv_shrinks [OF _ sh])
  moreover have "mutex_owner (mutexes s m) \<noteq> None" if "k = MutexWaiters m" for m
    using that k(3) mut by (cases x) auto
  then have "mutex_inv H ?L s" using D(2) by (auto simp: mutex_inv_def)
  then have "mutex_inv H (block_lists t w ?L) s'" using same(1) by (rule mutex_inv_shrink [OF _ sh])
  moreover have "waits_inv H ?L (c(t := x))"
    unfolding waits_inv_def
  proof (intro ballI allI impI)
    fix j y assume j: "j \<in> H" "EventLink y \<in> set (?L j)"
    show "waits_on ((c(t := x)) y) = Some j"
    proof (cases "y = t")
      case True
      then show ?thesis using j free k(3) by (cases "j = k") auto
    next
      case False
      then have "EventLink y \<in> set (L j)" using j L by (cases "j = k") auto
      then show ?thesis using False D(4) j(1) by (auto simp: waits_inv_def)
    qed
  qed
  then have "waits_inv H (block_lists t w ?L) (c(t := x))"
    by (rule waits_inv_shrink [OF _ sh sched_inv_shape [OF i']])
  moreover have "handoff_inv (c(t := x)) s'"
    using D(5) mut tc same(1) by (auto simp: handoff_inv_def woken_ok_def)
  moreover have "\<exists>xs. timers_inv H N (block_lists t w ?L) xs s'"
  proof -
    obtain xs where "timers_inv H N L xs s" using D(8) by blast
    then have "timers_inv H N ?L xs s" using k(2) by (cases k) (auto simp: timers_inv_def)
    then show ?thesis using timers_inv_shrink [OF _ sh same(4)] by blast
  qed
  moreover have "idle_inv N s'" using D(7) tc(1) threadD(4) [OF th] by (auto simp: idle_inv_def can_run_def)
  moreover have "queue_inv H s'" "calls_inv H (c(t := x)) s'"
    using D(3) calls same(3) by (simp_all add: queue_inv_def calls_inv_def)
  ultimately show ?thesis unfolding objs_inv_def by simp
qed

text \<open>A call that has put the task on a wait list of a semaphore or a queue.\<close>

lemma blocked_call:
  assumes i: "sched_inv b {} H N L s" and o: "objs_inv H N L c s" and th: "thread s c t NoCall"
    and k: "k \<in> H" "wait_head k" "waits_on x = Some k" "\<And>m. x \<noteq> InLock m" and L: "L k = map EventLink ts"
    and i': "sched_inv b {} H N (block_lists t w (L(k := map EventLink (prio_insert pr t ts)))) s'"
    and f: "s' = s\<lparr>tcbs := (tcbs s)(t := (tcbs s t)\<lparr>tcb_state := NIMBLE_TASK_BLOCKED, tcb_wake_tick := v\<rparr>),
            pendsv := True, heap := heap s', ready_bitmap := ready_bitmap s'\<rparr>"
    and sem: "\<And>q. k = SemWaiters q \<Longrightarrow> sem_count (semaphores s q) = 0"
    and calls: "calls_inv H (c(t := x)) s"
  shows "sys_inv b H N (s', c(t := x)) \<and> mutexes s' = mutexes s"
proof -
  have same: "mutexes s' = mutexes s" "semaphores s' = semaphores s" "queues s' = queues s" "timers s' = timers s"
    and tc: "\<And>y. y \<noteq> t \<Longrightarrow> tcbs s' y = tcbs s y" "task_state s' t = NIMBLE_TASK_BLOCKED"
    by (subst f, simp)+
  have "objs_inv H N (block_lists t w (L(k := map EventLink (prio_insert pr t ts)))) (c(t := x)) s'"
    by (rule objs_block [OF i o th k(1-3) L i' same]) (use tc sem calls k(4) in auto)
  then show ?thesis using i' same(1) by (auto intro: sys_invI)
qed

lemma calls_inv_simple:
  "calls_inv H c s \<Longrightarrow> calls_inv H (c(t := NoCall)) s"
  "calls_inv H c s \<Longrightarrow> calls_inv H (c(t := InLock m)) s"
  "calls_inv H c s \<Longrightarrow> calls_inv H (c(t := InTake q)) s"
  "calls_inv H c s \<Longrightarrow> calls_inv H (c(t := Arming x)) s"
  "calls_inv H c s \<Longrightarrow> calls_inv H (c(t := Armed)) s"
  by (simp_all add: calls_inv_def)

text \<open>
  When the running task goes on to a place where it waits for nothing: it is on no wait list, and
  the call it was in is over or has another section to come.
\<close>

lemma objs_call_moves:
  assumes i: "sched_inv b {} H N L s" and o: "objs_inv H N L c s" and th: "thread s c t call"
    and x: "waits_on x = None"
  shows "objs_inv H N L (c(t := x)) s"
proof -
  note D = objs_invD [OF o]
  have "EventLink t \<notin> set (L j)" if "j \<in> H" for j
    using event_free [OF i, of t] threadD(2) [OF th] that by (auto simp: free_node_def)
  then have "waits_inv H L (c(t := x))" using D(4) by (auto simp: waits_inv_def)
  moreover have "handoff_inv (c(t := x)) s" using D(5) x by (auto simp: handoff_inv_def)
  moreover have "calls_inv H (c(t := x)) s" using D(6) x by (cases x) (simp_all add: calls_inv_simple)
  ultimately show ?thesis using D unfolding objs_inv_def by simp
qed

lemmas objs_call_done = objs_call_moves [where x = NoCall, simplified]

lemma sys_inv_call_moves:
  assumes "sys_inv b H N (s, c)" "thread s c t call" "waits_on x = None"
  shows "sys_inv b H N (s, c(t := x))"
  using assms(1) by (rule sys_invE) (rule sys_invI, assumption, rule objs_call_moves [OF _ _ assms(2,3)])

lemma objs_heap: "objs_inv H N L c (s\<lparr>heap := h\<rparr>) = objs_inv H N L c s"
  by (simp add: objs_inv_def sem_inv_def mutex_inv_def queue_inv_def handoff_inv_def woken_ok_def
      calls_inv_def idle_inv_def can_run_def timers_inv_def)

section \<open>Semaphore calls\<close>

lemma take_step:
  assumes inv: "sys_inv b H N (s, c)" and th: "thread s c t NoCall" and q: "SemWaiters q \<in> H"
  shows "\<exists>r s'. nimble_semaphore_take q timeout s = Some (r, s') \<and>
     sys_inv b H N (s', after_call r t (InTake q) c) \<and> mutexes s' = mutexes s"
proof -
  obtain L where i: "sched_inv b {} H N L s" and o: "objs_inv H N L c s" using inv by (rule sys_invE)
  consider "0 < sem_count (semaphores s q)" | "sem_count (semaphores s q) = 0" "timeout = NIMBLE_NO_WAIT"
    | "sem_count (semaphores s q) = 0" "timeout \<noteq> NIMBLE_NO_WAIT"
    by (cases "timeout = NIMBLE_NO_WAIT") (auto simp: word_gt_0)
  then show ?thesis
  proof cases
    case 1
    let ?v = "(semaphores s)(q := sem_count_update (\<lambda>c. c - 1) (semaphores s q))"
    have e: "L (SemWaiters q) = []" using 1 sem_invD(2) [OF objs_invD(1) [OF o] q] by (cases "L (SemWaiters q)") simp_all
    have "sem_count (semaphores s q) - 1 \<le> sem_max_count (semaphores s q)"
      using sem_invD(1) [OF objs_invD(1) [OF o] q] 1 by (simp add: word_le_nat_alt word_gt_0 unat_minus_one)
    then have "sem_inv H L (s\<lparr>semaphores := ?v\<rparr>)"
      using objs_invD(1) [OF o] e by (auto simp: sem_inv_def)
    from objs_semaphores [OF o this] show ?thesis
      using take_available [OF 1] i by (auto intro: sys_invI)
  next
    case 2
    then show ?thesis using take_no_wait inv by simp
  next
    case 3
    obtain ts where ts: "L (SemWaiters q) = map EventLink ts"
      using wait_links [OF sched_inv_shape [OF i] q] by auto
    note T = threadD [OF th]
    obtain s' where s': "nimble_semaphore_take q timeout s = Some (Blocks, s')"
      "sys_inv b H N (s', c(t := InTake q)) \<and> mutexes s' = mutexes s"
      using take_blocks [OF i T(1,2) q ts 3] blocked_call [OF i o th q, of "InTake q"] ts 3(1)
        calls_inv_simple(3) [OF objs_invD(6) [OF o]] by fastforce
    then show ?thesis by auto
  qed
qed

lemma take_resume_step:
  assumes inv: "sys_inv b H N (s, c)" and th: "thread s c t call"
  shows "\<exists>r s'. nimble_semaphore_take_resume q t s = (r, s') \<and> sys_inv b H N (s', c(t := NoCall)) \<and>
     mutexes s' = mutexes s"
proof -
  obtain L where i: "sched_inv b {} H N L s" and o: "objs_inv H N L c s" using inv by (rule sys_invE)
  obtain r s' where s': "nimble_semaphore_take_resume q t s = (r, s')" "sched_inv b {} H N L s'"
    and f: "s' = s\<lparr>heap := heap s'\<rparr>"
    using take_resume_inv [OF i thread_node [OF i th] threadD(2) [OF th]] by blast
  have "objs_inv H N L (c(t := NoCall)) s'"
    by (subst f) (simp only: objs_heap objs_call_done [OF i o th])
  moreover have "mutexes s' = mutexes s" by (subst f) simp
  ultimately show ?thesis using s' by (blast intro: sys_invI)
qed

section \<open>Queue calls\<close>

lemma copy_item_size:
  "copy_in item x = Some x' \<Longrightarrow> queue_item_size x' = queue_item_size x"
  "copy_out x = Some (y, x') \<Longrightarrow> queue_item_size x' = queue_item_size x"
  by (auto simp: copy_in_def copy_out_def Let_def split: if_splits)

lemma copy_in_returns:
  assumes "queue_wf x" "length item = unat (queue_item_size x)" "queue_count x < queue_capacity x"
  shows "\<exists>x'. copy_in item x = Some x' \<and> queue_wf x' \<and> queue_item_size x' = queue_item_size x"
proof -
  have "item_fits x item" "length (queue_items x) < unat (queue_capacity x)"
    using assms(2,3) by (simp_all add: item_fits_def word_less_nat_alt)
  then show ?thesis using ring.put_spec [OF assms(1)] copy_item_size(1) by blast
qed

lemma copy_out_returns:
  assumes "queue_wf x" "0 < queue_count x"
  shows "\<exists>y x'. copy_out x = Some (y, x') \<and> queue_wf x' \<and> queue_item_size x' = queue_item_size x"
proof -
  obtain y ys where "queue_items x = y # ys"
    using queue_items_nonempty [OF assms(2)] by (cases "queue_items x") auto
  then show ?thesis using ring.get_spec [OF assms(1)] copy_item_size(2) by blast
qed

lemma objs_store:
  assumes i: "sched_inv b {} H N L s" and o: "objs_inv H N L c s" and k: "k \<in> H" "wait_head k" "\<And>m. k \<noteq> MutexWaiters m"
    and x: "queue_wf x" "queue_item_size x = queue_item_size (queues s q)"
    and i': "sched_inv b {} H N (woken_lists s (first_waiter k L) L) s'"
    and same: "mutexes s' = mutexes s" "semaphores s' = semaphores s" "timers s' = timers s"
    and q: "queues s' = (queues s)(q := x)" and tc: "tcbs s' = woken_tcbs (first_waiter k L) (tcbs s)"
  shows "objs_inv H N (woken_lists s (first_waiter k L) L) c s'"
proof -
  let ?s = "s\<lparr>queues := (queues s)(q := x)\<rparr>"
  have o': "objs_inv H N L c ?s" by (rule objs_queues [OF o x])
  have "woken_lists ?s (first_waiter k L) L = woken_lists s (first_waiter k L) L"
    by (rule woken_lists_cong) simp
  then show ?thesis using objs_woken [OF _ o' k, of b s'] i i' same q tc by simp
qed

lemma send_step:
  assumes inv: "sys_inv b H N (s, c)" and th: "thread s c t NoCall"
    and q: "QueueReceivers q \<in> H" "QueueSenders q \<in> H"
    and item: "length item = unat (queue_item_size (queues s q))"
  shows "\<exists>r s'. nimble_queue_send q item timeout s = Some (r, s') \<and>
     sys_inv b H N (s', after_call r t (InSend q item) c) \<and> mutexes s' = mutexes s"
proof -
  obtain L where i: "sched_inv b {} H N L s" and o: "objs_inv H N L c s" using inv by (rule sys_invE)
  have wf: "queue_wf (queues s q)" using objs_invD(3) [OF o] q by (simp add: queue_inv_def)
  consider "queue_count (queues s q) < queue_capacity (queues s q)"
    | "\<not> queue_count (queues s q) < queue_capacity (queues s q)" "timeout = NIMBLE_NO_WAIT"
    | "\<not> queue_count (queues s q) < queue_capacity (queues s q)" "timeout \<noteq> NIMBLE_NO_WAIT"
    by blast
  then show ?thesis
  proof cases
    case 1
    let ?w = "first_waiter (QueueReceivers q) L"
    obtain x where x: "copy_in item (queues s q) = Some x" "queue_wf x"
      "queue_item_size x = queue_item_size (queues s q)"
      using copy_in_returns [OF wf item 1] by blast
    obtain s' where s': "nimble_queue_send q item timeout s = Some (Returns NIMBLE_OK, s')"
      and i': "sched_inv b {} H N (woken_lists s ?w L) s'"
      and f: "s' = s\<lparr>queues := (queues s)(q := x), tcbs := woken_tcbs ?w (tcbs s),
            pendsv := (pendsv s \<or> ?w \<noteq> None), heap := heap s', ready_bitmap := ready_bitmap s'\<rparr>"
      using send_room [OF i q(1) 1 x(1)] by blast
    have "objs_inv H N (woken_lists s ?w L) c s'"
      by (rule objs_store [OF i o q(1) _ _ x(2,3) i']) (simp_all, (subst f, simp)+)
    moreover have "mutexes s' = mutexes s" by (subst f) simp
    ultimately show ?thesis using s' i' by (auto intro: sys_invI)
  next
    case 2
    then show ?thesis using send_full inv by simp
  next
    case 3
    obtain ts where ts: "L (QueueSenders q) = map EventLink ts"
      using wait_links [OF sched_inv_shape [OF i] q(2)] by auto
    note T = threadD [OF th]
    have "calls_inv H (c(t := InSend q item)) s"
      using objs_invD(6) [OF o] q(1) item by (auto simp: calls_inv_def)
    then obtain s' where s': "nimble_queue_send q item timeout s = Some (Blocks, s')"
      "sys_inv b H N (s', c(t := InSend q item)) \<and> mutexes s' = mutexes s"
      using send_blocks [OF i T(1,2) q(2) ts 3] blocked_call [OF i o th q(2), of "InSend q item"] ts by fastforce
    then show ?thesis by auto
  qed
qed

lemma receive_step:
  assumes inv: "sys_inv b H N (s, c)" and th: "thread s c t NoCall"
    and q: "QueueReceivers q \<in> H" "QueueSenders q \<in> H"
  shows "\<exists>r s'. nimble_queue_receive q timeout s = Some (r, s') \<and>
     sys_inv b H N (s', after_call r t (InReceive q) c) \<and> mutexes s' = mutexes s"
proof -
  obtain L where i: "sched_inv b {} H N L s" and o: "objs_inv H N L c s" using inv by (rule sys_invE)
  have wf: "queue_wf (queues s q)" using objs_invD(3) [OF o] q by (simp add: queue_inv_def)
  consider "0 < queue_count (queues s q)" | "queue_count (queues s q) = 0" "timeout = NIMBLE_NO_WAIT"
    | "queue_count (queues s q) = 0" "timeout \<noteq> NIMBLE_NO_WAIT"
    by (cases "timeout = NIMBLE_NO_WAIT") (auto simp: word_gt_0)
  then show ?thesis
  proof cases
    case 1
    let ?w = "first_waiter (QueueSenders q) L"
    obtain y x where x: "copy_out (queues s q) = Some (y, x)" "queue_wf x"
      "queue_item_size x = queue_item_size (queues s q)"
      using copy_out_returns [OF wf 1] by blast
    obtain s' where s': "nimble_queue_receive q timeout s = Some (Returns (NIMBLE_OK, Some y), s')"
      and i': "sched_inv b {} H N (woken_lists s ?w L) s'"
      and f: "s' = s\<lparr>queues := (queues s)(q := x), tcbs := woken_tcbs ?w (tcbs s),
            pendsv := (pendsv s \<or> ?w \<noteq> None), heap := heap s', ready_bitmap := ready_bitmap s'\<rparr>"
      using receive_item [OF i q(2) 1 x(1)] by blast
    have "objs_inv H N (woken_lists s ?w L) c s'"
      by (rule objs_store [OF i o q(2) _ _ x(2,3) i']) (simp_all, (subst f, simp)+)
    moreover have "mutexes s' = mutexes s" by (subst f) simp
    ultimately show ?thesis using s' i' by (auto intro: sys_invI)
  next
    case 2
    then show ?thesis using receive_empty inv by simp
  next
    case 3
    obtain ts where ts: "L (QueueReceivers q) = map EventLink ts"
      using wait_links [OF sched_inv_shape [OF i] q(1)] by auto
    note T = threadD [OF th]
    have "calls_inv H (c(t := InReceive q)) s"
      using objs_invD(6) [OF o] q(1) by (auto simp: calls_inv_def)
    then obtain s' where s': "nimble_queue_receive q timeout s = Some (Blocks, s')"
      "sys_inv b H N (s', c(t := InReceive q)) \<and> mutexes s' = mutexes s"
      using receive_blocks [OF i T(1,2) q(1) ts 3] blocked_call [OF i o th q(1), of "InReceive q"] ts by fastforce
    then show ?thesis by auto
  qed
qed

lemma isr_send_step:
  assumes inv: "sys_inv b H N (s, c)" and q: "QueueReceivers q \<in> H"
    and item: "length item = unat (queue_item_size (queues s q))"
  shows "\<exists>r w s'. nimble_queue_send_from_isr q item s = Some (r, w, s') \<and> sys_inv b H N (s', c) \<and>
     mutexes s' = mutexes s"
proof (cases "queue_count (queues s q) < queue_capacity (queues s q)")
  case True
  obtain L where i: "sched_inv b {} H N L s" and o: "objs_inv H N L c s" using inv by (rule sys_invE)
  have wf: "queue_wf (queues s q)" using objs_invD(3) [OF o] q by (simp add: queue_inv_def)
  let ?w = "first_waiter (QueueReceivers q) L"
  obtain x where x: "copy_in item (queues s q) = Some x" "queue_wf x"
    "queue_item_size x = queue_item_size (queues s q)"
    using copy_in_returns [OF wf item True] by blast
  obtain s' where s': "nimble_queue_send_from_isr q item s = Some (NIMBLE_OK, ?w \<noteq> None, s')"
    and i': "sched_inv b {} H N (woken_lists s ?w L) s'"
    and f: "s' = s\<lparr>queues := (queues s)(q := x), tcbs := woken_tcbs ?w (tcbs s),
            heap := heap s', ready_bitmap := ready_bitmap s'\<rparr>"
    using send_from_isr_room [OF i q True x(1)] by blast
  have "objs_inv H N (woken_lists s ?w L) c s'"
    by (rule objs_store [OF i o q _ _ x(2,3) i']) (simp_all, (subst f, simp)+)
  moreover have "mutexes s' = mutexes s" by (subst f) simp
  ultimately show ?thesis using s' i' by (blast intro: sys_invI)
qed (use send_from_isr_full inv in blast)

text \<open>The second halves, which may move an item but wake nobody.\<close>

lemma send_resume_step:
  assumes inv: "sys_inv b H N (s, c)" and th: "thread s c t (InSend q item)"
  shows "\<exists>r s'. nimble_queue_send_resume q item t s = Some (r, s') \<and> sys_inv b H N (s', c(t := NoCall)) \<and>
     mutexes s' = mutexes s"
proof -
  obtain L where i: "sched_inv b {} H N L s" and o: "objs_inv H N L c s" using inv by (rule sys_invE)
  have q: "QueueReceivers q \<in> H" "length item = unat (queue_item_size (queues s q))"
    using objs_invD(6) [OF o] threadD(3) [OF th] by (auto simp: calls_inv_def)
  have wf: "queue_wf (queues s q)" using objs_invD(3) [OF o] q by (simp add: queue_inv_def)
  let ?room = "queue_count (queues s q) < queue_capacity (queues s q)"
  obtain x where x: "?room \<Longrightarrow> copy_in item (queues s q) = Some x" "?room \<Longrightarrow> queue_wf x"
    "?room \<Longrightarrow> queue_item_size x = queue_item_size (queues s q)"
    using copy_in_returns [OF wf q(2)] by blast
  let ?moves = "tcb_last_wait_result (tcbs s t) \<noteq> NIMBLE_ERR_TIMEOUT \<and> ?room"
  let ?v = "if ?moves then (queues s)(q := x) else queues s"
  obtain r s' where s': "nimble_queue_send_resume q item t s = Some (r, s')" "sched_inv b {} H N L s'"
    and f: "s' = s\<lparr>queues := ?v, heap := heap s'\<rparr>"
    using send_resume_inv [OF i thread_node [OF i th] threadD(2) [OF th], of q item x] x(1) by blast
  have "objs_inv H N L (c(t := NoCall)) (s\<lparr>queues := ?v\<rparr>)"
    using objs_queues [OF objs_call_done [OF i o th], of q x] x(2,3) objs_call_done [OF i o th]
    by (cases ?moves) simp_all
  then have "objs_inv H N L (c(t := NoCall)) s'" by (subst f) (simp only: objs_heap)
  moreover have "mutexes s' = mutexes s" by (subst f) simp
  ultimately show ?thesis using s' by (blast intro: sys_invI)
qed

lemma receive_resume_step:
  assumes inv: "sys_inv b H N (s, c)" and th: "thread s c t (InReceive q)"
  shows "\<exists>r s'. nimble_queue_receive_resume q t s = Some (r, s') \<and> sys_inv b H N (s', c(t := NoCall)) \<and>
     mutexes s' = mutexes s"
proof -
  obtain L where i: "sched_inv b {} H N L s" and o: "objs_inv H N L c s" using inv by (rule sys_invE)
  have q: "QueueReceivers q \<in> H"
    using objs_invD(6) [OF o] threadD(3) [OF th] by (auto simp: calls_inv_def)
  have wf: "queue_wf (queues s q)" using objs_invD(3) [OF o] q by (simp add: queue_inv_def)
  let ?has = "0 < queue_count (queues s q)"
  obtain y x where x: "?has \<Longrightarrow> copy_out (queues s q) = Some (y, x)" "?has \<Longrightarrow> queue_wf x"
    "?has \<Longrightarrow> queue_item_size x = queue_item_size (queues s q)"
    using copy_out_returns [OF wf] by blast
  let ?moves = "tcb_last_wait_result (tcbs s t) \<noteq> NIMBLE_ERR_TIMEOUT \<and> ?has"
  let ?v = "if ?moves then (queues s)(q := x) else queues s"
  obtain r s' where s': "nimble_queue_receive_resume q t s = Some (r, s')" "sched_inv b {} H N L s'"
    and f: "s' = s\<lparr>queues := ?v, heap := heap s'\<rparr>"
    using receive_resume_inv [OF i thread_node [OF i th] threadD(2) [OF th], of q y x] x(1) by blast
  have "objs_inv H N L (c(t := NoCall)) (s\<lparr>queues := ?v\<rparr>)"
    using objs_queues [OF objs_call_done [OF i o th], of q x] x(2,3) objs_call_done [OF i o th]
    by (cases ?moves) simp_all
  then have "objs_inv H N L (c(t := NoCall)) s'" by (subst f) (simp only: objs_heap)
  moreover have "mutexes s' = mutexes s" by (subst f) simp
  ultimately show ?thesis using s' by (blast intro: sys_invI)
qed

section \<open>Mutex calls\<close>

lemma handoff_inv_change:
  assumes h: "handoff_inv c s" and t: "c t = NoCall"
    and own: "mutex_owner (mutexes s m) = None \<or> mutex_owner (mutexes s m) = Some t"
      "mutex_owner x = None \<or> mutex_owner x = Some t"
  shows "handoff_inv c (s\<lparr>mutexes := (mutexes s)(m := x)\<rparr>)"
  unfolding handoff_inv_def
proof (intro allI impI)
  fix y n assume y: "c y = InLock n"
  then have "y \<noteq> t" using t by auto
  moreover have "mutex_owner (mutexes s n) = Some y \<longleftrightarrow> woken_ok s y" using h y by (simp add: handoff_inv_def)
  ultimately show "(mutex_owner (mutexes (s\<lparr>mutexes := (mutexes s)(m := x)\<rparr>) n) = Some y) =
      woken_ok (s\<lparr>mutexes := (mutexes s)(m := x)\<rparr>) y"
    using own by (auto simp: woken_ok_def)
qed

lemma lock_step:
  assumes inv: "sys_inv b H N (s, c)" and th: "thread s c t NoCall" and m: "MutexWaiters m \<in> H"
    and ok: "may_boost b m t s"
  shows "\<exists>r s'. nimble_mutex_lock m timeout s = Some (r, s') \<and>
     sys_inv b H N (s', after_call r t (InLock m) c) \<and>
     (\<forall>n x. mutex_owner (mutexes s n) = Some x \<longrightarrow> mutex_owner (mutexes s' n) = Some x)"
proof -
  obtain L where i: "sched_inv b {} H N L s" and o: "objs_inv H N L c s" using inv by (rule sys_invE)
  note T = threadD [OF th] and D = objs_invD [OF o]
  let ?o = "mutex_owner (mutexes s m)"
  consider "?o = None" | "?o = Some t" | w where "?o = Some w" "w \<noteq> t" "timeout = NIMBLE_NO_WAIT"
    | w where "?o = Some w" "w \<noteq> t" "timeout \<noteq> NIMBLE_NO_WAIT"
    by (cases ?o) auto
  then show ?thesis
  proof cases
    case 1
    let ?v = "(mutexes s)(m := (mutexes s m)\<lparr>mutex_owner := Some t, mutex_lock_count := 1\<rparr>)"
    have "handoff_inv c (s\<lparr>mutexes := ?v\<rparr>)"
      by (rule handoff_inv_change [OF D(5) T(3)]) (simp_all add: 1)
    moreover have "mutex_inv H L (s\<lparr>mutexes := ?v\<rparr>)" using D(2) by (simp add: mutex_inv_def)
    ultimately have "objs_inv H N L c (s\<lparr>mutexes := ?v\<rparr>)" by (intro objs_mutexes [OF o])
    then show ?thesis using lock_free [OF 1] T(1) i 1 by (auto intro: sys_invI)
  next
    case 2
    let ?v = "(mutexes s)(m := mutex_lock_count_update (\<lambda>c. c + 1) (mutexes s m))"
    have "mutex_owner (?v n) = mutex_owner (mutexes s n)" for n by simp
    then have "mutex_inv H L (s\<lparr>mutexes := ?v\<rparr>)" "handoff_inv c (s\<lparr>mutexes := ?v\<rparr>)"
      using D(2,5) by (simp_all add: mutex_inv_def handoff_inv_def woken_ok_def)
    then have "objs_inv H N L c (s\<lparr>mutexes := ?v\<rparr>)" by (intro objs_mutexes [OF o])
    then show ?thesis using lock_recursive [of s m t timeout] 2 T(1) i by (auto intro: sys_invI)
  next
    case 3
    then show ?thesis using lock_no_wait [of s m] T(1) inv by simp
  next
    case 4
    obtain ts where ts: "L (MutexWaiters m) = map EventLink ts"
      using wait_links [OF sched_inv_shape [OF i] m] by auto
    let ?p = "task_priority s t"
    let ?B = "boost w ?p s"
    let ?L = "block_lists t timeout (L(MutexWaiters m := map EventLink (prio_insert (task_priority ?B) t ts)))"
    obtain s' where s': "nimble_mutex_lock m timeout s = Some (Blocks, s')"
      and i': "sched_inv (b \<and> boost_ok w ?p s) {} H N ?L s'"
      and f: "s' = ?B\<lparr>tcbs := (tcbs ?B)(t := (tcbs s t)\<lparr>tcb_state := NIMBLE_TASK_BLOCKED,
                 tcb_wake_tick := if timeout = NIMBLE_WAIT_FOREVER then tcb_wake_tick (tcbs s t)
                                  else g_tick_count s + timeout\<rparr>),
            pendsv := True, heap := heap s', ready_bitmap := ready_bitmap s'\<rparr>"
      using lock_blocks [OF i T(1,2) m ts 4] by blast
    have B: "semaphores ?B = semaphores s" "queues ?B = queues s" "timers ?B = timers s"
      "tcb_last_wait_result (tcbs ?B y) = tcb_last_wait_result (tcbs s y)" for y
      by (auto simp: boost_def update_tcb_def)
    have same: "mutexes s' = mutexes s" "semaphores s' = semaphores s" "queues s' = queues s" "timers s' = timers s"
      and tc: "\<And>y. y \<noteq> t \<Longrightarrow> tcbs s' y = tcbs ?B y" "task_state s' t = NIMBLE_TASK_BLOCKED"
      by (subst f, simp add: B)+
    have "objs_inv H N ?L (c(t := InLock m)) s'"
      by (rule objs_block [OF i o th m _ _ ts i' same])
        (use 4 tc B(4) calls_inv_simple(2) [OF D(6)] in auto)
    moreover have "(b \<and> boost_ok w ?p s) = b" using ok 4(1) by (auto simp: may_boost_def)
    ultimately show ?thesis using s' i' same(1) by (auto intro: sys_invI)
  qed
qed

lemma lock_resume_step:
  assumes inv: "sys_inv b H N (s, c)" and th: "thread s c t (InLock m)"
  shows "\<exists>r s'. nimble_mutex_lock_resume m t s = (r, s') \<and> sys_inv b H N (s', c(t := NoCall)) \<and>
     mutexes s' = mutexes s"
proof -
  obtain L where i: "sched_inv b {} H N L s" and o: "objs_inv H N L c s" using inv by (rule sys_invE)
  note oc = objs_call_done [OF i o th]
  show ?thesis
  proof (cases "mutex_owner (mutexes s m) = Some t")
    case True
    then show ?thesis using lock_resume_owner oc i by (auto intro: sys_invI)
  next
    case False
    obtain s' where s': "nimble_mutex_lock_resume m t s = (NIMBLE_ERR_TIMEOUT, s')" "sched_inv b {} H N L s'"
      and f: "s' = s\<lparr>heap := heap s'\<rparr>"
      using lock_resume_timeout [OF i thread_node [OF i th] threadD(2) [OF th] False] by blast
    have "objs_inv H N L (c(t := NoCall)) s'" by (subst f) (simp only: objs_heap oc)
    moreover have "mutexes s' = mutexes s" by (subst f) simp
    ultimately show ?thesis using s' by (blast intro: sys_invI)
  qed
qed

text \<open>The hand-off: the first waiter becomes the owner in the step that makes it ready.\<close>

lemma objs_handoff:
  assumes i: "sched_inv b {} H N L s" and o: "objs_inv H N L c s" and th: "thread s c t NoCall"
    and m: "MutexWaiters m \<in> H" and L: "L (MutexWaiters m) = EventLink x # ws"
    and own: "mutex_owner (mutexes s m) = Some t"
    and i': "sched_inv b {} H N (wake_lists p x L) s'"
    and same: "semaphores s' = semaphores s" "queues s' = queues s" "timers s' = timers s"
    and mu: "mutexes s' = (mutexes s)(m := \<lparr>mutex_owner = Some x, mutex_lock_count = 1\<rparr>)"
    and tc: "\<And>y. y \<noteq> x \<Longrightarrow> woken_ok s' y = woken_ok s y" "woken_ok s' x" "\<And>y. y \<noteq> x \<Longrightarrow> task_state s' y = task_state s y"
  shows "objs_inv H N (wake_lists p x L) c s'"
proof -
  note D = objs_invD [OF o]
  have xm: "EventLink x \<in> set (L (MutexWaiters m))" using L by simp
  have bl: "task_state s x = NIMBLE_TASK_BLOCKED"
    using tasks_inv_event [OF sched_inv_tasks [OF i] _ m xm] by simp
  have "waits_on (c x) = Some (MutexWaiters m)" using D(4) m xm unfolding waits_inv_def by blast
  then have cx: "c x = InLock m" by (cases "c x") auto
  have sh: "shrinks H L (wake_lists p x L)" by (rule shrinks_wake)
  have "handoff_inv c s'"
    unfolding handoff_inv_def
  proof (intro allI impI)
    fix y n assume y: "c y = InLock n"
    have old: "mutex_owner (mutexes s n) = Some y \<longleftrightarrow> woken_ok s y" using D(5) y by (simp add: handoff_inv_def)
    have "y \<noteq> t" using y threadD(3) [OF th] by auto
    show "(mutex_owner (mutexes s' n) = Some y) = woken_ok s' y"
    proof (cases "y = x")
      case True
      then have "n = m" using y cx by simp
      then show ?thesis using True mu tc(2) by simp
    next
      case False
      then show ?thesis using old mu tc(1) [OF False] own \<open>y \<noteq> t\<close> by (cases "n = m") auto
    qed
  qed
  moreover have "sem_inv H (wake_lists p x L) s'" by (rule sem_inv_shrinks [OF D(1) sh same(1)])
  moreover have "mutex_inv H (wake_lists p x L) s'"
    using mutex_inv_shrink [OF D(2) sh, of s] mu by (auto simp: mutex_inv_def)
  moreover have "queue_inv H s'" "calls_inv H c s'" using D(3,6) same(2) by (simp_all add: queue_inv_def calls_inv_def)
  moreover have "waits_inv H (wake_lists p x L) c" by (rule waits_inv_shrink [OF D(4) sh sched_inv_shape [OF i']])
  moreover have "\<exists>ts. timers_inv H N (wake_lists p x L) ts s'" using D(8) timers_inv_shrink [OF _ sh same(3)] by blast
  moreover have "idle_inv N s'" using D(7) bl tc(3) by (cases "idle_tcb = x") (auto simp: idle_inv_def can_run_def)
  ultimately show ?thesis unfolding objs_inv_def by simp
qed

lemma unlock_step:
  assumes inv: "sys_inv b H N (s, c)" and th: "thread s c t NoCall" and m: "MutexWaiters m \<in> H"
  shows "\<exists>r s'. nimble_mutex_unlock m s = Some (r, s') \<and> sys_inv b H N (s', c) \<and>
     (\<forall>n x. mutex_owner (mutexes s n) = Some x \<longrightarrow> mutex_owner (mutexes s' n) \<noteq> Some x \<longrightarrow> n = m \<and> x = t)"
proof -
  obtain L where i: "sched_inv b {} H N L s" and o: "objs_inv H N L c s" using inv by (rule sys_invE)
  note T = threadD [OF th] and D = objs_invD [OF o]
  let ?o = "mutex_owner (mutexes s m)" and ?n = "mutex_lock_count (mutexes s m)"
  consider "?o \<noteq> Some t" | "?o = Some t" "?n \<noteq> 1" | "?o = Some t" "?n = 1" "L (MutexWaiters m) = []"
    | x ws where "?o = Some t" "?n = 1" "L (MutexWaiters m) = EventLink x # ws"
    using wait_links [OF sched_inv_shape [OF i] m] by (cases "L (MutexWaiters m)") auto
  then show ?thesis
  proof cases
    case 1
    then show ?thesis using unlock_not_owner [of s m] T(1) inv by simp
  next
    case 2
    let ?v = "(mutexes s)(m := mutex_lock_count_update (\<lambda>c. c - 1) (mutexes s m))"
    have "mutex_owner (?v n) = mutex_owner (mutexes s n)" for n by simp
    then have "mutex_inv H L (s\<lparr>mutexes := ?v\<rparr>)" "handoff_inv c (s\<lparr>mutexes := ?v\<rparr>)"
      using D(2,5) by (simp_all add: mutex_inv_def handoff_inv_def woken_ok_def)
    then have "objs_inv H N L c (s\<lparr>mutexes := ?v\<rparr>)" by (intro objs_mutexes [OF o])
    then show ?thesis using unlock_nested [of s m] 2 T(1) i by (auto intro: sys_invI)
  next
    case 3
    let ?s' = "(release_state m t s)\<lparr>basepri := basepri s\<rparr>"
    let ?v = "(mutexes s)(m := \<lparr>mutex_owner = None, mutex_lock_count = 0\<rparr>)"
    have i': "sched_inv b {} H N L ?s'" using release_state_inv [OF i T(1,2), of m] by simp
    have "mutex_inv H L (s\<lparr>mutexes := ?v\<rparr>)" using D(2) 3(3) by (simp add: mutex_inv_def)
    moreover have "handoff_inv c (s\<lparr>mutexes := ?v\<rparr>)"
      by (rule handoff_inv_change [OF D(5) T(3)]) (simp_all add: 3(1))
    ultimately have "objs_inv H N L c (s\<lparr>mutexes := ?v\<rparr>)" by (intro objs_mutexes [OF o])
    then have "objs_inv H N L c ?s'"
      by (rule objs_quiet [OF _ shrinks_refl i'])
        (use D(7) in \<open>auto simp: release_state_def woken_ok_def can_run_def idle_inv_def\<close>)
    then show ?thesis using unlock_no_waiter [OF i T(1,2) m 3] i' 3(1)
      by (auto simp: release_state_def intro: sys_invI)
  next
    case 4
    obtain s' where s': "nimble_mutex_unlock m s = Some (NIMBLE_OK, s')" "x \<noteq> t"
      and i': "sched_inv b {} H N (wake_lists (unat (task_priority s x)) x L) s'"
      and f: "s' = s\<lparr>tcbs := (tcbs s)(t := (tcbs s t)\<lparr>tcb_priority := tcb_base_priority (tcbs s t)\<rparr>,
                 x := (tcbs s x)\<lparr>tcb_last_wait_result := NIMBLE_OK, tcb_state := NIMBLE_TASK_READY\<rparr>),
            mutexes := (mutexes s)(m := \<lparr>mutex_owner = Some x, mutex_lock_count = 1\<rparr>),
            pendsv := True, heap := heap s', ready_bitmap := ready_bitmap s'\<rparr>"
      using unlock_handoff [OF i T(1,2) m 4] by blast
    have same: "semaphores s' = semaphores s" "queues s' = queues s" "timers s' = timers s"
      and mu: "mutexes s' = (mutexes s)(m := \<lparr>mutex_owner = Some x, mutex_lock_count = 1\<rparr>)"
      and tc: "tcbs s' = (tcbs s)(t := (tcbs s t)\<lparr>tcb_priority := tcb_base_priority (tcbs s t)\<rparr>,
                 x := (tcbs s x)\<lparr>tcb_last_wait_result := NIMBLE_OK, tcb_state := NIMBLE_TASK_READY\<rparr>)"
      by (subst f, simp)+
    have "objs_inv H N (wake_lists (unat (task_priority s x)) x L) c s'"
      by (rule objs_handoff [OF i o th m 4(3,1) i' same mu]) (simp_all add: woken_ok_def tc)
    then show ?thesis using s' i' mu 4(1) by (auto intro: sys_invI)
  qed
qed

section \<open>Task calls\<close>

lemma delay_step:
  assumes inv: "sys_inv b H N (s, c)" and th: "thread s c t NoCall"
  shows "\<exists>s'. nimble_task_delay n s = Some s' \<and> sys_inv b H N (s', c) \<and> mutexes s' = mutexes s"
proof (cases "n = 0")
  case False
  obtain L where i: "sched_inv b {} H N L s" and o: "objs_inv H N L c s" using inv by (rule sys_invE)
  note T = threadD [OF th]
  obtain s' where s': "nimble_task_delay n s = Some s'"
    and i': "sched_inv b {} H N (enlist DelayedList (Link t) L) s'"
    and f: "s' = s\<lparr>tcbs := (tcbs s)(t := (tcbs s t)\<lparr>tcb_wake_tick := g_tick_count s + n,
                                            tcb_state := NIMBLE_TASK_BLOCKED\<rparr>),
            pendsv := True, heap := heap s', ready_bitmap := ready_bitmap s'\<rparr>"
    using delay_inv [OF i T(1,2) False] by blast
  have same: "mutexes s' = mutexes s" "semaphores s' = semaphores s" "queues s' = queues s" "timers s' = timers s"
    and tc: "\<And>y. y \<noteq> t \<Longrightarrow> tcbs s' y = tcbs s y"
    by (subst f, simp)+
  have "objs_inv H N (enlist DelayedList (Link t) L) c s'"
  proof (rule objs_quiet [OF o shrinks_enlist(2) i' same])
    fix y m assume "c y = InLock m"
    then have "y \<noteq> t" using T(3) by auto
    then show "woken_ok s' y = woken_ok s y" using tc by (simp add: woken_ok_def)
  next
    show "can_run N s' idle_tcb" using objs_invD(7) [OF o] tc T(4) by (simp add: idle_inv_def can_run_def)
  qed
  then show ?thesis using s' i' same(1) by (blast intro: sys_invI)
qed (use delay_zero inv in simp)

lemma suspend_step:
  assumes inv: "sys_inv b H N (s, c)" and x: "Link x \<in> N" "x \<noteq> idle_tcb"
  shows "\<exists>s'. nimble_task_suspend x s = Some s' \<and> sys_inv b H N (s', c) \<and> mutexes s' = mutexes s"
proof (cases "task_state s x = NIMBLE_TASK_READY \<or> task_state s x = NIMBLE_TASK_RUNNING")
  case True
  obtain L where i: "sched_inv b {} H N L s" and o: "objs_inv H N L c s" using inv by (rule sys_invE)
  obtain s' where s': "nimble_task_suspend x s = Some s'" and i': "sched_inv b {} H N (delist (Link x) L) s'"
    and f: "s' = s\<lparr>tcbs := (tcbs s)(x := (tcbs s x)\<lparr>tcb_state := NIMBLE_TASK_SUSPENDED\<rparr>),
            pendsv := (pendsv s \<or> nimble_current_tcb s = Some x),
            heap := heap s', ready_bitmap := ready_bitmap s'\<rparr>"
    using suspend_inv [OF i x(1) True] by blast
  have same: "mutexes s' = mutexes s" "semaphores s' = semaphores s" "queues s' = queues s" "timers s' = timers s"
    and tc: "tcbs s' = (tcbs s)(x := (tcbs s x)\<lparr>tcb_state := NIMBLE_TASK_SUSPENDED\<rparr>)"
    by (subst f, simp)+
  have "objs_inv H N (delist (Link x) L) c s'"
    by (rule objs_quiet [OF o shrinks_delist(1) i' same])
      (use True x(2) objs_invD(7) [OF o] in \<open>auto simp: woken_ok_def tc idle_inv_def can_run_def\<close>)
  then show ?thesis using s' i' same(1) by (blast intro: sys_invI)
qed (use suspend_other inv in auto)

lemma resume_step:
  assumes inv: "sys_inv b H N (s, c)" and x: "Link x \<in> N"
  shows "\<exists>s'. nimble_task_resume x s = Some s' \<and> sys_inv b H N (s', c) \<and> mutexes s' = mutexes s"
proof (cases "task_state s x = NIMBLE_TASK_SUSPENDED")
  case True
  obtain L where i: "sched_inv b {} H N L s" and o: "objs_inv H N L c s" using inv by (rule sys_invE)
  let ?L = "enlist (ReadyList (unat (task_priority s x))) (Link x) L"
  obtain s' where s': "nimble_task_resume x s = Some s'" and i': "sched_inv b {} H N ?L s'"
    and f: "s' = s\<lparr>tcbs := (tcbs s)(x := (tcbs s x)\<lparr>tcb_state := NIMBLE_TASK_READY\<rparr>),
            heap := heap s', ready_bitmap := ready_bitmap s'\<rparr>"
    using resume_inv [OF i x True] by blast
  have same: "mutexes s' = mutexes s" "semaphores s' = semaphores s" "queues s' = queues s" "timers s' = timers s"
    and tc: "tcbs s' = (tcbs s)(x := (tcbs s x)\<lparr>tcb_state := NIMBLE_TASK_READY\<rparr>)"
    by (subst f, simp)+
  have "objs_inv H N ?L c s'"
    by (rule objs_quiet [OF o shrinks_enlist(1) i' same])
      (use True x objs_invD(7) [OF o] in \<open>auto simp: woken_ok_def tc idle_inv_def can_run_def\<close>)
  then show ?thesis using s' i' same(1) by (blast intro: sys_invI)
qed (use resume_other inv in auto)

section \<open>Timer calls\<close>

lemma objs_timer_change:
  assumes o: "objs_inv H N L c s" and t: "timers_inv H N (L(ActiveTimers := xs)) ts s1"
    and same: "mutexes s1 = mutexes s" "semaphores s1 = semaphores s" "queues s1 = queues s" "tcbs s1 = tcbs s"
  shows "objs_inv H N (L(ActiveTimers := xs)) c s1"
proof -
  have "EventLink y \<notin> set xs" for y using t by (auto simp: timers_inv_def)
  then show ?thesis using o t same
    by (auto simp: objs_inv_def sem_inv_def mutex_inv_def waits_inv_def queue_inv_def handoff_inv_def
        woken_ok_def calls_inv_def idle_inv_def can_run_def)
qed

lemma timer_stop_step:
  assumes inv: "sys_inv b H N (s, c)" and x: "TimerLink x \<in> N"
  shows "\<exists>r s'. nimble_timer_stop x s = (r, s') \<and> sys_inv b H N (s', c) \<and> mutexes s' = mutexes s"
proof -
  obtain L where i: "sched_inv b {} H N L s" and o: "objs_inv H N L c s" using inv by (rule sys_invE)
  obtain ts where ts: "timers_inv H N L ts s" using objs_invD(8) [OF o] by blast
  let ?L = "L(ActiveTimers := map TimerLink (removeAll x ts))"
  obtain s' where s': "nimble_timer_stop x s = (NIMBLE_OK, s')" "sched_inv b {} H N ?L s'"
    "timers_inv H N ?L (removeAll x ts) s'"
    and f: "s' = s\<lparr>timers := (timers s)(x := (timers s x)\<lparr>timer_is_active := False\<rparr>), heap := heap s'\<rparr>"
    using timer_stop_inv [OF i ts x] by blast
  have same: "mutexes s' = mutexes s" "semaphores s' = semaphores s" "queues s' = queues s" "tcbs s' = tcbs s"
    by (subst f, simp)+
  from objs_timer_change [OF o s'(3) same] show ?thesis using s' same(1) by (blast intro: sys_invI)
qed

lemma timer_expire_step:
  assumes inv: "sys_inv b H N (s, c)"
  shows "\<exists>r s'. timer_expire_one s = Some (r, s') \<and> sys_inv b H N (s', c) \<and> mutexes s' = mutexes s"
proof -
  obtain L where i: "sched_inv b {} H N L s" and o: "objs_inv H N L c s" using inv by (rule sys_invE)
  obtain ts where ts: "timers_inv H N L ts s" using objs_invD(8) [OF o] by blast
  show ?thesis
  proof (cases "ts = [] \<or> 0 < time_left (g_tick_count s) (timer_expiry_tick (timers s (hd ts)))")
    case True
    then show ?thesis using expire_one_idle [OF i ts] inv by blast
  next
    case False
    then obtain t rest where "ts = t # rest" and due: "time_left (g_tick_count s) (timer_expiry_tick (timers s t)) \<le> 0"
      by (cases ts) auto
    then have ts': "timers_inv H N L (t # rest) s" using ts by simp
    let ?L = "L(ActiveTimers := map TimerLink (fire_list t rest s))"
    obtain r s' where s': "timer_expire_one s = Some (r, s')" "sched_inv b {} H N ?L s'"
      "timers_inv H N ?L (fire_list t rest s) s'"
      and f: "s' = s\<lparr>timers := (timers s)(t := fire (g_tick_count s) (timers s t)), heap := heap s'\<rparr>"
      using expire_one_fires [OF i ts' due] by blast
    have same: "mutexes s' = mutexes s" "semaphores s' = semaphores s" "queues s' = queues s" "tcbs s' = tcbs s"
      by (subst f, simp)+
    from objs_timer_change [OF o s'(3) same] show ?thesis using s' same(1) by (blast intro: sys_invI)
  qed
qed

lemma timer_arm_step:
  assumes inv: "sys_inv b H N (s, c)" and x: "TimerLink x \<in> N"
  shows "\<exists>r s'. timer_arm x s = Some (r, s') \<and> sys_inv b H N (s', c) \<and> mutexes s' = mutexes s"
proof -
  obtain L where i: "sched_inv b {} H N L s" and o: "objs_inv H N L c s" using inv by (rule sys_invE)
  obtain ts where ts: "timers_inv H N L ts s" using objs_invD(8) [OF o] by blast
  let ?L = "L(ActiveTimers := map TimerLink (start_list x ts s))"
  obtain r s' where s': "timer_arm x s = Some (r, s')" "sched_inv b {} H N ?L s'"
    "timers_inv H N ?L (start_list x ts s) s'"
    and f: "s' = s\<lparr>timers := (timers s)(x := started x s), heap := heap s'\<rparr>"
    using timer_arm_inv [OF i ts x] by blast
  have same: "mutexes s' = mutexes s" "semaphores s' = semaphores s" "queues s' = queues s" "tcbs s' = tcbs s"
    by (subst f, simp)+
  from objs_timer_change [OF o s'(3) same] show ?thesis using s' same(1) by (blast intro: sys_invI)
qed

lemma timer_start_step:
  assumes inv: "sys_inv b H N (s, c)" and x: "TimerLink x \<in> N" and sem: "SemWaiters timer_wake_sem \<in> H"
  shows "\<exists>r s'. nimble_timer_start x s = Some (r, s') \<and> sys_inv b H N (s', c) \<and> mutexes s' = mutexes s"
proof -
  obtain r s1 where s1: "timer_arm x s = Some (r, s1)" "sys_inv b H N (s1, c)" "mutexes s1 = mutexes s"
    using timer_arm_step [OF inv x] by blast
  then show ?thesis using give_step [OF s1(2) sem] by (cases r) (auto simp: nimble_timer_start_def)
qed

text \<open>Writing the period of a timer, as the reset does before it starts it, keeps the invariant.\<close>

lemma sys_inv_period:
  assumes "sys_inv b H N (s, c)"
  shows "sys_inv b H N (timer_set_period x p s, c)"
proof -
  let ?s = "timer_set_period x p s"
  obtain L where i: "sched_inv b {} H N L s" and o: "objs_inv H N L c s" using assms by (rule sys_invE)
  have "\<exists>ts. timers_inv H N L ts ?s" using objs_invD(8) [OF o] by (auto simp: timers_inv_def timer_set_period_eq)
  from objs_timers [OF o this [unfolded timer_set_period_eq]] show ?thesis
    using i unfolding timer_set_period_eq by (intro sys_invI) simp_all
qed

lemma timer_reset_step:
  assumes inv: "sys_inv b H N (s, c)" and x: "TimerLink x \<in> N" and sem: "SemWaiters timer_wake_sem \<in> H"
  shows "\<exists>r s'. nimble_timer_reset x p s = Some (r, s') \<and> sys_inv b H N (s', c) \<and> mutexes s' = mutexes s"
  using timer_start_step [OF sys_inv_period [OF inv, of x p] x sem] by (simp add: nimble_timer_reset_def timer_set_period_eq)

section \<open>Every step\<close>

definition lost :: "kernel \<Rightarrow> kernel \<Rightarrow> mutex_ptr \<Rightarrow> tcb_ptr \<Rightarrow> bool" where
  "lost s s' m x \<longleftrightarrow> mutex_owner (mutexes s m) = Some x \<and> mutex_owner (mutexes s' m) \<noteq> Some x"

lemma lost_same: "mutexes s' = mutexes s \<Longrightarrow> \<not> lost s s' m x"
  by (simp add: lost_def)

lemma request_fields [simp]:
  "mutexes (nimble_port_request_context_switch s) = mutexes s"
  "sys_inv b H N (nimble_port_request_context_switch s, c) = sys_inv b H N (s, c)"
  by (simp_all add: nimble_port_request_context_switch_def)

definition step_ok :: "bool \<Rightarrow> node set \<Rightarrow> node set \<Rightarrow> kernel \<times> calls \<Rightarrow> kernel \<times> calls \<Rightarrow> bool" where
  "step_ok b H N x y \<longleftrightarrow> sys_inv b H N y \<and>
     (\<forall>m t. lost (fst x) (fst y) m t \<longrightarrow>
        thread (fst x) (snd x) t NoCall \<and> (\<exists>r. nimble_mutex_unlock m (fst x) = Some (r, fst y)))"

lemma step_okI:
  assumes "\<exists>s'. op = Some s' \<and> sys_inv b H N (s', c) \<and> mutexes s' = mutexes s" "op = Some s'"
  shows "step_ok b H N (s, c) (s', c)"
  using assms lost_same by (auto simp: step_ok_def)

lemma step_okI_total:
  assumes "\<exists>r s'. op = (r, s') \<and> sys_inv b H N (s', c') \<and> mutexes s' = mutexes s" "op = (r, s')"
  shows "step_ok b H N (s, c) (s', c')"
  using assms lost_same by (auto simp: step_ok_def)

lemma step_sound:
  assumes "sys_step b H N x y" "sys_inv b H N x"
  shows "step_ok b H N x y"
  using assms
proof (induction rule: sys_step.induct)
  case (tick s s' c)
  show ?case by (rule step_okI [OF tick_step tick(1)]) (rule tick(2))
next
  case (switch s s' c)
  show ?case by (rule step_okI [OF switch_step switch(2)]) (use switch in simp_all)
next
  case (isr_give q s r w s' c)
  show ?case
    using isr_give_step [OF isr_give(3,1)] isr_give(2) lost_same by (auto simp: step_ok_def)
next
  case (isr_send q item s r w s' c)
  show ?case
    using isr_send_step [OF isr_send(4,1,2)] isr_send(3) lost_same by (auto simp: step_ok_def)
next
  case (yield s c t call)
  then show ?case using lost_same by (simp add: nimble_task_yield_def step_ok_def)
next
  case (delay s c t n s')
  show ?case by (rule step_okI [OF delay_step [OF delay(3,1)] delay(2)])
next
  case (suspend s c t x s')
  show ?case by (rule step_okI [OF suspend_step [OF suspend(5,2,3)] suspend(4)])
next
  case (resume s c t x s')
  show ?case by (rule step_okI [OF resume_step [OF resume(4,2)] resume(3)])
next
  case (lock s c t m timeout r s')
  show ?case
    using lock_step [OF lock(5,1,2,3), of timeout] lock(4) by (auto simp: step_ok_def lost_def)
next
  case (lock_resume s c t m r s')
  show ?case by (rule step_okI_total [OF lock_resume_step [OF lock_resume(3,1)] lock_resume(2)])
next
  case (unlock s c t m r s')
  obtain u where u: "sys_inv b H N (s', c)" "\<And>n x. lost s s' n x \<Longrightarrow> n = m \<and> x = t"
    using unlock_step [OF unlock(4,1,2)] unlock(3) by (auto simp: lost_def)
  then show ?case using unlock(1,3) by (auto simp: step_ok_def dest!: u(2))
next
  case (take s c t q timeout r s')
  show ?case
    using take_step [OF take(4,1,2), of timeout] take(3) lost_same by (auto simp: step_ok_def)
next
  case (take_resume s c t q r s')
  show ?case by (rule step_okI_total [OF take_resume_step [OF take_resume(3,1)] take_resume(2)])
next
  case (give s c t q r s')
  show ?case using give_step [OF give(4,2)] give(3) lost_same by (auto simp: step_ok_def)
next
  case (send s c t q item timeout r s')
  show ?case using send_step [OF send(6,1-4), of timeout] send(5) lost_same by (auto simp: step_ok_def)
next
  case (send_resume s c t q item r s')
  show ?case using send_resume_step [OF send_resume(3,1)] send_resume(2) lost_same by (auto simp: step_ok_def)
next
  case (receive s c t q timeout r s')
  show ?case using receive_step [OF receive(5,1-3), of timeout] receive(4) lost_same by (auto simp: step_ok_def)
next
  case (receive_resume s c t q r s')
  show ?case
    using receive_resume_step [OF receive_resume(3,1)] receive_resume(2) lost_same by (auto simp: step_ok_def)
next
  case (timer_period s c t x p)
  have "mutexes (timer_set_period x p s) = mutexes s" by (simp add: timer_set_period_eq)
  then show ?case
    using sys_inv_period [OF sys_inv_call_moves [OF timer_period(4,1)]] lost_same by (simp add: step_ok_def)
next
  case (timer_arm s c t call x r s')
  let ?c = "c(t := if r then Armed else NoCall)"
  have "sys_inv b H N (s, ?c)" by (rule sys_inv_call_moves [OF timer_arm(6,1)]) simp
  from timer_arm_step [OF this timer_arm(4)] show ?case using timer_arm(5) lost_same by (auto simp: step_ok_def)
next
  case (timer_wake s c t r s')
  have "sys_inv b H N (s, c(t := NoCall))" by (rule sys_inv_call_moves [OF timer_wake(4,1)]) simp
  from give_step [OF this timer_wake(2)] show ?case using timer_wake(3) lost_same by (auto simp: step_ok_def)
next
  case (timer_stop s c t x r s')
  show ?case by (rule step_okI_total [OF timer_stop_step [OF timer_stop(4,2)] timer_stop(3)])
next
  case (timer_expire s c r s')
  show ?case using timer_expire_step [OF timer_expire(3)] timer_expire(2) lost_same by (auto simp: step_ok_def)
qed

end
