(* ===== verification/Board.thy ===== *)
theory Board
  imports Kernel_State
begin

text \<open>
  The STM32F4 bring-up of \<^verbatim>\<open>port/stm32f4/system_stm32f4xx.c\<close>: the four memory-mapped registers
  it writes are the fields of a record. \<^verbatim>\<open>UL\<close> constants are 32 bits wide on this target.
\<close>

record mcu_regs =
  SCB_SHPR3 :: u32
  STK_CTRL :: u32
  STK_LOAD :: u32
  STK_VAL :: u32

definition HSI_CLOCK_HZ :: u32 where
  "HSI_CLOCK_HZ = 16000000"

definition NIMBLE_TICK_RATE_HZ :: u32 where
  "NIMBLE_TICK_RATE_HZ = 1000"

definition NVIC_PRIO_PENDSV_SYSTICK :: u32 where
  "NVIC_PRIO_PENDSV_SYSTICK = 0xF0"

definition STK_CTRL_ENABLE :: u32 where
  "STK_CTRL_ENABLE = push_bit 0 1"

definition STK_CTRL_TICKINT :: u32 where
  "STK_CTRL_TICKINT = push_bit 1 1"

definition STK_CTRL_CLKSOURCE :: u32 where
  "STK_CTRL_CLKSOURCE = push_bit 2 1"

definition nimble_stm32f4_nvic_priority_init :: "mcu_regs \<Rightarrow> mcu_regs" where
  "nimble_stm32f4_nvic_priority_init r =
     (let shpr3 = SCB_SHPR3 r;
          shpr3 = shpr3 AND NOT (push_bit 16 0xFF);
          shpr3 = shpr3 AND NOT (push_bit 24 0xFF);
          shpr3 = shpr3 OR push_bit 16 NVIC_PRIO_PENDSV_SYSTICK;
          shpr3 = shpr3 OR push_bit 24 NVIC_PRIO_PENDSV_SYSTICK
      in r\<lparr>SCB_SHPR3 := shpr3\<rparr>)"

definition nimble_stm32f4_systick_init :: "u32 \<Rightarrow> mcu_regs \<Rightarrow> mcu_regs" where
  "nimble_stm32f4_systick_init core_clock_hz r =
     (let reload = core_clock_hz div NIMBLE_TICK_RATE_HZ - 1;
          r = r\<lparr>STK_LOAD := reload\<rparr>;
          r = r\<lparr>STK_VAL := 0\<rparr>
      in r\<lparr>STK_CTRL := STK_CTRL_CLKSOURCE OR STK_CTRL_TICKINT OR STK_CTRL_ENABLE\<rparr>)"

definition nimble_stm32f4_system_init :: "mcu_regs \<Rightarrow> mcu_regs" where
  "nimble_stm32f4_system_init r =
     (let r = nimble_stm32f4_nvic_priority_init r
      in nimble_stm32f4_systick_init HSI_CLOCK_HZ r)"

section \<open>What the registers hold afterwards\<close>

definition shpr3_value :: "u32 \<Rightarrow> u32" where
  "shpr3_value x =
     ((((x AND NOT (push_bit 16 0xFF)) AND NOT (push_bit 24 0xFF)) OR push_bit 16 0xF0) OR push_bit 24 0xF0)"

lemma byte_masks: "(0xFF :: u32) = mask 8" "(0xF0 :: u32) = push_bit 4 (mask 4)" "(0xFFFF :: u32) = mask 16"
  by (simp_all add: mask_eq_exp_minus_1)

lemma shpr3_value_bits:
  "drop_bit 16 (shpr3_value x) AND 0xFF = 0xF0" "drop_bit 24 (shpr3_value x) = 0xF0"
  "shpr3_value x AND 0xFFFF = x AND 0xFFFF"
  unfolding shpr3_value_def byte_masks
  by (rule bit_word_eqI; auto simp: bit_simps)+

text \<open>
  After the bring-up PendSV and SysTick have priority \<^verbatim>\<open>0xF0\<close>, which is the lowest and lies on
  the masked side of \<^verbatim>\<open>NIMBLE_KERNEL_SYSCALL_BASEPRI\<close>; the other half of the register is as it
  was. SysTick counts the core clock with its interrupt enabled and a reload value that fits its
  24 bits and gives exactly \<^verbatim>\<open>NIMBLE_TICK_RATE_HZ\<close> interrupts per second.
\<close>

lemma board_bring_up:
  fixes r :: mcu_regs
  defines "r' \<equiv> nimble_stm32f4_system_init r"
  shows "drop_bit 16 (SCB_SHPR3 r') AND 0xFF = 0xF0 \<and> drop_bit 24 (SCB_SHPR3 r') = 0xF0 \<and>
     NIMBLE_KERNEL_SYSCALL_BASEPRI \<le> drop_bit 24 (SCB_SHPR3 r') \<and>
     SCB_SHPR3 r' AND 0xFFFF = SCB_SHPR3 r AND 0xFFFF \<and>
     STK_CTRL r' = 7 \<and> STK_VAL r' = 0 \<and> STK_LOAD r' < 2 ^ 24 \<and>
     (unat (STK_LOAD r') + 1) * unat NIMBLE_TICK_RATE_HZ = unat HSI_CLOCK_HZ"
proof -
  have s: "SCB_SHPR3 r' = shpr3_value (SCB_SHPR3 r)"
    by (simp add: r'_def nimble_stm32f4_system_init_def nimble_stm32f4_nvic_priority_init_def
        nimble_stm32f4_systick_init_def NVIC_PRIO_PENDSV_SYSTICK_def shpr3_value_def Let_def)
  have l: "STK_LOAD r' = 15999" "STK_VAL r' = 0" "STK_CTRL r' = 7"
    by (simp_all add: r'_def nimble_stm32f4_system_init_def nimble_stm32f4_nvic_priority_init_def
        nimble_stm32f4_systick_init_def HSI_CLOCK_HZ_def NIMBLE_TICK_RATE_HZ_def Let_def
        STK_CTRL_ENABLE_def STK_CTRL_TICKINT_def STK_CTRL_CLKSOURCE_def)
  show ?thesis unfolding s l shpr3_value_bits
    by (simp add: NIMBLE_KERNEL_SYSCALL_BASEPRI_def HSI_CLOCK_HZ_def NIMBLE_TICK_RATE_HZ_def)
qed

end
