(* ===== verification/Preemption.thy ===== *)
theory Preemption
  imports System_Steps Board
begin

text \<open>
  The kernel below the level of whole handlers. Here the code of an exception handler is a list of
  single accesses to the shared state, and any exception of a higher priority can come between two
  of them; the code of a task is interrupted by everything, but for its critical sections, which run
  with BASEPRI raised. Nothing in the kernel masks the context switch or the interrupt handlers:
  \<^verbatim>\<open>context_switch.S\<close> leaves BASEPRI alone. What keeps them apart is that they have the same
  priority, and \<open>preempt_serial\<close> says that this is enough: every interleaving of accesses is one
  of whole handlers and sections, as \<open>sys_step\<close> has them. \<open>context_switch_races\<close> says that the
  range of priorities which \<^verbatim>\<open>NIMBLE_KERNEL_SYSCALL_BASEPRI\<close> admits is not.
\<close>

section \<open>Nested code\<close>

text \<open>
  An access acts on the registers of the code it belongs to and on the shared state;
  \<open>None\<close> is undefined behaviour. With each access comes the value of BASEPRI it runs under,
  \<open>unmasked\<close> standing for 0.
\<close>

type_synonym ('r, 's) code = "(nat \<times> ('r \<times> 's \<Rightarrow> ('r \<times> 's) option)) list"

definition unmasked :: nat where
  "unmasked = 256"

primrec run_code :: "('r, 's) code \<Rightarrow> 'r \<times> 's \<Rightarrow> ('r \<times> 's) option" where
  "run_code [] x = Some x"
| "run_code (a # as) x = do { y \<leftarrow> snd a x; run_code as y }"

text \<open>Code that has begun: its priority, what is left of it, its registers.\<close>

datatype ('r, 's) frame = Frame (frame_level: nat) (frame_code: "('r, 's) code") (frame_registers: 'r)

fun frame_priority :: "('r, 's) frame \<Rightarrow> nat" where
  "frame_priority (Frame l [] r) = l"
| "frame_priority (Frame l (a # as) r) = min l (fst a)"

definition exec_priority :: "('r, 's) frame list \<Rightarrow> nat" where
  "exec_priority fs = fold (min \<circ> frame_priority) fs unmasked"

text \<open>
  \<open>prio e\<close> is the priority of exception \<open>e\<close>, a lower number being more urgent. \<open>exc e\<close> relates
  the states before and after the handler of \<open>e\<close> when it is left alone, \<open>sect\<close> those before and
  after a critical section; a handler or section may be any code with that outcome.
\<close>

inductive preempt :: "('e \<Rightarrow> nat) \<Rightarrow> ('e \<Rightarrow> 's \<Rightarrow> 's \<Rightarrow> bool) \<Rightarrow> ('s \<Rightarrow> 's \<Rightarrow> bool) \<Rightarrow>
    's \<times> ('r, 's) frame list \<Rightarrow> 's \<times> ('r, 's) frame list \<Rightarrow> bool"
  for prio exc sect where
  exception: "prio e < exec_priority fs \<Longrightarrow> exc e s s' \<Longrightarrow> run_code as (r, s) = Some (r', s') \<Longrightarrow>
    preempt prio exc sect (s, fs) (s, Frame (prio e) as r # fs)"
| critical: "sect s s' \<Longrightarrow> run_code as (r, s) = Some (r', s') \<Longrightarrow>
    preempt prio exc sect (s, []) (s, [Frame (unat NIMBLE_KERNEL_SYSCALL_BASEPRI) as r])"
| access: "snd a (r, s) = Some (r', s') \<Longrightarrow>
    preempt prio exc sect (s, Frame l (a # as) r # fs) (s', Frame l as r' # fs)"
| finish: "preempt prio exc sect (s, Frame l [] r # fs) (s, fs)"

definition whole_step :: "('e \<Rightarrow> 's \<Rightarrow> 's \<Rightarrow> bool) \<Rightarrow> ('s \<Rightarrow> 's \<Rightarrow> bool) \<Rightarrow> 's \<Rightarrow> 's \<Rightarrow> bool" where
  "whole_step exc sect x y \<longleftrightarrow> (\<exists>e. exc e x y) \<or> sect x y"

text \<open>The state in which the code that is under way, if any, will have come to its end.\<close>

fun ends_in :: "('r, 's) frame list \<Rightarrow> 's \<Rightarrow> 's \<Rightarrow> bool" where
  "ends_in [] y z \<longleftrightarrow> y = z"
| "ends_in [f] y z \<longleftrightarrow> (\<exists>r'. run_code (frame_code f) (frame_registers f, y) = Some (r', z))"
| "ends_in _ y z \<longleftrightarrow> False"

lemma syscall_priority: "unat NIMBLE_KERNEL_SYSCALL_BASEPRI = 80"
  by (simp add: NIMBLE_KERNEL_SYSCALL_BASEPRI_def)

lemma frame_priority_le: "frame_priority (Frame l as r) \<le> l"
  by (cases as) auto

lemma exec_priority_single: "exec_priority [f] \<le> frame_priority f"
  by (simp add: exec_priority_def)

theorem preempt_serial:
  assumes p: "\<And>e. prio e = p" "unat NIMBLE_KERNEL_SYSCALL_BASEPRI \<le> p"
    and run: "(preempt prio exc sect)\<^sup>*\<^sup>* (x, []) (y, fs)"
  shows "\<exists>z. (whole_step exc sect)\<^sup>*\<^sup>* x z \<and> ends_in fs y z"
proof -
  have "\<exists>z. (whole_step exc sect)\<^sup>*\<^sup>* x z \<and> ends_in (snd w) (fst w) z \<and> (\<forall>f\<in>set (snd w). frame_level f \<le> p)"
    if "(preempt prio exc sect)\<^sup>*\<^sup>* (x, []) w" for w
    using that
  proof (induction rule: rtranclp_induct)
    case base
    show ?case by auto
  next
    case (step w w')
    then obtain z where z: "(whole_step exc sect)\<^sup>*\<^sup>* x z" and e: "ends_in (snd w) (fst w) z"
      and l: "\<forall>f\<in>set (snd w). frame_level f \<le> p" by blast
    from step(2) show ?case
    proof cases
      case (exception e fs s s' as r r')
      have "fs = []"
      proof (cases fs)
        case (Cons f fs')
        then have "fs' = []" using e exception(1) by (cases fs') auto
        moreover have "frame_priority f \<le> p"
          using l exception(1) Cons by (cases f) (auto intro: order_trans [OF frame_priority_le])
        ultimately show ?thesis using exception(3) Cons p(1) exec_priority_single [of f] by simp
      qed simp
      moreover have "whole_step exc sect s s'" using exception(4) by (auto simp: whole_step_def)
      ultimately show ?thesis using z e exception p(1) by (auto intro: rtranclp.rtrancl_into_rtrancl)
    next
      case (critical s s' as r r')
      have "whole_step exc sect s s'" using critical(3) by (simp add: whole_step_def)
      then show ?thesis using z e critical p(2) by (auto intro: rtranclp.rtrancl_into_rtrancl)
    next
      case (access a r s r' s' l as fs)
      then show ?thesis using z e l by (cases fs) auto
    next
      case (finish s l r fs)
      then show ?thesis using z e l by (cases fs) auto
    qed
  qed
  from this [OF run] show ?thesis by auto
qed

section \<open>The exceptions of the kernel\<close>

datatype exception = Exc_SysTick | Exc_PendSV | Exc_IRQ nat

text \<open>
  The priorities of PendSV and SysTick are bytes of the register that
  \<^verbatim>\<open>nimble_stm32f4_nvic_priority_init\<close> writes; those of the interrupts are the board's.
\<close>

definition exception_priority :: "mcu_regs \<Rightarrow> (nat \<Rightarrow> nat) \<Rightarrow> exception \<Rightarrow> nat" where
  "exception_priority r irq e =
     (case e of
        Exc_PendSV \<Rightarrow> unat (drop_bit 16 (SCB_SHPR3 r) AND 0xFF)
      | Exc_SysTick \<Rightarrow> unat (drop_bit 24 (SCB_SHPR3 r))
      | Exc_IRQ n \<Rightarrow> irq n)"

text \<open>An interrupt handler makes any number of calls of the functions for interrupts.\<close>

inductive isr_call :: "node set \<Rightarrow> kernel \<times> calls \<Rightarrow> kernel \<times> calls \<Rightarrow> bool" for H where
  give: "SemWaiters q \<in> H \<Longrightarrow> nimble_semaphore_give_from_isr q s = Some (r, w, s') \<Longrightarrow>
    isr_call H (s, c) (if w then nimble_port_request_context_switch s' else s', c)"
| send: "QueueReceivers q \<in> H \<Longrightarrow> length item = unat (queue_item_size (queues s q)) \<Longrightarrow>
    nimble_queue_send_from_isr q item s = Some (r, w, s') \<Longrightarrow>
    isr_call H (s, c) (if w then nimble_port_request_context_switch s' else s', c)"

definition handler_runs :: "node set \<Rightarrow> exception \<Rightarrow> kernel \<times> calls \<Rightarrow> kernel \<times> calls \<Rightarrow> bool" where
  "handler_runs H e x y \<longleftrightarrow>
     (case e of
        Exc_SysTick \<Rightarrow> SysTick_Handler (fst x) = Some (fst y) \<and> snd y = snd x
      | Exc_PendSV \<Rightarrow> pendsv (fst x) \<and> PendSV_Handler (fst x) = Some (fst y) \<and> snd y = snd x
      | Exc_IRQ n \<Rightarrow> (isr_call H)\<^sup>*\<^sup>* x y)"

text \<open>A critical section is a step of the running task.\<close>

definition task_section :: "bool \<Rightarrow> node set \<Rightarrow> node set \<Rightarrow> kernel \<times> calls \<Rightarrow> kernel \<times> calls \<Rightarrow> bool" where
  "task_section b H N x y \<longleftrightarrow> sys_step b H N x y \<and> (\<exists>t call. thread (fst x) (snd x) t call)"

lemma isr_calls_steps: "(isr_call H)\<^sup>*\<^sup>* x y \<Longrightarrow> (sys_step b H N)\<^sup>*\<^sup>* x y"
proof (induction rule: rtranclp_induct)
  case (step y z)
  have "sys_step b H N y z"
    using step(2) by cases (auto intro: sys_step.isr_give [where w = True, simplified]
        sys_step.isr_give [where w = False, simplified]
        sys_step.isr_send [where w = True, simplified] sys_step.isr_send [where w = False, simplified])
  then show ?case using step(3) by simp
qed simp

lemma whole_steps:
  assumes "whole_step (handler_runs H) (task_section b H N) x y"
  shows "(sys_step b H N)\<^sup>*\<^sup>* x y"
proof -
  have "(sys_step b H N)\<^sup>*\<^sup>* x y" if "handler_runs H e x y" for e
    using that sys_step.tick [of "fst x" "fst y" b H N "snd x"] sys_step.switch [of "fst x" "fst y" b H N "snd x"]
    by (cases x; cases y; cases e) (auto simp: handler_runs_def intro: isr_calls_steps)
  then show ?thesis using assms by (auto simp: whole_step_def task_section_def)
qed

lemma whole_reaches:
  assumes "(whole_step (handler_runs H) (task_section b H N))\<^sup>*\<^sup>* x y"
  shows "(sys_step b H N)\<^sup>*\<^sup>* x y"
  using assms by (induction rule: rtranclp_induct) (auto intro: rtranclp_trans whole_steps)

text \<open>The machine of the kernel on this board, and what \<open>preempt_serial\<close> says of it.\<close>

definition board_step :: "mcu_regs \<Rightarrow> (nat \<Rightarrow> nat) \<Rightarrow> bool \<Rightarrow> node set \<Rightarrow> node set \<Rightarrow>
    (kernel \<times> calls) \<times> ('r, kernel \<times> calls) frame list \<Rightarrow> (kernel \<times> calls) \<times> ('r, kernel \<times> calls) frame list \<Rightarrow> bool" where
  "board_step regs irq b H N =
     preempt (exception_priority (nimble_stm32f4_system_init regs) irq) (handler_runs H) (task_section b H N)"

lemma shared_priority:
  assumes "\<forall>n. irq n = unat NVIC_PRIO_PENDSV_SYSTICK"
  shows "exception_priority (nimble_stm32f4_system_init regs) irq e = 0xF0"
  using assms board_bring_up [of regs] by (cases e) (auto simp: exception_priority_def NVIC_PRIO_PENDSV_SYSTICK_def)

lemma board_serial:
  assumes "\<forall>n. irq n = unat NVIC_PRIO_PENDSV_SYSTICK" "(board_step regs irq b H N)\<^sup>*\<^sup>* (x, []) (y, fs)"
  shows "\<exists>z. (sys_step b H N)\<^sup>*\<^sup>* x z \<and> ends_in fs y z"
proof -
  have "\<exists>z. (whole_step (handler_runs H) (task_section b H N))\<^sup>*\<^sup>* x z \<and> ends_in fs y z"
    using assms(2) unfolding board_step_def
    by (rule preempt_serial [where p = "0xF0", rotated -1]) (simp_all add: shared_priority [OF assms(1)] syscall_priority)
  then show ?thesis using whole_reaches by blast
qed

section \<open>An interrupt inside the context switch\<close>

text \<open>
  \<^verbatim>\<open>PendSV_Handler\<close> as single accesses, as far as the ready bitmap is concerned: the current task
  goes to its ready list, then its bit goes into the bitmap, a load and a store. The registers hold
  the word loaded and the task.
\<close>

type_synonym switch_registers = "u32 \<times> tcb_ptr option"

definition access_save :: "switch_registers \<times> kernel \<times> calls \<Rightarrow> (switch_registers \<times> kernel \<times> calls) option" where
  "access_save = (\<lambda>(r, s, c). Some (r, switch_out s, c))"

definition access_requeue :: "switch_registers \<times> kernel \<times> calls \<Rightarrow> (switch_registers \<times> kernel \<times> calls) option" where
  "access_requeue = (\<lambda>((w, _), s, c).
     case nimble_current_tcb s of
       None \<Rightarrow> Some ((w, None), s, c)
     | Some t \<Rightarrow>
         if task_state s t \<noteq> NIMBLE_TASK_RUNNING then Some ((w, None), s, c)
         else if NIMBLE_MAX_PRIORITIES \<le> task_priority s t then None
         else Some ((w, Some t), update_heap (nimble_list_insert_tail (ReadyList (unat (task_priority s t))) (Link t))
                (update_tcb t (tcb_state_update (\<lambda>_. NIMBLE_TASK_READY)) s), c))"

definition access_load :: "switch_registers \<times> kernel \<times> calls \<Rightarrow> (switch_registers \<times> kernel \<times> calls) option" where
  "access_load = (\<lambda>((_, q), s, c). Some ((ready_bitmap s, q), s, c))"

definition access_store :: "switch_registers \<times> kernel \<times> calls \<Rightarrow> (switch_registers \<times> kernel \<times> calls) option" where
  "access_store = (\<lambda>((w, q), s, c).
     case q of
       None \<Rightarrow> Some ((w, q), s, c)
     | Some t \<Rightarrow> Some ((w, q), s\<lparr>ready_bitmap := w OR bit_mask (unat (task_priority s t))\<rparr>, c))"

definition switch_to_top :: "kernel \<Rightarrow> kernel option" where
  "switch_to_top s =
     do { prio \<leftarrow> highest_set_bit (ready_bitmap s);
          next \<leftarrow> container_of_link (node_next (heap s) (ReadyList (unat prio)));
          s \<leftarrow> nimble_scheduler_remove next s;
          let s = update_tcb next (tcb_state_update (\<lambda>_. NIMBLE_TASK_RUNNING)) s;
          let s = s\<lparr>nimble_next_tcb := Some next, nimble_current_tcb := Some next\<rparr>;
          let r0 = tcb_sp (tcbs s next);
          Some ((load_r4_r11 r0 s)\<lparr>psp := r0 + 32\<rparr>) }"

definition access_rest :: "switch_registers \<times> kernel \<times> calls \<Rightarrow> (switch_registers \<times> kernel \<times> calls) option" where
  "access_rest = (\<lambda>(r, s, c). map_option (\<lambda>s'. (r, s', c)) (switch_to_top s))"

definition switch_code :: "(switch_registers, kernel \<times> calls) code" where
  "switch_code = map (Pair unmasked) [access_save, access_requeue, access_load, access_store, access_rest]"

lemmas access_defs = access_save_def access_requeue_def access_load_def access_store_def access_rest_def

lemma PendSV_by_switch_to_top:
  "PendSV_Handler s = Option.bind (requeue_current (switch_out s)) switch_to_top"
proof -
  have "PendSV_Handler s =
    do { (_, s) \<leftarrow> nimble_scheduler_select_next (switch_out s);
         next \<leftarrow> nimble_next_tcb s;
         let s = s\<lparr>nimble_current_tcb := Some next\<rparr>;
         let r0 = tcb_sp (tcbs s next);
         let s = load_r4_r11 r0 s;
         Some (s\<lparr>psp := r0 + 32\<rparr>) }"
    by (simp add: PendSV_Handler_def switch_out_def Let_def split: option.splits)
  then show ?thesis
    by (simp add: nimble_scheduler_select_next_def switch_to_top_def Let_def bind_assoc
        split: bind_splits option.splits)
qed

lemma switch_code_run:
  "\<exists>r'. run_code switch_code (r, s, c) = map_option (\<lambda>s'. (r', s', c)) (PendSV_Handler s)"
  unfolding PendSV_by_switch_to_top
  by (cases r)
    (auto simp: switch_code_def access_defs requeue_current_def nimble_scheduler_add_ready_def Let_def
      kdefs split: option.splits)

lemma access_step:
  "a (r, s) = Some (r', s') \<Longrightarrow> preempt prio exc sect (s, Frame l ((m, a) # as) r # fs) (s', Frame l as r' # fs)"
  by (rule preempt.access) simp

lemma switch_to_top_eq:
  assumes p: "highest_set_bit (ready_bitmap s) = Some p" "node_next (heap s) (ReadyList (unat p)) = Link n"
    and n: "unat (task_priority s n) < 32"
  shows "\<exists>s'. switch_to_top s = Some s' \<and> nimble_current_tcb s' = Some n \<and>
     heap s' = nimble_list_remove (Link n) (heap s) \<and> (\<forall>x. x \<noteq> n \<longrightarrow> tcbs s' x = tcbs s x) \<and>
     (\<forall>i. bit (ready_bitmap s') i \<longrightarrow> bit (ready_bitmap s) i) \<and> pendsv s' = pendsv s"
  using p by (simp add: switch_to_top_def remove_eq [OF n] Let_def load_r4_r11_def update_tcb_def bit_clear_mask)

text \<open>
  An interrupt of a priority between those of BASEPRI and PendSV wakes a task between the load and
  the store. The store writes back a bitmap without the bit of the task, which is then ready and on its
  list, but the context switch passes it over, whatever its priority.
\<close>

definition passed_over :: "tcb_ptr \<Rightarrow> kernel \<Rightarrow> bool" where
  "passed_over w s \<longleftrightarrow> nimble_current_tcb s \<noteq> Some w \<and> task_state s w = NIMBLE_TASK_READY \<and> pendsv s \<and>
     node_next (heap s) (ReadyList (unat (task_priority s w))) = Link w \<and>
     \<not> bit (ready_bitmap s) (unat (task_priority s w))"

lemma lost_bit:
  assumes inv: "sched_inv True {} H N L s" and cur: "nimble_current_tcb s = Some t"
    and run: "task_state s t = NIMBLE_TASK_RUNNING"
    and peer: "L (ReadyList (unat (task_priority s t))) \<noteq> []"
    and q: "SemWaiters q \<in> H" "L (SemWaiters q) = EventLink w # ws"
    and alone: "L (ReadyList (unat (task_priority s w))) = []"
  shows "\<exists>m s2 s4 s'. PendSV_Handler s \<noteq> None \<and>
     access_requeue ((v, x), switch_out s, c) = Some ((v, Some t), m, c) \<and>
     access_load ((v, Some t), m, c) = Some ((ready_bitmap s, Some t), m, c) \<and>
     nimble_semaphore_give_from_isr q m = Some (NIMBLE_OK, True, s2) \<and>
     access_store ((ready_bitmap s, Some t), nimble_port_request_context_switch s2, c) =
       Some ((ready_bitmap s, Some t), s4, c) \<and>
     access_rest ((ready_bitmap s, Some t), s4, c) = Some ((ready_bitmap s, Some t), s', c) \<and>
     passed_over w s'"
proof -
  define pt pw where "pt = unat (task_priority s t)" and "pw = unat (task_priority s w)"
  note pdefs = this
  define L1 where "L1 = enlist (ReadyList pt) (Link t) L"
  define m where "m = update_heap (nimble_list_insert_tail (ReadyList pt) (Link t))
      (update_tcb t (tcb_state_update (\<lambda>_. NIMBLE_TASK_READY)) (switch_out s))"
  have i0: "sched_inv True {} H N L (switch_out s)" using inv by simp
  note sh = sched_inv_shape [OF inv]
  have tN: "Link t \<in> N" using tasks_inv_current [OF sched_inv_tasks [OF inv] cur] .
  have wN: "Link w \<in> N"
    using repr_member [OF sched_inv_repr [OF inv] q(1), of "EventLink w"] q(2) shape_event [OF sh] by simp
  have pt: "pt < 32" and pw: "pw < 32" using sched_inv_prio [OF inv] tN wN by (simp_all add: pdefs)
  have ne: "pt \<noteq> pw" using peer alone by (metis pdefs)
  have same: "ready_bitmap (switch_out s) = ready_bitmap s"
    by (auto simp: switch_out_def update_tcb_def store_r4_r11_def split: option.splits)
  have bt: "bit (ready_bitmap s) pt"
    using bitmap_inv_set [OF sched_inv_bitmap [OF inv] pt] peer by (simp add: pdefs)
  then have orb: "ready_bitmap s OR bit_mask pt = ready_bitmap s"
    by (intro bit_word_eqI) (auto simp: bit_set_mask pt)
  then have "nimble_scheduler_add_ready t (switch_out s) = Some m"
    using pt same by (simp add: add_ready_eq update_tcb_def update_heap_def m_def pdefs)
  then have i1: "sched_inv True {} H N L1 m"
    using add_ready_inv [OF i0 tN link_free [OF i0] event_free [OF i0]] run by (simp add: L1_def pdefs)
  have wR: "task_state s w = NIMBLE_TASK_BLOCKED"
    using tasks_inv_event [OF sched_inv_tasks [OF inv] _ q(1)] q(2) by simp
  then have wt: "w \<noteq> t" using run by auto
  have m: "task_priority m x = task_priority s x" "ready_bitmap m = ready_bitmap s"
    "task_state m w = NIMBLE_TASK_BLOCKED" "nimble_current_tcb m = Some t" for x
    using wt wR same cur by (simp_all add: m_def update_tcb_def update_heap_def)
  have L1: "L1 (SemWaiters q) = EventLink w # ws" "L1 (ReadyList pw) = []"
    using q(2) alone ne by (simp_all add: L1_def pdefs)
  obtain s2 where s2: "nimble_scheduler_wake_waiter (SemWaiters q) m = Some (Some w, s2)"
    and i2: "sched_inv True {} H N (wake_lists pw w L1) s2"
    and f2: "s2 = m\<lparr>tcbs := (tcbs m)(w := (tcbs m w)\<lparr>tcb_last_wait_result := NIMBLE_OK,
               tcb_state := NIMBLE_TASK_READY\<rparr>), heap := heap s2, ready_bitmap := ready_bitmap s2\<rparr>"
    using wake_waiter_inv [OF i1 q(1) L1(1)] m(1) [of w] by (auto simp: pdefs)
  let ?s3 = "nimble_port_request_context_switch s2"
  have give: "nimble_semaphore_give_from_isr q m = Some (NIMBLE_OK, True, s2)"
    using s2 by (simp add: nimble_semaphore_give_from_isr_def)
  have tc2: "tcbs s2 = (tcbs m)(w := (tcbs m w)\<lparr>tcb_last_wait_result := NIMBLE_OK, tcb_state := NIMBLE_TASK_READY\<rparr>)"
    by (subst f2) simp
  let ?bm = "ready_bitmap s" and ?s4 = "?s3\<lparr>ready_bitmap := ready_bitmap s OR bit_mask pt\<rparr>"
  have bm1: "bitmap_inv True L1 ?bm" using sched_inv_bitmap [OF i1] m(2) by simp
  have "?bm \<noteq> 0" using bt by auto
  then obtain p where p: "highest_set_bit ?bm = Some p" "unat p < 32" "bit ?bm (unat p)"
    by (rule highest_set_bit_max) blast
  have nb: "\<not> bit ?bm pw" using bitmap_inv_exact [OF bm1 TrueI pw] L1(2) by auto
  then have pne: "unat p \<noteq> pw" using p(3) by auto
  have "L1 (ReadyList (unat p)) \<noteq> []" using bitmap_inv_exact [OF bm1 TrueI p(2,3)] .
  then obtain f fs where f: "L1 (ReadyList (unat p)) = Link f # fs"
    using ready_head_link [OF sched_inv_shape [OF i1] p(2)] by blast
  have fw: "f \<noteq> w"
    using tasks_inv_ready_state [OF sched_inv_tasks [OF i1] p(2), of f] f m(3) by auto
  have L2: "wake_lists pw w L1 (ReadyList (unat p)) = Link f # removeAll (EventLink w) (removeAll (Link w) fs)"
    "wake_lists pw w L1 (ReadyList pw) = [Link w]"
    using f fw pne L1(2) by (simp_all add: wake_lists_def)
  have H: "ReadyList (unat p) \<in> H" "ReadyList pw \<in> H" using shape_ready [OF sh] p(2) pw by simp_all
  have fN: "Link f \<in> N" using repr_member [OF sched_inv_repr [OF i1] H(1)] f by simp
  have h4: "heap ?s4 = heap s2" "ready_bitmap ?s4 = ?bm" "tcbs ?s4 = tcbs s2" "pendsv ?s4"
    using orb by (simp_all add: nimble_port_request_context_switch_def)
  have "node_next (heap ?s4) (ReadyList (unat p)) = Link f"
    using repr_next_head [OF sched_inv_repr [OF i2] H(1)] L2(1) h4(1) by simp
  moreover have "unat (task_priority ?s4 f) < 32" using sched_inv_prio [OF i2 fN] h4(3) by simp
  ultimately obtain s' where s': "switch_to_top ?s4 = Some s'" "nimble_current_tcb s' = Some f"
    "heap s' = nimble_list_remove (Link f) (heap s2)" "\<And>x. x \<noteq> f \<Longrightarrow> tcbs s' x = tcbs s2 x"
    "\<And>i. bit (ready_bitmap s') i \<Longrightarrow> bit ?bm i" "pendsv s'"
    using switch_to_top_eq [of ?s4 p f] p(1) h4 by auto
  have "repr H N (delist (Link f) (wake_lists pw w L1)) (heap s')"
    unfolding s'(3) by (rule repr_remove [OF sched_inv_repr [OF i2] fN])
  from repr_next_head [OF this H(2)] have nx: "node_next (heap s') (ReadyList pw) = Link w"
    using L2(2) fw by simp
  have w': "task_state s' w = NIMBLE_TASK_READY" "unat (task_priority s' w) = pw"
    using s'(4) [of w] fw m(1) by (simp_all add: tc2 pdefs)
  have "\<exists>p<32. requeue_lists s L (ReadyList p) \<noteq> []"
    by (rule exI [of _ pt]) (use pt cur run in \<open>simp add: requeue_lists_def pdefs\<close>)
  then have "PendSV_Handler s \<noteq> None" using PendSV_inv [OF inv] by blast
  moreover have "access_requeue ((v, x), switch_out s, c) = Some ((v, Some t), m, c)"
    "access_load ((v, Some t), m, c) = Some ((?bm, Some t), m, c)"
    "access_store ((?bm, Some t), ?s3, c) = Some ((?bm, Some t), ?s4, c)"
    "access_rest ((?bm, Some t), ?s4, c) = Some ((?bm, Some t), s', c)"
    using cur run pt m s'(1) tc2 wt
    by (simp_all add: access_defs m_def pdefs prio_bound_iff nimble_port_request_context_switch_def)
  moreover have "passed_over w s'" using s' fw w' nx nb by (auto simp: passed_over_def)
  ultimately show ?thesis using give by blast
qed

lemma context_switch_races:
  assumes inv: "sched_inv True {} H N L s" and cur: "nimble_current_tcb s = Some t"
    and run: "task_state s t = NIMBLE_TASK_RUNNING"
    and peer: "L (ReadyList (unat (task_priority s t))) \<noteq> []"
    and q: "SemWaiters q \<in> H" "L (SemWaiters q) = EventLink w # ws"
    and alone: "L (ReadyList (unat (task_priority s w))) = []"
    and pend: "pendsv s" and low: "irq i < unat NVIC_PRIO_PENDSV_SYSTICK"
  shows "\<exists>s'. (board_step regs irq b H N)\<^sup>*\<^sup>*
       ((s, c), [] :: (switch_registers, kernel \<times> calls) frame list) ((s', c), []) \<and> passed_over w s'"
proof -
  let ?prio = "exception_priority (nimble_stm32f4_system_init regs) irq" and ?sect = "task_section b H N"
  have "?prio Exc_PendSV = 0xF0" using board_bring_up [of regs] by (simp add: exception_priority_def)
  then have irq: "?prio (Exc_IRQ i) < ?prio Exc_PendSV" "?prio Exc_PendSV < unmasked"
    using low by (simp_all add: exception_priority_def unmasked_def NVIC_PRIO_PENDSV_SYSTICK_def)
  let ?step = "preempt ?prio (handler_runs H) ?sect"
  let ?F = "\<lambda>as r. Frame (?prio Exc_PendSV) (map (Pair unmasked) as) r"
  let ?z = "(0, None) :: switch_registers" and ?bm = "ready_bitmap s"
  have save: "access_save (?z, s, c) = Some (?z, switch_out s, c)" by (simp add: access_save_def)
  obtain m s2 s4 s' where acc: "access_requeue (?z, switch_out s, c) = Some ((0, Some t), m, c)"
      "access_load ((0, Some t), m, c) = Some ((?bm, Some t), m, c)"
      "access_store ((?bm, Some t), nimble_port_request_context_switch s2, c) = Some ((?bm, Some t), s4, c)"
      "access_rest ((?bm, Some t), s4, c) = Some ((?bm, Some t), s', c)"
    and give: "nimble_semaphore_give_from_isr q m = Some (NIMBLE_OK, True, s2)"
    and ok: "PendSV_Handler s \<noteq> None" and w: "passed_over w s'"
    using lost_bit [OF assms(1-7)] by blast
  let ?s3 = "nimble_port_request_context_switch s2"
  let ?isr = "[(unmasked, \<lambda>(r, _). Some (r, ?s3, c))] :: (switch_registers, kernel \<times> calls) code"
  from isr_call.give [OF q(1) give] have isr: "handler_runs H (Exc_IRQ i) (m, c) (?s3, c)" by (auto simp: handler_runs_def)
  obtain r' sA where rA: "run_code switch_code (?z, s, c) = Some (r', sA, c)" "PendSV_Handler s = Some sA"
    using switch_code_run [of ?z s c] ok by auto
  have r1: "?step ((s, c), []) ((s, c), [?F [access_save, access_requeue, access_load, access_store, access_rest] ?z])"
    using preempt.exception [OF _ _ rA(1), of ?prio Exc_PendSV "[]" "handler_runs H" ?sect] rA(2) pend irq(2)
    by (simp add: exec_priority_def handler_runs_def switch_code_def)
  have r2: "?step ((s, c), [?F [access_save, access_requeue, access_load, access_store, access_rest] ?z])
      ((switch_out s, c), [?F [access_requeue, access_load, access_store, access_rest] ?z])"
    using access_step [where a = access_save and prio = ?prio and exc = "handler_runs H" and sect = ?sect] save acc by simp
  have r3: "?step ((switch_out s, c), [?F [access_requeue, access_load, access_store, access_rest] ?z])
      ((m, c), [?F [access_load, access_store, access_rest] (0, Some t)])"
    using access_step [where a = access_requeue and prio = ?prio and exc = "handler_runs H" and sect = ?sect] save acc by simp
  have r4: "?step ((m, c), [?F [access_load, access_store, access_rest] (0, Some t)])
      ((m, c), [?F [access_store, access_rest] (?bm, Some t)])"
    using access_step [where a = access_load and prio = ?prio and exc = "handler_runs H" and sect = ?sect] save acc by simp
  have r5: "?step ((m, c), [?F [access_store, access_rest] (?bm, Some t)])
      ((m, c), [Frame (?prio (Exc_IRQ i)) ?isr ?z, ?F [access_store, access_rest] (?bm, Some t)])"
    using irq isr by (intro preempt.exception [where r' = ?z and s' = "(?s3, c)"]) (simp_all add: exec_priority_def)
  have r6: "?step ((m, c), [Frame (?prio (Exc_IRQ i)) ?isr ?z, ?F [access_store, access_rest] (?bm, Some t)])
      ((?s3, c), [Frame (?prio (Exc_IRQ i)) [] ?z, ?F [access_store, access_rest] (?bm, Some t)])"
    by (rule preempt.access) simp
  have r7: "?step ((?s3, c), [Frame (?prio (Exc_IRQ i)) [] ?z, ?F [access_store, access_rest] (?bm, Some t)])
      ((?s3, c), [?F [access_store, access_rest] (?bm, Some t)])"
    by (rule preempt.finish)
  have r8: "?step ((?s3, c), [?F [access_store, access_rest] (?bm, Some t)]) ((s4, c), [?F [access_rest] (?bm, Some t)])"
    using access_step [where a = access_store and prio = ?prio and exc = "handler_runs H" and sect = ?sect] save acc by simp
  have r9: "?step ((s4, c), [?F [access_rest] (?bm, Some t)]) ((s', c), [?F [] (?bm, Some t)])"
    using access_step [where a = access_rest and prio = ?prio and exc = "handler_runs H" and sect = ?sect] save acc by simp
  have r10: "?step ((s', c), [?F [] (?bm, Some t)]) ((s', c), [])" by (simp add: preempt.finish)
  note go = converse_rtranclp_into_rtranclp
  have "?step\<^sup>*\<^sup>* ((s, c), [] :: (switch_registers, kernel \<times> calls) frame list) ((s', c), [])"
    by (rule go, rule r1, rule go, rule r2, rule go, rule r3, rule go, rule r4, rule go, rule r5, rule go, rule r6,
        rule go, rule r7, rule go, rule r8, rule go, rule r9, rule go, rule r10, rule rtranclp.rtrancl_refl)
  then show ?thesis unfolding board_step_def using w by blast
qed

end
