(* ===== verification/System_Properties.thy ===== *)
theory System_Properties
  imports Preemption
begin

text \<open>
  The properties of the kernel as a whole: what holds in every state that interrupts and kernel
  calls can reach, in any order.
\<close>

section \<open>Reachability\<close>

locale transition_system =
  fixes step :: "'s \<Rightarrow> 's \<Rightarrow> bool" and inv :: "'s \<Rightarrow> bool"
  assumes step_inv: "inv x \<Longrightarrow> step x y \<Longrightarrow> inv y"
begin

lemma reachable_inv: "step\<^sup>*\<^sup>* x y \<Longrightarrow> inv x \<Longrightarrow> inv y"
  by (induction rule: rtranclp_induct) (auto intro: step_inv)

end

interpretation sys: transition_system "sys_step b H N" "sys_inv b H N" for b H N
  by unfold_locales (use step_sound in \<open>auto simp: step_ok_def\<close>)

section \<open>A starting point\<close>

lemma timed_empty: "wait_head k \<Longrightarrow> timed_lists k = []"
  by (cases k) (auto simp: timed_lists_def example_lists_def)

lemma timed_sys_inv: "sys_inv True timed_heads timed_nodes (timed, \<lambda>_. NoCall)"
proof (rule sys_invI [OF timed_inv(1)])
  have e: "timed_lists (SemWaiters q) = []" "timed_lists (MutexWaiters m) = []" for q m
    by (simp_all add: timed_empty)
  have "sem_inv timed_heads timed_lists timed"
    by (auto simp: sem_inv_def e timed_inv(4) running_inv boot3_inv timer_wake_sem_def boot_heads_def)
  moreover have "mutex_inv timed_heads timed_lists timed" by (simp add: mutex_inv_def e)
  moreover have "queue_inv timed_heads timed"
  proof -
    have "queue_wf (queues timed 0)"
      unfolding timed_inv(5) running_inv(10) boot3_inv(9) by (rule new_queue_wf) simp_all
    then show ?thesis by (auto simp: queue_inv_def boot_heads_def)
  qed
  moreover have "waits_inv timed_heads timed_lists (\<lambda>_. NoCall)"
  proof -
    have "EventLink t \<notin> set (timed_lists k)" for k t
      by (auto simp: timed_lists_def example_lists_def)
    then show ?thesis by (simp add: waits_inv_def)
  qed
  moreover have "idle_inv timed_nodes timed"
    using timed_inv(8) [of idle_tcb] running_tasks(7)
    by (simp add: idle_inv_def can_run_def timer_task_tcb_def idle_tcb_def)
  ultimately show "objs_inv timed_heads timed_nodes timed_lists (\<lambda>_. NoCall) timed"
    using timed_inv(2) unfolding objs_inv_def by (auto simp: handoff_inv_def calls_inv_def)
qed

text \<open>The same after task 3 has taken the mutex, in its own code or still inside the call.\<close>

definition owning :: kernel where
  "owning = timed\<lparr>mutexes := (mutexes timed)(0 := \<lparr>mutex_owner = Some 3, mutex_lock_count = 1\<rparr>)\<rparr>"

lemma owning_thread: "call = c 3 \<Longrightarrow> thread owning c 3 call"
  using timed_inv(7) timed_inv(8) [of 3] running_inv(3)
  by (simp add: thread_def owning_def timer_task_tcb_def idle_tcb_def)

lemma owning_last: "tcb_last_wait_result (tcbs owning 3) = NIMBLE_OK"
  using timed_inv(8) [of 3] by (simp add: timer_task_tcb_def running_tasks(8) owning_def)

lemma owning_sys_inv:
  assumes c: "c = (\<lambda>_. NoCall) \<or> c = (\<lambda>_. NoCall)(3 := InLock 0)"
  shows "sys_inv True timed_heads timed_nodes (owning, c)"
proof -
  obtain L where i: "sched_inv True {} timed_heads timed_nodes L timed"
    and o: "objs_inv timed_heads timed_nodes L (\<lambda>_. NoCall) timed"
    using timed_sys_inv by (rule sys_invE)
  have o': "objs_inv timed_heads timed_nodes L (\<lambda>_. NoCall) owning"
    unfolding owning_def
    by (rule objs_mutexes [OF o]) (use objs_invD(2) [OF o] in \<open>simp_all add: mutex_inv_def handoff_inv_def\<close>)
  have "handoff_inv ((\<lambda>_. NoCall)(3 := InLock 0)) owning"
    using threadD(2) [OF owning_thread [OF refl]] owning_last
    by (auto simp: handoff_inv_def owning_def woken_ok_def)
  moreover have "waits_inv timed_heads L ((\<lambda>_. NoCall)(3 := InLock 0))"
    using objs_invD(4) [OF o] by (auto simp: waits_inv_def)
  ultimately have "objs_inv timed_heads timed_nodes L c owning"
    using o' c calls_inv_simple(2) [of timed_heads "\<lambda>_. NoCall" owning 3 0] unfolding objs_inv_def by auto
  moreover have "sched_inv True {} timed_heads timed_nodes L owning" using i by (simp add: owning_def)
  ultimately show ?thesis by (rule sys_invI [rotated])
qed

lemma timed_thread: "thread timed (\<lambda>_. NoCall) 3 NoCall"
  using timed_inv(7) timed_inv(8) [of 3] running_inv(3)
  by (simp add: thread_def timer_task_tcb_def idle_tcb_def)

section \<open>Calls that return\<close>

lemma sys_inv_weaken: "sys_inv b H N x \<Longrightarrow> sys_inv False H N x"
  unfolding sys_inv_def using sched_inv_weaken by blast

text \<open>
  Every entry point of the kernel but the context switch returns: the tick, the interrupt variants,
  the calls of the running task, and the rest of the calls it is inside of.
\<close>

definition calls_return :: "node set \<Rightarrow> node set \<Rightarrow> kernel \<Rightarrow> calls \<Rightarrow> bool" where
  "calls_return H N s c \<longleftrightarrow> SysTick_Handler s \<noteq> None \<and> timer_expire_one s \<noteq> None \<and>
    (\<forall>q item. (SemWaiters q \<in> H \<longrightarrow> nimble_semaphore_give_from_isr q s \<noteq> None) \<and>
       (QueueReceivers q \<in> H \<longrightarrow> length item = unat (queue_item_size (queues s q)) \<longrightarrow>
          nimble_queue_send_from_isr q item s \<noteq> None)) \<and>
    (\<forall>t n x. thread s c t NoCall \<longrightarrow> nimble_task_delay n s \<noteq> None \<and>
       (Link x \<in> N \<longrightarrow> nimble_task_resume x s \<noteq> None \<and> (x \<noteq> idle_tcb \<longrightarrow> nimble_task_suspend x s \<noteq> None))) \<and>
    (\<forall>t m v. thread s c t NoCall \<longrightarrow> MutexWaiters m \<in> H \<longrightarrow>
       nimble_mutex_lock m v s \<noteq> None \<and> nimble_mutex_unlock m s \<noteq> None) \<and>
    (\<forall>t q v. thread s c t NoCall \<longrightarrow> SemWaiters q \<in> H \<longrightarrow>
       nimble_semaphore_take q v s \<noteq> None) \<and>
    (\<forall>t q item v. thread s c t NoCall \<longrightarrow> QueueReceivers q \<in> H \<longrightarrow> nimble_queue_receive q v s \<noteq> None \<and>
       (length item = unat (queue_item_size (queues s q)) \<longrightarrow> nimble_queue_send q item v s \<noteq> None)) \<and>
    (\<forall>t x p. thread s c t NoCall \<longrightarrow> TimerLink x \<in> N \<longrightarrow> SemWaiters timer_wake_sem \<in> H \<longrightarrow>
       nimble_timer_start x s \<noteq> None \<and> nimble_timer_reset x p s \<noteq> None) \<and>
    (\<forall>x. TimerLink x \<in> N \<longrightarrow> timer_arm x s \<noteq> None) \<and>
    (\<forall>q. SemWaiters q \<in> H \<longrightarrow> nimble_semaphore_give q s \<noteq> None) \<and>
    (\<forall>t q item. thread s c t (InSend q item) \<longrightarrow> nimble_queue_send_resume q item t s \<noteq> None) \<and>
    (\<forall>t q. thread s c t (InReceive q) \<longrightarrow> nimble_queue_receive_resume q t s \<noteq> None)"

lemma calls_returnD:
  assumes "calls_return H N s c"
  shows "SysTick_Handler s \<noteq> None"
    "thread s c t NoCall \<Longrightarrow> MutexWaiters m \<in> H \<Longrightarrow> nimble_mutex_lock m v s \<noteq> None"
  using assms unfolding calls_return_def by blast+

lemma sys_inv_calls_return:
  assumes inv: "sys_inv b H N (s, c)" and q: "\<And>q. QueueReceivers q \<in> H \<longleftrightarrow> QueueSenders q \<in> H"
  shows "calls_return H N s c"
  unfolding calls_return_def
proof (intro conjI allI impI)
  have weak: "sys_inv False H N (s, c)" using inv sys_inv_weaken by blast
  show "nimble_mutex_lock m v s \<noteq> None" if "thread s c t NoCall" "MutexWaiters m \<in> H" for t m v
    using lock_step [OF weak that, of v] by (auto simp: may_boost_def)
  show "nimble_queue_receive q v s \<noteq> None" if "thread s c t NoCall" "QueueReceivers q \<in> H" for t q v
    using receive_step [OF inv that, of v] that(2) q by auto
  show "nimble_queue_send q item v s \<noteq> None"
    if "thread s c t NoCall" "QueueReceivers q \<in> H" "length item = unat (queue_item_size (queues s q))" for t q item v
    using send_step [OF inv that(1,2) _ that(3), of v] that(2) q by auto
  show "nimble_timer_start x s \<noteq> None" "nimble_timer_reset x p s \<noteq> None"
    if "TimerLink x \<in> N" "SemWaiters timer_wake_sem \<in> H" for x p
    using timer_start_step [OF inv that] timer_reset_step [OF inv that, of p] by auto
  show "timer_arm x s \<noteq> None" if "TimerLink x \<in> N" for x using timer_arm_step [OF inv that] by auto
  show "nimble_semaphore_take q v s \<noteq> None" if "thread s c t NoCall" "SemWaiters q \<in> H" for t q v
    using take_step [OF inv that, of v] by auto
  show "nimble_task_suspend x s \<noteq> None" if "Link x \<in> N" "x \<noteq> idle_tcb" for x using suspend_step [OF inv that] by auto
  show "nimble_task_resume x s \<noteq> None" if "Link x \<in> N" for x using resume_step [OF inv that] by auto
qed (use tick_step [OF inv] timer_expire_step [OF inv] isr_give_step [OF inv] isr_send_step [OF inv] delay_step [OF inv]
    unlock_step [OF inv] give_step [OF inv] send_resume_step [OF inv] receive_resume_step [OF inv] in \<open>blast+\<close>)

section \<open>Properties\<close>

text \<open>A task asks for a switch, and the context switch has saved its registers.\<close>

lemma switching:
  fixes c :: calls
  assumes th: "thread s c t call" and ok: "PendSV_Handler (nimble_task_yield s) \<noteq> None"
  shows "(board_step regs (\<lambda>_. unat NVIC_PRIO_PENDSV_SYSTICK) b H N)\<^sup>*\<^sup>* ((s, c), [])
     ((switch_out (nimble_task_yield s), c), [Frame 0xF0 (tl switch_code) (0, None)])"
proof -
  let ?irq = "\<lambda>_. unat NVIC_PRIO_PENDSV_SYSTICK" and ?y = "nimble_task_yield s"
  let ?prio = "exception_priority (nimble_stm32f4_system_init regs) ?irq"
  let ?z = "(0, None) :: switch_registers"
  let ?yield = "\<lambda>(r, x). Some (r, ?y, c) :: (switch_registers \<times> kernel \<times> calls) option"
  have p: "?prio Exc_PendSV = 0xF0" by (simp add: shared_priority)
  have y: "task_section b H N (s, c) (?y, c)" using sys_step.yield [OF th] th by (auto simp: task_section_def)
  obtain r' sA where rA: "run_code switch_code (?z, ?y, c) = Some (r', sA, c)" "PendSV_Handler ?y = Some sA"
    using switch_code_run [of ?z ?y c] ok by auto
  have r1: "board_step regs ?irq b H N ((s, c), []) ((s, c), [Frame 80 [(80, ?yield)] ?z])"
    using preempt.critical [where sect = "task_section b H N" and s = "(s, c)" and s' = "(?y, c)" and prio = ?prio
        and exc = "handler_runs H" and as = "[(80, ?yield)]" and r = ?z and r' = ?z] y
    by (simp add: board_step_def syscall_priority)
  have r2: "board_step regs ?irq b H N ((s, c), [Frame 80 [(80, ?yield)] ?z]) ((?y, c), [Frame 80 [] ?z])"
    unfolding board_step_def by (rule access_step) simp
  have r3: "board_step regs ?irq b H N ((?y, c), [Frame 80 [] ?z]) ((?y, c), [])"
    unfolding board_step_def by (rule preempt.finish)
  have r4: "board_step regs ?irq b H N ((?y, c), []) ((?y, c), [Frame 0xF0 switch_code ?z])"
    using preempt.exception [where e = Exc_PendSV and fs = "[]" and s = "(?y, c)" and s' = "(sA, c)" and prio = ?prio
        and exc = "handler_runs H" and sect = "task_section b H N" and as = switch_code and r = ?z and r' = r'] rA p
    by (simp add: board_step_def exec_priority_def unmasked_def handler_runs_def nimble_task_yield_def kdefs)
  have r5: "board_step regs ?irq b H N ((?y, c), [Frame 0xF0 switch_code ?z])
      ((switch_out ?y, c), [Frame 0xF0 (tl switch_code) ?z])"
    unfolding board_step_def switch_code_def list.map list.sel by (rule access_step) (simp add: access_save_def)
  note go = converse_rtranclp_into_rtranclp
  show ?thesis
    by (rule go, rule r1, rule go, rule r2, rule go, rule r3, rule go, rule r4, rule go, rule r5, rule rtranclp.rtrancl_refl)
qed

lemma timed_switching:
  "(board_step regs (\<lambda>_. unat NVIC_PRIO_PENDSV_SYSTICK) True timed_heads timed_nodes)\<^sup>*\<^sup>* ((timed, \<lambda>_. NoCall), [])
     ((switch_out (nimble_task_yield timed), \<lambda>_. NoCall), [Frame 0xF0 (tl switch_code) (0, None)])"
proof (rule switching [OF timed_thread])
  have "sys_step True timed_heads timed_nodes (timed, \<lambda>_. NoCall) (nimble_task_yield timed, \<lambda>_. NoCall)"
    by (rule sys_step.yield [OF timed_thread])
  then have "sys_inv True timed_heads timed_nodes (nimble_task_yield timed, \<lambda>_. NoCall)"
    using sys.step_inv timed_sys_inv by blast
  then show "PendSV_Handler (nimble_task_yield timed) \<noteq> None" using switch_step by fastforce
qed

text \<open>
  C1. The invariant of the whole kernel, in any interleaving of the single accesses of tasks,
  exception handlers and the context switch, on a board that gives the interrupts which use the
  kernel the priority \<^verbatim>\<open>nimble_stm32f4_nvic_priority_init\<close> gives PendSV and SysTick: whenever
  nothing is under way the invariant holds, and whatever handler or critical section is under way
  will end in a state where it holds, one that whole handlers and sections reach as well. The
  invariant: the list structures
  represent the ready, delayed, wait and timer lists with every task exactly where its state
  says, semaphore counts stay in range and no task waits while units are left, no task waits for
  a free mutex, every queue's ring is well-formed, a task waits only on the object of its call, a
  task inside a lock call owns the mutex exactly when an unlock has woken it, and the idle task
  can always run. With \<open>b\<close> the ready bitmap is exact as well, provided no lock boosts a task
  that is on a ready list.
\<close>

theorem system_invariant:
  assumes "sys_inv b H N x" "\<forall>n. irq n = unat NVIC_PRIO_PENDSV_SYSTICK"
    and "(board_step regs irq b H N)\<^sup>*\<^sup>* (x, []) (y, fs)"
  shows "\<exists>z. (sys_step b H N)\<^sup>*\<^sup>* x z \<and> sys_inv b H N z \<and> ends_in fs y z"
  using board_serial [OF assms(2,3)] sys.reachable_inv assms(1) by blast

theorem system_invariant_witness:
  "\<exists>z. sys_inv True timed_heads timed_nodes z \<and>
     ends_in [Frame 0xF0 (tl switch_code) (0, None)] (switch_out (nimble_task_yield timed), \<lambda>_. NoCall) z"
  using system_invariant [OF timed_sys_inv _ timed_switching] by auto

text \<open>
  C2. Nothing in the kernel is undefined, on such a board and in all such interleavings,
  while no lock boosts a task on a ready list: a handler or critical section that is under way comes
  to its end, and in the state it ends in, as in every state with nothing under way, the context
  switch and the tick return, and so do the interrupt variants, every
  call of the running task and the rest of every call it is inside of. No list head is taken for a
  task, no buffer is left, no loop over a list fails to end.
\<close>

theorem kernel_never_undefined:
  assumes "sys_inv True H N x" "\<forall>n. irq n = unat NVIC_PRIO_PENDSV_SYSTICK"
    and "(board_step regs irq True H N)\<^sup>*\<^sup>* (x, []) (y, fs)"
    and q: "\<And>q. QueueReceivers q \<in> H \<longleftrightarrow> QueueSenders q \<in> H"
  shows "\<exists>s c. ends_in fs y (s, c) \<and> PendSV_Handler s \<noteq> None \<and> calls_return H N s c"
proof -
  obtain s c where z: "(sys_step True H N)\<^sup>*\<^sup>* x (s, c)" "ends_in fs y (s, c)"
    using board_serial [OF assms(2,3)] by auto
  have inv: "sys_inv True H N (s, c)" by (rule sys.reachable_inv [OF z(1) assms(1)])
  show ?thesis using switch_step [OF inv] sys_inv_calls_return [OF inv q] z(2) by auto
qed

theorem kernel_never_undefined_witness:
  "\<exists>s c. ends_in [Frame 0xF0 (tl switch_code) (0, None)] (switch_out (nimble_task_yield timed), \<lambda>_. NoCall) (s, c) \<and>
     PendSV_Handler s \<noteq> None \<and> SysTick_Handler s \<noteq> None"
proof -
  have q: "QueueReceivers q \<in> timed_heads \<longleftrightarrow> QueueSenders q \<in> timed_heads" for q
    by (auto simp: boot_heads_def)
  show ?thesis
    using kernel_never_undefined [OF timed_sys_inv _ timed_switching q] calls_returnD(1) by blast
qed

text \<open>
  C4. The hand-off of a mutex cannot be stolen: whatever other tasks and interrupts do between an
  unlock that wakes a waiter and the moment the waiter runs, \<^verbatim>\<open>nimble_mutex_lock\<close> returns
  \<^verbatim>\<open>NIMBLE_OK\<close> with the waiter as owner; a waiter that timed out gets
  \<^verbatim>\<open>NIMBLE_ERR_TIMEOUT\<close> and does not own it.
\<close>

theorem mutex_handoff_kept:
  assumes "sys_inv b H N x" "(sys_step b H N)\<^sup>*\<^sup>* x (s, c)" and th: "thread s c t (InLock m)"
  shows "(tcb_last_wait_result (tcbs s t) = NIMBLE_OK \<longrightarrow>
      nimble_mutex_lock_resume m t s = (NIMBLE_OK, s) \<and> mutex_owner (mutexes s m) = Some t) \<and>
    (tcb_last_wait_result (tcbs s t) \<noteq> NIMBLE_OK \<longrightarrow>
      fst (nimble_mutex_lock_resume m t s) = NIMBLE_ERR_TIMEOUT \<and> mutex_owner (mutexes s m) \<noteq> Some t)"
proof -
  have "sys_inv b H N (s, c)" by (rule sys.reachable_inv [OF assms(2,1)])
  then obtain L where i: "sched_inv b {} H N L s" and o: "objs_inv H N L c s" by (rule sys_invE)
  have own: "mutex_owner (mutexes s m) = Some t \<longleftrightarrow> tcb_last_wait_result (tcbs s t) = NIMBLE_OK"
    using objs_invD(5) [OF o] threadD [OF th] by (auto simp: handoff_inv_def woken_ok_def)
  moreover have "fst (nimble_mutex_lock_resume m t s) = NIMBLE_ERR_TIMEOUT" if "mutex_owner (mutexes s m) \<noteq> Some t"
    using lock_resume_timeout [OF i thread_node [OF i th] threadD(2) [OF th] that] by auto
  ultimately show ?thesis using lock_resume_owner [of s m t] by auto
qed

theorem mutex_handoff_kept_witness:
  "nimble_mutex_lock_resume 0 3 owning = (NIMBLE_OK, owning)"
proof -
  let ?c = "(\<lambda>_. NoCall)(3 := InLock 0)"
  have "thread owning ?c 3 (InLock 0)" by (rule owning_thread) simp
  from mutex_handoff_kept [OF owning_sys_inv rtranclp.rtrancl_refl this] owning_last show ?thesis by blast
qed

text \<open>
  C3. Mutual exclusion: in every step from a reachable state, a task that owns a mutex stops
  owning it only when that task itself is running and calls \<^verbatim>\<open>nimble_mutex_unlock\<close>; no other
  task, interrupt, timeout or context switch can take the mutex from it.
\<close>

theorem mutex_released_by_owner_only:
  assumes "sys_inv b H N x" "(sys_step b H N)\<^sup>*\<^sup>* x (s, c)" and step: "sys_step b H N (s, c) (s', c')"
    and own: "mutex_owner (mutexes s m) = Some t" "mutex_owner (mutexes s' m) \<noteq> Some t"
  shows "thread s c t NoCall \<and> (\<exists>r. nimble_mutex_unlock m s = Some (r, s'))"
proof -
  have "sys_inv b H N (s, c)" by (rule sys.reachable_inv [OF assms(2,1)])
  from step_sound [OF step this] own show ?thesis by (auto simp: step_ok_def lost_def)
qed

theorem mutex_released_by_owner_only_witness:
  "\<exists>s'. nimble_mutex_unlock 0 owning = Some (NIMBLE_OK, s') \<and> mutex_owner (mutexes s' 0) = None \<and>
     thread owning (\<lambda>_. NoCall) 3 NoCall"
proof -
  let ?c = "\<lambda>_. NoCall"
  have th: "thread owning ?c 3 NoCall" by (rule owning_thread) simp
  have m: "MutexWaiters 0 \<in> timed_heads" by simp
  have i: "sched_inv True {} timed_heads timed_nodes timed_lists owning" using timed_inv(1) by (simp add: owning_def)
  have own: "mutex_owner (mutexes owning 0) = Some 3" "mutex_lock_count (mutexes owning 0) = 1"
    by (simp_all add: owning_def)
  have "timed_lists (MutexWaiters 0) = []" by (simp add: timed_empty)
  from unlock_no_waiter [OF i threadD(1,2) [OF th] m own this]
  obtain s' where s': "nimble_mutex_unlock 0 owning = Some (NIMBLE_OK, s')" "mutex_owner (mutexes s' 0) = None"
    by (simp add: release_state_def)
  have "sys_step True timed_heads timed_nodes (owning, ?c) (s', ?c)" by (rule sys_step.unlock [OF th m s'(1)])
  from mutex_released_by_owner_only [OF owning_sys_inv rtranclp.rtrancl_refl this own(1)]
  show ?thesis using s' by simp
qed

end
