(* ===== verification/Defects.thy ===== *)
theory Defects
  imports System_Properties
begin

text \<open>
  Two behaviours of the code that its documentation excludes: priority inheritance corrupts the
  ready structures, and a queue can leave a sender blocked although there is room.
\<close>

section \<open>Boosting a ready task\<close>

text \<open>What happens to the ready bitmap: only the bit of one priority may be cleared.\<close>

definition clears_only :: "u8 \<Rightarrow> kernel \<Rightarrow> kernel \<Rightarrow> bool" where
  "clears_only p s s' \<longleftrightarrow>
     (\<forall>i. (bit (ready_bitmap s') i \<longrightarrow> bit (ready_bitmap s) i) \<and>
          (bit (ready_bitmap s) i \<longrightarrow> i \<noteq> unat p \<longrightarrow> bit (ready_bitmap s') i))"

lemma remove_clears: "nimble_scheduler_remove t s = Some s' \<Longrightarrow> clears_only (task_priority s t) s s'"
  by (auto simp: clears_only_def nimble_scheduler_remove_def Let_def update_heap_def bit_clear_mask split: if_splits)

lemma prepare_block_clears:
  assumes "nimble_scheduler_prepare_block t w s = Some s'"
  shows "clears_only (task_priority s t) s s'"
proof -
  obtain s1 where "nimble_scheduler_remove t s = Some s1" "ready_bitmap s' = ready_bitmap s1"
    using assms by (auto simp: nimble_scheduler_prepare_block_def Let_def update_tcb_def update_heap_def
        split: bind_splits if_splits)
  then show ?thesis using remove_clears [of t s s1] by (simp add: clears_only_def)
qed

lemma lock_clears:
  assumes l: "nimble_mutex_lock m w s = Some (Blocks, s')" and cur: "nimble_current_tcb s = Some t"
  shows "clears_only (task_priority s t) s s'"
proof -
  let ?s0 = "s\<lparr>basepri := NIMBLE_KERNEL_SYSCALL_BASEPRI\<rparr>"
  obtain v x s2 where v: "v \<noteq> t"
    and x: "mutex_insert_waiter_priority_sorted (MutexWaiters m) t (boost v (task_priority s t) ?s0) = Some x"
    and p: "nimble_scheduler_prepare_block t w x = Some s2" "ready_bitmap s' = ready_bitmap s2"
    using l cur by (auto simp: nimble_mutex_lock_def Let_def nimble_port_enter_critical_def boost_def
        nimble_port_exit_critical_def nimble_port_request_context_switch_def split: if_splits bind_splits)
  have "task_priority x t = task_priority s t" "ready_bitmap x = ready_bitmap s"
    using x v by (auto simp: mutex_insert_waiter_priority_sorted_def update_heap_def boost_def update_tcb_def
        split: bind_splits if_splits)
  then show ?thesis using prepare_block_clears [OF p(1)] p(2) by (simp add: clears_only_def)
qed

lemma delay_clears:
  assumes "nimble_task_delay n s = Some s'" "nimble_current_tcb s = Some t"
  shows "clears_only (task_priority s t) s s'"
proof (cases "n = 0")
  case True
  then show ?thesis using assms by (simp add: delay_zero clears_only_def)
next
  case False
  then obtain s1 where "nimble_scheduler_remove t (s\<lparr>basepri := NIMBLE_KERNEL_SYSCALL_BASEPRI\<rparr>) = Some s1"
    "ready_bitmap s' = ready_bitmap s1"
    using assms by (auto simp: nimble_task_delay_def nimble_scheduler_block_current_delay_def Let_def kdefs
        split: bind_splits)
  then show ?thesis using remove_clears [of t "s\<lparr>basepri := NIMBLE_KERNEL_SYSCALL_BASEPRI\<rparr>" s1]
    by (simp add: clears_only_def)
qed

text \<open>A context switch away from a task that is not running any more, by the highest bit.\<close>

lemma switch_out_bitmap [simp]: "ready_bitmap (switch_out s) = ready_bitmap s" "heap (switch_out s) = heap s"
  by (auto simp: switch_out_def update_tcb_def store_r4_r11_def split: option.splits)

lemma highest_bit_eq:
  assumes "bit w p" "\<And>i. bit w i \<Longrightarrow> i \<le> p"
  shows "\<exists>q. highest_set_bit w = Some q \<and> unat q = p"
proof -
  have "w \<noteq> 0" using assms(1) by auto
  then show ?thesis by (rule highest_set_bit_max) (use assms in \<open>metis le_antisym\<close>)
qed

lemma switch_from_blocked:
  assumes inv: "sched_inv False {} H N L s" and cur: "nimble_current_tcb s = Some c"
    and bl: "task_state s c = NIMBLE_TASK_BLOCKED"
    and p: "p < 32" "bit (ready_bitmap s) p" "\<And>i. bit (ready_bitmap s) i \<Longrightarrow> i \<le> p"
  shows "L (ReadyList p) = [] \<Longrightarrow> PendSV_Handler s = None"
    and "L (ReadyList p) = Link n # ns \<Longrightarrow>
      \<exists>s'. PendSV_Handler s = Some s' \<and> sched_inv False {} H N (delist (Link n) L) s' \<and>
        nimble_current_tcb s' = Some n \<and> task_state s' n = NIMBLE_TASK_RUNNING \<and>
        clears_only (task_priority s n) s s' \<and> (\<forall>x. task_priority s' x = task_priority s x)"
proof -
  let ?s = "switch_out s"
  obtain q where q: "highest_set_bit (ready_bitmap s) = Some q" "unat q = p"
    using highest_bit_eq [OF p(2,3)] by blast
  have rq: "requeue_current ?s = Some ?s" using cur bl by (simp add: requeue_current_def)
  have L: "requeue_lists s L = L" using cur bl by (simp add: requeue_lists_def)
  have H: "ReadyList p \<in> H" using shape_ready [OF sched_inv_shape [OF inv]] p(1) by simp
  have nx: "node_next (heap s) (ReadyList p) = hd (L (ReadyList p) @ [ReadyList p])"
    by (rule repr_next_head [OF sched_inv_repr [OF inv] H])
  show "PendSV_Handler s = None" if "L (ReadyList p) = []"
  proof -
    have "nimble_scheduler_select_next ?s = None"
      using rq q nx that by (simp add: nimble_scheduler_select_next_def)
    then show ?thesis by (auto simp: PendSV_Handler_def switch_out_def Let_def split: option.splits)
  qed
  assume n: "L (ReadyList p) = Link n # ns"
  then have nN: "Link n \<in> N" using repr_member [OF sched_inv_repr [OF inv] H] by simp
  have inv': "sched_inv False {} H N L ?s" using inv by simp
  obtain s2 where s2: "nimble_scheduler_remove n ?s = Some s2"
    using sched_inv_prio [OF inv' nN] by (simp add: remove_eq)
  let ?s1 = "(update_tcb n (tcb_state_update (\<lambda>_. NIMBLE_TASK_RUNNING)) s2)\<lparr>nimble_next_tcb := Some n\<rparr>"
  have sel: "nimble_scheduler_select_next ?s = Some (n, ?s1)"
    using rq q nx n s2 by (simp add: nimble_scheduler_select_next_def)
  have "PendSV_Handler s \<noteq> None"
    using sel by (auto simp: PendSV_Handler_def switch_out_def Let_def split: option.splits)
  moreover have "\<exists>p<32. requeue_lists s L (ReadyList p) \<noteq> []" using p(1) n L by (metis list.distinct(1))
  ultimately obtain s' where s': "PendSV_Handler s = Some s'" "sched_inv False {} H N (delist (Link n) L) s'"
    "task_state s' n = NIMBLE_TASK_RUNNING"
    and f: "s' = (load_r4_r11 (tcb_sp (tcbs ?s1 n)) (?s1\<lparr>nimble_current_tcb := Some n\<rparr>))
            \<lparr>psp := tcb_sp (tcbs ?s1 n) + 32\<rparr>"
    using PendSV_inv [OF inv] sel unfolding L by auto
  have tc: "tcbs s2 = tcbs ?s" by (subst remove_frame [OF s2]) simp
  have "clears_only (task_priority s n) s s'"
    using remove_clears [OF s2] by (simp add: clears_only_def f load_r4_r11_def update_tcb_def)
  moreover have "nimble_current_tcb s' = Some n" "\<forall>x. task_priority s' x = task_priority s x"
    by (simp_all add: f load_r4_r11_def update_tcb_def tc)
  ultimately show "\<exists>s'. PendSV_Handler s = Some s' \<and> sched_inv False {} H N (delist (Link n) L) s' \<and>
        nimble_current_tcb s' = Some n \<and> task_state s' n = NIMBLE_TASK_RUNNING \<and>
        clears_only (task_priority s n) s s' \<and> (\<forall>x. task_priority s' x = task_priority s x)"
    using s' by blast
qed

text \<open>Boosting a ready owner changes its priority, but not the list it is on.\<close>

lemma boosts_ready_owner:
  assumes inv: "sched_inv True {} H N L s" and cur: "nimble_current_tcb s = Some t"
    and run: "task_state s t = NIMBLE_TASK_RUNNING" and m: "MutexWaiters m \<in> H"
    and own: "mutex_owner (mutexes s m) = Some w" "w \<noteq> t" and low: "task_priority s w < task_priority s t"
    and to: "timeout \<noteq> NIMBLE_NO_WAIT"
  obtains s1 L1 where "nimble_mutex_lock m timeout s = Some (Blocks, s1)" "sched_inv False {} H N L1 s1"
    "nimble_current_tcb s1 = Some t" "task_state s1 t = NIMBLE_TASK_BLOCKED"
    "\<And>x. task_priority s1 x = (if x = w then task_priority s t else task_priority s x)"
    "task_state s1 w = task_state s w"
    "\<And>p n ns. L (ReadyList p) = Link n # ns \<Longrightarrow> L1 (ReadyList p) = removeAll (Link t) (Link n # ns)"
    "\<And>p. p < 32 \<Longrightarrow> p \<noteq> unat (task_priority s t) \<Longrightarrow> L (ReadyList p) \<noteq> [] \<Longrightarrow> bit (ready_bitmap s1) p"
    "\<And>p. bit (ready_bitmap s1) p \<Longrightarrow> p < 32 \<and> L (ReadyList p) \<noteq> []"
proof -
  note bm = sched_inv_bitmap [OF inv]
  obtain ts where ts: "L (MutexWaiters m) = map EventLink ts"
    using wait_links [OF sched_inv_shape [OF inv] m] by auto
  let ?B = "boost w (task_priority s t) s"
  let ?L1 = "block_lists t timeout (L(MutexWaiters m := map EventLink (prio_insert (task_priority ?B) t ts)))"
  obtain s1 where s1: "nimble_mutex_lock m timeout s = Some (Blocks, s1)"
    and i1: "sched_inv (True \<and> boost_ok w (task_priority s t) s) {} H N ?L1 s1"
    and f1: "s1 = ?B\<lparr>tcbs := (tcbs ?B)(t := (tcbs s t)\<lparr>tcb_state := NIMBLE_TASK_BLOCKED,
                 tcb_wake_tick := if timeout = NIMBLE_WAIT_FOREVER then tcb_wake_tick (tcbs s t)
                                  else g_tick_count s + timeout\<rparr>),
            pendsv := True, heap := heap s1, ready_bitmap := ready_bitmap s1\<rparr>"
    using lock_blocks [OF inv cur run m ts own to] by blast
  note cl = lock_clears [OF s1 cur, unfolded clears_only_def]
  show thesis
  proof (rule that [OF s1 sched_inv_weaken [OF i1]])
    show "nimble_current_tcb s1 = Some t" "task_state s1 t = NIMBLE_TASK_BLOCKED" "task_state s1 w = task_state s w"
      using cur own(2) by (subst f1, simp)+
    show "task_priority s1 x = (if x = w then task_priority s t else task_priority s x)" for x
      using own(2) low by (subst f1) simp
    show "?L1 (ReadyList p) = removeAll (Link t) (Link n # ns)" if "L (ReadyList p) = Link n # ns" for p n ns
      using that by (simp add: block_lists_def)
    show "bit (ready_bitmap s1) p" if "p < 32" "p \<noteq> unat (task_priority s t)" "L (ReadyList p) \<noteq> []" for p
      using cl bitmap_inv_set [OF bm that(1,3)] that(2) by blast
    show "p < 32 \<and> L (ReadyList p) \<noteq> []" if "bit (ready_bitmap s1) p" for p
    proof -
      have b: "bit (ready_bitmap s) p" using cl that by blast
      then have "p < 32" by (rule bit_u32_less)
      then show ?thesis using bitmap_inv_exact [OF bm _ _ b] by blast
    qed
  qed
qed

text \<open>
  C38. Priority inheritance corrupts the ready structures when the owner is ready, which is the
  usual case: \<^verbatim>\<open>nimble_mutex_lock\<close> raises the owner's priority without moving it between ready
  lists, so the bit of its old list stays set when it is switched in. If the owner then sleeps
  while it holds the mutex, the next context switch reads that bit, finds an empty list and takes
  the list head for a task.
\<close>

theorem inheritance_corrupts_ready_lists:
  assumes inv: "sched_inv True {} H N L s" and cur: "nimble_current_tcb s = Some t"
    and run: "task_state s t = NIMBLE_TASK_RUNNING" and m: "MutexWaiters m \<in> H"
    and own: "mutex_owner (mutexes s m) = Some w" "w \<noteq> t" and low: "task_priority s w < task_priority s t"
    and alone: "L (ReadyList (unat (task_priority s w))) = [Link w]"
    and top: "top_ready L (unat (task_priority s w))"
    and to: "timeout \<noteq> NIMBLE_NO_WAIT" and n: "n \<noteq> 0"
  shows "\<exists>s1 s2 s3. nimble_mutex_lock m timeout s = Some (Blocks, s1) \<and>
     PendSV_Handler s1 = Some s2 \<and> nimble_current_tcb s2 = Some w \<and>
     nimble_task_delay n s2 = Some s3 \<and> PendSV_Handler s3 = None"
proof -
  let ?p = "unat (task_priority s w)"
  have p: "?p < 32" using top by (simp add: top_ready_def)
  have lt: "?p < unat (task_priority s t)" using low by (simp add: word_less_nat_alt)
  obtain s1 L1 where s1: "nimble_mutex_lock m timeout s = Some (Blocks, s1)" and i1: "sched_inv False {} H N L1 s1"
    and c1: "nimble_current_tcb s1 = Some t" "task_state s1 t = NIMBLE_TASK_BLOCKED"
     "\<And>x. task_priority s1 x = (if x = w then task_priority s t else task_priority s x)"
    and ls: "\<And>p n ns. L (ReadyList p) = Link n # ns \<Longrightarrow> L1 (ReadyList p) = removeAll (Link t) (Link n # ns)"
    and b: "\<And>p. p < 32 \<Longrightarrow> p \<noteq> unat (task_priority s t) \<Longrightarrow> L (ReadyList p) \<noteq> [] \<Longrightarrow> bit (ready_bitmap s1) p"
     "\<And>p. bit (ready_bitmap s1) p \<Longrightarrow> p < 32 \<and> L (ReadyList p) \<noteq> []"
    by (rule boosts_ready_owner [OF inv cur run m own low to]) blast
  have b1: "bit (ready_bitmap s1) ?p" "\<And>i. bit (ready_bitmap s1) i \<Longrightarrow> i \<le> ?p"
    using b(1) [OF p] b(2) lt alone top by (auto simp: top_ready_def not_le [symmetric])
  have L1: "L1 (ReadyList ?p) = [Link w]" using ls [OF alone] own(2) by simp
  obtain s2 where s2: "PendSV_Handler s1 = Some s2" and i2: "sched_inv False {} H N (delist (Link w) L1) s2"
    and c2: "nimble_current_tcb s2 = Some w" "task_state s2 w = NIMBLE_TASK_RUNNING"
    and cl: "clears_only (task_priority s1 w) s1 s2" "task_priority s2 w = task_priority s1 w"
    using switch_from_blocked(2) [OF i1 c1(1,2) p b1 L1] by blast
  have b2: "bit (ready_bitmap s2) ?p" "\<And>i. bit (ready_bitmap s2) i \<Longrightarrow> i \<le> ?p"
    using cl(1) b1 lt c1(3) unfolding clears_only_def by auto
  obtain s3 where s3: "nimble_task_delay n s2 = Some s3"
    and i3: "sched_inv False {} H N (enlist DelayedList (Link w) (delist (Link w) L1)) s3"
    and f3: "s3 = s2\<lparr>tcbs := (tcbs s2)(w := (tcbs s2 w)\<lparr>tcb_wake_tick := g_tick_count s2 + n,
                                            tcb_state := NIMBLE_TASK_BLOCKED\<rparr>),
            pendsv := True, heap := heap s3, ready_bitmap := ready_bitmap s3\<rparr>"
    using delay_inv [OF i2 c2 n] by blast
  have c3: "nimble_current_tcb s3 = Some w" "task_state s3 w = NIMBLE_TASK_BLOCKED"
    using c2 by (subst f3, simp)+
  have b3: "bit (ready_bitmap s3) ?p" "\<And>i. bit (ready_bitmap s3) i \<Longrightarrow> i \<le> ?p"
    using delay_clears [OF s3 c2(1)] b2 lt cl(2) c1(3) unfolding clears_only_def by auto
  have "enlist DelayedList (Link w) (delist (Link w) L1) (ReadyList ?p) = []" using L1 by simp
  from switch_from_blocked(1) [OF i3 c3 p b3 this] have "PendSV_Handler s3 = None" .
  then show ?thesis using s1 s2 c2(1) s3 by blast
qed

theorem inheritance_corrupts_ready_lists_witness:
  "\<exists>s1 s2 s3. nimble_mutex_lock 0 NIMBLE_WAIT_FOREVER contended = Some (Blocks, s1) \<and>
     PendSV_Handler s1 = Some s2 \<and> nimble_current_tcb s2 = Some 2 \<and>
     nimble_task_delay 10 s2 = Some s3 \<and> PendSV_Handler s3 = None"
proof -
  have p: "task_priority contended 2 = 2" "task_priority contended 3 = 5"
    by (simp_all add: contended_inv(5) running_tasks)
  have top: "top_ready example_lists (unat (task_priority contended 2))"
    unfolding p by (auto simp: top_ready_def example_lists_def)
  show ?thesis
    by (rule inheritance_corrupts_ready_lists [OF contended_inv(1-3) _ _ _ _ _ top])
      (simp_all add: contended_inv(4) p example_lists_def kdefs)
qed

section \<open>A queue that forgets its senders\<close>

text \<open>
  C39. The second half of \<^verbatim>\<open>nimble_queue_receive\<close> takes the item without waking a waiting sender.
  With a queue of one slot whose item goes to a resumed receiver while a sender waits, the
  receiver's next call blocks as well: sender and receiver then both wait, for ever, on a queue
  that is empty and has room.
\<close>

theorem queue_lost_wakeup:
  assumes inv: "sched_inv b {} H N L s" and cur: "nimble_current_tcb s = Some t"
    and run: "task_state s t = NIMBLE_TASK_RUNNING" and q: "QueueReceivers q \<in> H" "QueueSenders q \<in> H"
    and wf: "queue_wf (queues s q)" and one: "queue_count (queues s q) = 1" "queue_capacity (queues s q) = 1"
    and woken: "tcb_last_wait_result (tcbs s t) = NIMBLE_OK"
    and snd: "L (QueueSenders q) = EventLink w # ws"
  shows "\<exists>x s1 s2 L'. nimble_queue_receive_resume q t s = Some ((NIMBLE_OK, Some x), s1) \<and>
     nimble_queue_receive q NIMBLE_WAIT_FOREVER s1 = Some (Blocks, s2) \<and> sched_inv b {} H N L' s2 \<and>
     queue_count (queues s2 q) < queue_capacity (queues s2 q) \<and>
     L' (QueueSenders q) = EventLink w # ws \<and> task_state s2 w = NIMBLE_TASK_BLOCKED \<and>
     EventLink t \<in> set (L' (QueueReceivers q)) \<and> task_state s2 t = NIMBLE_TASK_BLOCKED"
proof -
  have tN: "Link t \<in> N" by (rule tasks_inv_current [OF sched_inv_tasks [OF inv] cur])
  have pos: "0 < queue_count (queues s q)" using one by simp
  obtain x c where c: "copy_out (queues s q) = Some (x, c)" using copy_out_returns [OF wf pos] by blast
  then have c0: "queue_count c = 0" "queue_capacity c = 1"
    using one by (auto simp: copy_out_def Let_def split: if_splits)
  obtain s1 where s1: "nimble_queue_receive_resume q t s = Some ((NIMBLE_OK, Some x), s1)"
    and i1: "sched_inv b {} H N L s1" and f1: "s1 = s\<lparr>queues := (queues s)(q := c), heap := heap s1\<rparr>"
    using receive_resume_inv [OF inv tN run, of q x c] c woken pos by auto
  have g1: "nimble_current_tcb s1 = Some t" "task_state s1 t = NIMBLE_TASK_RUNNING" "queues s1 q = c"
    using cur run by (subst f1, simp)+
  have emp: "queue_count (queues s1 q) = 0" using g1(3) c0 by simp
  obtain ts where ts: "L (QueueReceivers q) = map EventLink ts"
    using wait_links [OF sched_inv_shape [OF inv] q(1)] by auto
  have nw: "NIMBLE_WAIT_FOREVER \<noteq> NIMBLE_NO_WAIT" by (simp add: kdefs)
  let ?L = "block_lists t NIMBLE_WAIT_FOREVER
      (L(QueueReceivers q := map EventLink (prio_insert (task_priority s1) t ts)))"
  obtain s2 v where s2: "nimble_queue_receive q NIMBLE_WAIT_FOREVER s1 = Some (Blocks, s2)"
    and i2: "sched_inv b {} H N ?L s2"
    and f2: "s2 = s1\<lparr>tcbs := (tcbs s1)(t := (tcbs s1 t)\<lparr>tcb_state := NIMBLE_TASK_BLOCKED, tcb_wake_tick := v\<rparr>),
            pendsv := True, heap := heap s2, ready_bitmap := ready_bitmap s2\<rparr>"
    using receive_blocks [OF i1 g1(1,2) q(1) ts emp nw] by blast
  have g2: "queues s2 q = c" "task_state s2 t = NIMBLE_TASK_BLOCKED" using g1 by (subst f2, simp)+
  have L': "?L (QueueSenders q) = EventLink w # ws" "EventLink t \<in> set (?L (QueueReceivers q))"
    using snd wait_links [OF sched_inv_shape [OF inv] q(2)] by (auto simp: block_lists_def intro!: filter_True simp: removeAll_filter_not_eq)
  have "task_state s2 w = NIMBLE_TASK_BLOCKED"
    using tasks_inv_event [OF sched_inv_tasks [OF i2] _ q(2), of w] L'(1) by simp
  then show ?thesis using s1 s2 i2 g2 c0 L' by (intro exI conjI) (assumption | simp)+
qed

text \<open>Task 2 waits to send on a full queue of one slot, task 3 runs.\<close>

definition full_queue :: nimble_queue where
  "full_queue = the (copy_in [1, 2, 3, 4] (new_queue (replicate 4 0) 4 1))"

definition sender_waits :: kernel where
  "sender_waits = the (do { s \<leftarrow> queue_insert_waiter_priority_sorted (QueueSenders 0) 2
        (running\<lparr>queues := (queues running)(0 := full_queue)\<rparr>);
      nimble_scheduler_prepare_block 2 NIMBLE_WAIT_FOREVER s })"

lemma full_queue_wf: "queue_wf full_queue" "queue_count full_queue = 1" "queue_capacity full_queue = 1"
proof -
  have "queue_wf (new_queue (replicate 4 0) 4 1)" by (rule new_queue_wf) simp_all
  then obtain c where "copy_in [1, 2, 3, 4] (new_queue (replicate 4 0) 4 1) = Some c" "queue_wf c"
    using copy_in_returns [of "new_queue (replicate 4 0) 4 1" "[1, 2, 3, 4]"] by (auto simp: new_queue_def)
  then show "queue_wf full_queue" by (simp add: full_queue_def)
  show "queue_count full_queue = 1" "queue_capacity full_queue = 1"
    by (simp_all add: full_queue_def copy_in_def new_queue_def)
qed

lemma sender_waits_inv:
  "\<exists>L. sched_inv True {} example_heads example_nodes L sender_waits \<and> L (QueueSenders 0) = [EventLink 2]"
  "nimble_current_tcb sender_waits = Some 3" "task_state sender_waits 3 = NIMBLE_TASK_RUNNING"
  "tcb_last_wait_result (tcbs sender_waits 3) = NIMBLE_OK" "queues sender_waits 0 = full_queue"
proof -
  let ?s = "running\<lparr>queues := (queues running)(0 := full_queue)\<rparr>"
  let ?L = "example_lists(QueueSenders 0 := map EventLink (prio_insert (task_priority ?s) 2 []))"
  have i: "sched_inv True {} example_heads example_nodes example_lists ?s" using running_inv(1) by simp
  have fe: "free_node example_heads example_lists (EventLink 2)"
    using event_free [OF running_inv(1), of 2] running_tasks(2) by simp
  have k: "QueueSenders 0 \<in> example_heads" "wait_head (QueueSenders 0)" "Link 2 \<in> example_nodes" by simp_all
  have e: "example_lists (QueueSenders 0) = map EventLink []" by (simp add: example_lists_def)
  obtain s1 where s1: "queue_insert_waiter_priority_sorted (QueueSenders 0) 2 ?s = Some s1"
    and i1: "sched_inv True {2} example_heads example_nodes ?L s1" and f1: "s1 = ?s\<lparr>heap := heap s1\<rparr>"
    using queue_wait.ins_spec [OF i k fe e] by blast
  obtain s2 where s2: "nimble_scheduler_prepare_block 2 NIMBLE_WAIT_FOREVER s1 = Some s2"
    using prepare_block_returns [OF i1 k(3)] by blast
  have e: "sender_waits = s2" using s1 s2 by (simp add: sender_waits_def)
  have i2: "sched_inv True {} example_heads example_nodes (block_lists 2 NIMBLE_WAIT_FOREVER ?L) s2"
    using prepare_block_inv [OF i1 k(3) s2] by simp
  then show "\<exists>L. sched_inv True {} example_heads example_nodes L sender_waits \<and> L (QueueSenders 0) = [EventLink 2]"
    unfolding e by (intro exI conjI) (assumption, simp add: block_lists_def prio_insert_simps)
  have "nimble_current_tcb s1 = Some 3" "task_state s1 3 = NIMBLE_TASK_RUNNING"
    "tcb_last_wait_result (tcbs s1 3) = NIMBLE_OK" "queues s1 0 = full_queue"
    using running_inv(2,3) running_tasks(8) by (subst f1, simp)+
  then show "nimble_current_tcb sender_waits = Some 3" "task_state sender_waits 3 = NIMBLE_TASK_RUNNING"
    "tcb_last_wait_result (tcbs sender_waits 3) = NIMBLE_OK" "queues sender_waits 0 = full_queue"
    unfolding e by (subst prepare_block_frame [OF s2], simp)+
qed

theorem queue_lost_wakeup_witness:
  "\<exists>x s1 s2. nimble_queue_receive_resume 0 3 sender_waits = Some ((NIMBLE_OK, Some x), s1) \<and>
     nimble_queue_receive 0 NIMBLE_WAIT_FOREVER s1 = Some (Blocks, s2) \<and>
     task_state s2 2 = NIMBLE_TASK_BLOCKED \<and> task_state s2 3 = NIMBLE_TASK_BLOCKED"
proof -
  obtain L where L: "sched_inv True {} example_heads example_nodes L sender_waits" "L (QueueSenders 0) = [EventLink 2]"
    using sender_waits_inv(1) by blast
  have q: "QueueReceivers 0 \<in> example_heads" "QueueSenders 0 \<in> example_heads" by simp_all
  have "queue_wf (queues sender_waits 0)" "queue_count (queues sender_waits 0) = 1" "queue_capacity (queues sender_waits 0) = 1"
    unfolding sender_waits_inv(5) by (fact full_queue_wf)+
  from queue_lost_wakeup [OF L(1) sender_waits_inv(2,3) q this sender_waits_inv(4) L(2)]
  show ?thesis by blast
qed

end
