(* ===== verification/Float32.thy ===== *)
theory Float32
  imports Nimble_Prelude
begin

text \<open>
  The single-precision arithmetic the application uses on non-negative numbers: a value is a pair
  of a mantissa and a binary exponent, and every operation rounds its exact result to 24 bits,
  to nearest with ties to even, as IEEE 754 does in the normal range (the application stays far
  from overflow and underflow).
\<close>

section \<open>Operations\<close>

fun bit_length :: "int \<Rightarrow> nat" where
  "bit_length n = (if n \<le> 0 then 0 else Suc (bit_length (n div 2)))"

declare bit_length.simps [simp del]

definition round_half_even :: "int \<Rightarrow> int \<Rightarrow> int" where
  "round_half_even a b =
     (let q = a div b; r = a mod b
      in if 2 * r < b \<or> (2 * r = b \<and> even q) then q else q + 1)"

type_synonym f32 = "int \<times> int"

definition f32_round :: "int \<Rightarrow> int \<Rightarrow> f32" where
  "f32_round m e =
     (let n = bit_length m
      in if n \<le> 24 then (m, e) else (round_half_even m (2 ^ (n - 24)), e + int (n - 24)))"

definition f32_of_int :: "int \<Rightarrow> f32" where
  "f32_of_int n = f32_round n 0"

definition f32_mul :: "f32 \<Rightarrow> f32 \<Rightarrow> f32" where
  "f32_mul x y = f32_round (fst x * fst y) (snd x + snd y)"

definition f32_div :: "f32 \<Rightarrow> f32 \<Rightarrow> f32" where
  "f32_div x y =
     (let k = 24 + bit_length (fst y) - bit_length (fst x);
          k = (if fst x * 2 ^ k \<ge> fst y * 2 ^ 24 then k - 1 else k)
      in (round_half_even (fst x * 2 ^ k) (fst y), snd x - snd y - int k))"

definition f32_less :: "f32 \<Rightarrow> f32 \<Rightarrow> bool" where
  "f32_less x y =
     (if snd x \<ge> snd y then fst x * 2 ^ nat (snd x - snd y) < fst y
      else fst x < fst y * 2 ^ nat (snd y - snd x))"

section \<open>Rounding\<close>

lemma int_div_less:
  assumes "0 < b" "a < c * b"
  shows "a div b < (c :: int)"
proof (rule ccontr)
  assume "\<not> a div b < c"
  then have "c * b \<le> (a div b) * b" using assms(1) by (intro mult_right_mono) auto
  also have "\<dots> \<le> a" using assms(1) minus_mod_eq_div_mult [of a b] pos_mod_sign [of b a] by linarith
  finally show False using assms(2) by simp
qed

lemma bit_length_le: "m < 2 ^ n \<Longrightarrow> bit_length m \<le> n"
proof (induction n arbitrary: m)
  case 0
  then show ?case by (subst bit_length.simps) simp
next
  case (Suc n)
  then have "m div 2 < 2 ^ n" by (intro int_div_less) simp_all
  then show ?case using Suc.IH by (subst bit_length.simps) simp
qed

lemma bit_length_gt: "2 ^ n \<le> m \<Longrightarrow> n < bit_length m"
proof (induction n arbitrary: m)
  case 0
  then show ?case by (subst bit_length.simps) simp
next
  case (Suc n)
  then have "2 ^ n \<le> m div 2" by simp
  moreover have "0 < m" using Suc.prems by (smt (verit) zero_less_power)
  ultimately show ?case using Suc.IH by (subst bit_length.simps) simp
qed

lemma bit_length_eq: "2 ^ n \<le> m \<Longrightarrow> m < 2 ^ Suc n \<Longrightarrow> bit_length m = Suc n"
  using bit_length_le [of m "Suc n"] bit_length_gt [of n m] by simp

lemma round_half_even_bounds: "a div b \<le> round_half_even a b" "round_half_even a b \<le> a div b + 1"
  by (auto simp: round_half_even_def Let_def)

lemma f32_round_small: "m < 2 ^ 24 \<Longrightarrow> f32_round m e = (m, e)"
  using bit_length_le [of m 24] by (simp add: f32_round_def)

lemma f32_round_large:
  "2 ^ (n + 24) \<le> m \<Longrightarrow> m < 2 ^ (n + 25) \<Longrightarrow>
   f32_round m e = (round_half_even m (2 ^ Suc n), e + int (Suc n))"
  using bit_length_eq [of "n + 24" m] by (simp add: f32_round_def add.commute)

text \<open>A rounded value below a power of two stays below it.\<close>

lemma f32_round_not_above:
  assumes m: "0 \<le> m" "m < 2 ^ (n + 24)" and n: "n \<le> k" and T: "2 ^ (n + 24) \<le> T * 2 ^ k"
  shows "\<not> f32_less (T, 0) (f32_round m (- int k))"
proof (cases "m < 2 ^ 24")
  case True
  have "(2::int) ^ 24 \<le> 2 ^ (n + 24)" by (rule power_increasing) simp_all
  then show ?thesis using True T by (simp add: f32_round_small f32_less_def)
next
  case False
  let ?l = "bit_length m - 25"
  have l: "24 < bit_length m" "bit_length m \<le> n + 24"
    using False bit_length_gt [of 24 m] bit_length_le [OF m(2)] by auto
  define j where "j = bit_length m - 24"
  have j: "bit_length m = j + 24" "1 \<le> j" "j \<le> n" using l by (auto simp: j_def)
  have r: "f32_round m (- int k) = (round_half_even m (2 ^ j), - int (k - j))"
    using j n by (simp add: f32_round_def)
  have "\<not> 2 ^ (j + 24) \<le> m" using bit_length_gt [of "j + 24" m] j(1) by auto
  then have "m < 2 ^ (j + 24)" by simp
  then have "m div 2 ^ j < 2 ^ 24" by (intro int_div_less) (simp_all add: power_add mult.commute)
  then have "round_half_even m (2 ^ j) \<le> 2 ^ 24" using round_half_even_bounds(2) [of m "2 ^ j"] by simp
  moreover have "2 ^ 24 \<le> T * 2 ^ (k - j)"
  proof -
    have "(2::int) ^ j * 2 ^ 24 \<le> 2 ^ (n + 24)" using j(3) by (simp add: power_add power_increasing)
    also have "\<dots> \<le> T * 2 ^ k" by (rule T)
    also have "\<dots> = 2 ^ j * (T * 2 ^ (k - j))" using j(3) n by (simp flip: power_add)
    finally show ?thesis by simp
  qed
  ultimately show ?thesis unfolding r by (simp add: f32_less_def)
qed

end
