(* ===== verification/Printf.thy ===== *)
theory Printf
  imports Float32
begin

text \<open>
  The part of C's formatted output the application uses, over lists of bytes: \<^verbatim>\<open>%s\<close>,
  \<^verbatim>\<open>%lu\<close>, \<^verbatim>\<open>%.0f\<close> of a non-negative number (the nearest integer, ties to even), and
  \<^verbatim>\<open>snprintf\<close> with its limit.
\<close>

section \<open>Operations\<close>

definition ascii :: "string \<Rightarrow> u8 list" where
  "ascii str = map (\<lambda>c. word_of_nat (of_char c)) str"

definition c_string :: "u8 list \<Rightarrow> u8 list" where
  "c_string buf = takeWhile (\<lambda>c. c \<noteq> 0) buf"

fun dec_digits :: "nat \<Rightarrow> u8 list" where
  "dec_digits n = (if n < 10 then [48 + word_of_nat n] else dec_digits (n div 10) @ [48 + word_of_nat (n mod 10)])"

declare dec_digits.simps [simp del]

definition f32_to_int :: "f32 \<Rightarrow> int" where
  "f32_to_int x =
     (if 0 \<le> snd x then fst x * 2 ^ nat (snd x) else round_half_even (fst x) (2 ^ nat (- snd x)))"

definition printf_0f :: "f32 \<Rightarrow> u8 list" where
  "printf_0f x = dec_digits (nat (f32_to_int x))"

definition printf_lu :: "u32 \<Rightarrow> u8 list" where
  "printf_lu n = dec_digits (unat n)"

definition snprintf :: "nat \<Rightarrow> u8 list \<Rightarrow> u8 list" where
  "snprintf n text = take (n - 1) text @ [0]"

section \<open>Decimal digits\<close>

text \<open>Reading a number back.\<close>

definition dec_value :: "u8 list \<Rightarrow> nat" where
  "dec_value = foldl (\<lambda>n c. 10 * n + (unat c - 48)) 0"

lemma digit_byte:
  assumes "d < 10"
  shows "unat (48 + word_of_nat d :: u8) = 48 + d"
proof -
  have "unat (48 + word_of_nat d :: u8) = (48 + d) mod 256"
    by (simp add: unat_word_ariths unat_of_nat mod_simps)
  then show ?thesis using assms by simp
qed

lemma dec_value_digits: "dec_value (dec_digits n) = n"
proof (induction n rule: dec_digits.induct)
  case (1 n)
  have m: "n mod 10 < 10" by simp
  show ?case
  proof (cases "n < 10")
    case True
    then show ?thesis by (subst dec_digits.simps) (simp add: dec_value_def digit_byte)
  next
    case False
    have "dec_value (dec_digits n) = 10 * dec_value (dec_digits (n div 10)) + n mod 10"
      using False by (subst dec_digits.simps) (simp add: dec_value_def digit_byte [OF m])
    then show ?thesis using 1 [OF False] by simp
  qed
qed

lemma dec_digits_bytes: "c \<in> set (dec_digits n) \<Longrightarrow> 48 \<le> unat c \<and> unat c < 58"
proof (induction n rule: dec_digits.induct)
  case (1 n)
  have "n mod 10 < 10" by simp
  note d = digit_byte [OF this]
  show ?case
    using 1 by (subst (asm) dec_digits.simps) (auto simp: d digit_byte split: if_splits)
qed

lemma length_dec_digits: "n < 10 ^ Suc k \<Longrightarrow> length (dec_digits n) \<le> Suc k"
proof (induction k arbitrary: n)
  case 0
  then show ?case by (subst dec_digits.simps) simp
next
  case (Suc k)
  then have "n div 10 < 10 ^ Suc k" by (simp add: div_less_iff_less_mult mult.commute)
  then show ?case using Suc.IH [of "n div 10"] by (subst dec_digits.simps) simp
qed

section \<open>Rounded numbers\<close>

lemma round_half_even_le:
  assumes "0 < b" "2 * a < (2 * c + 1) * b"
  shows "round_half_even a b \<le> c"
proof -
  define q r where "q = a div b" and "r = a mod b"
  have a: "a = q * b + r" "0 \<le> r" "r < b" using assms(1) by (simp_all add: q_def r_def)
  have "q \<le> c"
  proof (rule ccontr)
    assume "\<not> q \<le> c"
    then have "(c + 1) * b \<le> q * b" using assms(1) by (intro mult_right_mono) auto
    then show False using a assms by (simp add: algebra_simps)
  qed
  moreover have "2 * r < b" if "q = c" using assms(2) a that by (simp add: algebra_simps)
  ultimately have "q < c \<or> (q = c \<and> 2 * r < b)" by force
  then show ?thesis by (auto simp: round_half_even_def Let_def q_def [symmetric] r_def [symmetric])
qed

lemma round_half_even_nonneg: "0 \<le> a \<Longrightarrow> 0 < b \<Longrightarrow> 0 \<le> round_half_even a b"
  using round_half_even_bounds(1) [of a b] pos_imp_zdiv_nonneg_iff [of b a] by linarith

lemma round_half_even_1: "round_half_even a 1 = a"
  by (simp add: round_half_even_def)

lemma f32_to_int_le:
  assumes m: "0 \<le> m" "m < 2 ^ 36" and k: "12 \<le> k" and c: "2 * m + 8192 < (2 * c + 1) * 2 ^ k"
  shows "0 \<le> f32_to_int (f32_round m (- int k))" "f32_to_int (f32_round m (- int k)) \<le> c"
proof -
  define j where "j = bit_length m - 24"
  have j: "j \<le> 12" using bit_length_le [OF m(2)] by (simp add: j_def)
  have r: "f32_round m (- int k) = (round_half_even m (2 ^ j), - int (k - j))"
    using j k by (auto simp: f32_round_def j_def Let_def round_half_even_1)
  let ?m = "round_half_even m (2 ^ j)"
  have nn: "0 \<le> ?m" using m by (intro round_half_even_nonneg) simp_all
  have "?m * 2 ^ j \<le> m + 2 ^ j"
  proof -
    have "?m * 2 ^ j \<le> (m div 2 ^ j + 1) * 2 ^ j" using round_half_even_bounds(2) by (intro mult_right_mono) simp_all
    also have "\<dots> = m - m mod 2 ^ j + 2 ^ j" by (simp only: distrib_right minus_mod_eq_div_mult mult_1)
    also have "\<dots> \<le> m + 2 ^ j" by simp
    finally show ?thesis .
  qed
  moreover have "(2::int) ^ j \<le> 2 ^ 12" using j by (intro power_increasing) simp_all
  ultimately have "2 * (?m * 2 ^ j) < (2 * c + 1) * 2 ^ k" using c by simp
  moreover have "(2::int) ^ k = 2 ^ (k - j) * 2 ^ j" using j k by (simp flip: power_add)
  ultimately have "(2 * ?m) * 2 ^ j < ((2 * c + 1) * 2 ^ (k - j)) * 2 ^ j" by (simp add: algebra_simps)
  then have "2 * ?m < (2 * c + 1) * 2 ^ (k - j)" by (simp only: mult_less_cancel_right_pos zero_less_power zero_less_numeral)
  then have "round_half_even ?m (2 ^ (k - j)) \<le> c" by (intro round_half_even_le) simp_all
  moreover have "f32_to_int (f32_round m (- int k)) = round_half_even ?m (2 ^ (k - j))"
  proof -
    have "f32_to_int (x, - int d) = round_half_even x (2 ^ d)" for x d
      by (cases "d = 0") (simp_all add: f32_to_int_def round_half_even_1)
    then show ?thesis by (simp only: r)
  qed
  ultimately show "0 \<le> f32_to_int (f32_round m (- int k))" "f32_to_int (f32_round m (- int k)) \<le> c"
    using nn round_half_even_nonneg [of ?m "2 ^ (k - j)"] by simp_all
qed

section \<open>Strings\<close>

lemma c_string_stop: "c_string (xs @ 0 # ys) = c_string xs"
  by (induction xs) (simp_all add: c_string_def)

lemma c_string_id: "0 \<notin> set xs \<Longrightarrow> c_string xs = xs"
  by (auto simp: c_string_def)

text \<open>A text that fits the buffer is not cut.\<close>

lemma snprintf_fits: "length text < n \<Longrightarrow> 0 \<notin> set text \<Longrightarrow> c_string (snprintf n text) = text"
  by (simp add: snprintf_def c_string_stop c_string_id)

end
