(* ===== verification/Power_Supply.thy ===== *)
theory Power_Supply
  imports Timer Board Printf
begin

text \<open>
  The demonstration application, \<^verbatim>\<open>app/power_supply\<close>. Its kernel objects are named by fixed
  pointers, its file-static variables are the fields of \<open>app\<close>. A task is an endless loop around
  kernel calls that may block: it is given by the places where it makes such a call, a step that
  runs from one place to the next, and a step that finishes a call the task was blocked in.
\<close>

section \<open>Types\<close>

type_synonym u16 = "16 word"

definition PS_PRIO_LOGGER :: u8 where "PS_PRIO_LOGGER = 1"
definition PS_PRIO_COMMS :: u8 where "PS_PRIO_COMMS = 2"
definition PS_PRIO_CONTROL :: u8 where "PS_PRIO_CONTROL = 3"
definition PS_PRIO_PROTECTION :: u8 where "PS_PRIO_PROTECTION = 4"
definition PS_PRIO_TIMER_SVC :: u8 where "PS_PRIO_TIMER_SVC = 3"

datatype ps_state_t =
    PS_STATE_IDLE
  | PS_STATE_SOFT_START
  | PS_STATE_RUNNING
  | PS_STATE_FAULT

fun ps_state_name :: "ps_state_t \<Rightarrow> string" where
  "ps_state_name PS_STATE_IDLE = ''IDLE''"
| "ps_state_name PS_STATE_SOFT_START = ''SOFT_START''"
| "ps_state_name PS_STATE_RUNNING = ''RUNNING''"
| "ps_state_name PS_STATE_FAULT = ''FAULT''"

record ps_adc_sample =
  voltage_raw :: u16
  current_raw :: u16

record ps_status =
  status_state :: ps_state_t
  status_voltage_mv :: f32
  status_current_ma :: f32
  status_fault_count :: u32

definition PS_OVERCURRENT_LIMIT_MA :: f32 where
  "PS_OVERCURRENT_LIMIT_MA = f32_of_int 3000"

definition PS_OVERVOLTAGE_LIMIT_MV :: f32 where
  "PS_OVERVOLTAGE_LIMIT_MV = f32_of_int 13000"

text \<open>The bytes of a sample as it goes through the queue (little-endian).\<close>

definition u16_bytes :: "u16 \<Rightarrow> u8 list" where
  "u16_bytes w = [ucast w, ucast (drop_bit 8 w)]"

definition u16_of_bytes :: "u8 \<Rightarrow> u8 \<Rightarrow> u16" where
  "u16_of_bytes lo hi = ucast lo OR push_bit 8 (ucast hi)"

definition sample_bytes :: "ps_adc_sample \<Rightarrow> u8 list" where
  "sample_bytes x = u16_bytes (voltage_raw x) @ u16_bytes (current_raw x)"

fun sample_of_bytes :: "u8 list \<Rightarrow> ps_adc_sample option" where
  "sample_of_bytes [a, b, c, d] =
     Some \<lparr>voltage_raw = u16_of_bytes a b, current_raw = u16_of_bytes c d\<rparr>"
| "sample_of_bytes _ = None"

section \<open>Shared state (power\_supply.c)\<close>

definition g_status_mutex :: mutex_ptr where "g_status_mutex = 0"
definition g_fault_semaphore :: sem_ptr where "g_fault_semaphore = 2"
definition g_adc_sample_queue :: queue_ptr where "g_adc_sample_queue = 0"
definition g_uart_rx_queue :: queue_ptr where "g_uart_rx_queue = 2"

record app =
  kern :: kernel
  g_status :: ps_status
  local_state :: ps_state_t
  soft_start_step :: u32
  line_buf :: "u8 list"
  line_len :: u32

definition ADC_QUEUE_DEPTH :: u32 where
  "ADC_QUEUE_DEPTH = 8"

definition ps_shared_init :: "app \<Rightarrow> app" where
  "ps_shared_init a =
     (let k = nimble_mutex_init g_status_mutex (kern a);
          k = nimble_semaphore_init g_fault_semaphore 0 1 k;
          k = nimble_queue_init g_adc_sample_queue (replicate 32 0) 4 ADC_QUEUE_DEPTH k
      in a\<lparr>kern := k, g_status := \<lparr>status_state = PS_STATE_IDLE, status_voltage_mv = (0, 0),
             status_current_ma = (0, 0), status_fault_count = 0\<rparr>\<rparr>)"

text \<open>
  The body of the four accessors: it runs with the mutex locked. \<open>status_locked\<close> is the part from
  the point where the lock call has returned.
\<close>

definition status_locked :: "(ps_status \<Rightarrow> ps_status) \<Rightarrow> app \<Rightarrow> (ps_status call_result \<times> app) option" where
  "status_locked f a =
     do { let a = a\<lparr>g_status := f (g_status a)\<rparr>;
          (_, k) \<leftarrow> nimble_mutex_unlock g_status_mutex (kern a);
          Some (Returns (g_status a), a\<lparr>kern := k\<rparr>) }"

definition with_status :: "(ps_status \<Rightarrow> ps_status) \<Rightarrow> app \<Rightarrow> (ps_status call_result \<times> app) option" where
  "with_status f a =
     do { (r, k) \<leftarrow> nimble_mutex_lock g_status_mutex NIMBLE_WAIT_FOREVER (kern a);
          let a = a\<lparr>kern := k\<rparr>;
          case r of Blocks \<Rightarrow> Some (Blocks, a) | Returns _ \<Rightarrow> status_locked f a }"

definition with_status_resume ::
  "tcb_ptr \<Rightarrow> (ps_status \<Rightarrow> ps_status) \<Rightarrow> app \<Rightarrow> (ps_status call_result \<times> app) option" where
  "with_status_resume self f a =
     (let (_, k) = nimble_mutex_lock_resume g_status_mutex self (kern a)
      in status_locked f (a\<lparr>kern := k\<rparr>))"

definition ps_status_get :: "ps_status \<Rightarrow> ps_status" where
  "ps_status_get st = st"

definition ps_status_set_measurement :: "f32 \<Rightarrow> f32 \<Rightarrow> ps_status \<Rightarrow> ps_status" where
  "ps_status_set_measurement voltage_mv current_ma st =
     st\<lparr>status_voltage_mv := voltage_mv, status_current_ma := current_ma\<rparr>"

definition ps_status_set_state :: "ps_state_t \<Rightarrow> ps_status \<Rightarrow> ps_status" where
  "ps_status_set_state state st = st\<lparr>status_state := state\<rparr>"

definition ps_status_note_fault :: "ps_status \<Rightarrow> ps_status" where
  "ps_status_note_fault st =
     (let st = st\<lparr>status_state := PS_STATE_FAULT\<rparr>
      in st\<lparr>status_fault_count := status_fault_count st + 1\<rparr>)"

section \<open>Control task (control\_task.c)\<close>

definition ADC_TO_MILLIVOLTS :: "u16 \<Rightarrow> f32" where
  "ADC_TO_MILLIVOLTS raw =
     f32_mul (f32_of_int (uint raw)) (f32_div (f32_of_int 16500) (f32_of_int 4095))"

definition ADC_TO_MILLIAMPS :: "u16 \<Rightarrow> f32" where
  "ADC_TO_MILLIAMPS raw =
     f32_mul (f32_of_int (uint raw)) (f32_div (f32_of_int 5000) (f32_of_int 4095))"

definition SOFT_START_RAMP_STEPS :: u32 where
  "SOFT_START_RAMP_STEPS = 50"

text \<open>
  The switch statement of \<^verbatim>\<open>run_state_machine\<close>: the new \<^verbatim>\<open>local_state\<close> and
  \<^verbatim>\<open>soft_start_step\<close>, and whether \<^verbatim>\<open>ps_status_set_state\<close> is called.
\<close>

fun run_state_machine_switch :: "ps_state_t \<Rightarrow> u32 \<Rightarrow> ps_state_t \<times> u32 \<times> bool" where
  "run_state_machine_switch PS_STATE_IDLE step = (PS_STATE_SOFT_START, 0, True)"
| "run_state_machine_switch PS_STATE_SOFT_START step =
     (let step = step + 1
      in if step \<ge> SOFT_START_RAMP_STEPS then (PS_STATE_RUNNING, step, True)
         else (PS_STATE_SOFT_START, step, False))"
| "run_state_machine_switch PS_STATE_RUNNING step = (PS_STATE_RUNNING, step, False)"
| "run_state_machine_switch PS_STATE_FAULT step = (PS_STATE_FAULT, step, False)"

datatype control_pc =
    Control_Receive
  | Control_Measure ps_adc_sample
  | Control_Set
  | Control_Sync

text \<open>After \<^verbatim>\<open>ps_status_set_measurement\<close>: the switch statement, up to the next call.\<close>

definition control_switch :: "app \<Rightarrow> control_pc \<times> app" where
  "control_switch a =
     (let (st, step, set) = run_state_machine_switch (local_state a) (soft_start_step a)
      in (if set then Control_Set else Control_Sync, a\<lparr>local_state := st, soft_start_step := step\<rparr>))"

text \<open>After \<^verbatim>\<open>ps_status_get\<close>: the resynchronisation with a fault.\<close>

definition control_sync :: "ps_status \<Rightarrow> app \<Rightarrow> app" where
  "control_sync status a =
     (if status_state status = PS_STATE_FAULT then a\<lparr>local_state := PS_STATE_FAULT\<rparr> else a)"

definition control_received :: "nimble_status_t \<times> u8 list option \<Rightarrow> control_pc" where
  "control_received r =
     (case r of
        (NIMBLE_OK, Some bytes) \<Rightarrow>
          (case sample_of_bytes bytes of Some x \<Rightarrow> Control_Measure x | None \<Rightarrow> Control_Receive)
      | _ \<Rightarrow> Control_Receive)"

text \<open>The accessor each place calls, and what follows its return.\<close>

fun control_access :: "control_pc \<Rightarrow> app \<Rightarrow> ps_status \<Rightarrow> ps_status" where
  "control_access (Control_Measure x) a =
     ps_status_set_measurement (ADC_TO_MILLIVOLTS (voltage_raw x)) (ADC_TO_MILLIAMPS (current_raw x))"
| "control_access Control_Set a = ps_status_set_state (local_state a)"
| "control_access _ a = ps_status_get"

fun control_after :: "control_pc \<Rightarrow> ps_status \<Rightarrow> app \<Rightarrow> control_pc \<times> app" where
  "control_after (Control_Measure x) status a = control_switch a"
| "control_after Control_Set status a = (Control_Sync, a)"
| "control_after _ status a = (Control_Receive, control_sync status a)"

definition control_next ::
  "control_pc \<Rightarrow> (ps_status call_result \<times> app) option \<Rightarrow> (control_pc call_result \<times> app) option" where
  "control_next pc r =
     do { (r, a) \<leftarrow> r;
          case r of Blocks \<Rightarrow> Some (Blocks, a)
          | Returns status \<Rightarrow> let (pc, a) = control_after pc status a in Some (Returns pc, a) }"

fun control_step :: "control_pc \<Rightarrow> app \<Rightarrow> (control_pc call_result \<times> app) option" where
  "control_step Control_Receive a =
     do { (r, k) \<leftarrow> nimble_queue_receive g_adc_sample_queue NIMBLE_WAIT_FOREVER (kern a);
          Some (case r of Blocks \<Rightarrow> Blocks | Returns x \<Rightarrow> Returns (control_received x), a\<lparr>kern := k\<rparr>) }"
| "control_step pc a = control_next pc (with_status (control_access pc a) a)"

fun control_resume :: "tcb_ptr \<Rightarrow> control_pc \<Rightarrow> app \<Rightarrow> (control_pc call_result \<times> app) option" where
  "control_resume self Control_Receive a =
     do { (x, k) \<leftarrow> nimble_queue_receive_resume g_adc_sample_queue self (kern a);
          Some (Returns (control_received x), a\<lparr>kern := k\<rparr>) }"
| "control_resume self pc a = control_next pc (with_status_resume self (control_access pc a) a)"

section \<open>Protection task (protection\_task.c)\<close>

datatype protection_pc = Protection_Take | Protection_Note

definition protection_taken :: "nimble_status_t \<Rightarrow> protection_pc" where
  "protection_taken result = (if result \<noteq> NIMBLE_OK then Protection_Take else Protection_Note)"

definition protection_noted ::
  "(ps_status call_result \<times> app) option \<Rightarrow> (protection_pc call_result \<times> app) option" where
  "protection_noted r =
     do { (r, a) \<leftarrow> r; Some (case r of Blocks \<Rightarrow> Blocks | Returns _ \<Rightarrow> Returns Protection_Take, a) }"

fun protection_step :: "protection_pc \<Rightarrow> app \<Rightarrow> (protection_pc call_result \<times> app) option" where
  "protection_step Protection_Take a =
     do { (r, k) \<leftarrow> nimble_semaphore_take g_fault_semaphore NIMBLE_WAIT_FOREVER (kern a);
          Some (case r of Blocks \<Rightarrow> Blocks | Returns x \<Rightarrow> Returns (protection_taken x), a\<lparr>kern := k\<rparr>) }"
| "protection_step Protection_Note a = protection_noted (with_status ps_status_note_fault a)"

fun protection_resume :: "tcb_ptr \<Rightarrow> protection_pc \<Rightarrow> app \<Rightarrow> (protection_pc call_result \<times> app) option" where
  "protection_resume self Protection_Take a =
     (let (result, k) = nimble_semaphore_take_resume g_fault_semaphore self (kern a)
      in Some (Returns (protection_taken result), a\<lparr>kern := k\<rparr>))"
| "protection_resume self Protection_Note a = protection_noted (with_status_resume self ps_status_note_fault a)"

section \<open>Comms task (comms\_task.c, uart\_bridge.c)\<close>

definition UART_RX_QUEUE_DEPTH :: u32 where
  "UART_RX_QUEUE_DEPTH = 64"

definition uart_bridge_init :: "kernel \<Rightarrow> kernel" where
  "uart_bridge_init s = nimble_queue_init g_uart_rx_queue (replicate 64 0) 1 UART_RX_QUEUE_DEPTH s"

definition CLI_LINE_BUF_LEN :: u32 where
  "CLI_LINE_BUF_LEN = 64"

text \<open>The transmit routine of the source is a stub that ignores its argument.\<close>

definition ps_uart_puts :: "u8 list \<Rightarrow> app \<Rightarrow> app" where
  "ps_uart_puts str a = a"

text \<open>The arguments of the two \<^verbatim>\<open>snprintf\<close> calls; the log line has a prefix.\<close>

definition status_text :: "string \<Rightarrow> ps_status \<Rightarrow> u8 list" where
  "status_text prefix status =
     ascii prefix @ ascii ''state='' @ ascii (ps_state_name (status_state status)) @
     ascii '' v='' @ printf_0f (status_voltage_mv status) @ ascii ''mV i='' @
     printf_0f (status_current_ma status) @ ascii ''mA faults='' @ printf_lu (status_fault_count status) @ [13, 10]"

definition status_report :: "string \<Rightarrow> ps_status \<Rightarrow> u8 list" where
  "status_report prefix status = c_string (snprintf 96 (status_text prefix status))"

datatype cli_command = Cli_Status | Cli_Unknown | Cli_Empty

text \<open>Which branch a line takes.\<close>

definition handle_command :: "u8 list \<Rightarrow> cli_command" where
  "handle_command line =
     (if c_string line = ascii ''status'' then Cli_Status
      else if c_string line \<noteq> [] then Cli_Unknown else Cli_Empty)"

text \<open>What one received byte does; writing outside the buffer is undefined.\<close>

definition comms_byte :: "u8 \<Rightarrow> u8 list \<times> u32 \<Rightarrow> (cli_command option \<times> u8 list \<times> u32) option" where
  "comms_byte byte line =
     (let (buf, n) = line
      in if byte = 13 \<or> byte = 10 then
           if unat n < length buf
           then let buf = buf[unat n := 0] in Some (Some (handle_command buf), buf, 0)
           else None
         else if n < CLI_LINE_BUF_LEN - 1 then
           if unat n < length buf then Some (None, buf[unat n := byte], n + 1) else None
         else Some (None, buf, n))"

datatype comms_pc = Comms_Receive | Comms_Status

definition comms_received ::
  "nimble_status_t \<times> u8 list option \<Rightarrow> app \<Rightarrow> (comms_pc \<times> app) option" where
  "comms_received r a =
     (case r of
        (NIMBLE_OK, Some [byte]) \<Rightarrow>
          do { (cmd, buf, n) \<leftarrow> comms_byte byte (line_buf a, line_len a);
               let a = a\<lparr>line_buf := buf, line_len := n\<rparr>;
               Some (case cmd of
                   Some Cli_Status \<Rightarrow> (Comms_Status, a)
                 | Some Cli_Unknown \<Rightarrow> (Comms_Receive, ps_uart_puts (ascii ''unknown command'' @ [13, 10]) a)
                 | _ \<Rightarrow> (Comms_Receive, a)) }
      | _ \<Rightarrow> Some (Comms_Receive, a))"

definition comms_reported ::
  "(ps_status call_result \<times> app) option \<Rightarrow> (comms_pc call_result \<times> app) option" where
  "comms_reported r =
     do { (r, a) \<leftarrow> r;
          Some (case r of Blocks \<Rightarrow> (Blocks, a)
                | Returns status \<Rightarrow> (Returns Comms_Receive, ps_uart_puts (status_report [] status) a)) }"

definition comms_start :: "app \<Rightarrow> app" where
  "comms_start a = a\<lparr>kern := uart_bridge_init (kern a), line_len := 0\<rparr>"

fun comms_step :: "comms_pc \<Rightarrow> app \<Rightarrow> (comms_pc call_result \<times> app) option" where
  "comms_step Comms_Receive a =
     do { (r, k) \<leftarrow> nimble_queue_receive g_uart_rx_queue NIMBLE_WAIT_FOREVER (kern a);
          let a = a\<lparr>kern := k\<rparr>;
          case r of Blocks \<Rightarrow> Some (Blocks, a)
          | Returns x \<Rightarrow> do { (pc, a) \<leftarrow> comms_received x a; Some (Returns pc, a) } }"
| "comms_step Comms_Status a = comms_reported (with_status ps_status_get a)"

fun comms_resume :: "tcb_ptr \<Rightarrow> comms_pc \<Rightarrow> app \<Rightarrow> (comms_pc call_result \<times> app) option" where
  "comms_resume self Comms_Receive a =
     do { (x, k) \<leftarrow> nimble_queue_receive_resume g_uart_rx_queue self (kern a);
          (pc, a) \<leftarrow> comms_received x (a\<lparr>kern := k\<rparr>);
          Some (Returns pc, a) }"
| "comms_resume self Comms_Status a = comms_reported (with_status_resume self ps_status_get a)"

section \<open>Logger task (logger\_task.c)\<close>

datatype logger_pc = Logger_Get | Logger_Delay

definition LOGGER_PERIOD_TICKS :: nimble_tick_t where
  "LOGGER_PERIOD_TICKS = NIMBLE_TICK_RATE_HZ"

definition logger_reported ::
  "(ps_status call_result \<times> app) option \<Rightarrow> (logger_pc call_result \<times> app) option" where
  "logger_reported r =
     do { (r, a) \<leftarrow> r;
          Some (case r of Blocks \<Rightarrow> (Blocks, a)
                | Returns status \<Rightarrow> (Returns Logger_Delay, ps_uart_puts (status_report ''[log] '' status) a)) }"

fun logger_step :: "logger_pc \<Rightarrow> app \<Rightarrow> (logger_pc call_result \<times> app) option" where
  "logger_step Logger_Get a = logger_reported (with_status ps_status_get a)"
| "logger_step Logger_Delay a =
     do { k \<leftarrow> nimble_task_delay LOGGER_PERIOD_TICKS (kern a);
          Some (Returns Logger_Get, a\<lparr>kern := k\<rparr>) }"

definition logger_resume :: "tcb_ptr \<Rightarrow> app \<Rightarrow> (logger_pc call_result \<times> app) option" where
  "logger_resume self a = logger_reported (with_status_resume self ps_status_get a)"

section \<open>Interrupt handlers (isr\_bridge.c)\<close>

definition over_limit :: "ps_adc_sample \<Rightarrow> bool" where
  "over_limit x =
     (let voltage_mv = f32_mul (f32_of_int (uint (voltage_raw x)))
                         (f32_div (f32_of_int 16500) (f32_of_int 4095));
          current_ma = f32_mul (f32_of_int (uint (current_raw x)))
                         (f32_div (f32_of_int 5000) (f32_of_int 4095))
      in f32_less PS_OVERVOLTAGE_LIMIT_MV voltage_mv \<or> f32_less PS_OVERCURRENT_LIMIT_MA current_ma)"

definition adc_sample :: "u32 \<Rightarrow> ps_adc_sample" where
  "adc_sample adc1_dr =
     (let v = ucast (adc1_dr AND 0xFFF) in \<lparr>voltage_raw = v, current_raw = v\<rparr>)"

definition ADC_IRQHandler :: "u32 \<Rightarrow> kernel \<Rightarrow> kernel option" where
  "ADC_IRQHandler adc1_dr s =
     do { let x = adc_sample adc1_dr;
          (_, needs_yield, s) \<leftarrow> nimble_queue_send_from_isr g_adc_sample_queue (sample_bytes x) s;
          (needs_yield, s) \<leftarrow>
            (if over_limit x
             then do { (_, fault_needs_yield, s) \<leftarrow> nimble_semaphore_give_from_isr g_fault_semaphore s;
                       Some (needs_yield \<or> fault_needs_yield, s) }
             else Some (needs_yield, s));
          Some (if needs_yield then nimble_port_request_context_switch s else s) }"

definition USART1_SR_RXNE :: u32 where
  "USART1_SR_RXNE = push_bit 5 1"

definition USART1_IRQHandler :: "u32 \<Rightarrow> u32 \<Rightarrow> kernel \<Rightarrow> kernel option" where
  "USART1_IRQHandler usart1_sr usart1_dr s =
     (if usart1_sr AND USART1_SR_RXNE = 0 then Some s
      else do { let byte = ucast (usart1_dr AND 0xFF);
                (_, needs_yield, s) \<leftarrow> nimble_queue_send_from_isr g_uart_rx_queue [byte] s;
                Some (if needs_yield then nimble_port_request_context_switch s else s) })"

section \<open>main (main.c)\<close>

definition protection_tcb :: tcb_ptr where "protection_tcb = 2"
definition control_tcb :: tcb_ptr where "control_tcb = 3"
definition comms_tcb :: tcb_ptr where "comms_tcb = 4"
definition logger_tcb :: tcb_ptr where "logger_tcb = 5"

definition STACK_WORDS :: "u32 \<Rightarrow> u32" where
  "STACK_WORDS bytes = bytes div 4"

text \<open>Addresses the linker chooses for the application's functions and stacks.\<close>

record app_symbols =
  sym_protection_fn :: addr
  sym_control_fn :: addr
  sym_comms_fn :: addr
  sym_logger_fn :: addr
  sym_protection_stack :: addr
  sym_control_stack :: addr
  sym_comms_stack :: addr
  sym_logger_stack :: addr
  sym_timer_svc_stack :: addr

definition main :: "app_symbols \<Rightarrow> mcu_regs \<Rightarrow> app \<Rightarrow> (mcu_regs \<times> app) option" where
  "main y regs a =
     do { let regs = nimble_stm32f4_system_init regs;
          k \<leftarrow> nimble_scheduler_init (kern a);
          let a = ps_shared_init (a\<lparr>kern := k\<rparr>);
          (_, k) \<leftarrow> nimble_task_create (Some protection_tcb) (Some ''protection'') (sym_protection_fn y) 0
                     (sym_protection_stack y) (STACK_WORDS 512) PS_PRIO_PROTECTION (kern a);
          (_, k) \<leftarrow> nimble_task_create (Some control_tcb) (Some ''control'') (sym_control_fn y) 0
                     (sym_control_stack y) (STACK_WORDS 1024) PS_PRIO_CONTROL k;
          (_, k) \<leftarrow> nimble_task_create (Some comms_tcb) (Some ''comms'') (sym_comms_fn y) 0
                     (sym_comms_stack y) (STACK_WORDS 1024) PS_PRIO_COMMS k;
          (_, k) \<leftarrow> nimble_task_create (Some logger_tcb) (Some ''logger'') (sym_logger_fn y) 0
                     (sym_logger_stack y) (STACK_WORDS 768) PS_PRIO_LOGGER k;
          (_, k) \<leftarrow> nimble_timer_service_start PS_PRIO_TIMER_SVC (sym_timer_svc_stack y) (STACK_WORDS 512) k;
          k \<leftarrow> nimble_scheduler_start k;
          Some (regs, a\<lparr>kern := k\<rparr>) }"

end
