(* ===== verification/App_Boot.thy ===== *)
theory App_Boot
  imports Defects Power_Supply
begin

text \<open>
  The power supply application from reset to its first task: \<open>main\<close> establishes the invariant of
  the whole kernel for the application's own tasks and objects.
\<close>

definition app_heads :: "node set" where
  "app_heads = insert (SemWaiters timer_wake_sem) (insert ActiveTimers
     (insert (QueueSenders g_adc_sample_queue) (insert (QueueReceivers g_adc_sample_queue)
       (insert (SemWaiters g_fault_semaphore) (insert (MutexWaiters g_status_mutex) boot_heads)))))"

definition app_nodes :: "node set" where
  "app_nodes = task_nodes timer_task_tcb (task_nodes logger_tcb (task_nodes comms_tcb
     (task_nodes control_tcb (task_nodes protection_tcb (task_nodes idle_tcb {})))))"

definition app_lists :: "node \<Rightarrow> node list" where
  "app_lists = (\<lambda>_. [])(ReadyList 0 := [Link idle_tcb], ReadyList (Suc 0) := [Link logger_tcb],
     ReadyList 2 := [Link comms_tcb], ReadyList 3 := [Link control_tcb, Link timer_task_tcb],
     ReadyList 4 := [Link protection_tcb])"

text \<open>The linker places functions and stacks at non-null addresses.\<close>

definition app_symbols_ok :: "app_symbols \<Rightarrow> bool" where
  "app_symbols_ok y \<longleftrightarrow>
     0 \<notin> {sym_protection_fn y, sym_control_fn y, sym_comms_fn y, sym_logger_fn y, sym_protection_stack y,
          sym_control_stack y, sym_comms_stack y, sym_logger_stack y, sym_timer_svc_stack y}"

lemmas app_ids = protection_tcb_def control_tcb_def comms_tcb_def logger_tcb_def timer_task_tcb_def
  idle_tcb_def g_status_mutex_def g_fault_semaphore_def g_adc_sample_queue_def timer_wake_sem_def

lemmas app_prios = PS_PRIO_PROTECTION_def PS_PRIO_CONTROL_def PS_PRIO_COMMS_def PS_PRIO_LOGGER_def
  PS_PRIO_TIMER_SVC_def

lemma app_create_ok:
  assumes "app_symbols_ok y"
  shows "create_ok (sym_protection_fn y) (sym_protection_stack y) (STACK_WORDS 512) PS_PRIO_PROTECTION"
    "create_ok (sym_control_fn y) (sym_control_stack y) (STACK_WORDS 1024) PS_PRIO_CONTROL"
    "create_ok (sym_comms_fn y) (sym_comms_stack y) (STACK_WORDS 1024) PS_PRIO_COMMS"
    "create_ok (sym_logger_fn y) (sym_logger_stack y) (STACK_WORDS 768) PS_PRIO_LOGGER"
    "syms_ok z \<Longrightarrow> create_ok (sym_timer_task_fn z) (sym_timer_svc_stack y) (STACK_WORDS 512) PS_PRIO_TIMER_SVC"
  using assms by (simp_all add: app_symbols_ok_def create_ok_def syms_ok_def STACK_WORDS_def app_prios kdefs)

lemma app_shared_inv:
  assumes i: "sched_inv True {} boot_heads N L (kern a)" and L: "\<And>k. wait_head k \<Longrightarrow> L k = []"
  defines "s \<equiv> kern (ps_shared_init a)"
  shows "sched_inv True {} (app_heads - {SemWaiters timer_wake_sem, ActiveTimers}) N L s"
    "mutexes s g_status_mutex = \<lparr>mutex_owner = None, mutex_lock_count = 0\<rparr>"
    "semaphores s g_fault_semaphore = \<lparr>sem_count = 0, sem_max_count = 1\<rparr>"
    "queues s g_adc_sample_queue = new_queue (replicate 32 0) 4 ADC_QUEUE_DEPTH"
    "tcbs s = tcbs (kern a)" "nimble_current_tcb s = nimble_current_tcb (kern a)" "syms s = syms (kern a)"
    "pendsv s = pendsv (kern a)"
proof -
  let ?m = "nimble_mutex_init g_status_mutex (kern a)" and ?H = "insert (MutexWaiters g_status_mutex) boot_heads"
  let ?s = "nimble_semaphore_init g_fault_semaphore 0 1 ?m"
  have e: "L(MutexWaiters g_status_mutex := []) = L" "L(SemWaiters g_fault_semaphore := []) = L"
    "L(QueueReceivers g_adc_sample_queue := [], QueueSenders g_adc_sample_queue := []) = L"
    using L by (auto simp: fun_eq_iff)
  have m: "sched_inv True {} ?H N L ?m"
    using mutex_init_inv(1) [OF i, of g_status_mutex] unfolding e by (auto simp: boot_heads_def)
  have sm: "sched_inv True {} (insert (SemWaiters g_fault_semaphore) ?H) N L ?s"
    using semaphore_init_inv(1) [OF m, of g_fault_semaphore] unfolding e by (auto simp: boot_heads_def)
  have s: "s = nimble_queue_init g_adc_sample_queue (replicate 32 0) 4 ADC_QUEUE_DEPTH ?s"
    by (simp add: s_def ps_shared_init_def Let_def)
  have h: "app_heads - {SemWaiters timer_wake_sem, ActiveTimers} =
      insert (QueueSenders g_adc_sample_queue) (insert (QueueReceivers g_adc_sample_queue)
       (insert (SemWaiters g_fault_semaphore) ?H))"
    by (auto simp: app_heads_def app_ids boot_heads_def)
  show "sched_inv True {} (app_heads - {SemWaiters timer_wake_sem, ActiveTimers}) N L s"
    unfolding h s using queue_init_inv(1) [OF sm, of g_adc_sample_queue] unfolding e by (auto simp: boot_heads_def)
  show "mutexes s g_status_mutex = \<lparr>mutex_owner = None, mutex_lock_count = 0\<rparr>"
    "semaphores s g_fault_semaphore = \<lparr>sem_count = 0, sem_max_count = 1\<rparr>"
    "queues s g_adc_sample_queue = new_queue (replicate 32 0) 4 ADC_QUEUE_DEPTH"
    "tcbs s = tcbs (kern a)" "nimble_current_tcb s = nimble_current_tcb (kern a)" "syms s = syms (kern a)"
    "pendsv s = pendsv (kern a)"
    unfolding s by (simp_all add: nimble_mutex_init_def nimble_semaphore_init_def nimble_queue_init_def
        kdefs Let_def new_queue_def)
qed

text \<open>What the four task creations of \<open>main\<close> leave behind.\<close>

definition app_created :: "app_symbols \<Rightarrow> kernel \<Rightarrow> kernel \<Rightarrow> bool" where
  "app_created y s s' \<longleftrightarrow>
     do { (_, k) \<leftarrow> nimble_task_create (Some protection_tcb) (Some ''protection'') (sym_protection_fn y) 0
                     (sym_protection_stack y) (STACK_WORDS 512) PS_PRIO_PROTECTION s;
          (_, k) \<leftarrow> nimble_task_create (Some control_tcb) (Some ''control'') (sym_control_fn y) 0
                     (sym_control_stack y) (STACK_WORDS 1024) PS_PRIO_CONTROL k;
          (_, k) \<leftarrow> nimble_task_create (Some comms_tcb) (Some ''comms'') (sym_comms_fn y) 0
                     (sym_comms_stack y) (STACK_WORDS 1024) PS_PRIO_COMMS k;
          (_, k) \<leftarrow> nimble_task_create (Some logger_tcb) (Some ''logger'') (sym_logger_fn y) 0
                     (sym_logger_stack y) (STACK_WORDS 768) PS_PRIO_LOGGER k;
          Some k } = Some s'"

definition app_task :: "kernel \<Rightarrow> tcb_ptr \<Rightarrow> u8 \<Rightarrow> bool" where
  "app_task s t p \<longleftrightarrow> task_state s t = NIMBLE_TASK_READY \<and> task_priority s t = p \<and>
     tcb_base_priority (tcbs s t) = p \<and> tcb_last_wait_result (tcbs s t) = NIMBLE_OK"

lemma app_task_cong: "tcbs s' t = tcbs s t \<Longrightarrow> app_task s' t p = app_task s t p"
  by (simp add: app_task_def)

abbreviation app_frame :: "kernel \<Rightarrow> kernel \<Rightarrow> bool" where
  "app_frame s s' \<equiv> mutexes s' = mutexes s \<and> semaphores s' = semaphores s \<and> queues s' = queues s \<and>
     nimble_current_tcb s' = nimble_current_tcb s \<and> syms s' = syms s \<and> pendsv s' = pendsv s"

lemma app_created_one:
  assumes inv: "sched_inv b {} H N L s" and new: "Link t \<notin> N"
    and ok: "create_ok fn stack_base stack_words priority"
  shows "\<exists>s'. nimble_task_create (Some t) name fn arg stack_base stack_words priority s = Some (NIMBLE_OK, s') \<and>
     sched_inv b {} H (task_nodes t N) (enlist (ReadyList (unat priority)) (Link t) L) s' \<and>
     app_task s' t priority \<and> (\<forall>x. x \<noteq> t \<longrightarrow> tcbs s' x = tcbs s x) \<and> app_frame s s'"
proof -
  note c = created [OF assms, where name = name and arg = arg]
  show ?thesis unfolding app_task_def using c by (intro exI conjI) (rule c | simp)+
qed

lemma app_created_inv:
  assumes i: "sched_inv True {} H (task_nodes idle_tcb {}) L s" and y: "app_symbols_ok y"
  shows "\<exists>s'. app_created y s s' \<and> app_frame s s' \<and>
     sched_inv True {} H (app_nodes - {Link timer_task_tcb, EventLink timer_task_tcb})
       (enlist (ReadyList (Suc 0)) (Link logger_tcb) (enlist (ReadyList 2) (Link comms_tcb)
         (enlist (ReadyList 3) (Link control_tcb) (enlist (ReadyList 4) (Link protection_tcb) L)))) s' \<and>
     app_task s' protection_tcb PS_PRIO_PROTECTION \<and> app_task s' control_tcb PS_PRIO_CONTROL \<and>
     app_task s' comms_tcb PS_PRIO_COMMS \<and> app_task s' logger_tcb PS_PRIO_LOGGER \<and>
     tcbs s' idle_tcb = tcbs s idle_tcb"
proof -
  note ok = app_create_ok [OF y]
  have p: "unat PS_PRIO_PROTECTION = 4" "unat PS_PRIO_CONTROL = 3" "unat PS_PRIO_COMMS = 2" "unat PS_PRIO_LOGGER = Suc 0"
    by (simp_all add: app_prios)
  have ne: "Link protection_tcb \<notin> task_nodes idle_tcb {}"
    "Link control_tcb \<notin> task_nodes protection_tcb (task_nodes idle_tcb {})"
    "Link comms_tcb \<notin> task_nodes control_tcb (task_nodes protection_tcb (task_nodes idle_tcb {}))"
    "Link logger_tcb \<notin> task_nodes comms_tcb (task_nodes control_tcb (task_nodes protection_tcb (task_nodes idle_tcb {})))"
    by (simp_all add: app_ids)
  obtain s1 where s1: "nimble_task_create (Some protection_tcb) (Some ''protection'') (sym_protection_fn y) 0
        (sym_protection_stack y) (STACK_WORDS 512) PS_PRIO_PROTECTION s = Some (NIMBLE_OK, s1)"
    "sched_inv True {} H (task_nodes protection_tcb (task_nodes idle_tcb {}))
       (enlist (ReadyList 4) (Link protection_tcb) L) s1"
    "app_task s1 protection_tcb PS_PRIO_PROTECTION" "\<forall>x. x \<noteq> protection_tcb \<longrightarrow> tcbs s1 x = tcbs s x" "app_frame s s1"
    using app_created_one [OF i ne(1) ok(1)] p by metis
  obtain s2 where s2: "nimble_task_create (Some control_tcb) (Some ''control'') (sym_control_fn y) 0
        (sym_control_stack y) (STACK_WORDS 1024) PS_PRIO_CONTROL s1 = Some (NIMBLE_OK, s2)"
    "sched_inv True {} H (task_nodes control_tcb (task_nodes protection_tcb (task_nodes idle_tcb {})))
       (enlist (ReadyList 3) (Link control_tcb) (enlist (ReadyList 4) (Link protection_tcb) L)) s2"
    "app_task s2 control_tcb PS_PRIO_CONTROL" "\<forall>x. x \<noteq> control_tcb \<longrightarrow> tcbs s2 x = tcbs s1 x" "app_frame s1 s2"
    using app_created_one [OF s1(2) ne(2) ok(2)] p by metis
  obtain s3 where s3: "nimble_task_create (Some comms_tcb) (Some ''comms'') (sym_comms_fn y) 0
        (sym_comms_stack y) (STACK_WORDS 1024) PS_PRIO_COMMS s2 = Some (NIMBLE_OK, s3)"
    "sched_inv True {} H (task_nodes comms_tcb (task_nodes control_tcb (task_nodes protection_tcb (task_nodes idle_tcb {}))))
       (enlist (ReadyList 2) (Link comms_tcb)
         (enlist (ReadyList 3) (Link control_tcb) (enlist (ReadyList 4) (Link protection_tcb) L))) s3"
    "app_task s3 comms_tcb PS_PRIO_COMMS" "\<forall>x. x \<noteq> comms_tcb \<longrightarrow> tcbs s3 x = tcbs s2 x" "app_frame s2 s3"
    using app_created_one [OF s2(2) ne(3) ok(3)] p by metis
  obtain s4 where s4: "nimble_task_create (Some logger_tcb) (Some ''logger'') (sym_logger_fn y) 0
        (sym_logger_stack y) (STACK_WORDS 768) PS_PRIO_LOGGER s3 = Some (NIMBLE_OK, s4)"
    "sched_inv True {} H (task_nodes logger_tcb (task_nodes comms_tcb (task_nodes control_tcb (task_nodes protection_tcb (task_nodes idle_tcb {})))))
       (enlist (ReadyList (Suc 0)) (Link logger_tcb) (enlist (ReadyList 2) (Link comms_tcb)
         (enlist (ReadyList 3) (Link control_tcb) (enlist (ReadyList 4) (Link protection_tcb) L)))) s4"
    "app_task s4 logger_tcb PS_PRIO_LOGGER" "\<forall>x. x \<noteq> logger_tcb \<longrightarrow> tcbs s4 x = tcbs s3 x" "app_frame s3 s4"
    using app_created_one [OF s3(2) ne(4) ok(4)] p by metis
  have n: "app_nodes - {Link timer_task_tcb, EventLink timer_task_tcb} =
      task_nodes logger_tcb (task_nodes comms_tcb (task_nodes control_tcb (task_nodes protection_tcb (task_nodes idle_tcb {}))))"
    by (auto simp: app_nodes_def app_ids)
  have "app_created y s s4" using s1(1) s2(1) s3(1) s4(1) by (simp add: app_created_def)
  moreover have t: "tcbs s4 idle_tcb = tcbs s idle_tcb" "tcbs s4 protection_tcb = tcbs s1 protection_tcb"
    "tcbs s4 control_tcb = tcbs s2 control_tcb" "tcbs s4 comms_tcb = tcbs s3 comms_tcb"
    using s1(4) s2(4) s3(4) s4(4) by (simp_all add: app_ids)
  ultimately show ?thesis
    unfolding n using s1(3,5) s2(3,5) s3(3,5) s4(2,3,5)
    by (intro exI [of _ s4]) (simp add: app_task_cong [OF t(2)] app_task_cong [OF t(3)] app_task_cong [OF t(4)])
qed

lemma app_lists_simps:
  "wait_head k \<Longrightarrow> app_lists k = []" "app_lists ActiveTimers = []"
  "EventLink t \<notin> set (app_lists k)"
  by (cases k) (auto simp: app_lists_def)

lemma app_top: "top_ready app_lists p \<longleftrightarrow> p = 4"
proof -
  have ne: "app_lists (ReadyList q) \<noteq> [] \<longleftrightarrow> q \<le> 4" for q
    by (auto simp: app_lists_def)
  show ?thesis
  proof
    assume t: "top_ready app_lists p"
    then have "p \<le> 4" by (simp add: top_ready_def ne)
    moreover have "\<not> p < 4" using t ne [of 4] by (auto simp: top_ready_def)
    ultimately show "p = 4" by simp
  next
    have "app_lists (ReadyList q) = []" if "4 < q" for q using ne [of q] that by simp
    then show "p = 4 \<Longrightarrow> top_ready app_lists p" by (simp add: top_ready_def ne)
  qed
qed

text \<open>The state in which \<open>main\<close> calls \<^verbatim>\<open>nimble_scheduler_start\<close>, by its fields.\<close>

lemma app_ready:
  assumes k: "nimble_scheduler_init (kern a) = Some k" and sy: "syms_ok (syms (kern a))" and y: "app_symbols_ok y"
  shows "\<exists>s1 s2. app_created y (kern (ps_shared_init (a\<lparr>kern := k\<rparr>))) s1 \<and>
     nimble_timer_service_start PS_PRIO_TIMER_SVC (sym_timer_svc_stack y) (STACK_WORDS 512) s1 = Some (NIMBLE_OK, s2) \<and>
     sched_inv True {} app_heads app_nodes app_lists s2 \<and> timers_inv app_heads app_nodes app_lists [] s2 \<and>
     nimble_current_tcb s2 = None \<and> pendsv s2 = pendsv (kern a) \<and>
     mutexes s2 g_status_mutex = \<lparr>mutex_owner = None, mutex_lock_count = 0\<rparr> \<and>
     semaphores s2 g_fault_semaphore = \<lparr>sem_count = 0, sem_max_count = 1\<rparr> \<and>
     semaphores s2 timer_wake_sem = \<lparr>sem_count = 0, sem_max_count = 1\<rparr> \<and>
     queues s2 g_adc_sample_queue = new_queue (replicate 32 0) 4 ADC_QUEUE_DEPTH \<and>
     app_task s2 protection_tcb PS_PRIO_PROTECTION \<and> app_task s2 control_tcb PS_PRIO_CONTROL \<and>
     app_task s2 comms_tcb PS_PRIO_COMMS \<and> app_task s2 logger_tcb PS_PRIO_LOGGER \<and>
     task_state s2 idle_tcb = NIMBLE_TASK_READY \<and> tcb_base_priority (tcbs s2 idle_tcb) = task_priority s2 idle_tcb \<and>
     tcb_base_priority (tcbs s2 timer_task_tcb) = task_priority s2 timer_task_tcb"
proof -
  let ?L = "enlist (ReadyList 0) (Link idle_tcb) (\<lambda>_. [])"
  let ?a = "a\<lparr>kern := k\<rparr>" and ?H = "app_heads - {SemWaiters timer_wake_sem, ActiveTimers}"
  have k': "sched_inv True {} boot_heads (task_nodes idle_tcb {}) ?L (kern ?a)" "nimble_current_tcb k = None"
    "syms k = syms (kern a)" "pendsv k = pendsv (kern a)" "task_state k idle_tcb = NIMBLE_TASK_READY"
    "tcb_base_priority (tcbs k idle_tcb) = task_priority k idle_tcb"
    using init_inv [OF sy] k by auto
  have w: "?L j = []" if "wait_head j" for j using that by (cases j) auto
  note sh = app_shared_inv [OF k'(1) w]
  obtain s1 where s1: "app_created y (kern (ps_shared_init ?a)) s1" "app_frame (kern (ps_shared_init ?a)) s1"
    and i1: "sched_inv True {} ?H (app_nodes - {Link timer_task_tcb, EventLink timer_task_tcb})
       (enlist (ReadyList (Suc 0)) (Link logger_tcb) (enlist (ReadyList 2) (Link comms_tcb)
         (enlist (ReadyList 3) (Link control_tcb) (enlist (ReadyList 4) (Link protection_tcb) ?L)))) s1"
    and t1: "app_task s1 protection_tcb PS_PRIO_PROTECTION" "app_task s1 control_tcb PS_PRIO_CONTROL"
     "app_task s1 comms_tcb PS_PRIO_COMMS" "app_task s1 logger_tcb PS_PRIO_LOGGER"
     "tcbs s1 idle_tcb = tcbs (kern (ps_shared_init ?a)) idle_tcb"
    using app_created_inv [OF sh(1) y] by blast
  have new: "ActiveTimers \<notin> ?H" "SemWaiters timer_wake_sem \<notin> ?H"
    "Link timer_task_tcb \<notin> app_nodes - {Link timer_task_tcb, EventLink timer_task_tcb}"
    "TimerLink t \<notin> app_nodes - {Link timer_task_tcb, EventLink timer_task_tcb}" for t
    by (auto simp: app_nodes_def)
  have ok: "create_ok (sym_timer_task_fn (syms s1)) (sym_timer_svc_stack y) (STACK_WORDS 512) PS_PRIO_TIMER_SVC"
    using app_create_ok(5) [OF y] sy s1(2) sh(7) k'(3) by simp
  let ?L1 = "(enlist (ReadyList (Suc 0)) (Link logger_tcb) (enlist (ReadyList 2) (Link comms_tcb)
         (enlist (ReadyList 3) (Link control_tcb) (enlist (ReadyList 4) (Link protection_tcb) ?L))))"
  have e: "insert (SemWaiters timer_wake_sem) (insert ActiveTimers ?H) = app_heads"
    "task_nodes timer_task_tcb (app_nodes - {Link timer_task_tcb, EventLink timer_task_tcb}) = app_nodes"
    "enlist (ReadyList (unat PS_PRIO_TIMER_SVC)) (Link timer_task_tcb)
       (?L1(ActiveTimers := [], SemWaiters timer_wake_sem := [])) = app_lists"
    by (auto simp: app_heads_def app_nodes_def app_lists_def fun_eq_iff PS_PRIO_TIMER_SVC_def)
  obtain s2 where s2: "nimble_timer_service_start PS_PRIO_TIMER_SVC (sym_timer_svc_stack y) (STACK_WORDS 512) s1 = Some (NIMBLE_OK, s2)"
    "sched_inv True {} app_heads app_nodes app_lists s2" "timers_inv app_heads app_nodes app_lists [] s2"
    "semaphores s2 = (semaphores s1)(timer_wake_sem := \<lparr>sem_count = 0, sem_max_count = 1\<rparr>)"
    "mutexes s2 = mutexes s1" "queues s2 = queues s1" "nimble_current_tcb s2 = nimble_current_tcb s1" "pendsv s2 = pendsv s1"
    and t2: "\<And>x. x \<noteq> timer_task_tcb \<Longrightarrow> tcbs s2 x = tcbs s1 x"
    and t3: "task_priority s2 timer_task_tcb = PS_PRIO_TIMER_SVC"
     "tcb_base_priority (tcbs s2 timer_task_tcb) = PS_PRIO_TIMER_SVC"
    using timer_service_start_inv [OF i1 new ok] unfolding e by blast
  have t: "tcbs s2 protection_tcb = tcbs s1 protection_tcb" "tcbs s2 control_tcb = tcbs s1 control_tcb"
    "tcbs s2 comms_tcb = tcbs s1 comms_tcb" "tcbs s2 logger_tcb = tcbs s1 logger_tcb" "tcbs s2 idle_tcb = tcbs s1 idle_tcb"
    by (simp_all add: t2 app_ids)
  have d: "g_fault_semaphore \<noteq> timer_wake_sem" by (simp add: app_ids)
  show ?thesis
    using s1 s2 sh t1 k' d t3
    by (intro exI [of _ s1] exI [of _ s2])
      (simp add: t [THEN app_task_cong] t(5))
qed

text \<open>The scheduler starts the protection task and the kernel's invariant holds.\<close>

lemma app_started:
  assumes i: "sched_inv True {} app_heads app_nodes app_lists s" "timers_inv app_heads app_nodes app_lists [] s"
    and cur: "nimble_current_tcb s = None"
    and sem: "semaphores s g_fault_semaphore = \<lparr>sem_count = 0, sem_max_count = 1\<rparr>"
     "semaphores s timer_wake_sem = \<lparr>sem_count = 0, sem_max_count = 1\<rparr>"
    and q: "queues s g_adc_sample_queue = new_queue (replicate 32 0) 4 ADC_QUEUE_DEPTH"
    and idle: "task_state s idle_tcb = NIMBLE_TASK_READY"
  shows "\<exists>s'. nimble_scheduler_start s = Some s' \<and> sys_inv True app_heads app_nodes (s', \<lambda>_. NoCall) \<and>
     thread s' (\<lambda>_. NoCall) protection_tcb NoCall \<and>
     sched_inv True {} app_heads app_nodes (delist (Link protection_tcb) app_lists) s' \<and>
     objs_inv app_heads app_nodes (delist (Link protection_tcb) app_lists) (\<lambda>_. NoCall) s' \<and>
     tcbs s' = (tcbs s)(protection_tcb := (tcbs s protection_tcb)\<lparr>tcb_state := NIMBLE_TASK_RUNNING\<rparr>) \<and>
     mutexes s' = mutexes s \<and> semaphores s' = semaphores s \<and> queues s' = queues s"
proof -
  have "\<exists>p<32. app_lists (ReadyList p) \<noteq> []" by (rule exI [of _ 4]) (simp add: app_lists_def)
  from start_inv [OF i(1) cur this] obtain n p ns s' where s': "nimble_scheduler_start s = Some s'"
    and n: "p = 4" "app_lists (ReadyList p) = Link n # ns"
    and i': "sched_inv True {} app_heads app_nodes (delist (Link n) app_lists) s'"
    and f: "nimble_current_tcb s' = Some n" "task_state s' n = NIMBLE_TASK_RUNNING"
     "tcbs s' = (tcbs s)(n := (tcbs s n)\<lparr>tcb_state := NIMBLE_TASK_RUNNING\<rparr>)"
     "mutexes s' = mutexes s" "semaphores s' = semaphores s" "queues s' = queues s" "timers s' = timers s"
    unfolding app_top by blast
  have np: "n = protection_tcb" using n by (simp add: app_lists_def)
  let ?L = "delist (Link n) app_lists"
  have "sem_inv app_heads ?L s'"
    by (auto simp: sem_inv_def app_heads_def boot_heads_def f sem app_lists_simps)
  moreover have "mutex_inv app_heads ?L s'" by (simp add: mutex_inv_def app_lists_simps)
  moreover have "queue_wf (queues s g_adc_sample_queue)"
    unfolding q by (rule new_queue_wf) (simp_all add: ADC_QUEUE_DEPTH_def)
  then have "queue_inv app_heads s'" by (auto simp: queue_inv_def app_heads_def boot_heads_def f)
  moreover have "waits_inv app_heads ?L (\<lambda>_. NoCall)" using app_lists_simps(3) by (auto simp: waits_inv_def)
  moreover have "idle_inv app_nodes s'"
    using idle f np by (simp add: idle_inv_def can_run_def app_nodes_def app_ids)
  moreover have "\<exists>ts. timers_inv app_heads app_nodes ?L ts s'"
    using i(2) f by (intro exI [of _ "[]"]) (simp add: timers_inv_def)
  ultimately have o: "objs_inv app_heads app_nodes ?L (\<lambda>_. NoCall) s'"
    unfolding objs_inv_def by (simp add: handoff_inv_def calls_inv_def)
  then have "sys_inv True app_heads app_nodes (s', \<lambda>_. NoCall)" by (rule sys_invI [OF i'])
  then show ?thesis using s' f np i' o by (auto simp: thread_def app_ids)
qed

abbreviation idle_status :: ps_status where
  "idle_status \<equiv> \<lparr>status_state = PS_STATE_IDLE, status_voltage_mv = (0, 0), status_current_ma = (0, 0),
     status_fault_count = 0\<rparr>"

lemma main_returns:
  assumes "syms_ok (syms (kern a))" "app_symbols_ok y"
  shows "\<exists>a'. main y regs a = Some (nimble_stm32f4_system_init regs, a') \<and>
     sys_inv True app_heads app_nodes (kern a', \<lambda>_. NoCall) \<and>
     thread (kern a') (\<lambda>_. NoCall) protection_tcb NoCall \<and>
     sched_inv True {} app_heads app_nodes (delist (Link protection_tcb) app_lists) (kern a') \<and>
     objs_inv app_heads app_nodes (delist (Link protection_tcb) app_lists) (\<lambda>_. NoCall) (kern a') \<and>
     task_priority (kern a') protection_tcb = PS_PRIO_PROTECTION \<and>
     tcb_base_priority (tcbs (kern a') protection_tcb) = PS_PRIO_PROTECTION \<and>
     app_task (kern a') control_tcb PS_PRIO_CONTROL \<and> app_task (kern a') comms_tcb PS_PRIO_COMMS \<and>
     app_task (kern a') logger_tcb PS_PRIO_LOGGER \<and> g_status a' = idle_status \<and>
     mutexes (kern a') g_status_mutex = \<lparr>mutex_owner = None, mutex_lock_count = 0\<rparr> \<and>
     semaphores (kern a') g_fault_semaphore = \<lparr>sem_count = 0, sem_max_count = 1\<rparr> \<and>
     semaphores (kern a') timer_wake_sem = \<lparr>sem_count = 0, sem_max_count = 1\<rparr> \<and>
     queues (kern a') g_adc_sample_queue = new_queue (replicate 32 0) 4 ADC_QUEUE_DEPTH \<and>
     local_state a' = local_state a \<and> soft_start_step a' = soft_start_step a \<and>
     (\<forall>t. Link t \<in> app_nodes \<longrightarrow> tcb_base_priority (tcbs (kern a') t) = task_priority (kern a') t)"
proof -
  obtain k where k: "nimble_scheduler_init (kern a) = Some k" using init_inv [OF assms(1)] by blast
  let ?a = "ps_shared_init (a\<lparr>kern := k\<rparr>)"
  obtain s1 s2 where s1: "app_created y (kern ?a) s1"
    and s2: "nimble_timer_service_start PS_PRIO_TIMER_SVC (sym_timer_svc_stack y) (STACK_WORDS 512) s1 = Some (NIMBLE_OK, s2)"
    and i: "sched_inv True {} app_heads app_nodes app_lists s2" "timers_inv app_heads app_nodes app_lists [] s2"
    and cur: "nimble_current_tcb s2 = None"
    and o: "mutexes s2 g_status_mutex = \<lparr>mutex_owner = None, mutex_lock_count = 0\<rparr>"
     "semaphores s2 g_fault_semaphore = \<lparr>sem_count = 0, sem_max_count = 1\<rparr>"
     "semaphores s2 timer_wake_sem = \<lparr>sem_count = 0, sem_max_count = 1\<rparr>"
     "queues s2 g_adc_sample_queue = new_queue (replicate 32 0) 4 ADC_QUEUE_DEPTH"
    and t: "app_task s2 protection_tcb PS_PRIO_PROTECTION" "app_task s2 control_tcb PS_PRIO_CONTROL"
     "app_task s2 comms_tcb PS_PRIO_COMMS" "app_task s2 logger_tcb PS_PRIO_LOGGER"
     "task_state s2 idle_tcb = NIMBLE_TASK_READY"
    and u: "tcb_base_priority (tcbs s2 idle_tcb) = task_priority s2 idle_tcb"
     "tcb_base_priority (tcbs s2 timer_task_tcb) = task_priority s2 timer_task_tcb"
    using app_ready [OF k assms] by blast
  obtain s3 where s3: "nimble_scheduler_start s2 = Some s3" "sys_inv True app_heads app_nodes (s3, \<lambda>_. NoCall)"
    "thread s3 (\<lambda>_. NoCall) protection_tcb NoCall"
    "sched_inv True {} app_heads app_nodes (delist (Link protection_tcb) app_lists) s3"
    "objs_inv app_heads app_nodes (delist (Link protection_tcb) app_lists) (\<lambda>_. NoCall) s3"
    and f: "tcbs s3 = (tcbs s2)(protection_tcb := (tcbs s2 protection_tcb)\<lparr>tcb_state := NIMBLE_TASK_RUNNING\<rparr>)"
      "mutexes s3 = mutexes s2" "semaphores s3 = semaphores s2" "queues s3 = queues s2"
    using app_started [OF i cur o(2-4) t(5)] by blast
  have "main y regs a = Some (nimble_stm32f4_system_init regs, ?a\<lparr>kern := s3\<rparr>)"
    using k s1 s2 s3(1) by (auto simp: main_def app_created_def Let_def bind_eq_Some_conv split: prod.splits)
  moreover have "g_status ?a = idle_status" "local_state ?a = local_state a" "soft_start_step ?a = soft_start_step a"
    by (simp_all add: ps_shared_init_def Let_def)
  moreover have "tcb_base_priority (tcbs s2 x) = task_priority s2 x" if "Link x \<in> app_nodes" for x
    using that t u by (auto simp: app_nodes_def app_task_def)
  then have "\<forall>x. Link x \<in> app_nodes \<longrightarrow> tcb_base_priority (tcbs s3 x) = task_priority s3 x" using f(1) by simp
  ultimately show ?thesis
    using s3(2-5) f o t by (intro exI [of _ "?a\<lparr>kern := s3\<rparr>"]) (simp add: app_task_def app_ids)
qed


section \<open>A booted application\<close>

definition example_symbols :: app_symbols where
  "example_symbols = \<lparr>sym_protection_fn = 0x08001001, sym_control_fn = 0x08001101, sym_comms_fn = 0x08001201,
     sym_logger_fn = 0x08001301, sym_protection_stack = 0x20001000, sym_control_stack = 0x20002000,
     sym_comms_stack = 0x20003000, sym_logger_stack = 0x20004000, sym_timer_svc_stack = 0x20005000\<rparr>"

definition reset_app :: app where
  "reset_app = \<lparr>kern = zero_kernel, g_status = idle_status, local_state = PS_STATE_IDLE, soft_start_step = 0,
     line_buf = replicate 64 0, line_len = 0\<rparr>"

lemma example_symbols_ok: "syms_ok (syms (kern reset_app))" "app_symbols_ok example_symbols"
  by (simp_all add: reset_app_def zero_kernel_def syms_ok_def app_symbols_ok_def example_symbols_def)

definition reset_regs :: mcu_regs where
  "reset_regs = \<lparr>SCB_SHPR3 = 0, STK_CTRL = 0, STK_LOAD = 0, STK_VAL = 0\<rparr>"


definition booted :: app where
  "booted = snd (the (main example_symbols reset_regs reset_app))"

lemma booted_inv:
  "sys_inv True app_heads app_nodes (kern booted, \<lambda>_. NoCall)"
  "thread (kern booted) (\<lambda>_. NoCall) protection_tcb NoCall"
  "sched_inv True {} app_heads app_nodes (delist (Link protection_tcb) app_lists) (kern booted)"
  "objs_inv app_heads app_nodes (delist (Link protection_tcb) app_lists) (\<lambda>_. NoCall) (kern booted)"
  "task_priority (kern booted) protection_tcb = PS_PRIO_PROTECTION"
  "tcb_base_priority (tcbs (kern booted) protection_tcb) = PS_PRIO_PROTECTION"
  "g_status booted = idle_status"
  "mutexes (kern booted) g_status_mutex = \<lparr>mutex_owner = None, mutex_lock_count = 0\<rparr>"
  "semaphores (kern booted) g_fault_semaphore = \<lparr>sem_count = 0, sem_max_count = 1\<rparr>"
  "queues (kern booted) g_adc_sample_queue = new_queue (replicate 32 0) 4 ADC_QUEUE_DEPTH"
  "local_state booted = PS_STATE_IDLE" "soft_start_step booted = 0"
  "semaphores (kern booted) timer_wake_sem = \<lparr>sem_count = 0, sem_max_count = 1\<rparr>"
  "\<And>t. Link t \<in> app_nodes \<Longrightarrow> tcb_base_priority (tcbs (kern booted) t) = task_priority (kern booted) t"
  using main_returns [OF example_symbols_ok, of reset_regs] by (auto simp: booted_def reset_app_def)

end
