(* ===== verification/App_Interrupt.thy ===== *)
theory App_Interrupt
  imports App_Boot
begin

text \<open>
  The interrupt handlers of the power supply application: the single-precision limits, and what
  the ADC interrupt does to the kernel.
\<close>

section \<open>The limits\<close>

lemma adc_scale:
  "f32_div (f32_of_int 16500) (f32_of_int 4095) = (8450063, -21)"
  "f32_div (f32_of_int 5000) (f32_of_int 4095) = (10242501, -23)"
  by code_simp+

lemma overcurrent_iff:
  assumes "0 \<le> r" "r < 4096"
  shows "f32_less (3000, 0) (f32_round (r * 10242501) (-23)) \<longleftrightarrow> 2458 \<le> r"
proof -
  let ?m = "r * 10242501"
  consider "?m < 2 ^ 34" | "2 ^ 34 \<le> ?m" "?m < 2 ^ 35" | "2 ^ 35 \<le> ?m" by linarith
  then show ?thesis
  proof cases
    case 1
    then have "\<not> f32_less (3000, 0) (f32_round ?m (- int 23))"
      using assms by (intro f32_round_not_above [of _ 10]) simp_all
    then show ?thesis using 1 by simp
  next
    case 2
    then have "f32_round ?m (-23) = (round_half_even ?m 2048, -12)"
      using f32_round_large [of 10 ?m "-23"] by simp
    moreover have "12288000 < round_half_even ?m 2048 \<longleftrightarrow> 2458 \<le> r"
    proof
      assume "2458 \<le> r"
      then have "12293001 \<le> ?m div 2048" by simp
      then show "12288000 < round_half_even ?m 2048" using round_half_even_bounds(1) [of ?m 2048] by simp
    next
      assume a: "12288000 < round_half_even ?m 2048"
      show "2458 \<le> r"
      proof (rule ccontr)
        assume "\<not> 2458 \<le> r"
        then have le: "?m \<le> 25165824957" by simp
        define q t where "q = ?m div 2048" and "t = ?m mod 2048"
        have "?m = 2048 * q + t" "0 \<le> t" by (simp_all add: q_def t_def)
        then have "q < 12288000 \<or> (q = 12288000 \<and> t < 1024)" using le by linarith
        then have "?m div 2048 < 12288000 \<or> (?m div 2048 = 12288000 \<and> ?m mod 2048 < 1024)"
          by (simp only: q_def t_def)
        then show False using a round_half_even_bounds(2) [of ?m 2048]
          by (auto simp: round_half_even_def Let_def split: if_splits)
      qed
    qed
    ultimately show ?thesis by (simp add: f32_less_def)
  next
    case 3
    then have "f32_round ?m (-23) = (round_half_even ?m 4096, -11)"
      using f32_round_large [of 11 ?m "-23"] assms by simp
    moreover have "8388608 \<le> ?m div 4096" using 3 by simp
    ultimately show ?thesis
      using round_half_even_bounds(1) [of ?m 4096] 3 by (simp add: f32_less_def)
  qed
qed

lemma no_overvoltage:
  assumes "0 \<le> r" "r \<le> 2457"
  shows "\<not> f32_less (13000, 0) (f32_round (r * 8450063) (-21))"
proof (cases "r * 8450063 < 2 ^ 34")
  case True
  then have "\<not> f32_less (13000, 0) (f32_round (r * 8450063) (- int 21))"
    using assms by (intro f32_round_not_above [of _ 10]) simp_all
  then show ?thesis by simp
next
  case False
  let ?m = "r * 8450063"
  have "f32_round ?m (-21) = (round_half_even ?m 2048, -10)"
    using f32_round_large [of 10 ?m "-21"] False assms by simp
  moreover have "?m div 2048 < 13000000" using assms by simp
  ultimately show ?thesis using round_half_even_bounds(2) [of ?m 2048] by (simp add: f32_less_def)
qed


lemma adc_raw:
  fixes dr :: u32
  shows "uint (voltage_raw (adc_sample dr)) = uint (dr AND 0xFFF)" "current_raw (adc_sample dr) = voltage_raw (adc_sample dr)"
    "uint (dr AND 0xFFF) < 4096"
proof -
  have "dr AND 0xFFF = take_bit 12 dr" by (simp add: take_bit_eq_mask mask_eq_exp_minus_1)
  then have u: "uint (dr AND 0xFFF) = take_bit 12 (uint dr)" by (simp only: unsigned_take_bit_eq)
  then show lt: "uint (dr AND 0xFFF) < 4096" using take_bit_int_less_exp [of 12 "uint dr"] by simp
  have "uint (ucast (dr AND 0xFFF) :: u16) = take_bit 16 (uint (dr AND 0xFFF))"
    by (simp only: unsigned_ucast_eq) simp
  also have "\<dots> = uint (dr AND 0xFFF)" using lt by (intro take_bit_int_eq_self) simp_all
  finally show "uint (voltage_raw (adc_sample dr)) = uint (dr AND 0xFFF)" by (simp add: adc_sample_def Let_def)
qed (simp add: adc_sample_def Let_def)

lemma over_limit_iff: "over_limit (adc_sample dr) \<longleftrightarrow> 2458 \<le> uint (dr AND 0xFFF)"
proof -
  let ?r = "uint (dr AND 0xFFF)"
  have r: "0 \<le> ?r" "?r < 4096" using adc_raw(3) by simp_all
  have c: "f32_of_int ?r = (?r, 0)" "PS_OVERVOLTAGE_LIMIT_MV = (13000, 0)" "PS_OVERCURRENT_LIMIT_MA = (3000, 0)"
    using r by (simp_all add: f32_of_int_def f32_round_small PS_OVERVOLTAGE_LIMIT_MV_def PS_OVERCURRENT_LIMIT_MA_def)
  show ?thesis
    using overcurrent_iff [OF r] no_overvoltage [OF r(1)] r
    unfolding over_limit_def Let_def adc_raw(2) adc_raw(1) c adc_scale f32_mul_def by (auto simp: not_le)
qed

section \<open>The ADC interrupt\<close>

text \<open>Sending from an interrupt leaves the waiters of other objects alone.\<close>

lemma woken_other:
  assumes o: "objs_inv H N L c s" and k: "k \<in> H" "j \<in> H" "wait_head k" "wait_head j" "j \<noteq> k" and sh: "shape H N L"
  shows "woken_lists s (first_waiter k L) L j = L j"
    and "EventLink t \<in> set (L j) \<Longrightarrow> woken_tcbs (first_waiter k L) T t = T t"
proof -
  obtain ts where ts: "L k = map EventLink ts" using wait_links [OF sh k(1,3)] by blast
  obtain us where us: "L j = map EventLink us" using wait_links [OF sh k(2,4)] by blast
  have d: "x \<notin> set us" if "x \<in> set ts" for x
  proof
    assume "x \<in> set us"
    then have "EventLink x \<in> set (L k)" "EventLink x \<in> set (L j)" using that ts us by simp_all
    then have "waits_on (c x) = Some k" "waits_on (c x) = Some j"
      using objs_invD(4) [OF o] k(1,2) unfolding waits_inv_def by blast+
    then show False using k(5) by simp
  qed
  show "woken_lists s (first_waiter k L) L j = L j"
  proof (cases ts)
    case (Cons a xs)
    then have "EventLink a \<notin> set (L j)" "Link a \<notin> set (L j)" using d [of a] us by auto
    then have "removeAll (EventLink a) (removeAll (Link a) (L j)) = L j" by simp
    then show ?thesis using Cons ts k(4) by (cases j) (auto simp: woken_lists_def wake_lists_def)
  qed (use ts in \<open>simp add: woken_lists_def\<close>)
  show "EventLink t \<in> set (L j) \<Longrightarrow> woken_tcbs (first_waiter k L) T t = T t"
    using d us ts by (cases ts) (auto simp: first_waiter_def woken_tcbs_def)
qed

lemma woken_blocked:
  assumes i: "sched_inv b {} H N L s" and k: "k \<in> H" "wait_head k" and x: "task_state s x \<noteq> NIMBLE_TASK_BLOCKED"
  shows "woken_tcbs (first_waiter k L) T x = T x"
proof -
  obtain ts where ts: "L k = map EventLink ts" using wait_links [OF sched_inv_shape [OF i] k] by auto
  have "EventLink x \<notin> set (L k)" using event_free [OF i x] k by (simp add: free_node_def)
  then show ?thesis using ts by (cases ts) (auto simp: first_waiter_def woken_tcbs_def)
qed

lemma woken_priority [simp]: "tcb_priority (woken_tcbs w T x) = tcb_priority (T x)"
  by (cases w) (simp_all add: woken_tcbs_def)

lemma woken_none: "L k = [] \<Longrightarrow> woken_lists s (first_waiter k L) L = L"
  by (simp add: woken_lists_def)

lemma isr_send_spec:
  assumes i: "sched_inv b {} H N L s" and o: "objs_inv H N L c s" and q: "QueueReceivers q \<in> H"
    and item: "length item = unat (queue_item_size (queues s q))"
  shows "\<exists>r w s' L'. nimble_queue_send_from_isr q item s = Some (r, w, s') \<and>
     sched_inv b {} H N L' s' \<and> objs_inv H N L' c s' \<and>
     queue_items (queues s' q) = queue_items (queues s q) @
       (if queue_count (queues s q) < queue_capacity (queues s q) then [item] else []) \<and>
     semaphores s' = semaphores s \<and> mutexes s' = mutexes s \<and> nimble_current_tcb s' = nimble_current_tcb s \<and>
     (\<forall>x. task_state s x \<noteq> NIMBLE_TASK_BLOCKED \<longrightarrow> tcbs s' x = tcbs s x) \<and>
     (\<forall>x. task_priority s' x = task_priority s x) \<and>
     (L (QueueReceivers q) = [] \<longrightarrow> L' = L) \<and>
     (\<forall>j. j \<in> H \<longrightarrow> wait_head j \<longrightarrow> j \<noteq> QueueReceivers q \<longrightarrow> L' j = L j \<and>
        (\<forall>t. EventLink t \<in> set (L j) \<longrightarrow> tcbs s' t = tcbs s t))"
proof (cases "queue_count (queues s q) < queue_capacity (queues s q)")
  case True
  have wf: "queue_wf (queues s q)" using objs_invD(3) [OF o] q by (simp add: queue_inv_def)
  let ?w = "first_waiter (QueueReceivers q) L"
  have "item_fits (queues s q) item" "length (queue_items (queues s q)) < unat (queue_capacity (queues s q))"
    using item True by (simp_all add: item_fits_def word_less_nat_alt)
  from ring.put_spec [OF wf this] obtain x where x: "copy_in item (queues s q) = Some x" "queue_wf x"
    "queue_items x = queue_items (queues s q) @ [item]"
    by blast
  have sz: "queue_item_size x = queue_item_size (queues s q)" using copy_item_size(1) [OF x(1)] .
  obtain s' where s': "nimble_queue_send_from_isr q item s = Some (NIMBLE_OK, ?w \<noteq> None, s')"
    and i': "sched_inv b {} H N (woken_lists s ?w L) s'"
    and f: "s' = s\<lparr>queues := (queues s)(q := x), tcbs := woken_tcbs ?w (tcbs s),
            heap := heap s', ready_bitmap := ready_bitmap s'\<rparr>"
    using send_from_isr_room [OF i q True x(1)] by blast
  have fr: "queues s' = (queues s)(q := x)" "tcbs s' = woken_tcbs ?w (tcbs s)" "semaphores s' = semaphores s"
    "nimble_current_tcb s' = nimble_current_tcb s" "mutexes s' = mutexes s" "timers s' = timers s"
    by (subst f, simp)+
  have "objs_inv H N (woken_lists s ?w L) c s'"
    by (rule objs_store [OF i o q _ _ x(2) sz i' fr(5,3,6,1,2)]) simp_all
  then show ?thesis
    using s' i' True x(3) fr woken_other [OF o q _ _ _ _ sched_inv_shape [OF i]] woken_blocked [OF i q] woken_none [of L "QueueReceivers q" s]
    by (intro exI [of _ NIMBLE_OK] exI [of _ "?w \<noteq> None"] exI [of _ s'] exI [of _ "woken_lists s ?w L"]) simp
next
  case False
  then show ?thesis
    using send_from_isr_full [OF False] i o
    by (intro exI [of _ NIMBLE_ERR_FULL] exI [of _ False] exI [of _ s] exI [of _ L]) simp
qed

lemma sample_bytes_length [simp]: "length (sample_bytes x) = 4"
  by (simp add: sample_bytes_def u16_bytes_def)

lemma objs_pendsv [simp]: "objs_inv H N L c (s\<lparr>pendsv := v\<rparr>) = objs_inv H N L c s"
  by (simp add: objs_inv_def sem_inv_def mutex_inv_def queue_inv_def handoff_inv_def woken_ok_def
      calls_inv_def idle_inv_def can_run_def timers_inv_def)

lemma adc_spec:
  assumes i: "sched_inv b {} H N L s" and o: "objs_inv H N L c s"
    and q: "QueueReceivers g_adc_sample_queue \<in> H" "queue_item_size (queues s g_adc_sample_queue) = 4"
    and f: "SemWaiters g_fault_semaphore \<in> H"
  shows "\<exists>s' L'. ADC_IRQHandler dr s = Some s' \<and> sched_inv b {} H N L' s' \<and> objs_inv H N L' c s' \<and>
     mutexes s' = mutexes s \<and> nimble_current_tcb s' = nimble_current_tcb s \<and>
     (\<forall>x. task_state s x \<noteq> NIMBLE_TASK_BLOCKED \<longrightarrow> tcbs s' x = tcbs s x) \<and>
     (\<forall>x. task_priority s' x = task_priority s x) \<and>
     (L (QueueReceivers g_adc_sample_queue) = [] \<and> L (SemWaiters g_fault_semaphore) = [] \<longrightarrow> L' = L) \<and>
     queue_items (queues s' g_adc_sample_queue) = queue_items (queues s g_adc_sample_queue) @
       (if queue_count (queues s g_adc_sample_queue) < queue_capacity (queues s g_adc_sample_queue)
        then [sample_bytes (adc_sample dr)] else []) \<and>
     (uint (dr AND 0xFFF) < 2458 \<longrightarrow> semaphores s' = semaphores s) \<and>
     (2458 \<le> uint (dr AND 0xFFF) \<longrightarrow>
       (L (SemWaiters g_fault_semaphore) = [] \<longrightarrow>
          semaphores s' g_fault_semaphore = bump (semaphores s g_fault_semaphore)) \<and>
       (\<forall>t ws. L (SemWaiters g_fault_semaphore) = EventLink t # ws \<longrightarrow>
          task_state s' t = NIMBLE_TASK_READY \<and> tcb_last_wait_result (tcbs s' t) = NIMBLE_OK \<and> pendsv s'))"
proof -
  let ?x = "sample_bytes (adc_sample dr)" and ?q = g_adc_sample_queue and ?f = g_fault_semaphore
  have "length ?x = unat (queue_item_size (queues s ?q))" using q(2) by simp
  from isr_send_spec [OF i o q(1) this] obtain r w s1 L1 where
    s1: "nimble_queue_send_from_isr ?q ?x s = Some (r, w, s1)"
    and i1: "sched_inv b {} H N L1 s1" and o1: "objs_inv H N L1 c s1"
    and items: "queue_items (queues s1 ?q) = queue_items (queues s ?q) @
       (if queue_count (queues s ?q) < queue_capacity (queues s ?q) then [?x] else [])"
    and fr: "semaphores s1 = semaphores s" "mutexes s1 = mutexes s" "nimble_current_tcb s1 = nimble_current_tcb s"
      "\<forall>x. task_state s x \<noteq> NIMBLE_TASK_BLOCKED \<longrightarrow> tcbs s1 x = tcbs s x" "\<forall>x. task_priority s1 x = task_priority s x"
      "L (QueueReceivers ?q) = [] \<longrightarrow> L1 = L"
    and L1: "L1 (SemWaiters ?f) = L (SemWaiters ?f)"
    using f by fastforce
  show ?thesis
  proof (cases "2458 \<le> uint (dr AND 0xFFF)")
    case True
    let ?w = "first_waiter (SemWaiters ?f) L1"
    obtain s2 where s2: "nimble_semaphore_give_from_isr ?f s1 = Some (NIMBLE_OK, ?w \<noteq> None, s2)"
      and i2: "sched_inv b {} H N (woken_lists s1 ?w L1) s2"
      and f2: "s2 = s1\<lparr>semaphores := (if ?w = None then (semaphores s1)(?f := bump (semaphores s1 ?f)) else semaphores s1),
            tcbs := woken_tcbs ?w (tcbs s1), heap := heap s2, ready_bitmap := ready_bitmap s2\<rparr>"
      using give_from_isr_spec [OF i1 f] by blast
    have fr2: "semaphores s2 = (if ?w = None then (semaphores s1)(?f := bump (semaphores s1 ?f)) else semaphores s1)"
      "tcbs s2 = woken_tcbs ?w (tcbs s1)" "queues s2 = queues s1" "mutexes s2 = mutexes s1"
      "nimble_current_tcb s2 = nimble_current_tcb s1" by (subst f2, simp)+
    have o2: "objs_inv H N (woken_lists s1 ?w L1) c s2"
      by (rule objs_give [OF i1 o1 f i2 refl]) (subst f2, simp)+
    have keep: "tcbs s2 x = tcbs s x" if "task_state s x \<noteq> NIMBLE_TASK_BLOCKED" for x
      using fr(4) fr2(2) woken_blocked [OF i1 f, of x "tcbs s1"] that by simp
    have prio: "task_priority s2 x = task_priority s x" for x using fr(5) fr2(2) by simp
    have woken: "task_state s2 t = NIMBLE_TASK_READY" "tcb_last_wait_result (tcbs s2 t) = NIMBLE_OK" "?w \<noteq> None"
      if "L (SemWaiters ?f) = EventLink t # ws" for t ws
      using that L1 fr2(2) by (simp_all add: woken_tcbs_def)
    have none: "semaphores s2 = (semaphores s)(?f := bump (semaphores s ?f))" if "L (SemWaiters ?f) = []"
      using that L1 fr2(1) fr(1) by simp
    have same: "woken_lists s1 ?w L1 = L" if "L (QueueReceivers ?q) = []" "L (SemWaiters ?f) = []"
      using fr(6) that woken_none [of L1 "SemWaiters ?f" s1] by simp
    have "over_limit (adc_sample dr)" using True over_limit_iff by simp
    then have "ADC_IRQHandler dr s = Some (if w \<or> ?w \<noteq> None then nimble_port_request_context_switch s2 else s2)"
      using s1 s2 by (simp add: ADC_IRQHandler_def Let_def)
    then show ?thesis
      using True i2 o2 items fr(2,3) fr2(3-5) keep same prio woken none
      by (intro exI [of _ "if w \<or> ?w \<noteq> None then nimble_port_request_context_switch s2 else s2"]
          exI [of _ "woken_lists s1 ?w L1"])
        (auto simp: nimble_port_request_context_switch_def)
  next
    case False
    then have "\<not> over_limit (adc_sample dr)" using over_limit_iff by simp
    then have "ADC_IRQHandler dr s = Some (if w then nimble_port_request_context_switch s1 else s1)"
      using s1 by (simp add: ADC_IRQHandler_def Let_def)
    then show ?thesis
      using False i1 o1 items fr
      by (intro exI [of _ "if w then nimble_port_request_context_switch s1 else s1"] exI [of _ L1]) (auto simp: nimble_port_request_context_switch_def)
  qed
qed

text \<open>
  C12. The ADC interrupt with any register value, in any state that satisfies the invariant: it
  returns, appends the sample to the queue unless the queue is full (then the sample is dropped),
  and reports a fault exactly when the 12-bit reading is at least 2458, which is where the
  single-precision comparison with the 3000 mA limit trips (the voltage limit never decides). The
  report gives the semaphore, so that a waiting protection task is ready with \<^verbatim>\<open>NIMBLE_OK\<close> and a
  context switch is requested before the handler ends, and is remembered otherwise.
\<close>

theorem adc_interrupt:
  assumes i: "sched_inv b {} H N L s" and o: "objs_inv H N L c s"
    and q: "QueueReceivers g_adc_sample_queue \<in> H" "queue_item_size (queues s g_adc_sample_queue) = 4"
    and f: "SemWaiters g_fault_semaphore \<in> H"
  shows "\<exists>s'. ADC_IRQHandler dr s = Some s' \<and> sys_inv b H N (s', c) \<and>
     queue_items (queues s' g_adc_sample_queue) = queue_items (queues s g_adc_sample_queue) @
       (if queue_count (queues s g_adc_sample_queue) < queue_capacity (queues s g_adc_sample_queue)
        then [sample_bytes (adc_sample dr)] else []) \<and>
     (uint (dr AND 0xFFF) < 2458 \<longrightarrow> semaphores s' = semaphores s) \<and>
     (2458 \<le> uint (dr AND 0xFFF) \<longrightarrow>
       (L (SemWaiters g_fault_semaphore) = [] \<longrightarrow>
          semaphores s' g_fault_semaphore = bump (semaphores s g_fault_semaphore)) \<and>
       (\<forall>t ws. L (SemWaiters g_fault_semaphore) = EventLink t # ws \<longrightarrow>
          task_state s' t = NIMBLE_TASK_READY \<and> tcb_last_wait_result (tcbs s' t) = NIMBLE_OK \<and> pendsv s'))"
  using adc_spec [OF assms, of dr] sys_invI by blast

theorem adc_interrupt_witness:
  "\<exists>s'. ADC_IRQHandler 2500 (kern booted) = Some s' \<and> sem_count (semaphores s' g_fault_semaphore) = 1 \<and>
     queue_items (queues s' g_adc_sample_queue) = [sample_bytes (adc_sample 2500)]"
proof -
  let ?L = "delist (Link protection_tcb) app_lists"
  have h: "QueueReceivers g_adc_sample_queue \<in> app_heads" "SemWaiters g_fault_semaphore \<in> app_heads"
    by (simp_all add: app_heads_def)
  obtain L where i: "sched_inv True {} app_heads app_nodes L (kern booted)"
    and o: "objs_inv app_heads app_nodes L (\<lambda>_. NoCall) (kern booted)"
    using booted_inv(1) by (rule sys_invE)
  obtain ts where "L (SemWaiters g_fault_semaphore) = map EventLink ts"
    using wait_links [OF sched_inv_shape [OF i] h(2)] by auto
  moreover have "EventLink t \<notin> set (L (SemWaiters g_fault_semaphore))" for t
    using objs_invD(4) [OF o] h(2) by (simp add: waits_inv_def)
  ultimately have "L (SemWaiters g_fault_semaphore) = []" by (cases ts) auto
  moreover have "queue_item_size (queues (kern booted) g_adc_sample_queue) = 4"
    by (simp add: booted_inv(10) new_queue_def)
  moreover have "queue_items (queues (kern booted) g_adc_sample_queue) = []"
    unfolding booted_inv(10) by (rule new_queue_wf) (simp_all add: ADC_QUEUE_DEPTH_def)
  ultimately show ?thesis
    using adc_interrupt [OF i o h(1) _ h(2), of 2500]
    by (auto simp: booted_inv(9,10) bump_def new_queue_def ADC_QUEUE_DEPTH_def)
qed

end
