(* ===== verification/App_Control.thy ===== *)
theory App_Control
  imports App_Interrupt
begin

text \<open>
  The control and the protection task: one turn of the control loop as a function, the soft-start
  ramp, and what becomes of a fault the protection task has noted.
\<close>

section \<open>The control task\<close>

lemma with_status_free:
  assumes inv: "sys_inv b H N (kern a, c)" and th: "thread (kern a) c t NoCall"
    and m: "MutexWaiters g_status_mutex \<in> H" and free: "mutex_owner (mutexes (kern a) g_status_mutex) = None"
  shows "\<exists>k. with_status f a = Some (Returns (f (g_status a)), a\<lparr>g_status := f (g_status a), kern := k\<rparr>) \<and>
     sys_inv b H N (k, c) \<and> thread k c t NoCall \<and> mutex_owner (mutexes k g_status_mutex) = None \<and>
     queues k = queues (kern a) \<and> semaphores k = semaphores (kern a) \<and>
     (\<forall>L. sched_inv b {} H N L (kern a) \<longrightarrow> sched_inv b {} H N L k) \<and>
     (\<forall>x. x \<noteq> t \<longrightarrow> tcbs k x = tcbs (kern a) x)"
proof -
  let ?s = "kern a" and ?m = g_status_mutex
  let ?k = "?s\<lparr>mutexes := (mutexes ?s)(?m := (mutexes ?s ?m)\<lparr>mutex_owner := nimble_current_tcb ?s, mutex_lock_count := 1\<rparr>)\<rparr>"
  have l: "nimble_mutex_lock ?m NIMBLE_WAIT_FOREVER ?s = Some (Returns NIMBLE_OK, ?k)" by (rule lock_free [OF free])
  have "may_boost b ?m t ?s" by (simp add: may_boost_def free)
  from lock_step [OF inv th m this, of NIMBLE_WAIT_FOREVER] l have i1: "sys_inv b H N (?k, c)" by auto
  have th1: "thread ?k c t NoCall" using th by (simp add: thread_def)
  obtain L where i: "sched_inv b {} H N L ?k" and o: "objs_inv H N L c ?k" using i1 by (rule sys_invE)
  obtain L' where o': "sched_inv b {} H N L' ?s" "objs_inv H N L' c ?s" using inv by (rule sys_invE)
  have iL: "sched_inv b {} H N L' ?k" using o'(1) by simp
  have "L' (MutexWaiters ?m) = []" using objs_invD(2) [OF o'(2)] m free by (simp add: mutex_inv_def)
  then have u: "nimble_mutex_unlock ?m ?k = Some (NIMBLE_OK, (release_state ?m t ?k)\<lparr>basepri := basepri ?k\<rparr>)"
    using threadD(1,2) [OF th1] by (intro unlock_no_waiter [OF iL _ _ m]) simp_all
  let ?k' = "(release_state ?m t ?k)\<lparr>basepri := basepri ?k\<rparr>"
  have "with_status f a = Some (Returns (f (g_status a)), a\<lparr>g_status := f (g_status a), kern := ?k'\<rparr>)"
    using l u by (simp add: with_status_def status_locked_def Let_def)
  moreover have "sys_inv b H N (?k', c)" using unlock_step [OF i1 th1 m] u by auto
  moreover have "thread ?k' c t NoCall" using th by (auto simp: thread_def release_state_def)
  moreover have "sched_inv b {} H N K ?k'" if "sched_inv b {} H N K ?s" for K
    using release_state_inv [of b H N K ?k t ?m] that threadD(1,2) [OF th1] by simp
  ultimately show ?thesis by (intro exI [of _ ?k']) (simp add: release_state_def)
qed

lemma receive_ready:
  assumes inv: "sys_inv b H N (s, c)" and th: "thread s c t NoCall"
    and q: "QueueReceivers q \<in> H" "QueueSenders q \<in> H" and x: "queue_items (queues s q) = x # xs"
  shows "\<exists>k. nimble_queue_receive q timeout s = Some (Returns (NIMBLE_OK, Some x), k) \<and>
     sys_inv b H N (k, c) \<and> thread k c t NoCall \<and> mutexes k = mutexes s \<and> queue_items (queues k q) = xs"
proof -
  obtain L where i: "sched_inv b {} H N L s" and o: "objs_inv H N L c s" using inv by (rule sys_invE)
  have wf: "queue_wf (queues s q)" using objs_invD(3) [OF o] q by (simp add: queue_inv_def)
  let ?w = "first_waiter (QueueSenders q) L"
  have ne: "0 < queue_count (queues s q)"
    using x length_queue_items [of "queues s q"] by (auto simp: word_less_nat_alt)
  obtain y where y: "copy_out (queues s q) = Some (x, y)" "queue_wf y" "queue_items y = xs"
    using ring.get_spec [OF wf x] by blast
  obtain k where k: "nimble_queue_receive q timeout s = Some (Returns (NIMBLE_OK, Some x), k)"
    and f: "k = s\<lparr>queues := (queues s)(q := y), tcbs := woken_tcbs ?w (tcbs s),
            pendsv := (pendsv s \<or> ?w \<noteq> None), heap := heap k, ready_bitmap := ready_bitmap k\<rparr>"
    using receive_item [OF i q(2) ne y(1)] by blast
  have fr: "queues k = (queues s)(q := y)" "tcbs k = woken_tcbs ?w (tcbs s)" "nimble_current_tcb k = nimble_current_tcb s"
    "mutexes k = mutexes s"
    by (subst f, simp)+
  have "?w \<noteq> Some t"
  proof -
    obtain ts where ts: "L (QueueSenders q) = map EventLink ts" using wait_links [OF sched_inv_shape [OF i] q(2)] by auto
    have "EventLink t \<notin> set (L (QueueSenders q))"
      using event_free [OF i, of t] threadD(2) [OF th] q(2) by (auto simp: free_node_def)
    then show ?thesis using ts by (cases ts) (auto simp: first_waiter_def)
  qed
  then have "thread k c t NoCall" using th fr by (cases ?w) (auto simp: thread_def woken_tcbs_def)
  moreover have "sys_inv b H N (k, c)" using receive_step [OF inv th q, of timeout] k by auto
  ultimately show ?thesis using k fr y(3) by auto
qed

lemma u16_bytes_round_trip: "u16_of_bytes (ucast w) (ucast (drop_bit 8 w)) = w"
  unfolding u16_of_bytes_def by (rule bit_word_eqI) (auto simp: bit_simps)

lemma sample_round_trip: "sample_of_bytes (sample_bytes x) = Some x"
  by (simp add: sample_bytes_def u16_bytes_def u16_bytes_round_trip)

text \<open>The loop of a task, for a number of steps or to the point where it blocks.\<close>

fun task_run ::
  "('pc \<Rightarrow> app \<Rightarrow> ('pc call_result \<times> app) option) \<Rightarrow> nat \<Rightarrow> 'pc \<Rightarrow> app \<Rightarrow> ('pc call_result \<times> app) option" where
  "task_run step 0 pc a = Some (Returns pc, a)"
| "task_run step (Suc n) pc a =
     do { (r, a) \<leftarrow> step pc a;
          case r of Blocks \<Rightarrow> Some (Blocks, a) | Returns pc \<Rightarrow> task_run step n pc a }"

lemma task_run_add:
  "task_run step m pc a = Some (Returns pc', a') \<Longrightarrow>
   task_run step (m + n) pc a = task_run step n pc' a'"
  by (induction m arbitrary: pc a) (auto split: bind_splits call_result.splits)

text \<open>One turn of the loop as a function of the status, the two static variables and the sample.\<close>

definition control_turn ::
  "ps_adc_sample \<Rightarrow> ps_status \<times> ps_state_t \<times> u32 \<Rightarrow> nat \<times> ps_status \<times> ps_state_t \<times> u32" where
  "control_turn x p =
     (let (status, local, step) = p;
          (st, step, set) = run_state_machine_switch local step;
          status = status\<lparr>status_voltage_mv := ADC_TO_MILLIVOLTS (voltage_raw x),
                          status_current_ma := ADC_TO_MILLIAMPS (current_raw x)\<rparr>;
          status = (if set then status\<lparr>status_state := st\<rparr> else status)
      in (if set then 4 else 3, status, if status_state status = PS_STATE_FAULT then PS_STATE_FAULT else st, step))"

lemma control_turn_run:
  assumes inv: "sys_inv b H N (kern a, c)" and th: "thread (kern a) c t NoCall"
    and H: "MutexWaiters g_status_mutex \<in> H" "QueueReceivers g_adc_sample_queue \<in> H" "QueueSenders g_adc_sample_queue \<in> H"
    and free: "mutex_owner (mutexes (kern a) g_status_mutex) = None"
    and x: "queue_items (queues (kern a) g_adc_sample_queue) = sample_bytes x # xs"
    and turn: "control_turn x (g_status a, local_state a, soft_start_step a) = (n, status, local, step)"
  shows "\<exists>a'. task_run control_step n Control_Receive a = Some (Returns Control_Receive, a') \<and>
     g_status a' = status \<and> local_state a' = local \<and> soft_start_step a' = step \<and>
     sys_inv b H N (kern a', c) \<and> thread (kern a') c t NoCall \<and>
     mutex_owner (mutexes (kern a') g_status_mutex) = None \<and>
     queue_items (queues (kern a') g_adc_sample_queue) = xs"
proof -
  obtain st step' set where sw: "run_state_machine_switch (local_state a) (soft_start_step a) = (st, step', set)"
    by (metis prod_cases3)
  obtain k1 where k1: "nimble_queue_receive g_adc_sample_queue NIMBLE_WAIT_FOREVER (kern a) =
      Some (Returns (NIMBLE_OK, Some (sample_bytes x)), k1)"
    and i1: "sys_inv b H N (k1, c)" "thread k1 c t NoCall" "mutexes k1 = mutexes (kern a)"
      "queue_items (queues k1 g_adc_sample_queue) = xs"
    using receive_ready [OF inv th H(2,3) x] by blast
  let ?a1 = "a\<lparr>kern := k1\<rparr>"
  let ?f = "ps_status_set_measurement (ADC_TO_MILLIVOLTS (voltage_raw x)) (ADC_TO_MILLIAMPS (current_raw x))"
  have r1: "control_step Control_Receive a = Some (Returns (Control_Measure x), ?a1)"
    using k1 by (simp add: control_received_def sample_round_trip)
  have i1': "sys_inv b H N (kern ?a1, c)" "thread (kern ?a1) c t NoCall" "mutex_owner (mutexes (kern ?a1) g_status_mutex) = None"
    using i1 free by simp_all
  obtain k2 where k2: "with_status ?f ?a1 = Some (Returns (?f (g_status ?a1)), ?a1\<lparr>g_status := ?f (g_status ?a1), kern := k2\<rparr>)"
    and i2: "sys_inv b H N (k2, c)" "thread k2 c t NoCall" "mutex_owner (mutexes k2 g_status_mutex) = None"
      "queues k2 = queues k1"
    using with_status_free [OF i1'(1,2) H(1) i1'(3), of ?f] by auto
  let ?a2 = "a\<lparr>kern := k2, g_status := ?f (g_status a), local_state := st, soft_start_step := step'\<rparr>"
  have r2: "control_step (Control_Measure x) ?a1 = Some (Returns (if set then Control_Set else Control_Sync), ?a2)"
    using k2 sw by (simp add: control_next_def control_switch_def)
  have sync: "\<exists>k. control_step Control_Sync z = Some (Returns Control_Receive, control_sync (g_status z) (z\<lparr>kern := k\<rparr>)) \<and>
      sys_inv b H N (k, c) \<and> thread k c t NoCall \<and> mutex_owner (mutexes k g_status_mutex) = None \<and> queues k = queues k1"
    if "sys_inv b H N (kern z, c)" "thread (kern z) c t NoCall" "mutex_owner (mutexes (kern z) g_status_mutex) = None"
      "queues (kern z) = queues k1" for z
    using with_status_free [OF that(1,2) H(1) that(3), of ps_status_get] that(4)
    by (auto simp: control_next_def ps_status_get_def control_sync_def)
  show ?thesis
  proof (cases set)
    case True
    obtain k3 where k3: "with_status (ps_status_set_state st) ?a2 = Some (Returns (ps_status_set_state st (g_status ?a2)),
        ?a2\<lparr>g_status := ps_status_set_state st (g_status ?a2), kern := k3\<rparr>)"
      and i3: "sys_inv b H N (k3, c)" "thread k3 c t NoCall" "mutex_owner (mutexes k3 g_status_mutex) = None" "queues k3 = queues k1"
      using with_status_free [of b H N ?a2 c t "ps_status_set_state st"] i2 H(1) by auto
    let ?a3 = "a\<lparr>kern := k3, g_status := ps_status_set_state st (?f (g_status a)), local_state := st, soft_start_step := step'\<rparr>"
    have r3: "control_step Control_Set ?a2 = Some (Returns Control_Sync, ?a3)" using k3 by (simp add: control_next_def)
    have "n = Suc (Suc (Suc (Suc 0)))" using turn sw True by (simp add: control_turn_def)
    then show ?thesis
      using sync [of ?a3] i3 r1 r2 r3 True turn sw i1(4)
      by (auto simp: control_turn_def control_sync_def ps_status_set_state_def ps_status_set_measurement_def)
  next
    case False
    have "n = Suc (Suc (Suc 0))" using turn sw False by (simp add: control_turn_def)
    then show ?thesis
      using sync [of ?a2] i2 r1 r2 False turn sw i1(4)
      by (auto simp: control_turn_def control_sync_def ps_status_set_measurement_def)
  qed
qed

text \<open>Blocking on the empty queue.\<close>

lemma control_blocks:
  assumes inv: "sys_inv b H N (kern a, c)" and th: "thread (kern a) c t NoCall"
    and q: "QueueReceivers g_adc_sample_queue \<in> H" "QueueSenders g_adc_sample_queue \<in> H"
    and e: "queue_items (queues (kern a) g_adc_sample_queue) = []"
  shows "\<exists>k. control_step Control_Receive a = Some (Blocks, a\<lparr>kern := k\<rparr>) \<and>
     sys_inv b H N (k, c(t := InReceive g_adc_sample_queue))"
proof -
  let ?q = g_adc_sample_queue
  obtain L where i: "sched_inv b {} H N L (kern a)" using inv by (rule sys_invE)
  obtain ts where ts: "L (QueueReceivers ?q) = map EventLink ts" using wait_links [OF sched_inv_shape [OF i] q(1)] by auto
  have "queue_count (queues (kern a) ?q) = 0"
    using e length_queue_items [of "queues (kern a) ?q"] by (simp add: unat_eq_zero)
  moreover have "NIMBLE_WAIT_FOREVER \<noteq> NIMBLE_NO_WAIT" by (simp add: kdefs)
  ultimately obtain k where k: "nimble_queue_receive ?q NIMBLE_WAIT_FOREVER (kern a) = Some (Blocks, k)"
    using receive_blocks [OF i threadD(1,2) [OF th] q(1) ts] by blast
  then have "sys_inv b H N (k, c(t := InReceive ?q))"
    using receive_step [OF inv th q, of NIMBLE_WAIT_FOREVER] by auto
  then show ?thesis using k by (intro exI [of _ k]) simp
qed

text \<open>
  C13. The control task refines its state machine: with the status mutex free it handles every
  sample in the queue, oldest first, each as one turn of the pure function \<open>control_turn\<close> on the
  status, the local state and the ramp step (measurement, switch, publication, resynchronisation
  with a fault), leaves the mutex free and the kernel's invariant intact, and then blocks on the
  empty queue.
\<close>

theorem control_drains_queue:
  assumes "sys_inv b H N (kern a, c)" "thread (kern a) c t NoCall"
    and H: "MutexWaiters g_status_mutex \<in> H" "QueueReceivers g_adc_sample_queue \<in> H" "QueueSenders g_adc_sample_queue \<in> H"
    and "mutex_owner (mutexes (kern a) g_status_mutex) = None"
    and "queue_items (queues (kern a) g_adc_sample_queue) = map sample_bytes xs"
  shows "\<exists>n a'. task_run control_step n Control_Receive a = Some (Blocks, a') \<and>
     (g_status a', local_state a', soft_start_step a') =
       fold (\<lambda>x p. snd (control_turn x p)) xs (g_status a, local_state a, soft_start_step a) \<and>
     sys_inv b H N (kern a', c(t := InReceive g_adc_sample_queue))"
  using assms(1,2,6,7)
proof (induction xs arbitrary: a)
  case Nil
  have "queue_items (queues (kern a) g_adc_sample_queue) = []" using Nil(4) by simp
  then obtain k where k: "control_step Control_Receive a = Some (Blocks, a\<lparr>kern := k\<rparr>)"
    "sys_inv b H N (k, c(t := InReceive g_adc_sample_queue))"
    using control_blocks [OF Nil(1,2) H(2,3)] by blast
  have "task_run control_step (Suc 0) Control_Receive a = Some (Blocks, a\<lparr>kern := k\<rparr>)"
    using k(1) by (simp del: control_step.simps)
  moreover have "sys_inv b H N (kern (a\<lparr>kern := k\<rparr>), c(t := InReceive g_adc_sample_queue))" using k(2) by simp
  ultimately show ?case by (intro exI conjI) (assumption, simp, assumption)
next
  case (Cons x xs)
  obtain n status local step where turn:
    "control_turn x (g_status a, local_state a, soft_start_step a) = (n, status, local, step)"
    by (metis prod_cases4)
  have x: "queue_items (queues (kern a) g_adc_sample_queue) = sample_bytes x # map sample_bytes xs"
    using Cons.prems(4) by simp
  obtain a1 where a1: "task_run control_step n Control_Receive a = Some (Returns Control_Receive, a1)"
    "g_status a1 = status" "local_state a1 = local" "soft_start_step a1 = step"
    and i1: "sys_inv b H N (kern a1, c)" "thread (kern a1) c t NoCall"
     "mutex_owner (mutexes (kern a1) g_status_mutex) = None"
     "queue_items (queues (kern a1) g_adc_sample_queue) = map sample_bytes xs"
    using control_turn_run [OF Cons.prems(1,2) H Cons.prems(3) x turn] by blast
  obtain n' a' where "task_run control_step n' Control_Receive a1 = Some (Blocks, a')"
    "(g_status a', local_state a', soft_start_step a') =
       fold (\<lambda>x p. snd (control_turn x p)) xs (g_status a1, local_state a1, soft_start_step a1)"
    "sys_inv b H N (kern a', c(t := InReceive g_adc_sample_queue))"
    using Cons.IH [OF i1] by blast
  then show ?case
    using task_run_add [OF a1(1), of n'] turn a1(2-4)
    by (intro exI [of _ "n + n'"] exI [of _ a'] conjI) (simp, simp, assumption)
qed

theorem control_drains_queue_witness:
  "\<exists>n a'. task_run control_step n Control_Receive booted = Some (Blocks, a') \<and> local_state a' = PS_STATE_IDLE"
proof -
  have h: "MutexWaiters g_status_mutex \<in> app_heads" "QueueReceivers g_adc_sample_queue \<in> app_heads"
    "QueueSenders g_adc_sample_queue \<in> app_heads"
    by (simp_all add: app_heads_def)
  have "mutex_owner (mutexes (kern booted) g_status_mutex) = None" by (simp add: booted_inv)
  moreover have "queue_items (queues (kern booted) g_adc_sample_queue) = map sample_bytes []"
    using new_queue_wf(2) [of ADC_QUEUE_DEPTH 4 "replicate 32 0"] by (simp add: booted_inv ADC_QUEUE_DEPTH_def)
  ultimately show ?thesis
    using control_drains_queue [OF booted_inv(1,2) h, of "[]"] by (auto simp: booted_inv)
qed

section \<open>Soft start\<close>

text \<open>Without a fault, a turn follows the switch statement and publishes every change.\<close>

lemma turn_without_fault:
  assumes "status_state status \<noteq> PS_STATE_FAULT" "local \<noteq> PS_STATE_FAULT"
    "control_turn x (status, local, step) = (n, status', local', step')"
  shows "status_state status' \<noteq> PS_STATE_FAULT" "local' \<noteq> PS_STATE_FAULT"
    "(local', step') = (case local of
       PS_STATE_IDLE \<Rightarrow> (PS_STATE_SOFT_START, 0)
     | PS_STATE_SOFT_START \<Rightarrow> (if step + 1 \<ge> 50 then PS_STATE_RUNNING else PS_STATE_SOFT_START, step + 1)
     | _ \<Rightarrow> (local, step))"
    "local = PS_STATE_IDLE \<or> status_state status = local \<Longrightarrow> status_state status' = local'"
    "status_voltage_mv status' = ADC_TO_MILLIVOLTS (voltage_raw x)"
    "status_current_ma status' = ADC_TO_MILLIAMPS (current_raw x)"
    "status_fault_count status' = status_fault_count status"
  using assms by (cases local; auto simp: control_turn_def Let_def SOFT_START_RAMP_STEPS_def split: if_splits)+

lemma of_nat_less_50: "n < 50 \<Longrightarrow> (word_of_nat n :: u32) < 50"
proof -
  assume "n < 50"
  then have "unat (word_of_nat n :: u32) < unat (50 :: u32)" by (simp only: unat_of_nat) simp
  then show ?thesis by (simp only: word_less_nat_alt)
qed

lemma ramp_step:
  assumes "0 < k" and "(local, step) =
      (if k \<le> 50 then (PS_STATE_SOFT_START, word_of_nat (k - 1)) else (PS_STATE_RUNNING, 50 :: u32))"
  shows "(case local of
       PS_STATE_IDLE \<Rightarrow> (PS_STATE_SOFT_START, 0)
     | PS_STATE_SOFT_START \<Rightarrow> (if step + 1 \<ge> 50 then PS_STATE_RUNNING else PS_STATE_SOFT_START, step + 1)
     | _ \<Rightarrow> (local, step)) =
      (if Suc k \<le> 50 then (PS_STATE_SOFT_START, word_of_nat k) else (PS_STATE_RUNNING, 50))"
proof -
  have w: "word_of_nat (k - 1) + 1 = (word_of_nat k :: u32)" using assms(1) by (cases k) (simp_all add: add.commute)
  consider "k < 50" | "k = 50" | "50 < k" by linarith
  then show ?thesis
  proof cases
    case 1
    then have "\<not> 50 \<le> (word_of_nat k :: u32)" using of_nat_less_50 by (simp only: not_le)
    then show ?thesis using 1 assms(2) w by simp
  next
    case 2
    then show ?thesis using assms(2) by simp
  next
    case 3
    then show ?thesis using assms(2) by simp
  qed
qed

text \<open>
  C33. Without a fault the supply goes from idle to soft start with the first sample, stays in soft
  start for 49 more, runs with the 51st, and keeps running from then on; the published state always
  is the control task's own, the published measurement is that of the last sample, and the fault
  count does not change.
\<close>

theorem soft_start_ramp:
  assumes "xs \<noteq> []" "status_state status \<noteq> PS_STATE_FAULT"
    "fold (\<lambda>x p. snd (control_turn x p)) xs (status, PS_STATE_IDLE, s0) = (status', local, step)"
  shows "(local, step) =
      (if length xs \<le> 50 then (PS_STATE_SOFT_START, word_of_nat (length xs - 1)) else (PS_STATE_RUNNING, 50)) \<and>
    status' = \<lparr>status_state = local, status_voltage_mv = ADC_TO_MILLIVOLTS (voltage_raw (last xs)),
      status_current_ma = ADC_TO_MILLIAMPS (current_raw (last xs)), status_fault_count = status_fault_count status\<rparr>"
  using assms(1,3)
proof (induction xs arbitrary: status' local step rule: rev_induct)
  case (snoc x xs)
  obtain status1 local1 step1 where f:
    "fold (\<lambda>x p. snd (control_turn x p)) xs (status, PS_STATE_IDLE, s0) = (status1, local1, step1)"
    by (metis prod_cases3)
  obtain n where turn: "control_turn x (status1, local1, step1) = (n, status', local, step)"
    using snoc.prems(2) f by (cases "control_turn x (status1, local1, step1)") auto
  show ?case
  proof (cases "xs = []")
    case True
    then have p: "status1 = status" "local1 = PS_STATE_IDLE" using f by simp_all
    have nf: "status_state status1 \<noteq> PS_STATE_FAULT" "local1 \<noteq> PS_STATE_FAULT" using p assms(2) by simp_all
    note T = turn_without_fault [OF nf turn]
    show ?thesis using T(3-7) p True by simp
  next
    case False
    note IH = snoc.IH [OF False f]
    have nf: "status_state status1 \<noteq> PS_STATE_FAULT" "local1 \<noteq> PS_STATE_FAULT"
      using IH by (auto split: if_splits)
    note T = turn_without_fault [OF nf turn]
    have "status_state status' = local" using T(4) IH by simp
    moreover have "(local, step) =
        (if Suc (length xs) \<le> 50 then (PS_STATE_SOFT_START, word_of_nat (length xs)) else (PS_STATE_RUNNING, 50))"
      unfolding T(3) using IH False by (intro ramp_step) auto
    ultimately show ?thesis using T(5-7) IH by simp
  qed
qed simp

theorem soft_start_ramp_witness:
  "\<exists>status'. fold (\<lambda>x p. snd (control_turn x p)) (replicate 51 \<lparr>voltage_raw = 7, current_raw = 7\<rparr>)
       (idle_status, PS_STATE_IDLE, 0) = (status', PS_STATE_RUNNING, 50) \<and> status_state status' = PS_STATE_RUNNING"
proof -
  let ?f = "fold (\<lambda>x p. snd (control_turn x p)) (replicate 51 \<lparr>voltage_raw = 7, current_raw = 7\<rparr>)
       (idle_status, PS_STATE_IDLE, 0)"
  obtain status' local step where f: "?f = (status', local, step)" by (metis prod_cases3)
  have "replicate 51 \<lparr>voltage_raw = 7, current_raw = 7\<rparr> \<noteq> []" by simp
  moreover have "status_state idle_status \<noteq> PS_STATE_FAULT" by simp
  ultimately show ?thesis using soft_start_ramp [OF _ _ f] f by simp
qed

end
