(* ===== verification/App_Fault.thy ===== *)
theory App_Fault
  imports App_Control
begin

text \<open>
  A run of the booted application through an interrupt, two tasks and a context switch: what
  becomes of a fault that is noted while the supply starts.
\<close>

section \<open>A fault during start-up\<close>

lemma fault_turn:
  assumes "status_state status = PS_STATE_FAULT" "control_turn x (status, local, step) = (n, status', local', step')"
  shows "status_state status' = PS_STATE_FAULT \<longleftrightarrow>
      \<not> (local = PS_STATE_IDLE \<or> (local = PS_STATE_SOFT_START \<and> step + 1 \<ge> SOFT_START_RAMP_STEPS))"
    and "status_state status' = PS_STATE_FAULT \<Longrightarrow> local' = PS_STATE_FAULT"
    and "status_fault_count status' = status_fault_count status"
  using assms by (cases local; auto simp: control_turn_def Let_def split: if_splits)+

text \<open>The booted application after the first interrupt with an over-limit reading.\<close>

abbreviation boot_lists0 :: "node \<Rightarrow> node list" where
  "boot_lists0 \<equiv> delist (Link protection_tcb) app_lists"

lemma boot_lists0_empty: "boot_lists0 (SemWaiters q) = []" "boot_lists0 (QueueReceivers q) = []"
  by (simp_all add: app_lists_simps)

lemma app_heads_members:
  "MutexWaiters g_status_mutex \<in> app_heads" "QueueReceivers g_adc_sample_queue \<in> app_heads"
  "QueueSenders g_adc_sample_queue \<in> app_heads" "SemWaiters g_fault_semaphore \<in> app_heads"
  by (simp_all add: app_heads_def)

lemma first_interrupt:
  assumes dr: "2458 \<le> uint (dr AND 0xFFF)"
  shows "\<exists>s. ADC_IRQHandler dr (kern booted) = Some s \<and>
     sched_inv True {} app_heads app_nodes boot_lists0 s \<and> sys_inv True app_heads app_nodes (s, \<lambda>_. NoCall) \<and>
     thread s (\<lambda>_. NoCall) protection_tcb NoCall \<and> mutex_owner (mutexes s g_status_mutex) = None \<and>
     sem_count (semaphores s g_fault_semaphore) = 1 \<and>
     queue_items (queues s g_adc_sample_queue) = [sample_bytes (adc_sample dr)]"
proof -
  have q: "queue_item_size (queues (kern booted) g_adc_sample_queue) = 4" by (simp add: booted_inv new_queue_def)
  have e: "queue_items (queues (kern booted) g_adc_sample_queue) = []"
    using new_queue_wf(2) [of ADC_QUEUE_DEPTH 4 "replicate 32 0"] by (simp add: booted_inv ADC_QUEUE_DEPTH_def)
  have room: "queue_count (queues (kern booted) g_adc_sample_queue) < queue_capacity (queues (kern booted) g_adc_sample_queue)"
    by (simp add: booted_inv new_queue_def ADC_QUEUE_DEPTH_def)
  obtain s L where s: "ADC_IRQHandler dr (kern booted) = Some s"
    and i: "sched_inv True {} app_heads app_nodes L s" "objs_inv app_heads app_nodes L (\<lambda>_. NoCall) s" "L = boot_lists0"
    and f: "mutexes s = mutexes (kern booted)" "nimble_current_tcb s = nimble_current_tcb (kern booted)"
      "\<forall>x. task_state (kern booted) x \<noteq> NIMBLE_TASK_BLOCKED \<longrightarrow> tcbs s x = tcbs (kern booted) x"
      "queue_items (queues s g_adc_sample_queue) = [sample_bytes (adc_sample dr)]"
      "semaphores s g_fault_semaphore = bump (semaphores (kern booted) g_fault_semaphore)"
    using adc_spec [OF booted_inv(3,4) app_heads_members(2) q app_heads_members(4), of dr] dr e room
      boot_lists0_empty by auto
  have "thread s (\<lambda>_. NoCall) protection_tcb NoCall"
    using threadD [OF booted_inv(2)] f(2,3) by (simp add: thread_def)
  then show ?thesis using s i f sys_invI [OF i(1,2)] by (auto simp: booted_inv bump_def)
qed

lemma protection_notes_fault:
  assumes i: "sched_inv True {} app_heads app_nodes boot_lists0 (kern a)"
    and inv: "sys_inv True app_heads app_nodes (kern a, c)" and th: "thread (kern a) c protection_tcb NoCall"
    and m: "mutex_owner (mutexes (kern a) g_status_mutex) = None"
    and sem: "sem_count (semaphores (kern a) g_fault_semaphore) = 1"
  shows "\<exists>a'. task_run protection_step 3 Protection_Take a = Some (Blocks, a') \<and>
     sys_inv True app_heads app_nodes (kern a', c(protection_tcb := InTake g_fault_semaphore)) \<and>
     sched_inv True {} app_heads app_nodes
       (boot_lists0(SemWaiters g_fault_semaphore := [EventLink protection_tcb])) (kern a') \<and>
     nimble_current_tcb (kern a') = Some protection_tcb \<and> task_state (kern a') protection_tcb = NIMBLE_TASK_BLOCKED \<and>
     mutex_owner (mutexes (kern a') g_status_mutex) = None \<and> queues (kern a') = queues (kern a) \<and>
     g_status a' = ps_status_note_fault (g_status a) \<and> local_state a' = local_state a \<and>
     soft_start_step a' = soft_start_step a"
proof -
  let ?f = g_fault_semaphore and ?p = protection_tcb
  note H = app_heads_members
  let ?k1 = "(kern a)\<lparr>semaphores := (semaphores (kern a))(?f := sem_count_update (\<lambda>c. c - 1) (semaphores (kern a) ?f))\<rparr>"
  have t1: "nimble_semaphore_take ?f NIMBLE_WAIT_FOREVER (kern a) = Some (Returns NIMBLE_OK, ?k1)"
    by (rule take_available) (simp add: sem)
  let ?a1 = "a\<lparr>kern := ?k1\<rparr>"
  have r1: "protection_step Protection_Take a = Some (Returns Protection_Note, ?a1)"
    using t1 by (simp add: protection_taken_def)
  have i1: "sys_inv True app_heads app_nodes (kern ?a1, c)" "thread (kern ?a1) c ?p NoCall"
    "mutex_owner (mutexes (kern ?a1) g_status_mutex) = None" "sched_inv True {} app_heads app_nodes boot_lists0 (kern ?a1)"
    using take_step [OF inv th H(4), of NIMBLE_WAIT_FOREVER] t1 th m i by (auto simp: thread_def)
  obtain k2 where w: "with_status ps_status_note_fault ?a1 = Some (Returns (ps_status_note_fault (g_status ?a1)),
      ?a1\<lparr>g_status := ps_status_note_fault (g_status ?a1), kern := k2\<rparr>)"
    and i2: "sys_inv True app_heads app_nodes (k2, c)" "thread k2 c ?p NoCall"
      "mutex_owner (mutexes k2 g_status_mutex) = None" "queues k2 = queues (kern ?a1)"
      "semaphores k2 = semaphores (kern ?a1)" "sched_inv True {} app_heads app_nodes boot_lists0 k2"
    using with_status_free [OF i1(1,2) H(1) i1(3), of ps_status_note_fault] i1(4) by blast
  let ?a2 = "a\<lparr>kern := k2, g_status := ps_status_note_fault (g_status a)\<rparr>"
  have r2: "protection_step Protection_Note ?a1 = Some (Returns Protection_Take, ?a2)"
    using w by (simp add: protection_noted_def)
  have c0: "sem_count (semaphores k2 ?f) = 0" "NIMBLE_WAIT_FOREVER \<noteq> NIMBLE_NO_WAIT" using i2(5) sem by (simp_all add: kdefs)
  have "boot_lists0 (SemWaiters ?f) = map EventLink []" using boot_lists0_empty by simp
  from take_blocks [OF i2(6) threadD(1,2) [OF i2(2)] H(4) this c0]
  obtain k3 where t3: "nimble_semaphore_take ?f NIMBLE_WAIT_FOREVER k2 = Some (Blocks, k3)"
    and i3: "sched_inv True {} app_heads app_nodes
       (block_lists ?p NIMBLE_WAIT_FOREVER (boot_lists0(SemWaiters ?f := map EventLink (prio_insert (task_priority k2) ?p [])))) k3"
    and f3: "k3 = k2\<lparr>tcbs := (tcbs k2)(?p := (tcbs k2 ?p)\<lparr>tcb_state := NIMBLE_TASK_BLOCKED,
           tcb_wake_tick := if NIMBLE_WAIT_FOREVER = NIMBLE_WAIT_FOREVER then tcb_wake_tick (tcbs k2 ?p)
                            else g_tick_count k2 + NIMBLE_WAIT_FOREVER\<rparr>),
         pendsv := True, heap := heap k3, ready_bitmap := ready_bitmap k3\<rparr>"
    by blast
  have f: "nimble_current_tcb k3 = nimble_current_tcb k2" "task_state k3 ?p = NIMBLE_TASK_BLOCKED" "mutexes k3 = mutexes k2" "queues k3 = queues k2"
    by (subst f3, simp)+
  have "block_lists ?p NIMBLE_WAIT_FOREVER (boot_lists0(SemWaiters ?f := [EventLink ?p])) =
      boot_lists0(SemWaiters ?f := [EventLink ?p])"
    by (auto simp: block_lists_def fun_eq_iff)
  then have i3': "sched_inv True {} app_heads app_nodes (boot_lists0(SemWaiters ?f := [EventLink ?p])) k3"
    using i3 by (simp only: prio_insert_simps list.map)
  have inv3: "sys_inv True app_heads app_nodes (k3, c(?p := InTake ?f))"
    using take_step [OF i2(1,2) H(4), of NIMBLE_WAIT_FOREVER] t3 by auto
  let ?a3 = "?a2\<lparr>kern := k3\<rparr>"
  have r3: "protection_step Protection_Take ?a2 = Some (Blocks, ?a3)" using t3 by simp
  have "task_run protection_step (Suc (Suc (Suc 0))) Protection_Take a = Some (Blocks, ?a3)"
    using r1 r2 r3 by (simp del: protection_step.simps)
  moreover have "Suc (Suc (Suc 0)) = 3" by simp
  ultimately show ?thesis
    using inv3 i3' f i2(3,4) threadD(1) [OF i2(2)] by (intro exI [of _ ?a3]) (simp del: protection_step.simps fun_upd_apply)
qed

lemma switch_to_control:
  assumes i: "sched_inv True {} app_heads app_nodes
      (boot_lists0(SemWaiters g_fault_semaphore := [EventLink protection_tcb])) s"
    and inv: "sys_inv True app_heads app_nodes (s, c)"
    and cur: "nimble_current_tcb s = Some protection_tcb" "task_state s protection_tcb = NIMBLE_TASK_BLOCKED"
    and c: "c control_tcb = NoCall"
  shows "\<exists>s'. PendSV_Handler s = Some s' \<and> sys_inv True app_heads app_nodes (s', c) \<and>
     thread s' c control_tcb NoCall \<and> mutexes s' = mutexes s \<and> queues s' = queues s"
proof -
  let ?L = "boot_lists0(SemWaiters g_fault_semaphore := [EventLink protection_tcb])"
  have L: "requeue_lists s ?L = ?L" using cur by (simp add: requeue_lists_def)
  have ne: "?L (ReadyList q) \<noteq> [] \<longleftrightarrow> q \<le> 3" for q by (auto simp: app_lists_def app_ids)
  have top: "p = 3" if "top_ready ?L p" for p
  proof -
    have "p \<le> 3" using that ne by (simp only: top_ready_def)
    moreover have "\<not> p < 3" using that ne [of 3] unfolding top_ready_def by auto
    ultimately show ?thesis by simp
  qed
  have run: "\<exists>p<32. requeue_lists s ?L (ReadyList p) \<noteq> []" unfolding L ne by (rule exI [of _ 3]) simp
  obtain n p ns s1 s' where s': "PendSV_Handler s = Some s'" and n: "top_ready ?L p" "?L (ReadyList p) = Link n # ns"
    and st: "task_state s' n = NIMBLE_TASK_RUNNING" "nimble_current_tcb s' = Some n"
    using PendSV_inv [OF i _ run] unfolding L by (auto simp: load_r4_r11_def)
  have "n = control_tcb" using top [OF n(1)] n(2) by (simp add: app_lists_def app_ids)
  moreover have "mutexes s' = mutexes s" "queues s' = queues s" using PendSV_frame [OF i _ run] s' by auto
  moreover have "sys_inv True app_heads app_nodes (s', c)" using switch_step [OF inv] s' by auto
  ultimately show ?thesis using s' st c by (auto simp: thread_def app_ids)
qed

text \<open>
  C40. A fault is not always latched. In general a published fault survives a turn of the control
  task except from the idle state and with the last ramp step, where the task publishes the next
  state without looking at the current one. In the booted application: the first sample, over the
  limit, is reported by the ADC interrupt, the protection task publishes the fault and blocks,
  and the control task then overwrites it with soft start, although the fault was counted and no
  fault is pending any more.
\<close>

theorem fault_overwritten:
  "(\<forall>x status local step. status_state status = PS_STATE_FAULT \<longrightarrow>
      (status_state (fst (snd (control_turn x (status, local, step)))) \<noteq> PS_STATE_FAULT \<longleftrightarrow>
       local = PS_STATE_IDLE \<or> (local = PS_STATE_SOFT_START \<and> SOFT_START_RAMP_STEPS \<le> step + 1))) \<and>
   (\<exists>s1 a2 s3 a4. ADC_IRQHandler 3000 (kern booted) = Some s1 \<and>
      task_run protection_step 3 Protection_Take (booted\<lparr>kern := s1\<rparr>) = Some (Blocks, a2) \<and>
      status_state (g_status a2) = PS_STATE_FAULT \<and> status_fault_count (g_status a2) = 1 \<and>
      PendSV_Handler (kern a2) = Some s3 \<and> nimble_current_tcb s3 = Some control_tcb \<and>
      task_run control_step 4 Control_Receive (a2\<lparr>kern := s3\<rparr>) = Some (Returns Control_Receive, a4) \<and>
      status_state (g_status a4) = PS_STATE_SOFT_START \<and> local_state a4 = PS_STATE_SOFT_START \<and>
      status_fault_count (g_status a4) = 1)"
proof (intro conjI allI impI)
  fix x and status :: ps_status and local :: ps_state_t and step :: u32
  assume "status_state status = PS_STATE_FAULT"
  then show "status_state (fst (snd (control_turn x (status, local, step)))) \<noteq> PS_STATE_FAULT \<longleftrightarrow>
       local = PS_STATE_IDLE \<or> (local = PS_STATE_SOFT_START \<and> SOFT_START_RAMP_STEPS \<le> step + 1)"
    by (cases "control_turn x (status, local, step)") (use fault_turn(1) in auto)
next
  let ?c = "(\<lambda>_. NoCall)(protection_tcb := InTake g_fault_semaphore)" and ?x = "adc_sample 3000"
  obtain s1 where s1: "ADC_IRQHandler 3000 (kern booted) = Some s1"
    and i1: "sched_inv True {} app_heads app_nodes boot_lists0 s1" "sys_inv True app_heads app_nodes (s1, \<lambda>_. NoCall)"
     "thread s1 (\<lambda>_. NoCall) protection_tcb NoCall" "mutex_owner (mutexes s1 g_status_mutex) = None"
     "sem_count (semaphores s1 g_fault_semaphore) = 1" "queue_items (queues s1 g_adc_sample_queue) = [sample_bytes ?x]"
    using first_interrupt [of 3000] by auto
  let ?a1 = "booted\<lparr>kern := s1\<rparr>"
  obtain a2 where a2: "task_run protection_step 3 Protection_Take ?a1 = Some (Blocks, a2)"
    and i2: "sys_inv True app_heads app_nodes (kern a2, ?c)"
     "sched_inv True {} app_heads app_nodes (boot_lists0(SemWaiters g_fault_semaphore := [EventLink protection_tcb])) (kern a2)"
     "nimble_current_tcb (kern a2) = Some protection_tcb" "task_state (kern a2) protection_tcb = NIMBLE_TASK_BLOCKED"
     "mutex_owner (mutexes (kern a2) g_status_mutex) = None" "queues (kern a2) = queues s1"
    and g2: "g_status a2 = ps_status_note_fault (g_status booted)" "local_state a2 = PS_STATE_IDLE" "soft_start_step a2 = 0"
    using protection_notes_fault [of ?a1 "\<lambda>_. NoCall"] i1 by (auto simp: booted_inv)
  have cc: "?c control_tcb = NoCall" by (simp add: app_ids)
  obtain s3 where s3: "PendSV_Handler (kern a2) = Some s3" and i3: "sys_inv True app_heads app_nodes (s3, ?c)"
     "thread s3 ?c control_tcb NoCall" "mutexes s3 = mutexes (kern a2)" "queues s3 = queues (kern a2)"
    using switch_to_control [OF i2(2,1,3,4) cc] by blast
  let ?a3 = "a2\<lparr>kern := s3\<rparr>"
  have nf: "status_state (g_status a2) = PS_STATE_FAULT" "status_fault_count (g_status a2) = 1"
    by (simp_all add: g2 ps_status_note_fault_def Let_def booted_inv)
  have turn: "control_turn ?x (g_status ?a3, local_state ?a3, soft_start_step ?a3) =
      (4, (g_status a2)\<lparr>status_voltage_mv := ADC_TO_MILLIVOLTS (voltage_raw ?x),
         status_current_ma := ADC_TO_MILLIAMPS (current_raw ?x), status_state := PS_STATE_SOFT_START\<rparr>, PS_STATE_SOFT_START, 0)"
    by (simp add: control_turn_def Let_def g2)
  have k: "sys_inv True app_heads app_nodes (kern ?a3, ?c)" "thread (kern ?a3) ?c control_tcb NoCall"
    "mutex_owner (mutexes (kern ?a3) g_status_mutex) = None"
    "queue_items (queues (kern ?a3) g_adc_sample_queue) = [sample_bytes ?x]"
    using i3 i2(5,6) i1(6) by simp_all
  obtain a4 where "task_run control_step 4 Control_Receive ?a3 = Some (Returns Control_Receive, a4)"
    "g_status a4 = (g_status a2)\<lparr>status_voltage_mv := ADC_TO_MILLIVOLTS (voltage_raw ?x),
         status_current_ma := ADC_TO_MILLIAMPS (current_raw ?x), status_state := PS_STATE_SOFT_START\<rparr>"
    "local_state a4 = PS_STATE_SOFT_START"
    using control_turn_run [OF k(1,2) app_heads_members(1-3) k(3,4) turn] by blast
  then show "\<exists>s1 a2 s3 a4. ADC_IRQHandler 3000 (kern booted) = Some s1 \<and>
      task_run protection_step 3 Protection_Take (booted\<lparr>kern := s1\<rparr>) = Some (Blocks, a2) \<and>
      status_state (g_status a2) = PS_STATE_FAULT \<and> status_fault_count (g_status a2) = 1 \<and>
      PendSV_Handler (kern a2) = Some s3 \<and> nimble_current_tcb s3 = Some control_tcb \<and>
      task_run control_step 4 Control_Receive (a2\<lparr>kern := s3\<rparr>) = Some (Returns Control_Receive, a4) \<and>
      status_state (g_status a4) = PS_STATE_SOFT_START \<and> local_state a4 = PS_STATE_SOFT_START \<and>
      status_fault_count (g_status a4) = 1"
    using s1 a2 s3 nf threadD(1) [OF i3(2)] by (intro exI conjI) (assumption | simp)+
qed

theorem fault_overwritten_witness:
  "status_state (fst (snd (control_turn (adc_sample 3000)
      (idle_status\<lparr>status_state := PS_STATE_FAULT\<rparr>, PS_STATE_RUNNING, 50)))) = PS_STATE_FAULT"
proof -
  have "status_state (idle_status\<lparr>status_state := PS_STATE_FAULT\<rparr>) = PS_STATE_FAULT" by simp
  with conjunct1 [OF fault_overwritten] show ?thesis by blast
qed

end
