(* ===== verification/App_Comms.thy ===== *)
theory App_Comms
  imports App_Interrupt
begin

text \<open>The comms and the logger task: the line buffer, the command line and the report they print.\<close>

section \<open>The command line\<close>

primrec comms_bytes :: "u8 list \<Rightarrow> u8 list \<times> u32 \<Rightarrow> (cli_command option \<times> u8 list \<times> u32) option" where
  "comms_bytes [] line = Some (None, line)"
| "comms_bytes (b # bs) line =
     do { (cmd, line) \<leftarrow> comms_byte b line;
          if cmd = None then comms_bytes bs line else Some (cmd, line) }"

lemma comms_text_byte:
  assumes b: "b \<noteq> 13" "b \<noteq> 10" and buf: "length buf = 64" and n: "unat n \<le> 63"
  shows "comms_byte b (buf, n) =
     Some (None, if unat n < 63 then (buf[unat n := b], n + 1) else (buf, n))"
    and "unat n < 63 \<Longrightarrow> unat (n + 1) = Suc (unat n)"
proof -
  have "n < CLI_LINE_BUF_LEN - 1 \<longleftrightarrow> unat n < 63"
  proof -
    have "CLI_LINE_BUF_LEN - 1 = 63" "unat (63 :: u32) = 63" by (simp_all add: CLI_LINE_BUF_LEN_def)
    then show ?thesis by (simp only: word_less_nat_alt)
  qed
  then show "comms_byte b (buf, n) =
     Some (None, if unat n < 63 then (buf[unat n := b], n + 1) else (buf, n))"
    using b buf by (simp add: comms_byte_def)
  assume a: "unat n < 63"
  have "1 + n \<noteq> 0"
  proof
    assume "1 + n = 0"
    then have "n = - 1" by (simp add: eq_neg_iff_add_eq_0 add.commute)
    then have "unat n = unat (- 1 :: u32)" by simp
    moreover have "unat (- 1 :: u32) = 2 ^ 32 - 1" by (simp only: unsigned_minus_1_eq_mask mask_eq_exp_minus_1 len_num1 len_bit0 len_of_numeral_defs) simp
    ultimately show False using a by simp
  qed
  from unatSuc [OF this] show "unat (n + 1) = Suc (unat n)" by (simp add: add.commute)
qed

lemma comms_text:
  assumes "13 \<notin> set bs" "10 \<notin> set bs" "length buf = 64" "unat n \<le> 63"
  shows "\<exists>buf'. comms_bytes (bs @ [13]) (buf, n) = Some (Some (handle_command buf'), buf', 0) \<and>
     length buf' = 64 \<and>
     take (Suc (min 63 (unat n + length bs))) buf' = take 63 (take (unat n) buf @ bs) @ [0]"
  using assms
proof (induction bs arbitrary: buf n)
  case Nil
  let ?buf = "buf[unat n := 0]"
  have "comms_bytes ([] @ [13]) (buf, n) = Some (Some (handle_command ?buf), ?buf, 0)"
    using Nil.prems by (simp add: comms_byte_def Let_def)
  moreover have "take (Suc (unat n)) ?buf = take (unat n) buf @ [0]"
    using Nil.prems by (simp add: take_Suc_conv_app_nth)
  ultimately show ?case using Nil.prems by (simp add: min_absorb2)
next
  case (Cons b bs)
  have b: "b \<noteq> 13" "b \<noteq> 10" "13 \<notin> set bs" "10 \<notin> set bs" using Cons.prems(1,2) by auto
  note step = comms_text_byte [OF b(1,2) Cons.prems(3,4)]
  show ?case
  proof (cases "unat n < 63")
    case True
    let ?buf = "buf[unat n := b]"
    have "take (Suc (unat n)) ?buf = take (unat n) buf @ [b]"
      using True Cons.prems(3) by (simp add: take_Suc_conv_app_nth)
    then show ?thesis
      using Cons.IH [OF b(3,4), of ?buf "n + 1"] step True Cons.prems(3) by simp
  next
    case False
    then have n: "unat n = 63" using Cons.prems(4) by simp
    then show ?thesis
      using Cons.IH [OF b(3,4) Cons.prems(3,4)] step Cons.prems(3) by (simp add: min_def)
  qed
qed

text \<open>
  C34. A command line never writes outside its buffer, whatever is received: the bytes up to the
  carriage return are collected, those beyond the 63rd are dropped, the command that is executed
  is the line cut to 63 characters, and the buffer is empty for the next line.
\<close>

theorem cli_line_handled:
  assumes "13 \<notin> set bs" "10 \<notin> set bs" "length buf = 64"
  shows "\<exists>buf'. comms_bytes (bs @ [13]) (buf, 0) = Some (Some (handle_command (take 63 bs)), buf', 0) \<and>
     length buf' = 64"
proof -
  have "unat (0 :: u32) \<le> 63" by simp
  from comms_text [OF assms this] obtain buf' where
    r: "comms_bytes (bs @ [13]) (buf, 0) = Some (Some (handle_command buf'), buf', 0)" "length buf' = 64"
    and t: "take (Suc (min 63 (length bs))) buf' = take 63 bs @ [0]"
    by auto
  have "buf' = (take 63 bs @ [0]) @ drop (Suc (min 63 (length bs))) buf'"
    by (metis append_take_drop_id t)
  then have "c_string buf' = c_string (take 63 bs)" using c_string_stop by (metis append.assoc append_Cons append_Nil)
  then have "handle_command buf' = handle_command (take 63 bs)" by (simp add: handle_command_def)
  then show ?thesis using r by auto
qed

theorem cli_line_handled_witness:
  "\<exists>buf'. comms_bytes (ascii ''status'' @ [13]) (replicate 64 7, 0) = Some (Some Cli_Status, buf', 0)"
proof -
  have e: "ascii ''status'' = [115, 116, 97, 116, 117, 115]" by (simp add: ascii_def)
  have "13 \<notin> set (ascii ''status'')" "10 \<notin> set (ascii ''status'')" unfolding e by simp_all
  from cli_line_handled [OF this, of "replicate 64 7"] obtain buf' where
    "comms_bytes (ascii ''status'' @ [13]) (replicate 64 7, 0) =
       Some (Some (handle_command (take 63 (ascii ''status''))), buf', 0)"
    by auto
  moreover have "handle_command (take 63 (ascii ''status'')) = Cli_Status"
    by (simp add: handle_command_def c_string_def e)
  ultimately show ?thesis by auto
qed

section \<open>The report\<close>

lemma measurement_range:
  assumes "uint r < 4096"
  shows "0 \<le> f32_to_int (ADC_TO_MILLIVOLTS r)" "f32_to_int (ADC_TO_MILLIVOLTS r) \<le> 16500"
    "0 \<le> f32_to_int (ADC_TO_MILLIAMPS r)" "f32_to_int (ADC_TO_MILLIAMPS r) \<le> 5000"
proof -
  have c: "f32_of_int (uint r) = (uint r, 0)" using assms by (simp add: f32_of_int_def f32_round_small)
  have e: "ADC_TO_MILLIVOLTS r = f32_round (uint r * 8450063) (- int 21)"
    "ADC_TO_MILLIAMPS r = f32_round (uint r * 10242501) (- int 23)"
    unfolding ADC_TO_MILLIVOLTS_def ADC_TO_MILLIAMPS_def c adc_scale f32_mul_def by simp_all
  show "0 \<le> f32_to_int (ADC_TO_MILLIVOLTS r)" "f32_to_int (ADC_TO_MILLIVOLTS r) \<le> 16500"
    unfolding e using assms by (intro f32_to_int_le [where c = 16500]; simp)+
  show "0 \<le> f32_to_int (ADC_TO_MILLIAMPS r)" "f32_to_int (ADC_TO_MILLIAMPS r) \<le> 5000"
    unfolding e using assms by (intro f32_to_int_le [where c = 5000]; simp)+
qed

lemma length_ascii [simp]: "length (ascii str) = length str"
  by (simp add: ascii_def)

lemma ascii_no_nul: "\<forall>c\<in>set str. 0 < (of_char c :: nat) \<Longrightarrow> 0 \<notin> set (ascii str)"
proof -
  assume a: "\<forall>c\<in>set str. 0 < (of_char c :: nat)"
  have "(0 :: u8) \<noteq> word_of_nat (of_char c)" if "c \<in> set str" for c
  proof
    assume "0 = (word_of_nat (of_char c) :: u8)"
    then have "unat (0 :: u8) = unat (word_of_nat (of_char c) :: u8)" by simp
    moreover have "(of_char c :: nat) < 256" by (rule nat_of_char_less_256)
    ultimately show False using bspec [OF a that] by (simp add: unat_of_nat)
  qed
  then show ?thesis by (auto simp: ascii_def)
qed

lemma dec_digits_no_nul: "0 \<notin> set (dec_digits n)"
  using dec_digits_bytes [of 0 n] by auto

lemma status_text_no_nul:
  "0 \<notin> set (ascii prefix) \<Longrightarrow> 0 \<notin> set (status_text prefix status)"
proof -
  have "0 \<notin> set (ascii (ps_state_name x))" for x
    by (rule ascii_no_nul) (cases x; simp)
  moreover have "0 \<notin> set (ascii ''state='')" "0 \<notin> set (ascii '' v='')" "0 \<notin> set (ascii ''mV i='')"
    "0 \<notin> set (ascii ''mA faults='')"
    by (rule ascii_no_nul, simp)+
  moreover assume "0 \<notin> set (ascii prefix)"
  ultimately show ?thesis
    by (simp add: status_text_def printf_0f_def printf_lu_def dec_digits_no_nul)
qed

text \<open>The value of a measurement: that of a 12-bit sample, or the zero of the boot status.\<close>

definition measured :: "(u16 \<Rightarrow> f32) \<Rightarrow> f32 \<Rightarrow> bool" where
  "measured conv x \<longleftrightarrow> x = (0, 0) \<or> (\<exists>r. uint r < 4096 \<and> x = conv r)"

lemma measured_range:
  "measured ADC_TO_MILLIVOLTS x \<Longrightarrow> 0 \<le> f32_to_int x \<and> f32_to_int x \<le> 16500"
  "measured ADC_TO_MILLIAMPS x \<Longrightarrow> 0 \<le> f32_to_int x \<and> f32_to_int x \<le> 5000"
proof -
  have "f32_to_int (0, 0) = 0" by (simp add: f32_to_int_def)
  then show "measured ADC_TO_MILLIVOLTS x \<Longrightarrow> 0 \<le> f32_to_int x \<and> f32_to_int x \<le> 16500"
    "measured ADC_TO_MILLIAMPS x \<Longrightarrow> 0 \<le> f32_to_int x \<and> f32_to_int x \<le> 5000"
    by (auto simp: measured_def dest: measurement_range)
qed

lemma status_text_length:
  assumes v: "measured ADC_TO_MILLIVOLTS (status_voltage_mv status)"
    and i: "measured ADC_TO_MILLIAMPS (status_current_ma status)"
  shows "length (status_text prefix status) \<le> length prefix + 57"
proof -
  have "length (ps_state_name (status_state status)) \<le> 10" by (cases "status_state status") simp_all
  moreover have "length (printf_0f (status_voltage_mv status)) \<le> Suc 4"
    unfolding printf_0f_def using measured_range(1) [OF v, THEN conjunct2] by (intro length_dec_digits) simp
  moreover have "length (printf_0f (status_current_ma status)) \<le> Suc 3"
    unfolding printf_0f_def using measured_range(2) [OF i, THEN conjunct2] by (intro length_dec_digits) simp
  moreover have "length (printf_lu (status_fault_count status)) \<le> Suc 9"
    unfolding printf_lu_def using unsigned_less [of "status_fault_count status", where ?'a = nat] by (intro length_dec_digits) simp
  ultimately show ?thesis by (simp add: status_text_def)
qed

text \<open>
  C35. The two report lines fit their buffer of 96 bytes, with the \<^verbatim>\<open>printf\<close> of the C standard: for
  every state, the measurement of the boot status or any made from 12-bit samples (the ADC interrupt
  makes no others) and every fault count, the text that is sent is the whole
  line, cut nowhere; the voltage printed is at most 16500, the current at most 5000, and the
  numbers read back from the printed digits are the rounded measurement and the fault count.
\<close>

theorem status_report_complete:
  assumes v: "measured ADC_TO_MILLIVOLTS (status_voltage_mv status)"
    and i: "measured ADC_TO_MILLIAMPS (status_current_ma status)"
    and prefix: "prefix = [] \<or> prefix = ''[log] ''"
  shows "status_report prefix status = ascii prefix @ ascii ''state='' @ ascii (ps_state_name (status_state status)) @
       ascii '' v='' @ printf_0f (status_voltage_mv status) @ ascii ''mV i='' @
       printf_0f (status_current_ma status) @ ascii ''mA faults='' @ printf_lu (status_fault_count status) @ [13, 10] \<and>
     length (status_report prefix status) < 96 \<and>
     int (dec_value (printf_0f (status_voltage_mv status))) = f32_to_int (status_voltage_mv status) \<and>
     int (dec_value (printf_0f (status_current_ma status))) = f32_to_int (status_current_ma status) \<and>
     dec_value (printf_lu (status_fault_count status)) = unat (status_fault_count status) \<and>
     f32_to_int (status_voltage_mv status) \<le> 16500 \<and> f32_to_int (status_current_ma status) \<le> 5000"
proof -
  have "length prefix \<le> 6" using prefix by auto
  then have len: "length (status_text prefix status) < 96" using status_text_length [OF v i, of prefix] by simp
  have "0 \<notin> set (ascii prefix)" by (rule ascii_no_nul) (use prefix in auto)
  then have r: "status_report prefix status = status_text prefix status"
    unfolding status_report_def by (intro snprintf_fits [OF len] status_text_no_nul)
  show ?thesis
    using len measured_range(1) [OF v] measured_range(2) [OF i] unfolding r
    by (simp add: status_text_def printf_0f_def printf_lu_def dec_value_digits)
qed

text \<open>The boot status, which the logger may print first, and the largest measurements.\<close>

theorem status_report_complete_witness:
  "status_report ''[log] '' \<lparr>status_state = PS_STATE_IDLE, status_voltage_mv = (0, 0), status_current_ma = (0, 0),
       status_fault_count = 0\<rparr> = ascii ''[log] state=IDLE v=0mV i=0mA faults=0'' @ [13, 10] \<and>
   length (status_report ''[log] '' \<lparr>status_state = PS_STATE_SOFT_START, status_voltage_mv = ADC_TO_MILLIVOLTS 4095,
     status_current_ma = ADC_TO_MILLIAMPS 4095, status_fault_count = - 1\<rparr>) < 96"
proof -
  let ?s = "\<lparr>status_state = PS_STATE_SOFT_START, status_voltage_mv = ADC_TO_MILLIVOLTS 4095,
     status_current_ma = ADC_TO_MILLIAMPS 4095, status_fault_count = - 1\<rparr>"
  let ?b = "\<lparr>status_state = PS_STATE_IDLE, status_voltage_mv = (0, 0), status_current_ma = (0, 0),
     status_fault_count = 0\<rparr> :: ps_status"
  have "uint (4095 :: u16) < 4096" by simp
  then have m: "measured ADC_TO_MILLIVOLTS (status_voltage_mv ?s)" "measured ADC_TO_MILLIAMPS (status_current_ma ?s)"
    unfolding measured_def by fastforce+
  have b: "measured ADC_TO_MILLIVOLTS (status_voltage_mv ?b)" "measured ADC_TO_MILLIAMPS (status_current_ma ?b)"
    by (simp_all add: measured_def)
  have "dec_digits 0 = [48]" by (subst dec_digits.simps) simp
  then have "status_report ''[log] '' ?b = ascii ''[log] state=IDLE v=0mV i=0mA faults=0'' @ [13, 10]"
    using status_report_complete [OF b disjI2 [OF refl]]
    by (simp add: ascii_def printf_0f_def printf_lu_def f32_to_int_def)
  moreover have "length (status_report ''[log] '' ?s) < 96"
    using status_report_complete [OF m disjI2 [OF refl]] by blast
  ultimately show ?thesis by blast
qed

text \<open>
  The makefile links newlib's small \<^verbatim>\<open>printf\<close> (\<^verbatim>\<open>nano.specs\<close>) without its support for \<^verbatim>\<open>%f\<close>,
  which then consumes its argument and prints nothing: the line that is sent still ends as it should,
  but is the same for all measurements.
\<close>

definition status_report_nano :: "string \<Rightarrow> ps_status \<Rightarrow> u8 list" where
  "status_report_nano prefix status =
     c_string (snprintf 96
       (ascii prefix @ ascii ''state='' @ ascii (ps_state_name (status_state status)) @
        ascii '' v='' @ ascii ''mV i='' @ ascii ''mA faults='' @ printf_lu (status_fault_count status) @ [13, 10]))"

lemma nano_report_blank:
  assumes prefix: "prefix = [] \<or> prefix = ''[log] ''"
  shows "status_report_nano prefix status = ascii prefix @ ascii ''state='' @ ascii (ps_state_name (status_state status)) @
       ascii '' v=mV i=mA faults='' @ printf_lu (status_fault_count status) @ [13, 10]"
    and "status_report_nano prefix (status\<lparr>status_voltage_mv := v, status_current_ma := i\<rparr>) = status_report_nano prefix status"
proof -
  let ?t = "ascii prefix @ ascii ''state='' @ ascii (ps_state_name (status_state status)) @
        ascii '' v='' @ ascii ''mV i='' @ ascii ''mA faults='' @ printf_lu (status_fault_count status) @ [13, 10]"
  have "length (ps_state_name (status_state status)) \<le> 10" by (cases "status_state status") simp_all
  moreover have "length (printf_lu (status_fault_count status)) \<le> Suc 9"
    unfolding printf_lu_def using unsigned_less [of "status_fault_count status", where ?'a = nat] by (intro length_dec_digits) simp
  moreover have "length prefix \<le> 6" using prefix by auto
  ultimately have "length ?t < 96" by simp
  moreover have "0 \<notin> set ?t"
  proof -
    have "0 \<notin> set (ascii prefix)" by (rule ascii_no_nul) (use prefix in auto)
    from status_text_no_nul [OF this, of status] show ?thesis by (auto simp: status_text_def)
  qed
  ultimately have "c_string (snprintf 96 ?t) = ?t" by (rule snprintf_fits)
  then show "status_report_nano prefix status = ascii prefix @ ascii ''state='' @ ascii (ps_state_name (status_state status)) @
       ascii '' v=mV i=mA faults='' @ printf_lu (status_fault_count status) @ [13, 10]"
    unfolding status_report_nano_def by (simp add: ascii_def)
qed (simp add: status_report_nano_def)

end
