(* ===== verification/Wait_Forever.thy ===== *)
theory Wait_Forever
  imports System_Properties
begin

text \<open>
  Waiting without a timeout. \<open>unhurried s t\<close> says that task \<open>t\<close> is blocked and on no delayed list,
  or runnable with \<^verbatim>\<open>NIMBLE_OK\<close> as its last wait result. No interrupt and no call of another task
  ends that, except a wake by the object the task waits on (\<open>calm\<close>).
\<close>

section \<open>Tasks without a deadline\<close>

definition unhurried :: "kernel \<Rightarrow> tcb_ptr \<Rightarrow> bool" where
  "unhurried s t \<longleftrightarrow>
     (if task_state s t = NIMBLE_TASK_BLOCKED then node_next (heap s) (Link t) = Link t
      else tcb_last_wait_result (tcbs s t) = NIMBLE_OK)"

lemma unlinked_iff:
  assumes i: "sched_inv b X H N L s" and t: "Link t \<in> N" "task_state s t = NIMBLE_TASK_BLOCKED"
  shows "node_next (heap s) (Link t) = Link t \<longleftrightarrow> Link t \<notin> set (L DelayedList)"
proof -
  have r: "repr H N L (heap s)" and sh: "shape H N L" using i by (simp_all add: sched_inv_def)
  have d: "DelayedList \<in> H" using sh by (simp add: shape_def)
  show ?thesis
  proof
    assume self: "node_next (heap s) (Link t) = Link t"
    show "Link t \<notin> set (L DelayedList)"
    proof
      assume "Link t \<in> set (L DelayedList)"
      then obtain xs ys where xs: "L DelayedList = xs @ Link t # ys" by (meson split_list)
      then have "Link t = hd (ys @ [DelayedList])" using repr_next_member [OF r d xs] self by simp
      moreover have "Link t \<notin> set ys" using repr_distinct [OF r d] xs by simp
      ultimately show False by (cases ys) auto
    qed
  next
    assume no: "Link t \<notin> set (L DelayedList)"
    have "Link t \<notin> set (L k)" if k: "k \<in> H" for k
    proof
      assume m: "Link t \<in> set (L k)"
      have "fits k (Link t)" by (rule shape_fits [OF sh k m])
      then consider p where "k = ReadyList p" | "k = DelayedList" by (cases k) auto
      then show False
      proof cases
        case 1
        then have "p < 32" using k sh by (auto simp: shape_def)
        then have "task_state s t = NIMBLE_TASK_READY"
          using tasks_inv_ready_state [OF sched_inv_tasks [OF i], of p t] m 1 by simp
        then show False using t(2) by simp
      qed (use m no in simp)
    qed
    then have "circle (heap s) (Link t) []" by (intro repr_free_circle [OF r t(1)]) (simp add: free_node_def)
    then show "node_next (heap s) (Link t) = Link t" by (simp add: circle_def linked_def)
  qed
qed

text \<open>
  What a step leaves of the unhurried tasks outside \<open>T\<close>: they stay unhurried, and only waiters of
  the lists in \<open>K\<close> stop being blocked.
\<close>

definition calm :: "node set \<Rightarrow> calls \<Rightarrow> node set \<Rightarrow> tcb_ptr set \<Rightarrow> kernel \<Rightarrow> kernel \<Rightarrow> bool" where
  "calm N c K T s s' \<longleftrightarrow>
     (\<forall>x. Link x \<in> N \<longrightarrow> x \<notin> T \<longrightarrow> unhurried s x \<longrightarrow> unhurried s' x \<and>
        (task_state s x = NIMBLE_TASK_BLOCKED \<longrightarrow>
           task_state s' x = NIMBLE_TASK_BLOCKED \<or> (\<exists>k\<in>K. waits_on (c x) = Some k)))"

lemma calmD:
  assumes "calm N c K T s s'" "Link x \<in> N" "x \<notin> T" "unhurried s x"
  shows "unhurried s' x"
    "task_state s x = NIMBLE_TASK_BLOCKED \<Longrightarrow> task_state s' x \<noteq> NIMBLE_TASK_BLOCKED \<Longrightarrow> \<exists>k\<in>K. waits_on (c x) = Some k"
  using assms unfolding calm_def by blast+

lemma calm_refl: "calm N c K T s s"
  by (simp add: calm_def)

lemma calm_trans:
  assumes "calm N c K T s s'" "calm N c K T s' s''"
  shows "calm N c K T s s''"
  using assms unfolding calm_def by blast

lemma calm_mono: "calm N c K T s s' \<Longrightarrow> K \<subseteq> K' \<Longrightarrow> T \<subseteq> T' \<Longrightarrow> calm N c K' T' s s'"
  unfolding calm_def by blast

lemma calm_pendsv [simp]:
  "calm N c K T s (s'\<lparr>pendsv := v\<rparr>) = calm N c K T s s'"
  "calm N c K T (s\<lparr>pendsv := v\<rparr>) s' = calm N c K T s s'"
  "calm N c K T s (nimble_port_request_context_switch s') = calm N c K T s s'"
  by (simp_all add: calm_def unhurried_def nimble_port_request_context_switch_def)

text \<open>Steps that change no wait: nobody becomes delayed, blocked or unblocked.\<close>

lemma calm_same:
  assumes i: "sched_inv b X H N L s" and i': "sched_inv b' X' H' N L' s'"
    and d: "\<And>x. x \<notin> T \<Longrightarrow> Link x \<in> set (L' DelayedList) \<Longrightarrow> Link x \<in> set (L DelayedList)"
    and tc: "\<And>x. x \<notin> T \<Longrightarrow> (task_state s' x = NIMBLE_TASK_BLOCKED \<longleftrightarrow> task_state s x = NIMBLE_TASK_BLOCKED) \<and>
       tcb_last_wait_result (tcbs s' x) = tcb_last_wait_result (tcbs s x)"
  shows "calm N c K T s s'"
  unfolding calm_def
proof (intro allI impI conjI)
  fix x assume x: "Link x \<in> N" "x \<notin> T" "unhurried s x"
  show "unhurried s' x"
  proof (cases "task_state s x = NIMBLE_TASK_BLOCKED")
    case True
    then have "Link x \<notin> set (L DelayedList)" using x(3) unlinked_iff [OF i x(1)] by (simp add: unhurried_def)
    then show ?thesis using True unlinked_iff [OF i' x(1)] d [OF x(2)] tc [OF x(2)] by (auto simp: unhurried_def)
  qed (use x(3) tc [OF x(2)] in \<open>simp add: unhurried_def\<close>)
qed (use tc in blast)

text \<open>Steps that wake the first waiter of a list.\<close>

lemma delayed_shrinks:
  "Link x \<in> set (woken_lists s w L DelayedList) \<Longrightarrow> Link x \<in> set (L DelayedList)"
  "Link x \<in> set (requeue_lists s L DelayedList) \<Longrightarrow> Link x \<in> set (L DelayedList)"
  "Link x \<in> set (wake_lists p y L DelayedList) \<Longrightarrow> Link x \<in> set (L DelayedList)"
  "Link x \<in> set (block_lists t NIMBLE_WAIT_FOREVER L DelayedList) \<Longrightarrow> Link x \<in> set (L DelayedList)"
  "x \<noteq> t \<Longrightarrow> Link x \<in> set (block_lists t v L DelayedList) \<Longrightarrow> Link x \<in> set (L DelayedList)"
  by (auto simp: woken_lists_def wake_lists_def requeue_lists_def block_lists_def split: option.splits if_splits)

lemma calm_woken:
  assumes i: "sched_inv b X H N L s" and o: "objs_inv H N L c s" and k: "k \<in> H" "wait_head k"
    and i': "sched_inv b' X' H N L' s'"
    and d: "\<And>x. Link x \<in> set (L' DelayedList) \<Longrightarrow> Link x \<in> set (L DelayedList)"
    and tc: "\<And>x. x \<notin> T \<Longrightarrow> x \<notin> set_option (first_waiter k L) \<Longrightarrow>
         task_state s' x = task_state s x \<and> tcb_last_wait_result (tcbs s' x) = tcb_last_wait_result (tcbs s x)"
      "\<And>x. first_waiter k L = Some x \<Longrightarrow>
         task_state s' x = NIMBLE_TASK_READY \<and> tcb_last_wait_result (tcbs s' x) = NIMBLE_OK"
  shows "calm N c {k} T s s'"
  unfolding calm_def
proof (intro allI impI)
  fix x assume x: "Link x \<in> N" "x \<notin> T" "unhurried s x"
  show "unhurried s' x \<and> (task_state s x = NIMBLE_TASK_BLOCKED \<longrightarrow>
      task_state s' x = NIMBLE_TASK_BLOCKED \<or> (\<exists>j\<in>{k}. waits_on (c x) = Some j))"
  proof (cases "first_waiter k L = Some x")
    case True
    obtain ts where "L k = map EventLink ts" using wait_links [OF sched_inv_shape [OF i] k] by blast
    with True have "EventLink x \<in> set (L k)" by (cases ts) (auto simp: first_waiter_def)
    then have "waits_on (c x) = Some k" using objs_invD(4) [OF o] k(1) unfolding waits_inv_def by blast
    then show ?thesis using tc(2) [OF True] by (simp add: unhurried_def)
  next
    case False
    then have tcx: "task_state s' x = task_state s x" "tcb_last_wait_result (tcbs s' x) = tcb_last_wait_result (tcbs s x)"
      using tc(1) [OF x(2)] by auto
    show ?thesis
    proof (cases "task_state s x = NIMBLE_TASK_BLOCKED")
      case True
      then have "Link x \<notin> set (L DelayedList)" using x(3) unlinked_iff [OF i x(1)] by (simp add: unhurried_def)
      then show ?thesis using True tcx unlinked_iff [OF i' x(1)] d by (auto simp: unhurried_def)
    qed (use x(3) tcx in \<open>simp add: unhurried_def\<close>)
  qed
qed

lemma woken_tcbs_calm:
  "x \<notin> T \<Longrightarrow> x \<notin> set_option w \<Longrightarrow>
     tcb_state (woken_tcbs w S x) = tcb_state (S x) \<and> tcb_last_wait_result (woken_tcbs w S x) = tcb_last_wait_result (S x)"
  "w = Some x \<Longrightarrow>
     tcb_state (woken_tcbs w S x) = NIMBLE_TASK_READY \<and> tcb_last_wait_result (woken_tcbs w S x) = NIMBLE_OK"
  by (auto simp: woken_tcbs_def split: option.splits)

lemma calm_wake:
  assumes "sched_inv b X H N L s" "objs_inv H N L c s" "k \<in> H" "wait_head k"
    and "sched_inv b' X' H N (woken_lists s (first_waiter k L) L) s'"
    and "tcbs s' = woken_tcbs (first_waiter k L) (tcbs s)"
  shows "calm N c {k} T s s'"
  by (rule calm_woken [OF assms(1-5)]) (erule delayed_shrinks(1), simp_all add: assms(6) woken_tcbs_calm)

section \<open>Interrupts\<close>

lemma tick_calm:
  assumes inv: "sys_inv b H N (s, c)" and s': "SysTick_Handler s = Some s'"
  shows "calm N c {} {} s s'"
proof -
  obtain L where i: "sched_inv b {} H N L s" using inv by (rule sys_invE)
  obtain ts where ts: "L DelayedList = map Link ts" using delayed_links [OF sched_inv_shape [OF i]] by blast
  let ?due = "\<lambda>t. t \<in> set ts \<and> tick_due (s\<lparr>g_tick_count := g_tick_count s + 1\<rparr>) t"
  have i': "sched_inv b {} H N (tick_lists s ts L) s'"
    and f: "s' = s\<lparr>g_tick_count := g_tick_count s + 1, pendsv := True,
            tcbs := \<lambda>t. if ?due t then timed_out (tcbs s t) else tcbs s t,
            heap := heap s', ready_bitmap := ready_bitmap s'\<rparr>"
    using SysTick_inv [OF i ts] s' by auto
  have tc: "tcbs s' = (\<lambda>t. if ?due t then timed_out (tcbs s t) else tcbs s t)" by (subst f) simp
  show ?thesis
    unfolding calm_def
  proof (intro allI impI)
    fix x assume x: "Link x \<in> N" "x \<notin> {}" "unhurried s x"
    have "x \<notin> set ts"
    proof
      assume "x \<in> set ts"
      then have d: "Link x \<in> set (L DelayedList)" using ts by simp
      then have "task_state s x = NIMBLE_TASK_BLOCKED" using tasks_inv_delayed [OF sched_inv_tasks [OF i]] by simp
      then show False using x(3) d unlinked_iff [OF i x(1)] by (simp add: unhurried_def)
    qed
    then have tcx: "tcbs s' x = tcbs s x" using tc by simp
    show "unhurried s' x \<and> (task_state s x = NIMBLE_TASK_BLOCKED \<longrightarrow>
        task_state s' x = NIMBLE_TASK_BLOCKED \<or> (\<exists>k\<in>{}. waits_on (c x) = Some k))"
    proof (cases "task_state s x = NIMBLE_TASK_BLOCKED")
      case True
      have "Link x \<notin> set (tick_lists s ts L DelayedList)"
        using \<open>x \<notin> set ts\<close> by (auto simp: tick_lists_delayed [where L = L, OF ts])
      then show ?thesis using True tcx unlinked_iff [OF i' x(1)] by (simp add: unhurried_def)
    qed (use x(3) tcx in \<open>simp add: unhurried_def\<close>)
  qed
qed

lemma switch_calm:
  assumes inv: "sys_inv b H N (s, c)" and s': "PendSV_Handler s = Some s'"
  shows "calm N c {} {} s s'"
proof -
  obtain L where i: "sched_inv b {} H N L s" and o: "objs_inv H N L c s" using inv by (rule sys_invE)
  have idle: "can_run N s idle_tcb" using objs_invD(7) [OF o] by (simp add: idle_inv_def)
  obtain n where i': "sched_inv b {} H N (delist (Link n) (requeue_lists s L)) s'" and n: "can_run N s n"
    and tc: "\<And>t. tcb_last_wait_result (tcbs s' t) = tcb_last_wait_result (tcbs s t)"
      "\<And>t. task_state s' t = (if t = n then NIMBLE_TASK_RUNNING
          else if nimble_current_tcb s = Some t \<and> task_state s t = NIMBLE_TASK_RUNNING then NIMBLE_TASK_READY
          else task_state s t)"
    using PendSV_frame [OF i _ runnable_listed [OF i idle]] s' by fastforce
  show ?thesis
    by (rule calm_same [OF i i'])
      (use delayed_shrinks(2) n in \<open>auto simp: tc can_run_def\<close>)
qed

lemma isr_give_calm:
  assumes inv: "sys_inv b H N (s, c)" and q: "SemWaiters q \<in> H"
    and s': "nimble_semaphore_give_from_isr q s = Some (r, w, s')"
  shows "calm N c {SemWaiters q} {} s s'"
proof -
  obtain L where i: "sched_inv b {} H N L s" and o: "objs_inv H N L c s" using inv by (rule sys_invE)
  let ?w = "first_waiter (SemWaiters q) L"
  have i': "sched_inv b {} H N (woken_lists s ?w L) s'"
    and f: "s' = s\<lparr>semaphores := (if ?w = None then (semaphores s)(q := bump (semaphores s q)) else semaphores s),
            tcbs := woken_tcbs ?w (tcbs s), heap := heap s', ready_bitmap := ready_bitmap s'\<rparr>"
    using give_from_isr_spec [OF i q] s' by auto
  have tc: "tcbs s' = woken_tcbs ?w (tcbs s)" by (subst f) simp
  show ?thesis by (rule calm_wake [OF i o q _ i' tc]) simp
qed

lemma give_calm:
  assumes inv: "sys_inv b H N (s, c)" and q: "SemWaiters q \<in> H" and s': "nimble_semaphore_give q s = Some (r, s')"
  shows "calm N c {SemWaiters q} {} s s'"
proof -
  obtain L where i: "sched_inv b {} H N L s" and o: "objs_inv H N L c s" using inv by (rule sys_invE)
  let ?w = "first_waiter (SemWaiters q) L"
  have i': "sched_inv b {} H N (woken_lists s ?w L) s'"
    and f: "s' = s\<lparr>semaphores := (if ?w = None then (semaphores s)(q := bump (semaphores s q)) else semaphores s),
            tcbs := woken_tcbs ?w (tcbs s), pendsv := (pendsv s \<or> ?w \<noteq> None),
            heap := heap s', ready_bitmap := ready_bitmap s'\<rparr>"
    using give_spec [OF i q] s' by auto
  have tc: "tcbs s' = woken_tcbs ?w (tcbs s)" by (subst f) simp
  show ?thesis by (rule calm_wake [OF i o q _ i' tc]) simp
qed

section \<open>Calls that may block\<close>

text \<open>The running task blocks: everybody else keeps waiting, and without a timeout it is unhurried itself.\<close>

lemma calm_block:
  assumes i: "sched_inv b X H N L s" and i': "sched_inv b' X' H N (block_lists t v (L(k := xs))) s'" and k: "wait_head k"
    and tc: "\<And>x. x \<noteq> t \<Longrightarrow> task_state s' x = task_state s x \<and> tcb_last_wait_result (tcbs s' x) = tcb_last_wait_result (tcbs s x)"
      "task_state s' t = NIMBLE_TASK_BLOCKED" and t: "Link t \<in> N" "Link t \<notin> set (L DelayedList)"
  shows "calm N c {} {t} s s' \<and> task_state s' t = NIMBLE_TASK_BLOCKED \<and> (v = NIMBLE_WAIT_FOREVER \<longrightarrow> unhurried s' t)"
proof (intro conjI)
  have d: "Link x \<in> set (block_lists t v (L(k := xs)) DelayedList) \<Longrightarrow> Link x \<in> set (L DelayedList)"
    if "x \<noteq> t" for x
    using delayed_shrinks(5) [OF that] k by (cases k) fastforce+
  show "calm N c {} {t} s s'"
    by (rule calm_same [OF i i']) (use d tc in auto)
  have "Link t \<notin> set (block_lists t NIMBLE_WAIT_FOREVER (L(k := xs)) DelayedList)"
    using delayed_shrinks(4) [of t t "L(k := xs)"] t(2) k by (cases k) auto
  then show "task_state s' t = NIMBLE_TASK_BLOCKED" "v = NIMBLE_WAIT_FOREVER \<longrightarrow> unhurried s' t"
    using unlinked_iff [OF i' t(1)] tc(2) by (auto simp: unhurried_def)
qed

lemma thread_not_delayed:
  assumes "sched_inv b X H N L s" "thread s c t call"
  shows "Link t \<notin> set (L DelayedList)"
  using tasks_inv_delayed [OF sched_inv_tasks [OF assms(1)], of t] threadD(2) [OF assms(2)] by auto

definition call_calm ::
  "node set \<Rightarrow> calls \<Rightarrow> node set \<Rightarrow> tcb_ptr \<Rightarrow> nimble_tick_t \<Rightarrow> 'a call_result \<Rightarrow> kernel \<Rightarrow> kernel \<Rightarrow> bool" where
  "call_calm N c K t v r s s' \<longleftrightarrow>
     (case r of Returns _ \<Rightarrow> calm N c K {} s s'
      | Blocks \<Rightarrow> calm N c {} {t} s s' \<and> task_state s' t = NIMBLE_TASK_BLOCKED \<and> (v = NIMBLE_WAIT_FOREVER \<longrightarrow> unhurried s' t))"

lemma blocked_calm:
  assumes i: "sched_inv b X H N L s" and th: "thread s c t NoCall" and k: "wait_head k"
    and i': "sched_inv b' X' H N (block_lists t v (L(k := xs))) s'"
    and f: "s' = s\<lparr>tcbs := (tcbs s)(t := (tcbs s t)\<lparr>tcb_state := NIMBLE_TASK_BLOCKED, tcb_wake_tick := w\<rparr>),
            pendsv := True, heap := heap s', ready_bitmap := ready_bitmap s'\<rparr>"
  shows "call_calm N c K t v Blocks s s'"
proof -
  have "calm N c {} {t} s s' \<and> task_state s' t = NIMBLE_TASK_BLOCKED \<and> (v = NIMBLE_WAIT_FOREVER \<longrightarrow> unhurried s' t)"
    by (rule calm_block [OF i i' k])
      ((subst f, simp)+, use thread_node [OF i th] thread_not_delayed [OF i th] in simp_all)
  then show ?thesis by (simp add: call_calm_def)
qed

lemma returned_calm: "calm N c K {} s s' \<Longrightarrow> call_calm N c K t v (Returns x) s s'"
  by (simp add: call_calm_def)

text \<open>Steps that leave the tasks and the delayed list alone.\<close>

lemma calm_fields:
  assumes i: "sched_inv b X H N L s" and i': "sched_inv b' X' H' N L' s'"
    and d: "L' DelayedList = L DelayedList" and tc: "tcbs s' = tcbs s"
  shows "calm N c K T s s'"
  by (rule calm_same [OF i i']) (use d tc in simp_all)

lemma calm_objects:
  "calm N c K T s (s\<lparr>semaphores := sm\<rparr>)" "calm N c K T s (s\<lparr>mutexes := mu\<rparr>)"
  by (simp_all add: calm_def unhurried_def)

lemma take_calm:
  assumes inv: "sys_inv b H N (s, c)" and th: "thread s c t NoCall" and q: "SemWaiters q \<in> H"
    and s': "nimble_semaphore_take q v s = Some (r, s')"
  shows "call_calm N c K t v r s s'"
proof -
  obtain L where i: "sched_inv b {} H N L s" and o: "objs_inv H N L c s" using inv by (rule sys_invE)
  consider "0 < sem_count (semaphores s q)" | "sem_count (semaphores s q) = 0" "v = NIMBLE_NO_WAIT"
    | "sem_count (semaphores s q) = 0" "v \<noteq> NIMBLE_NO_WAIT"
    by (cases "v = NIMBLE_NO_WAIT") (auto simp: word_gt_0)
  then show ?thesis
  proof cases
    case 1
    then show ?thesis using s' take_available [OF 1] by (auto simp: calm_objects intro: returned_calm)
  next
    case 2
    then show ?thesis using take_no_wait s' by (auto simp: calm_refl intro: returned_calm)
  next
    case 3
    obtain ts where ts: "L (SemWaiters q) = map EventLink ts"
      using wait_links [OF sched_inv_shape [OF i] q] by auto
    note T = threadD [OF th]
    obtain k where k: "r = Blocks" "k = SemWaiters q" "wait_head k"
      and b: "sched_inv b {} H N (block_lists t v (L(k := map EventLink (prio_insert (task_priority s) t ts)))) s'"
        "s' = s\<lparr>tcbs := (tcbs s)(t := (tcbs s t)\<lparr>tcb_state := NIMBLE_TASK_BLOCKED,
                 tcb_wake_tick := if v = NIMBLE_WAIT_FOREVER then tcb_wake_tick (tcbs s t) else g_tick_count s + v\<rparr>),
            pendsv := True, heap := heap s', ready_bitmap := ready_bitmap s'\<rparr>"
      using take_blocks [OF i T(1,2) q ts 3] s' by auto
    show ?thesis using blocked_calm [OF i th k(3) b] k(1) by simp
  qed
qed

lemma receive_calm:
  assumes inv: "sys_inv b H N (s, c)" and th: "thread s c t NoCall"
    and q: "QueueReceivers q \<in> H" "QueueSenders q \<in> H" and s': "nimble_queue_receive q v s = Some (r, s')"
  shows "call_calm N c {QueueSenders q} t v r s s'"
proof -
  obtain L where i: "sched_inv b {} H N L s" and o: "objs_inv H N L c s" using inv by (rule sys_invE)
  have wf: "queue_wf (queues s q)" using objs_invD(3) [OF o] q by (simp add: queue_inv_def)
  consider "0 < queue_count (queues s q)" | "queue_count (queues s q) = 0" "v = NIMBLE_NO_WAIT"
    | "queue_count (queues s q) = 0" "v \<noteq> NIMBLE_NO_WAIT"
    by (cases "v = NIMBLE_NO_WAIT") (auto simp: word_gt_0)
  then show ?thesis
  proof cases
    case 1
    let ?w = "first_waiter (QueueSenders q) L"
    obtain y x where x: "copy_out (queues s q) = Some (y, x)" using copy_out_returns [OF wf 1] by blast
    have r: "r = Returns (NIMBLE_OK, Some y)"
      and i': "sched_inv b {} H N (woken_lists s ?w L) s'"
      and f: "s' = s\<lparr>queues := (queues s)(q := x), tcbs := woken_tcbs ?w (tcbs s),
            pendsv := (pendsv s \<or> ?w \<noteq> None), heap := heap s', ready_bitmap := ready_bitmap s'\<rparr>"
      using receive_item [OF i q(2) 1 x, of v] s' by auto
    have "tcbs s' = woken_tcbs ?w (tcbs s)" by (subst f) simp
    from calm_wake [OF i o q(2) _ i' this] show ?thesis unfolding r by (intro returned_calm) simp
  next
    case 2
    then show ?thesis using receive_empty s' by (auto simp: calm_refl intro: returned_calm)
  next
    case 3
    obtain ts where ts: "L (QueueReceivers q) = map EventLink ts"
      using wait_links [OF sched_inv_shape [OF i] q(1)] by auto
    note T = threadD [OF th]
    obtain k where k: "r = Blocks" "k = QueueReceivers q" "wait_head k"
      and b: "sched_inv b {} H N (block_lists t v (L(k := map EventLink (prio_insert (task_priority s) t ts)))) s'"
        "s' = s\<lparr>tcbs := (tcbs s)(t := (tcbs s t)\<lparr>tcb_state := NIMBLE_TASK_BLOCKED,
                 tcb_wake_tick := if v = NIMBLE_WAIT_FOREVER then tcb_wake_tick (tcbs s t) else g_tick_count s + v\<rparr>),
            pendsv := True, heap := heap s', ready_bitmap := ready_bitmap s'\<rparr>"
      using receive_blocks [OF i T(1,2) q(1) ts 3] s' by auto
    show ?thesis using blocked_calm [OF i th k(3) b] k(1) by simp
  qed
qed

lemma send_calm:
  assumes inv: "sys_inv b H N (s, c)" and th: "thread s c t NoCall"
    and q: "QueueReceivers q \<in> H" "QueueSenders q \<in> H"
    and item: "length item = unat (queue_item_size (queues s q))" and s': "nimble_queue_send q item v s = Some (r, s')"
  shows "call_calm N c {QueueReceivers q} t v r s s'"
proof -
  obtain L where i: "sched_inv b {} H N L s" and o: "objs_inv H N L c s" using inv by (rule sys_invE)
  have wf: "queue_wf (queues s q)" using objs_invD(3) [OF o] q by (simp add: queue_inv_def)
  consider "queue_count (queues s q) < queue_capacity (queues s q)"
    | "\<not> queue_count (queues s q) < queue_capacity (queues s q)" "v = NIMBLE_NO_WAIT"
    | "\<not> queue_count (queues s q) < queue_capacity (queues s q)" "v \<noteq> NIMBLE_NO_WAIT"
    by blast
  then show ?thesis
  proof cases
    case 1
    let ?w = "first_waiter (QueueReceivers q) L"
    obtain x where x: "copy_in item (queues s q) = Some x" using copy_in_returns [OF wf item 1] by blast
    have r: "r = Returns NIMBLE_OK"
      and i': "sched_inv b {} H N (woken_lists s ?w L) s'"
      and f: "s' = s\<lparr>queues := (queues s)(q := x), tcbs := woken_tcbs ?w (tcbs s),
            pendsv := (pendsv s \<or> ?w \<noteq> None), heap := heap s', ready_bitmap := ready_bitmap s'\<rparr>"
      using send_room [OF i q(1) 1 x, of v] s' by auto
    have "tcbs s' = woken_tcbs ?w (tcbs s)" by (subst f) simp
    from calm_wake [OF i o q(1) _ i' this] show ?thesis unfolding r by (intro returned_calm) simp
  next
    case 2
    then show ?thesis using send_full s' by (auto simp: calm_refl intro: returned_calm)
  next
    case 3
    obtain ts where ts: "L (QueueSenders q) = map EventLink ts"
      using wait_links [OF sched_inv_shape [OF i] q(2)] by auto
    note T = threadD [OF th]
    obtain k where k: "r = Blocks" "k = QueueSenders q" "wait_head k"
      and b: "sched_inv b {} H N (block_lists t v (L(k := map EventLink (prio_insert (task_priority s) t ts)))) s'"
        "s' = s\<lparr>tcbs := (tcbs s)(t := (tcbs s t)\<lparr>tcb_state := NIMBLE_TASK_BLOCKED,
                 tcb_wake_tick := if v = NIMBLE_WAIT_FOREVER then tcb_wake_tick (tcbs s t) else g_tick_count s + v\<rparr>),
            pendsv := True, heap := heap s', ready_bitmap := ready_bitmap s'\<rparr>"
      using send_blocks [OF i T(1,2) q(2) ts 3, of item] s' by auto
    show ?thesis using blocked_calm [OF i th k(3) b] k(1) by simp
  qed
qed

lemma isr_send_calm:
  assumes inv: "sys_inv b H N (s, c)" and q: "QueueReceivers q \<in> H"
    and item: "length item = unat (queue_item_size (queues s q))"
    and s': "nimble_queue_send_from_isr q item s = Some (r, w, s')"
  shows "calm N c {QueueReceivers q} {} s s'"
proof (cases "queue_count (queues s q) < queue_capacity (queues s q)")
  case True
  obtain L where i: "sched_inv b {} H N L s" and o: "objs_inv H N L c s" using inv by (rule sys_invE)
  have wf: "queue_wf (queues s q)" using objs_invD(3) [OF o] q by (simp add: queue_inv_def)
  let ?w = "first_waiter (QueueReceivers q) L"
  obtain x where x: "copy_in item (queues s q) = Some x" using copy_in_returns [OF wf item True] by blast
  have i': "sched_inv b {} H N (woken_lists s ?w L) s'"
    and f: "s' = s\<lparr>queues := (queues s)(q := x), tcbs := woken_tcbs ?w (tcbs s),
            heap := heap s', ready_bitmap := ready_bitmap s'\<rparr>"
    using send_from_isr_room [OF i q True x] s' by auto
  have "tcbs s' = woken_tcbs ?w (tcbs s)" by (subst f) simp
  from calm_wake [OF i o q _ i' this] show ?thesis by simp
qed (use send_from_isr_full s' in \<open>auto simp: calm_refl\<close>)

lemma lock_calm:
  assumes inv: "sys_inv b H N (s, c)" and th: "thread s c t NoCall" and m: "MutexWaiters m \<in> H"
    and s': "nimble_mutex_lock m v s = Some (r, s')"
  shows "call_calm N c K t v r s s'"
proof -
  obtain L where i: "sched_inv b {} H N L s" and o: "objs_inv H N L c s" using inv by (rule sys_invE)
  note T = threadD [OF th]
  let ?o = "mutex_owner (mutexes s m)"
  consider "?o = None" | "?o = Some t" | w where "?o = Some w" "w \<noteq> t" "v = NIMBLE_NO_WAIT"
    | w where "?o = Some w" "w \<noteq> t" "v \<noteq> NIMBLE_NO_WAIT"
    by (cases ?o) auto
  then show ?thesis
  proof cases
    case 1
    then show ?thesis using lock_free [OF 1] s' by (auto simp: calm_objects intro: returned_calm)
  next
    case 2
    then show ?thesis using lock_recursive [of s m t v] T(1) s' by (auto simp: calm_objects intro: returned_calm)
  next
    case 3
    then show ?thesis using lock_no_wait [of s m] T(1) s' by (auto simp: calm_refl intro: returned_calm)
  next
    case 4
    obtain ts where ts: "L (MutexWaiters m) = map EventLink ts"
      using wait_links [OF sched_inv_shape [OF i] m] by auto
    let ?B = "boost w (task_priority s t) s"
    have r: "r = Blocks"
      and i': "sched_inv (b \<and> boost_ok w (task_priority s t) s) {} H N
         (block_lists t v (L(MutexWaiters m := map EventLink (prio_insert (task_priority ?B) t ts)))) s'"
      and f: "s' = ?B\<lparr>tcbs := (tcbs ?B)(t := (tcbs s t)\<lparr>tcb_state := NIMBLE_TASK_BLOCKED,
                 tcb_wake_tick := if v = NIMBLE_WAIT_FOREVER then tcb_wake_tick (tcbs s t) else g_tick_count s + v\<rparr>),
            pendsv := True, heap := heap s', ready_bitmap := ready_bitmap s'\<rparr>"
      using lock_blocks [OF i T(1,2) m ts 4] s' by auto
    have B: "tcb_last_wait_result (tcbs ?B y) = tcb_last_wait_result (tcbs s y)" for y
      by (auto simp: boost_def update_tcb_def)
    have "calm N c {} {t} s s' \<and> task_state s' t = NIMBLE_TASK_BLOCKED \<and> (v = NIMBLE_WAIT_FOREVER \<longrightarrow> unhurried s' t)"
      by (rule calm_block [OF i i']) (simp, (subst f, simp add: B)+,
          use thread_node [OF i th] thread_not_delayed [OF i th] in simp_all)
    then show ?thesis using r by (simp add: call_calm_def)
  qed
qed

lemma unlock_calm:
  assumes inv: "sys_inv b H N (s, c)" and th: "thread s c t NoCall" and m: "MutexWaiters m \<in> H"
    and s': "nimble_mutex_unlock m s = Some (r, s')"
  shows "calm N c {MutexWaiters m} {} s s'"
proof -
  obtain L where i: "sched_inv b {} H N L s" and o: "objs_inv H N L c s" using inv by (rule sys_invE)
  note T = threadD [OF th]
  let ?o = "mutex_owner (mutexes s m)" and ?n = "mutex_lock_count (mutexes s m)"
  consider "?o \<noteq> Some t" | "?o = Some t" "?n \<noteq> 1" | "?o = Some t" "?n = 1" "L (MutexWaiters m) = []"
    | x ws where "?o = Some t" "?n = 1" "L (MutexWaiters m) = EventLink x # ws"
    using wait_links [OF sched_inv_shape [OF i] m] by (cases "L (MutexWaiters m)") auto
  then show ?thesis
  proof cases
    case 1
    then show ?thesis using unlock_not_owner [of s m] T(1) s' by (simp add: calm_refl)
  next
    case 2
    then show ?thesis using unlock_nested [of s m] T(1) s' by (auto simp: calm_objects)
  next
    case 3
    then show ?thesis using unlock_no_waiter [OF i T(1,2) m 3] s'
      by (auto simp: release_state_def calm_def unhurried_def)
  next
    case 4
    have i': "sched_inv b {} H N (wake_lists (unat (task_priority s x)) x L) s'"
      and f: "s' = s\<lparr>tcbs := (tcbs s)(t := (tcbs s t)\<lparr>tcb_priority := tcb_base_priority (tcbs s t)\<rparr>,
                 x := (tcbs s x)\<lparr>tcb_last_wait_result := NIMBLE_OK, tcb_state := NIMBLE_TASK_READY\<rparr>),
            mutexes := (mutexes s)(m := \<lparr>mutex_owner = Some x, mutex_lock_count = 1\<rparr>),
            pendsv := True, heap := heap s', ready_bitmap := ready_bitmap s'\<rparr>"
      using unlock_handoff [OF i T(1,2) m 4] s' by auto
    have tc: "tcbs s' = (tcbs s)(t := (tcbs s t)\<lparr>tcb_priority := tcb_base_priority (tcbs s t)\<rparr>,
                 x := (tcbs s x)\<lparr>tcb_last_wait_result := NIMBLE_OK, tcb_state := NIMBLE_TASK_READY\<rparr>)"
      by (subst f) simp
    show ?thesis
      by (rule calm_woken [OF i o m _ i']) (simp, erule delayed_shrinks(3), use 4(3) in \<open>auto simp: tc\<close>)
  qed
qed

section \<open>The second halves\<close>

lemma take_resume_calm:
  assumes inv: "sys_inv b H N (s, c)" and th: "thread s c t call" and s': "nimble_semaphore_take_resume q t s = (r, s')"
  shows "calm N c K T s s'" "nimble_current_tcb s' = nimble_current_tcb s" "tcbs s' = tcbs s"
    "unhurried s t \<Longrightarrow> r = NIMBLE_OK"
proof -
  obtain L where i: "sched_inv b {} H N L s" using inv by (rule sys_invE)
  have i': "sched_inv b {} H N L s'" and f: "s' = s\<lparr>heap := heap s'\<rparr>"
    and r: "r = tcb_last_wait_result (tcbs s t)"
    using take_resume_inv [OF i thread_node [OF i th] threadD(2) [OF th], of q] s' by auto
  show tc: "tcbs s' = tcbs s" "nimble_current_tcb s' = nimble_current_tcb s" by (subst f, simp)+
  show "calm N c K T s s'" by (rule calm_fields [OF i i' refl tc(1)])
  show "unhurried s t \<Longrightarrow> r = NIMBLE_OK" using r threadD(2) [OF th] by (simp add: unhurried_def)
qed

lemma lock_resume_calm:
  assumes inv: "sys_inv b H N (s, c)" and th: "thread s c t (InLock m)" and s': "nimble_mutex_lock_resume m t s = (r, s')"
  shows "calm N c K T s s'" "tcbs s' = tcbs s"
    "unhurried s t \<Longrightarrow> r = NIMBLE_OK \<and> s' = s \<and> mutex_owner (mutexes s m) = Some t"
proof -
  obtain L where i: "sched_inv b {} H N L s" and o: "objs_inv H N L c s" using inv by (rule sys_invE)
  have "calm N c K T s s' \<and> tcbs s' = tcbs s"
  proof (cases "mutex_owner (mutexes s m) = Some t")
    case True
    then show ?thesis using lock_resume_owner s' by (simp add: calm_refl)
  next
    case False
    have i': "sched_inv b {} H N L s'" and f: "s' = s\<lparr>heap := heap s'\<rparr>"
      using lock_resume_timeout [OF i thread_node [OF i th] threadD(2) [OF th] False] s' by auto
    have "tcbs s' = tcbs s" by (subst f) simp
    then show ?thesis using calm_fields [OF i i' refl] by blast
  qed
  then show "calm N c K T s s'" "tcbs s' = tcbs s" by simp_all
  assume "unhurried s t"
  then have "mutex_owner (mutexes s m) = Some t"
    using objs_invD(5) [OF o] threadD(2,3) [OF th] by (simp add: handoff_inv_def woken_ok_def unhurried_def)
  then show "r = NIMBLE_OK \<and> s' = s \<and> mutex_owner (mutexes s m) = Some t" using lock_resume_owner s' by simp
qed

lemma send_resume_calm:
  assumes inv: "sys_inv b H N (s, c)" and th: "thread s c t (InSend q item)"
    and s': "nimble_queue_send_resume q item t s = Some (r, s')"
  shows "calm N c K T s s'"
proof -
  obtain L where i: "sched_inv b {} H N L s" and o: "objs_inv H N L c s" using inv by (rule sys_invE)
  have q: "QueueReceivers q \<in> H" "length item = unat (queue_item_size (queues s q))"
    using objs_invD(6) [OF o] threadD(3) [OF th] by (auto simp: calls_inv_def)
  have wf: "queue_wf (queues s q)" using objs_invD(3) [OF o] q by (simp add: queue_inv_def)
  let ?room = "queue_count (queues s q) < queue_capacity (queues s q)"
  obtain x where x: "?room \<Longrightarrow> copy_in item (queues s q) = Some x" using copy_in_returns [OF wf q(2)] by blast
  let ?v = "if tcb_last_wait_result (tcbs s t) \<noteq> NIMBLE_ERR_TIMEOUT \<and> ?room then (queues s)(q := x) else queues s"
  have i': "sched_inv b {} H N L s'" and f: "s' = s\<lparr>queues := ?v, heap := heap s'\<rparr>"
    using send_resume_inv [OF i thread_node [OF i th] threadD(2) [OF th], of q item x] x s' by auto
  show ?thesis by (rule calm_fields [OF i i' refl]) (subst f, simp)
qed

lemma receive_resume_calm:
  assumes inv: "sys_inv b H N (s, c)" and th: "thread s c t (InReceive q)"
    and s': "nimble_queue_receive_resume q t s = Some (r, s')"
  shows "calm N c K T s s'" "tcbs s' = tcbs s"
    "unhurried s t \<Longrightarrow> 0 < queue_count (queues s q) \<Longrightarrow>
       \<exists>y x. copy_out (queues s q) = Some (y, x) \<and> r = (NIMBLE_OK, Some y) \<and> queues s' = (queues s)(q := x)"
proof -
  obtain L where i: "sched_inv b {} H N L s" and o: "objs_inv H N L c s" using inv by (rule sys_invE)
  have q: "QueueReceivers q \<in> H"
    using objs_invD(6) [OF o] threadD(3) [OF th] by (auto simp: calls_inv_def)
  have wf: "queue_wf (queues s q)" using objs_invD(3) [OF o] q by (simp add: queue_inv_def)
  let ?has = "0 < queue_count (queues s q)"
  obtain y x where x: "?has \<Longrightarrow> copy_out (queues s q) = Some (y, x)" using copy_out_returns [OF wf] by blast
  let ?moves = "tcb_last_wait_result (tcbs s t) \<noteq> NIMBLE_ERR_TIMEOUT \<and> ?has"
  let ?v = "if ?moves then (queues s)(q := x) else queues s"
  have i': "sched_inv b {} H N L s'" and f: "s' = s\<lparr>queues := ?v, heap := heap s'\<rparr>"
    and r: "?moves \<Longrightarrow> r = (NIMBLE_OK, Some y)"
    using receive_resume_inv [OF i thread_node [OF i th] threadD(2) [OF th], of q y x] x s' by auto
  show tc: "tcbs s' = tcbs s" by (subst f) simp
  show "calm N c K T s s'" by (rule calm_fields [OF i i' refl tc])
  assume u: "unhurried s t" and h: ?has
  then have m: ?moves using threadD(2) [OF th] by (simp add: unhurried_def)
  have "queues s' = (queues s)(q := x)" by (subst f) (use m in simp)
  then show "\<exists>y x. copy_out (queues s q) = Some (y, x) \<and> r = (NIMBLE_OK, Some y) \<and> queues s' = (queues s)(q := x)"
    using x h r [OF m] by blast
qed

section \<open>Task and timer calls\<close>

lemma delay_calm:
  assumes inv: "sys_inv b H N (s, c)" and th: "thread s c t NoCall" and s': "nimble_task_delay n s = Some s'"
  shows "calm N c K {t} s s'"
proof (cases "n = 0")
  case False
  obtain L where i: "sched_inv b {} H N L s" using inv by (rule sys_invE)
  note T = threadD [OF th]
  have i': "sched_inv b {} H N (enlist DelayedList (Link t) L) s'"
    and f: "s' = s\<lparr>tcbs := (tcbs s)(t := (tcbs s t)\<lparr>tcb_wake_tick := g_tick_count s + n,
                                            tcb_state := NIMBLE_TASK_BLOCKED\<rparr>),
            pendsv := True, heap := heap s', ready_bitmap := ready_bitmap s'\<rparr>"
    using delay_inv [OF i T(1,2) False] s' by auto
  have tc: "\<And>y. y \<noteq> t \<Longrightarrow> tcbs s' y = tcbs s y" by (subst f) simp
  show ?thesis by (rule calm_same [OF i i']) (simp_all add: tc)
qed (use delay_zero s' in \<open>simp add: calm_refl\<close>)

lemma suspend_calm:
  assumes inv: "sys_inv b H N (s, c)" and x: "Link x \<in> N" and s': "nimble_task_suspend x s = Some s'"
  shows "calm N c K T s s'"
proof (cases "task_state s x = NIMBLE_TASK_READY \<or> task_state s x = NIMBLE_TASK_RUNNING")
  case True
  obtain L where i: "sched_inv b {} H N L s" using inv by (rule sys_invE)
  have i': "sched_inv b {} H N (delist (Link x) L) s'"
    and f: "s' = s\<lparr>tcbs := (tcbs s)(x := (tcbs s x)\<lparr>tcb_state := NIMBLE_TASK_SUSPENDED\<rparr>),
            pendsv := (pendsv s \<or> nimble_current_tcb s = Some x),
            heap := heap s', ready_bitmap := ready_bitmap s'\<rparr>"
    using suspend_inv [OF i x True] s' by auto
  have tc: "tcbs s' = (tcbs s)(x := (tcbs s x)\<lparr>tcb_state := NIMBLE_TASK_SUSPENDED\<rparr>)" by (subst f) simp
  show ?thesis by (rule calm_same [OF i i']) (use True in \<open>auto simp: tc\<close>)
qed (use suspend_other s' in \<open>auto simp: calm_refl\<close>)

lemma resume_calm:
  assumes inv: "sys_inv b H N (s, c)" and x: "Link x \<in> N" and s': "nimble_task_resume x s = Some s'"
  shows "calm N c K T s s'"
proof (cases "task_state s x = NIMBLE_TASK_SUSPENDED")
  case True
  obtain L where i: "sched_inv b {} H N L s" using inv by (rule sys_invE)
  have i': "sched_inv b {} H N (enlist (ReadyList (unat (task_priority s x))) (Link x) L) s'"
    and f: "s' = s\<lparr>tcbs := (tcbs s)(x := (tcbs s x)\<lparr>tcb_state := NIMBLE_TASK_READY\<rparr>),
            heap := heap s', ready_bitmap := ready_bitmap s'\<rparr>"
    using resume_inv [OF i x True] s' by auto
  have tc: "tcbs s' = (tcbs s)(x := (tcbs s x)\<lparr>tcb_state := NIMBLE_TASK_READY\<rparr>)" by (subst f) simp
  show ?thesis by (rule calm_same [OF i i']) (use True in \<open>auto simp: tc\<close>)
qed (use resume_other s' in \<open>auto simp: calm_refl\<close>)

lemma timer_stop_calm:
  assumes inv: "sys_inv b H N (s, c)" and x: "TimerLink x \<in> N" and s': "nimble_timer_stop x s = (r, s')"
  shows "calm N c K T s s'"
proof -
  obtain L where i: "sched_inv b {} H N L s" and o: "objs_inv H N L c s" using inv by (rule sys_invE)
  obtain ts where ts: "timers_inv H N L ts s" using objs_invD(8) [OF o] by blast
  have i': "sched_inv b {} H N (L(ActiveTimers := map TimerLink (removeAll x ts))) s'"
    and f: "s' = s\<lparr>timers := (timers s)(x := (timers s x)\<lparr>timer_is_active := False\<rparr>), heap := heap s'\<rparr>"
    using timer_stop_inv [OF i ts x] s' by auto
  show ?thesis by (rule calm_fields [OF i i']) (simp, subst f, simp)
qed

lemma timer_expire_calm:
  assumes inv: "sys_inv b H N (s, c)" and s': "timer_expire_one s = Some (r, s')"
  shows "calm N c K T s s'"
proof -
  obtain L where i: "sched_inv b {} H N L s" and o: "objs_inv H N L c s" using inv by (rule sys_invE)
  obtain ts where ts: "timers_inv H N L ts s" using objs_invD(8) [OF o] by blast
  show ?thesis
  proof (cases "ts = [] \<or> 0 < time_left (g_tick_count s) (timer_expiry_tick (timers s (hd ts)))")
    case True
    then show ?thesis using expire_one_idle [OF i ts] s' by (auto simp: calm_refl)
  next
    case False
    then obtain t rest where "ts = t # rest" and due: "time_left (g_tick_count s) (timer_expiry_tick (timers s t)) \<le> 0"
      by (cases ts) auto
    then have ts': "timers_inv H N L (t # rest) s" using ts by simp
    have i': "sched_inv b {} H N (L(ActiveTimers := map TimerLink (fire_list t rest s))) s'"
      and f: "s' = s\<lparr>timers := (timers s)(t := fire (g_tick_count s) (timers s t)), heap := heap s'\<rparr>"
      using expire_one_fires [OF i ts' due] s' by auto
    show ?thesis by (rule calm_fields [OF i i']) (simp, subst f, simp)
  qed
qed

lemma timer_arm_calm:
  assumes inv: "sys_inv b H N (s, c)" and x: "TimerLink x \<in> N" and s': "timer_arm x s = Some (r, s')"
  shows "calm N c K T s s'"
proof -
  obtain L where i: "sched_inv b {} H N L s" and o: "objs_inv H N L c s" using inv by (rule sys_invE)
  obtain ts where ts: "timers_inv H N L ts s" using objs_invD(8) [OF o] by blast
  have i': "sched_inv b {} H N (L(ActiveTimers := map TimerLink (start_list x ts s))) s'"
    and f: "s' = s\<lparr>timers := (timers s)(x := started x s), heap := heap s'\<rparr>"
    using timer_arm_inv [OF i ts x] s' by auto
  show ?thesis by (rule calm_fields [OF i i']) (simp, subst f, simp)
qed

section \<open>Every step\<close>

lemma call_calmD:
  assumes "call_calm N c K u v r s s'" "x \<noteq> u"
  shows "calm N c K {u} s s'"
  using assms by (auto simp: call_calm_def calm_def split: call_result.splits)

lemma stays_unhurried:
  assumes "calm N c K {u} s s'" "x \<noteq> u" "Link x \<in> N" "unhurried s x"
  shows "unhurried s' x"
  using calmD(1) [OF assms(1,3) _ assms(4)] assms(2) by simp

lemma step_unhurried:
  assumes "sys_step b H N x y" "sys_inv b H N x" "Link t \<in> N"
    and "snd x t \<noteq> NoCall" "snd y t = snd x t" "unhurried (fst x) t"
  shows "unhurried (fst y) t"
  using assms
proof (induction rule: sys_step.induct)
  case (tick s s' c)
  show ?case using calmD(1) [OF tick_calm [OF tick(2,1)] tick(3)] tick(6) by simp
next
  case (switch s s' c)
  show ?case using calmD(1) [OF switch_calm [OF switch(3,2)] switch(4)] switch(7) by simp
next
  case (isr_give q s r w s' c)
  have "unhurried s' t" using calmD(1) [OF isr_give_calm [OF isr_give(3,1,2)] isr_give(4)] isr_give(7) by simp
  then show ?case by (simp add: unhurried_def nimble_port_request_context_switch_def)
next
  case (isr_send q item s r w s' c)
  have "unhurried s' t" using calmD(1) [OF isr_send_calm [OF isr_send(4,1,2,3)] isr_send(5)] isr_send(8) by simp
  then show ?case by (simp add: unhurried_def nimble_port_request_context_switch_def)
next
  case (yield s c u call)
  then show ?case by (simp add: unhurried_def nimble_task_yield_def nimble_port_request_context_switch_def)
next
  case (delay s c u n s')
  show ?case
    using stays_unhurried [OF delay_calm [OF delay(3,1,2)]] delay(4-7) threadD(3) [OF delay(1)] by force
next
  case (suspend s c u x s')
  show ?case using calmD(1) [OF suspend_calm [OF suspend(5,2,4)] suspend(6)] suspend(9) by auto
next
  case (resume s c u x s')
  show ?case using calmD(1) [OF resume_calm [OF resume(4,2,3)] resume(5)] resume(8) by auto
next
  case (lock s c u m v r s')
  have "t \<noteq> u" using lock(7) threadD(3) [OF lock(1)] by auto
  from stays_unhurried [OF call_calmD [OF lock_calm [OF lock(5,1,2,4)] this] this lock(6)] lock(9) show ?case by simp
next
  case (lock_resume s c u m r s')
  show ?case using calmD(1) [OF lock_resume_calm(1) [OF lock_resume(3,1,2)] lock_resume(4)] lock_resume(7) by auto
next
  case (unlock s c u m r s')
  show ?case using calmD(1) [OF unlock_calm [OF unlock(4,1,2,3)] unlock(5)] unlock(8) by simp
next
  case (take s c u q v r s')
  have "t \<noteq> u" using take(6) threadD(3) [OF take(1)] by auto
  from stays_unhurried [OF call_calmD [OF take_calm [OF take(4,1,2,3)] this] this take(5)] take(8) show ?case by simp
next
  case (take_resume s c u q r s')
  show ?case using calmD(1) [OF take_resume_calm(1) [OF take_resume(3,1,2)] take_resume(4)] take_resume(7) by auto
next
  case (give s c u q r s')
  show ?case using calmD(1) [OF give_calm [OF give(4,2,3)] give(5)] give(8) by simp
next
  case (send s c u q item v r s')
  have "t \<noteq> u" using send(8) threadD(3) [OF send(1)] by auto
  from stays_unhurried [OF call_calmD [OF send_calm [OF send(6,1-5)] this] this send(7)] send(10) show ?case by simp
next
  case (send_resume s c u q item r s')
  show ?case using calmD(1) [OF send_resume_calm [OF send_resume(3,1,2)] send_resume(4)] send_resume(7) by auto
next
  case (receive s c u q v r s')
  have "t \<noteq> u" using receive(7) threadD(3) [OF receive(1)] by auto
  from stays_unhurried [OF call_calmD [OF receive_calm [OF receive(5,1-4)] this] this receive(6)] receive(9)
  show ?case by simp
next
  case (receive_resume s c u q r s')
  show ?case
    using calmD(1) [OF receive_resume_calm(1) [OF receive_resume(3,1,2)] receive_resume(4)] receive_resume(7) by auto
next
  case (timer_period s c u x p)
  then show ?case by (simp add: unhurried_def timer_set_period_eq)
next
  case (timer_arm s c u call x r s')
  show ?case using calmD(1) [OF timer_arm_calm [OF timer_arm(6,4,5)] timer_arm(7)] timer_arm(10) by auto
next
  case (timer_wake s c u r s')
  show ?case using calmD(1) [OF give_calm [OF timer_wake(4,2,3)] timer_wake(5)] timer_wake(8) by auto
next
  case (timer_stop s c u x r s')
  show ?case using calmD(1) [OF timer_stop_calm [OF timer_stop(4,2,3)] timer_stop(5)] timer_stop(8) by auto
next
  case (timer_expire s c r s')
  show ?case using calmD(1) [OF timer_expire_calm [OF timer_expire(3,2)] timer_expire(4)] timer_expire(7) by auto
qed

section \<open>Switching to the highest task\<close>

lemma switch_to_highest:
  assumes i: "sched_inv True {} H N L s" and inv: "sys_inv True H N (s, c)"
    and p: "Link p \<in> N" "task_state s p = NIMBLE_TASK_READY"
    and top: "\<And>t. Link t \<in> N \<Longrightarrow> t \<noteq> p \<Longrightarrow> task_priority s t < task_priority s p"
  shows "\<exists>s'. PendSV_Handler s = Some s' \<and> sys_inv True H N (s', c) \<and> nimble_current_tcb s' = Some p \<and>
     task_state s' p = NIMBLE_TASK_RUNNING \<and> mutexes s' = mutexes s \<and>
     tcb_last_wait_result (tcbs s' p) = tcb_last_wait_result (tcbs s p)"
proof -
  have cp: "can_run N s p" using p by (simp add: can_run_def)
  obtain n s' where s': "PendSV_Handler s = Some s'" "nimble_current_tcb s' = Some n" "can_run N s n"
    and le: "\<And>t. can_run N s t \<Longrightarrow> task_priority s t \<le> task_priority s n"
    and run: "\<And>t. Link t \<in> N \<Longrightarrow> task_state s' t = NIMBLE_TASK_RUNNING \<longleftrightarrow> t = n"
    using PendSV_highest [OF i cp] by blast
  have "n = p"
  proof (rule ccontr)
    assume "n \<noteq> p"
    then have "task_priority s n < task_priority s p" using top [of n] s'(3) by (simp add: can_run_def)
    then show False using le [OF cp] by simp
  qed
  moreover have "mutexes s' = mutexes s \<and> tcb_last_wait_result (tcbs s' t) = tcb_last_wait_result (tcbs s t)" for t
    using PendSV_frame [OF i _ runnable_listed [OF i cp]] s'(1) by auto
  moreover have "sys_inv True H N (s', c)" using switch_step [OF inv] s'(1) by auto
  ultimately show ?thesis using s' run p(1) by blast
qed

section \<open>The property\<close>

text \<open>A call the running task may make, and that it blocks when made without a timeout.\<close>

primrec may_call :: "bool \<Rightarrow> node set \<Rightarrow> tcb_ptr \<Rightarrow> kernel \<Rightarrow> call \<Rightarrow> bool" where
  "may_call b H t s NoCall = False"
| "may_call b H t s (InLock m) = (MutexWaiters m \<in> H \<and> may_boost b m t s)"
| "may_call b H t s (InTake q) = (SemWaiters q \<in> H)"
| "may_call b H t s (InSend q item) =
     (QueueReceivers q \<in> H \<and> QueueSenders q \<in> H \<and> length item = unat (queue_item_size (queues s q)))"
| "may_call b H t s (InReceive q) = (QueueReceivers q \<in> H \<and> QueueSenders q \<in> H)"
| "may_call b H t s (Arming x) = False"
| "may_call b H t s Armed = False"

primrec blocks_forever :: "call \<Rightarrow> kernel \<Rightarrow> kernel \<Rightarrow> bool" where
  "blocks_forever NoCall s s' = False"
| "blocks_forever (InLock m) s s' = (nimble_mutex_lock m NIMBLE_WAIT_FOREVER s = Some (Blocks, s'))"
| "blocks_forever (InTake q) s s' = (nimble_semaphore_take q NIMBLE_WAIT_FOREVER s = Some (Blocks, s'))"
| "blocks_forever (InSend q item) s s' = (nimble_queue_send q item NIMBLE_WAIT_FOREVER s = Some (Blocks, s'))"
| "blocks_forever (InReceive q) s s' = (nimble_queue_receive q NIMBLE_WAIT_FOREVER s = Some (Blocks, s'))"
| "blocks_forever (Arming x) s s' = False"
| "blocks_forever Armed s s' = False"

text \<open>The status with which the rest of the call returns.\<close>

primrec resumed_status :: "call \<Rightarrow> tcb_ptr \<Rightarrow> kernel \<Rightarrow> nimble_status_t option" where
  "resumed_status NoCall t s = None"
| "resumed_status (InLock m) t s = Some (fst (nimble_mutex_lock_resume m t s))"
| "resumed_status (InTake q) t s = Some (fst (nimble_semaphore_take_resume q t s))"
| "resumed_status (InSend q item) t s = map_option fst (nimble_queue_send_resume q item t s)"
| "resumed_status (InReceive q) t s = map_option (fst \<circ> fst) (nimble_queue_receive_resume q t s)"
| "resumed_status (Arming x) t s = None"
| "resumed_status Armed t s = None"

lemma blocked_unhurried:
  assumes inv: "sys_inv b H N (s, c)" and th: "thread s c t NoCall" and ok: "may_call b H t s call"
    and bl: "blocks_forever call s s1"
  shows "sys_inv b H N (s1, c(t := call))" "unhurried s1 t"
proof -
  have "sys_inv b H N (s1, c(t := call)) \<and> call_calm N c {} t NIMBLE_WAIT_FOREVER (Blocks :: unit call_result) s s1"
  proof (cases call)
    case (InLock m)
    then have m: "MutexWaiters m \<in> H" "may_boost b m t s" "nimble_mutex_lock m NIMBLE_WAIT_FOREVER s = Some (Blocks, s1)"
      using ok bl by simp_all
    then show ?thesis
      using lock_step [OF inv th m(1,2), of NIMBLE_WAIT_FOREVER] lock_calm [OF inv th m(1,3), of "{}"] InLock by (auto simp: call_calm_def)
  next
    case (InTake q)
    then have q: "SemWaiters q \<in> H" "nimble_semaphore_take q NIMBLE_WAIT_FOREVER s = Some (Blocks, s1)"
      using ok bl by simp_all
    then show ?thesis
      using take_step [OF inv th q(1), of NIMBLE_WAIT_FOREVER] take_calm [OF inv th q, of "{}"] InTake by (auto simp: call_calm_def)
  next
    case (InSend q item)
    then have q: "QueueReceivers q \<in> H" "QueueSenders q \<in> H" "length item = unat (queue_item_size (queues s q))"
      "nimble_queue_send q item NIMBLE_WAIT_FOREVER s = Some (Blocks, s1)" using ok bl by simp_all
    then show ?thesis
      using send_step [OF inv th q(1-3), of NIMBLE_WAIT_FOREVER] send_calm [OF inv th q] InSend by (auto simp: call_calm_def)
  next
    case (InReceive q)
    then have q: "QueueReceivers q \<in> H" "QueueSenders q \<in> H"
      "nimble_queue_receive q NIMBLE_WAIT_FOREVER s = Some (Blocks, s1)" using ok bl by simp_all
    then show ?thesis
      using receive_step [OF inv th q(1,2), of NIMBLE_WAIT_FOREVER] receive_calm [OF inv th q] InReceive by (auto simp: call_calm_def)
  qed (use ok in simp_all)
  then show "sys_inv b H N (s1, c(t := call))" "unhurried s1 t" by (simp_all add: call_calm_def)
qed

lemma run_unhurried:
  assumes "(\<lambda>x y. sys_step b H N x y \<and> snd y t = snd x t)\<^sup>*\<^sup>* x y"
    and "sys_inv b H N x" "Link t \<in> N" "snd x t \<noteq> NoCall" "unhurried (fst x) t"
  shows "sys_inv b H N y \<and> snd y t = snd x t \<and> unhurried (fst y) t"
  using assms
proof (induction rule: rtranclp_induct)
  case (step y z)
  then show ?case using step_unhurried [of b H N y z t] sys.step_inv [of b H N y z] by metis
qed simp

text \<open>
  C6. A call without a timeout never times out: when a task blocks in a lock, take, send or receive
  with \<^verbatim>\<open>NIMBLE_WAIT_FOREVER\<close>, then whatever ticks, interrupts and calls of other tasks happen
  until it runs again, it was woken by its object: its wait result is \<^verbatim>\<open>NIMBLE_OK\<close> and the rest of
  the call does not return \<^verbatim>\<open>NIMBLE_ERR_TIMEOUT\<close>. A lock and a take return
  \<^verbatim>\<open>NIMBLE_OK\<close>, and after a lock the task owns the mutex.
\<close>

theorem wait_forever_never_times_out:
  assumes inv: "sys_inv b H N (s, c)" and th: "thread s c t NoCall" and ok: "may_call b H t s call"
    and bl: "blocks_forever call s s1"
    and run: "(\<lambda>x y. sys_step b H N x y \<and> snd y t = snd x t)\<^sup>*\<^sup>* (s1, c(t := call)) (s2, c2)"
    and th2: "thread s2 c2 t call"
  shows "tcb_last_wait_result (tcbs s2 t) = NIMBLE_OK \<and> resumed_status call t s2 \<notin> {None, Some NIMBLE_ERR_TIMEOUT} \<and>
     (\<forall>m. call = InLock m \<longrightarrow> resumed_status call t s2 = Some NIMBLE_OK \<and> mutex_owner (mutexes s2 m) = Some t) \<and>
     (\<forall>q. call = InTake q \<longrightarrow> resumed_status call t s2 = Some NIMBLE_OK)"
proof -
  have tN: "Link t \<in> N" using inv thread_node [OF _ th] by (auto elim: sys_invE)
  have call: "call \<noteq> NoCall" using ok by auto
  have inv2: "sys_inv b H N (s2, c2)" and u: "unhurried s2 t"
    using run_unhurried [OF run blocked_unhurried(1) [OF inv th ok bl] tN] blocked_unhurried(2) [OF inv th ok bl] call
    by simp_all
  have r: "tcb_last_wait_result (tcbs s2 t) = NIMBLE_OK" using u threadD(2) [OF th2] by (simp add: unhurried_def)
  obtain L where i: "sched_inv b {} H N L s2" using inv2 by (rule sys_invE)
  have "resumed_status call t s2 \<notin> {None, Some NIMBLE_ERR_TIMEOUT} \<and>
     (\<forall>m. call = InLock m \<longrightarrow> resumed_status call t s2 = Some NIMBLE_OK \<and> mutex_owner (mutexes s2 m) = Some t) \<and>
     (\<forall>q. call = InTake q \<longrightarrow> resumed_status call t s2 = Some NIMBLE_OK)"
  proof (cases call)
    case (InLock m)
    then show ?thesis using lock_resume_calm(3) [OF inv2 _ _ u, of m] th2
      by (cases "nimble_mutex_lock_resume m t s2") simp
  next
    case (InTake q)
    then show ?thesis using take_resume_calm(4) [OF inv2 th2 _ u, of q]
      by (cases "nimble_semaphore_take_resume q t s2") simp
  next
    case (InSend q item)
    obtain x s3 where x: "nimble_queue_send_resume q item t s2 = Some (x, s3)"
      using send_resume_step [OF inv2] th2 InSend by blast
    then have "x \<noteq> NIMBLE_ERR_TIMEOUT"
      using r by (auto simp: nimble_queue_send_resume_def Let_def bind_eq_Some_conv kdefs split: if_splits prod.splits)
    then show ?thesis using x InSend by simp
  next
    case (InReceive q)
    obtain x s3 where x: "nimble_queue_receive_resume q t s2 = Some (x, s3)"
      using receive_resume_step [OF inv2] th2 InReceive by blast
    then have "fst x \<noteq> NIMBLE_ERR_TIMEOUT"
      using r by (auto simp: nimble_queue_receive_resume_def Let_def bind_eq_Some_conv kdefs split: if_splits prod.splits)
    then show ?thesis using x InReceive by simp
  qed (use ok in simp_all)
  then show ?thesis using r by blast
qed

text \<open>Task 3 takes an empty semaphore, an interrupt gives it, and the context switch runs task 3 again.\<close>

theorem wait_forever_never_times_out_witness:
  "\<exists>s1 s2 s3. nimble_semaphore_take timer_wake_sem NIMBLE_WAIT_FOREVER timed = Some (Blocks, s1) \<and>
     nimble_semaphore_give_from_isr timer_wake_sem s1 = Some (NIMBLE_OK, True, s2) \<and>
     PendSV_Handler (nimble_port_request_context_switch s2) = Some s3 \<and>
     fst (nimble_semaphore_take_resume timer_wake_sem 3 s3) = NIMBLE_OK"
proof -
  let ?q = timer_wake_sem and ?c = "\<lambda>_. NoCall" and ?v = NIMBLE_WAIT_FOREVER and ?H = timed_heads and ?N = timed_nodes
  let ?c1 = "?c(3 := InTake ?q)"
  note T = threadD [OF timed_thread]
  have e: "timed_lists (SemWaiters ?q) = map EventLink []" and q: "SemWaiters ?q \<in> ?H" by (simp_all add: timed_empty)
  have c: "sem_count (semaphores timed ?q) = 0" "?v \<noteq> NIMBLE_NO_WAIT" by (simp_all add: timed_inv(4) kdefs)
  let ?L1 = "block_lists 3 ?v (timed_lists(SemWaiters ?q := map EventLink (prio_insert (task_priority timed) 3 [])))"
  obtain s1 where s1: "nimble_semaphore_take ?q ?v timed = Some (Blocks, s1)"
    and i1: "sched_inv True {} ?H ?N ?L1 s1"
    and f1: "s1 = timed\<lparr>tcbs := (tcbs timed)(3 := (tcbs timed 3)\<lparr>tcb_state := NIMBLE_TASK_BLOCKED,
           tcb_wake_tick := if ?v = NIMBLE_WAIT_FOREVER then tcb_wake_tick (tcbs timed 3)
                            else g_tick_count timed + ?v\<rparr>),
         pendsv := True, heap := heap s1, ready_bitmap := ready_bitmap s1\<rparr>"
    using take_blocks [OF timed_inv(1) T(1,2) q e c] by blast
  have p1: "task_priority s1 x = task_priority timed x" for x by (subst f1) simp
  have ok: "may_call True ?H 3 timed (InTake ?q)" "blocks_forever (InTake ?q) timed s1" using q s1 by simp_all
  have inv1: "sys_inv True ?H ?N (s1, ?c1)" by (rule blocked_unhurried(1) [OF timed_sys_inv timed_thread ok])
  have w: "first_waiter (SemWaiters ?q) ?L1 = Some 3" by (simp add: block_lists_def prio_insert_simps)
  obtain s2 where s2: "nimble_semaphore_give_from_isr ?q s1 = Some (NIMBLE_OK, True, s2)"
    and i2: "sched_inv True {} ?H ?N (woken_lists s1 (Some 3) ?L1) s2"
    and f2: "s2 = s1\<lparr>semaphores := semaphores s1, tcbs := woken_tcbs (Some 3) (tcbs s1), heap := heap s2,
           ready_bitmap := ready_bitmap s2\<rparr>"
    using give_from_isr_spec [OF i1 q] unfolding w by auto
  let ?s2 = "nimble_port_request_context_switch s2"
  have t2: "tcbs s2 = woken_tcbs (Some 3) (tcbs s1)" by (subst f2) simp
  have p2: "task_priority s2 x = task_priority timed x" for x by (simp add: t2 woken_tcbs_def p1)
  have step1: "sys_step True ?H ?N (s1, ?c1) (?s2, ?c1)" using sys_step.isr_give [OF q s2, of True ?N ?c1] by simp
  have inv2: "sys_inv True ?H ?N (?s2, ?c1)" by (rule sys.step_inv [OF inv1 step1])
  have top: "task_priority ?s2 x < task_priority ?s2 3" if "Link x \<in> ?N" "x \<noteq> 3" for x
  proof -
    have "task_priority timed x < 5"
    proof (cases "x = timer_task_tcb")
      case True
      have "unat (task_priority timed timer_task_tcb) = 4"
        by (rule tasks_inv_ready_prio [OF sched_inv_tasks [OF timed_inv(1)]]) (simp_all add: timed_lists_def)
      then show ?thesis using True by (simp add: word_less_nat_alt)
    next
      case False
      then have "x = idle_tcb \<or> x = 2" using that by auto
      then show ?thesis using timed_inv(8) [OF False] by (auto simp: running_tasks)
    qed
    then show ?thesis
      using p2 timed_inv(8) [of 3] by (simp add: nimble_port_request_context_switch_def timer_task_tcb_def running_tasks)
  qed
  have r: "Link 3 \<in> ?N" "task_state ?s2 3 = NIMBLE_TASK_READY"
    by (simp_all add: nimble_port_request_context_switch_def t2 woken_tcbs_def)
  have "sched_inv True {} ?H ?N (woken_lists s1 (Some 3) ?L1) ?s2" using i2 by (simp add: nimble_port_request_context_switch_def)
  from switch_to_highest [OF this inv2 r top]
  obtain s3 where s3: "PendSV_Handler ?s2 = Some s3" "nimble_current_tcb s3 = Some 3" "task_state s3 3 = NIMBLE_TASK_RUNNING"
    by blast
  have step2: "sys_step True ?H ?N (?s2, ?c1) (s3, ?c1)"
    by (rule sys_step.switch [OF _ s3(1)]) (simp add: nimble_port_request_context_switch_def)
  have run: "(\<lambda>x y. sys_step True ?H ?N x y \<and> snd y 3 = snd x 3)\<^sup>*\<^sup>* (s1, ?c1) (s3, ?c1)"
    by (rule converse_rtranclp_into_rtranclp [of _ _ "(?s2, ?c1)"]) (use step1 step2 in \<open>simp_all add: r_into_rtranclp\<close>)
  have "thread s3 ?c1 3 (InTake ?q)" using s3 by (simp add: thread_def idle_tcb_def)
  from wait_forever_never_times_out [OF timed_sys_inv timed_thread ok run this] s1 s2 s3(1) show ?thesis by auto
qed

end
