(* ===== verification/App_System.thy ===== *)
theory App_System
  imports App_Control App_Comms Wait_Forever
begin

text \<open>
  The application as one transition system: the four tasks, the timer service task and the two
  interrupt handlers. A step is a whole exception handler, or a piece of a task's code that runs with
  BASEPRI raised or does not touch what other code touches; theory \<open>App_Safety\<close> has the accesses of
  such pieces interleaved. A section under \<^verbatim>\<open>g_status_mutex\<close> is three steps: the lock, the access to
  \<^verbatim>\<open>g_status\<close> and the unlock. (The accessors ignore the status that the lock returns.) The
  initialisation of the receive queue by the comms task, which is not protected, is one step for
  each of its stores.
\<close>

section \<open>Where a task is\<close>

datatype service_pc = Service_Wait | Service_Fire

datatype place =
    Protection protection_pc
  | Control control_pc
  | Comms_Init nat
  | Comms comms_pc
  | Logger logger_pc
  | Service service_pc

text \<open>The accessor of the shared status that a place calls, if it calls one.\<close>

fun section_of :: "place \<Rightarrow> app \<Rightarrow> (ps_status \<Rightarrow> ps_status) option" where
  "section_of (Protection Protection_Note) a = Some ps_status_note_fault"
| "section_of (Control Control_Receive) a = None"
| "section_of (Control pc) a = Some (control_access pc a)"
| "section_of (Comms Comms_Status) a = Some ps_status_get"
| "section_of (Logger Logger_Get) a = Some ps_status_get"
| "section_of _ a = None"

text \<open>What a task does after the accessor has returned, up to its next call.\<close>

fun after_section :: "place \<Rightarrow> ps_status \<Rightarrow> app \<Rightarrow> place \<times> app" where
  "after_section (Protection pc) status a = (Protection Protection_Take, a)"
| "after_section (Control pc) status a = (let (pc, a) = control_after pc status a in (Control pc, a))"
| "after_section (Comms pc) status a = (Comms Comms_Receive, ps_uart_puts (status_report [] status) a)"
| "after_section (Logger pc) status a = (Logger Logger_Delay, ps_uart_puts (status_report ''[log] '' status) a)"
| "after_section p status a = (p, a)"

text \<open>
  The stores of \<^verbatim>\<open>nimble_queue_init\<close>. \<open>Comms_Init n\<close> is the comms task with \<open>n\<close> of them behind it;
  the last step also has \<^verbatim>\<open>line_len = 0\<close>. (The two assignments of a list head count as one: what
  comes between them follows \<^verbatim>\<open>next\<close>, the first, and finds the list empty.)
\<close>

definition queue_init_stores :: "queue_ptr \<Rightarrow> u8 list \<Rightarrow> u32 \<Rightarrow> u32 \<Rightarrow> (kernel \<Rightarrow> kernel) list" where
  "queue_init_stores q buffer item_size capacity =
     [update_queue q (queue_buffer_update (\<lambda>_. buffer)),
      update_queue q (queue_item_size_update (\<lambda>_. item_size)),
      update_queue q (queue_capacity_update (\<lambda>_. capacity)),
      update_queue q (queue_count_update (\<lambda>_. 0)),
      update_queue q (queue_head_update (\<lambda>_. 0)),
      update_queue q (queue_tail_update (\<lambda>_. 0)),
      update_heap (nimble_list_init (QueueReceivers q)),
      update_heap (nimble_list_init (QueueSenders q))]"

definition uart_init_stores :: "(kernel \<Rightarrow> kernel) list" where
  "uart_init_stores = queue_init_stores g_uart_rx_queue (replicate 64 0) 1 UART_RX_QUEUE_DEPTH"

lemma queue_init_by_stores: "fold (\<lambda>f. f) (queue_init_stores q buffer n cap) s = nimble_queue_init q buffer n cap s"
  by (simp add: queue_init_stores_def nimble_queue_init_def Let_def update_queue_def)

lemma uart_init_by_stores: "fold (\<lambda>f. f) uart_init_stores s = uart_bridge_init s"
  by (simp add: uart_init_stores_def queue_init_by_stores uart_bridge_init_def)

lemma uart_stores [simp]: "length uart_init_stores = 8"
  by (simp add: uart_init_stores_def queue_init_stores_def)

definition comms_init_step :: "nat \<Rightarrow> app \<Rightarrow> place call_result \<times> app" where
  "comms_init_step n a =
     (if Suc n < length uart_init_stores
      then (Returns (Comms_Init (Suc n)), a\<lparr>kern := (uart_init_stores ! n) (kern a)\<rparr>)
      else (Returns (Comms Comms_Receive), a\<lparr>kern := last uart_init_stores (kern a), line_len := 0\<rparr>))"

text \<open>The first half of the other calls. The application registers no timer callback.\<close>

definition at_place :: "('pc \<Rightarrow> place) \<Rightarrow> ('pc call_result \<times> app) option \<Rightarrow> (place call_result \<times> app) option" where
  "at_place f r = map_option (map_prod (map_call_result f) id) r"

fun plain_step :: "place \<Rightarrow> app \<Rightarrow> (place call_result \<times> app) option" where
  "plain_step (Protection pc) a = at_place Protection (protection_step pc a)"
| "plain_step (Control pc) a = at_place Control (control_step pc a)"
| "plain_step (Comms_Init n) a = Some (comms_init_step n a)"
| "plain_step (Comms pc) a = at_place Comms (comms_step pc a)"
| "plain_step (Logger pc) a = at_place Logger (logger_step pc a)"
| "plain_step (Service Service_Wait) a =
     do { (r, k) \<leftarrow> timer_task_wait (kern a);
          Some (case r of Blocks \<Rightarrow> Blocks | Returns _ \<Rightarrow> Returns (Service Service_Fire), a\<lparr>kern := k\<rparr>) }"
| "plain_step (Service Service_Fire) a =
     do { (fired, k) \<leftarrow> timer_expire_one (kern a);
          case fired of None \<Rightarrow> Some (Returns (Service Service_Wait), a\<lparr>kern := k\<rparr>)
          | Some (callback, cb_arg) \<Rightarrow>
              if callback = 0 then Some (Returns (Service Service_Fire), a\<lparr>kern := k\<rparr>) else None }"

text \<open>The call a place may block in.\<close>

fun call_of :: "place \<Rightarrow> call" where
  "call_of (Protection Protection_Take) = InTake g_fault_semaphore"
| "call_of (Control Control_Receive) = InReceive g_adc_sample_queue"
| "call_of (Comms Comms_Receive) = InReceive g_uart_rx_queue"
| "call_of (Service Service_Wait) = InTake timer_wake_sem"
| "call_of (Comms_Init n) = NoCall"
| "call_of (Logger Logger_Delay) = NoCall"
| "call_of (Service Service_Fire) = NoCall"
| "call_of _ = InLock g_status_mutex"

fun plain_resume :: "tcb_ptr \<Rightarrow> place \<Rightarrow> app \<Rightarrow> (place call_result \<times> app) option" where
  "plain_resume self (Protection pc) a = at_place Protection (protection_resume self pc a)"
| "plain_resume self (Control pc) a = at_place Control (control_resume self pc a)"
| "plain_resume self (Comms pc) a = at_place Comms (comms_resume self pc a)"
| "plain_resume self (Logger pc) a = at_place Logger (logger_resume self a)"
| "plain_resume self (Service pc) a =
     (let (_, k) = nimble_semaphore_take_resume timer_wake_sem self (kern a)
      in Some (Returns (Service Service_Fire), a\<lparr>kern := k\<rparr>))"
| "plain_resume self (Comms_Init n) a = None"

section \<open>Steps\<close>

datatype stage =
    At place
  | Locked place
  | Accessed place ps_status

type_synonym config = "app \<times> calls \<times> (tcb_ptr \<Rightarrow> stage)"

primrec move :: "place call_result \<Rightarrow> tcb_ptr \<Rightarrow> (tcb_ptr \<Rightarrow> stage) \<Rightarrow> tcb_ptr \<Rightarrow> stage" where
  "move (Returns p) t w = w(t := At p)"
| "move Blocks t w = w"

text \<open>
  How many of the stores have been made. Between the store of the capacity and the initialisation of
  the list of receivers the queue seems to have room, but its list of receivers is not a list yet: a
  received byte would send \<^verbatim>\<open>nimble_scheduler_wake_waiter\<close> along the \<^verbatim>\<open>NULL\<close> of the zeroed head.
  Such a byte has no step.
\<close>

fun stores_made :: "stage \<Rightarrow> nat" where
  "stores_made (At (Comms_Init n)) = min n 7"
| "stores_made _ = 8"

definition uart_stage :: "(tcb_ptr \<Rightarrow> stage) \<Rightarrow> nat" where
  "uart_stage w = stores_made (w comms_tcb)"

definition uart_window :: "(tcb_ptr \<Rightarrow> stage) \<Rightarrow> bool" where
  "uart_window w \<longleftrightarrow> 3 \<le> uart_stage w \<and> uart_stage w < 7"

inductive app_irq :: "config \<Rightarrow> config \<Rightarrow> bool" where
  tick: "SysTick_Handler (kern a) = Some k \<Longrightarrow> app_irq (a, c, w) (a\<lparr>kern := k\<rparr>, c, w)"
| switch: "pendsv (kern a) \<Longrightarrow> PendSV_Handler (kern a) = Some k \<Longrightarrow> app_irq (a, c, w) (a\<lparr>kern := k\<rparr>, c, w)"
| adc: "ADC_IRQHandler dr (kern a) = Some k \<Longrightarrow> app_irq (a, c, w) (a\<lparr>kern := k\<rparr>, c, w)"
| usart: "uart_window w \<longrightarrow> sr AND USART1_SR_RXNE = 0 \<Longrightarrow>
    USART1_IRQHandler sr dr (kern a) = Some k \<Longrightarrow> app_irq (a, c, w) (a\<lparr>kern := k\<rparr>, c, w)"

inductive app_task :: "bool \<Rightarrow> tcb_ptr \<Rightarrow> config \<Rightarrow> config \<Rightarrow> bool" for b t where
  plain: "thread (kern a) c t NoCall \<Longrightarrow> w t = At p \<Longrightarrow> section_of p a = None \<Longrightarrow>
    plain_step p a = Some (r, a') \<Longrightarrow> app_task b t (a, c, w) (a', after_call r t (call_of p) c, move r t w)"
| plain_resume: "thread (kern a) c t (call_of p) \<Longrightarrow> call_of p \<noteq> NoCall \<Longrightarrow> w t = At p \<Longrightarrow> section_of p a = None \<Longrightarrow>
    plain_resume t p a = Some (r, a') \<Longrightarrow> app_task b t (a, c, w) (a', c(t := NoCall), move r t w)"
| lock: "thread (kern a) c t NoCall \<Longrightarrow> w t = At p \<Longrightarrow> section_of p a \<noteq> None \<Longrightarrow>
    may_boost b g_status_mutex t (kern a) \<Longrightarrow>
    nimble_mutex_lock g_status_mutex NIMBLE_WAIT_FOREVER (kern a) = Some (r, k) \<Longrightarrow>
    app_task b t (a, c, w) (a\<lparr>kern := k\<rparr>, after_call r t (InLock g_status_mutex) c,
      case r of Returns _ \<Rightarrow> w(t := Locked p) | Blocks \<Rightarrow> w)"
| lock_resume: "thread (kern a) c t (InLock g_status_mutex) \<Longrightarrow> w t = At p \<Longrightarrow>
    nimble_mutex_lock_resume g_status_mutex t (kern a) = (r, k) \<Longrightarrow>
    app_task b t (a, c, w) (a\<lparr>kern := k\<rparr>, c(t := NoCall), w(t := Locked p))"
| access: "thread (kern a) c t NoCall \<Longrightarrow> w t = Locked p \<Longrightarrow> section_of p a = Some f \<Longrightarrow>
    app_task b t (a, c, w) (a\<lparr>g_status := f (g_status a)\<rparr>, c, w(t := Accessed p (f (g_status a))))"
| unlock: "thread (kern a) c t NoCall \<Longrightarrow> w t = Accessed p status \<Longrightarrow>
    nimble_mutex_unlock g_status_mutex (kern a) = Some (r, k) \<Longrightarrow>
    after_section p status (a\<lparr>kern := k\<rparr>) = (p', a') \<Longrightarrow>
    app_task b t (a, c, w) (a', c, w(t := At p'))"

definition app_step :: "bool \<Rightarrow> config \<Rightarrow> config \<Rightarrow> bool" where
  "app_step b x y \<longleftrightarrow> app_irq x y \<or> (\<exists>t. app_task b t x y)"

text \<open>Where each task starts, and which places belong to it.\<close>

definition entry :: "tcb_ptr \<Rightarrow> stage" where
  "entry t = At (if t = protection_tcb then Protection Protection_Take
     else if t = control_tcb then Control Control_Receive
     else if t = comms_tcb then Comms_Init 0
     else if t = logger_tcb then Logger Logger_Get else Service Service_Wait)"

fun runs :: "place \<Rightarrow> tcb_ptr" where
  "runs (Protection _) = protection_tcb"
| "runs (Control _) = control_tcb"
| "runs (Comms_Init n) = comms_tcb"
| "runs (Comms _) = comms_tcb"
| "runs (Logger _) = logger_tcb"
| "runs (Service _) = timer_task_tcb"

section \<open>The sections and the uninterrupted calls\<close>

text \<open>
  Run without an interruption, the three steps of a section are the accessor call of the task's own
  code: \<open>section_step\<close> is the same function as the steps of theory \<open>Power_Supply\<close>.
\<close>

definition section_step :: "place \<Rightarrow> app \<Rightarrow> (place call_result \<times> app) option" where
  "section_step p a =
     do { f \<leftarrow> section_of p a;
          (r, k) \<leftarrow> nimble_mutex_lock g_status_mutex NIMBLE_WAIT_FOREVER (kern a);
          let a = a\<lparr>kern := k\<rparr>;
          case r of Blocks \<Rightarrow> Some (Blocks, a)
          | Returns _ \<Rightarrow>
              do { let a = a\<lparr>g_status := f (g_status a)\<rparr>;
                   (_, k) \<leftarrow> nimble_mutex_unlock g_status_mutex (kern a);
                   let (p, a) = after_section p (g_status a) (a\<lparr>kern := k\<rparr>);
                   Some (Returns p, a) } }"

lemma section_step_eq:
  assumes "section_of p a \<noteq> None"
  shows "section_step p a = plain_step p a"
proof -
  have *: "section_of p a = Some f \<Longrightarrow> section_step p a =
      (do { (r, a) \<leftarrow> with_status f a;
            case r of Blocks \<Rightarrow> Some (Blocks, a)
            | Returns status \<Rightarrow> let (p, a) = after_section p status a in Some (Returns p, a) })" for f
    by (auto simp: section_step_def with_status_def status_locked_def Let_def split: bind_splits call_result.splits)
  obtain f where f: "section_of p a = Some f" using assms by blast
  show ?thesis
    unfolding *[OF f]
    using f by (cases "(p, a)" rule: section_of.cases)
      (auto simp: at_place_def protection_noted_def control_next_def comms_reported_def logger_reported_def
        split: bind_splits call_result.splits prod.splits)
qed

end
