(* ===== verification/Queue_Frames.thy ===== *)
theory Queue_Frames
  imports Wait_Forever
begin

text \<open>
  Which calls leave which queue alone: only the queue calls change a queue, each its own, and none
  changes the item size or the capacity.
\<close>

section \<open>Kernel calls and the queues\<close>

lemmas add_ready_queues [frame] = add_ready_frame [THEN arg_cong [where f = queues], simplified]
lemmas remove_queues [frame] = remove_frame [THEN arg_cong [where f = queues], simplified]
lemmas prepare_block_queues [frame] = prepare_block_frame [THEN arg_cong [where f = queues], simplified]
lemmas block_delay_queues [frame] = block_current_delay_frame [THEN arg_cong [where f = queues], simplified]

lemma wake_waiter_queues [frame]: "nimble_scheduler_wake_waiter k s = Some (r, s') \<Longrightarrow> queues s' = queues s"
  by (auto simp: nimble_scheduler_wake_waiter_def Let_def bind_eq_Some_conv kdefs dest!: add_ready_queues split: if_splits)

lemma insert_waiter_queues [frame]:
  "mutex_insert_waiter_priority_sorted k t s = Some s' \<Longrightarrow> queues s' = queues s"
  "semaphore_insert_waiter_priority_sorted k t s = Some s' \<Longrightarrow> queues s' = queues s"
  "queue_insert_waiter_priority_sorted k t s = Some s' \<Longrightarrow> queues s' = queues s"
  by (auto simp: mutex_insert_waiter_priority_sorted_def semaphore_insert_waiter_priority_sorted_def
      queue_insert_waiter_priority_sorted_def
      bind_eq_Some_conv kdefs)

lemma take_queues: "nimble_semaphore_take q v s = Some (r, s') \<Longrightarrow> queues s' = queues s"
  by (auto simp: nimble_semaphore_take_def Let_def bind_eq_Some_conv kdefs dest!: frame split: if_splits)

lemma isr_give_queues: "nimble_semaphore_give_from_isr q s = Some (r, w, s') \<Longrightarrow> queues s' = queues s"
  by (auto simp: nimble_semaphore_give_from_isr_def Let_def bind_eq_Some_conv kdefs dest!: frame split: if_splits option.splits)

lemma lock_queues: "nimble_mutex_lock m v s = Some (r, s') \<Longrightarrow> queues s' = queues s"
  by (auto simp: nimble_mutex_lock_def Let_def bind_eq_Some_conv kdefs dest!: frame split: if_splits option.splits)

lemma unlock_queues: "nimble_mutex_unlock m s = Some (r, s') \<Longrightarrow> queues s' = queues s"
  by (auto simp: nimble_mutex_unlock_def Let_def bind_eq_Some_conv kdefs dest!: frame split: if_splits option.splits)

lemma delay_queues: "nimble_task_delay n s = Some s' \<Longrightarrow> queues s' = queues s"
  by (auto simp: nimble_task_delay_def Let_def bind_eq_Some_conv kdefs dest!: frame split: if_splits option.splits)

lemma resume_queues:
  "nimble_semaphore_take_resume q t s = (r, s') \<Longrightarrow> queues s' = queues s"
  "nimble_mutex_lock_resume m t s = (x, s') \<Longrightarrow> queues s' = queues s"
  by (auto simp: nimble_semaphore_take_resume_def nimble_mutex_lock_resume_def Let_def kdefs split: if_splits)

lemma tick_queues:
  assumes "sys_inv b H N (s, c)" "SysTick_Handler s = Some s'"
  shows "queues s' = queues s"
proof -
  obtain L where i: "sched_inv b {} H N L s" using assms(1) by (rule sys_invE)
  obtain ts where ts: "L DelayedList = map Link ts" using delayed_links [OF sched_inv_shape [OF i]] by blast
  from SysTick_inv [OF i ts] assms(2) have
    "s' = s\<lparr>g_tick_count := g_tick_count s + 1, pendsv := True,
        tcbs := \<lambda>t. if t \<in> set ts \<and> tick_due (s\<lparr>g_tick_count := g_tick_count s + 1\<rparr>) t then timed_out (tcbs s t) else tcbs s t,
        heap := heap s', ready_bitmap := ready_bitmap s'\<rparr>" by simp
  from arg_cong [OF this, of queues] show ?thesis by simp
qed

lemma switch_queues:
  assumes "sys_inv b H N (s, c)" "PendSV_Handler s = Some s'"
  shows "queues s' = queues s"
proof -
  obtain L where i: "sched_inv b {} H N L s" and o: "objs_inv H N L c s" using assms(1) by (rule sys_invE)
  have idle: "can_run N s idle_tcb" using objs_invD(7) [OF o] by (simp add: idle_inv_def)
  show ?thesis using PendSV_frame [OF i _ runnable_listed [OF i idle]] assms(2) by auto
qed

text \<open>What a queue call does to its own queue.\<close>

lemma isr_send_queues:
  assumes inv: "sys_inv b H N (s, c)" and q: "QueueReceivers q \<in> H"
    and item: "length item = unat (queue_item_size (queues s q))"
    and s': "nimble_queue_send_from_isr q item s = Some (r, w, s')"
  shows "\<forall>x. x \<noteq> q \<longrightarrow> queues s' x = queues s x" "queue_item_size (queues s' q) = queue_item_size (queues s q)"
    "queue_capacity (queues s q) \<noteq> 0 \<Longrightarrow> 0 < queue_count (queues s' q)"
    "queue_capacity (queues s' q) = queue_capacity (queues s q)"
proof -
  have *: "(\<forall>x. x \<noteq> q \<longrightarrow> queues s' x = queues s x) \<and> queue_item_size (queues s' q) = queue_item_size (queues s q) \<and>
      (queue_capacity (queues s q) \<noteq> 0 \<longrightarrow> 0 < queue_count (queues s' q)) \<and>
      queue_capacity (queues s' q) = queue_capacity (queues s q)"
  proof (cases "queue_count (queues s q) < queue_capacity (queues s q)")
    case True
    obtain L where i: "sched_inv b {} H N L s" and o: "objs_inv H N L c s" using inv by (rule sys_invE)
    have wf: "queue_wf (queues s q)" using objs_invD(3) [OF o] q by (simp add: queue_inv_def)
    obtain x where x: "copy_in item (queues s q) = Some x" "queue_item_size x = queue_item_size (queues s q)"
      using copy_in_returns [OF wf item True] by blast
    have "s' = s\<lparr>queues := (queues s)(q := x), tcbs := woken_tcbs (first_waiter (QueueReceivers q) L) (tcbs s),
            heap := heap s', ready_bitmap := ready_bitmap s'\<rparr>"
      using send_from_isr_room [OF i q True x(1)] s' by auto
    from arg_cong [OF this, of queues] have qs: "queues s' = (queues s)(q := x)" by simp
    have "queue_count x = queue_count (queues s q) + 1" "queue_capacity x = queue_capacity (queues s q)"
      using x(1) by (auto simp: copy_in_def Let_def split: if_splits)
    moreover have "queue_count (queues s q) + 1 \<noteq> 0"
    proof
      assume "queue_count (queues s q) + 1 = 0"
      then have "queue_count (queues s q) = - 1" by (simp add: eq_neg_iff_add_eq_0)
      then show False using True by simp
    qed
    ultimately show ?thesis using qs x(2) by (simp add: word_gt_0)
  next
    case False
    then show ?thesis using send_from_isr_full s' by (auto simp: not_less word_gt_0)
  qed
  then show "\<forall>x. x \<noteq> q \<longrightarrow> queues s' x = queues s x" "queue_item_size (queues s' q) = queue_item_size (queues s q)"
    "queue_capacity (queues s q) \<noteq> 0 \<Longrightarrow> 0 < queue_count (queues s' q)"
    "queue_capacity (queues s' q) = queue_capacity (queues s q)" by blast+
qed

lemma copy_out_fields:
  "copy_out x = Some (y, x') \<Longrightarrow> queue_item_size x' = queue_item_size x \<and> queue_capacity x' = queue_capacity x"
  by (auto simp: copy_out_def Let_def split: if_splits)

definition only_queue :: "queue_ptr \<Rightarrow> kernel \<Rightarrow> kernel \<Rightarrow> bool" where
  "only_queue q s s' \<longleftrightarrow> (\<forall>x. x \<noteq> q \<longrightarrow> queues s' x = queues s x) \<and>
     queue_item_size (queues s' q) = queue_item_size (queues s q) \<and>
     queue_capacity (queues s' q) = queue_capacity (queues s q)"

lemma only_queue_same: "queues s' = queues s \<Longrightarrow> only_queue q s s'"
  by (simp add: only_queue_def)

lemma queue_copy_out_queues:
  "queue_copy_out q s = Some (x, s1) \<Longrightarrow> queues s = queues s0 \<Longrightarrow> queues s' = queues s1 \<Longrightarrow> only_queue q s0 s'"
  by (auto simp: queue_copy_out_def bind_eq_Some_conv kdefs only_queue_def dest: copy_out_fields)

lemma receive_queues:
  assumes "nimble_queue_receive q v s = Some (r, s')"
  shows "only_queue q s s'"
proof (cases "queue_count (queues s q) > 0")
  case True
  then obtain x s1 w s2 where c: "queue_copy_out q (s\<lparr>basepri := NIMBLE_KERNEL_SYSCALL_BASEPRI\<rparr>) = Some (x, s1)"
    "nimble_scheduler_wake_waiter (QueueSenders q) s1 = Some (w, s2)" and s': "queues s' = queues s2"
    using assms
    by (simp add: nimble_queue_receive_def nimble_port_enter_critical_def nimble_port_exit_critical_def
        nimble_port_request_context_switch_def Let_def split: bind_splits prod.splits) (auto simp: nimble_port_request_context_switch_def split: if_splits)
  show ?thesis by (rule queue_copy_out_queues [OF c(1)]) (use s' wake_waiter_queues [OF c(2)] in simp_all)
next
  case False
  then have "queues s' = queues s"
    using assms
    by (auto simp: nimble_queue_receive_def nimble_port_enter_critical_def nimble_port_exit_critical_def
        nimble_port_request_context_switch_def Let_def bind_eq_Some_conv dest!: frame split: if_splits)
  then show ?thesis by (rule only_queue_same)
qed

lemma receive_resume_queues:
  assumes "nimble_queue_receive_resume q t s = Some (r, s')"
  shows "only_queue q s s'"
proof -
  let ?s = "update_heap (nimble_list_remove (EventLink t)) (s\<lparr>basepri := NIMBLE_KERNEL_SYSCALL_BASEPRI\<rparr>)"
  have q: "queues ?s = queues s" by (simp add: update_heap_def)
  show ?thesis
  proof (cases "\<exists>x s1. queue_copy_out q ?s = Some (x, s1) \<and> queues s' = queues s1")
    case True
    then show ?thesis using queue_copy_out_queues q by blast
  next
    case False
    then have "queues s' = queues s"
      using assms
      by (auto simp: nimble_queue_receive_resume_def nimble_port_enter_critical_def nimble_port_exit_critical_def
          Let_def bind_eq_Some_conv update_heap_def split: if_splits)
    then show ?thesis by (rule only_queue_same)
  qed
qed

end
