(* ===== verification/App_Invariant.thy ===== *)
theory App_Invariant
  imports App_System Queue_Frames
begin

text \<open>
  The invariant of the application's transition system: the kernel's invariant, where each task is
  and which call it is inside of, who owns the status mutex, that no wait has a deadline, and the
  sizes of queues and buffers. Every step of an interrupt and of a task keeps it.
\<close>

section \<open>The invariant\<close>

definition uart_heads :: "node set" where
  "uart_heads = insert (QueueSenders g_uart_rx_queue) (insert (QueueReceivers g_uart_rx_queue) app_heads)"

text \<open>
  The comms task initialises the receive queue when it starts; its lists come to life one after the
  other, after all other fields have their values.
\<close>

definition heads_at :: "nat \<Rightarrow> node set" where
  "heads_at n = (if n < 7 then app_heads
     else if n = 7 then insert (QueueReceivers g_uart_rx_queue) app_heads else uart_heads)"

definition live_heads :: "(tcb_ptr \<Rightarrow> stage) \<Rightarrow> node set" where
  "live_heads w = heads_at (uart_stage w)"

definition uart_fields :: "nat \<Rightarrow> nimble_queue" where
  "uart_fields n = \<lparr>queue_buffer = if 0 < n then replicate 64 0 else [], queue_item_size = if 1 < n then 1 else 0,
     queue_capacity = if 2 < n then UART_RX_QUEUE_DEPTH else 0, queue_count = 0, queue_head = 0, queue_tail = 0\<rparr>"

fun init_done :: "place \<Rightarrow> bool" where
  "init_done (Comms_Init n) = False"
| "init_done _ = True"

fun place_in :: "stage \<Rightarrow> place" where
  "place_in (At p) = p"
| "place_in (Locked p) = p"
| "place_in (Accessed p status) = p"

fun in_section :: "stage \<Rightarrow> bool" where
  "in_section (At p) = False"
| "in_section (Locked p) = True"
| "in_section (Accessed p status) = True"

definition app_tasks :: "tcb_ptr set" where
  "app_tasks = {protection_tcb, control_tcb, comms_tcb, logger_tcb, timer_task_tcb}"

text \<open>Every task is at a place of its own; a task inside a call is at the place that makes it.\<close>

definition stages_ok :: "calls \<Rightarrow> (tcb_ptr \<Rightarrow> stage) \<Rightarrow> bool" where
  "stages_ok c w \<longleftrightarrow>
     (\<forall>t\<in>app_tasks. runs (place_in (w t)) = t) \<and>
     (\<forall>t. in_section (w t) \<longrightarrow> call_of (place_in (w t)) = InLock g_status_mutex \<and> c t = NoCall) \<and>
     (\<forall>t. c t \<noteq> NoCall \<longrightarrow> t \<in> app_tasks \<and> \<not> in_section (w t) \<and> call_of (place_in (w t)) = c t)"

text \<open>A task inside a section owns the mutex, once.\<close>

definition sections_ok :: "calls \<Rightarrow> (tcb_ptr \<Rightarrow> stage) \<Rightarrow> kernel \<Rightarrow> bool" where
  "sections_ok c w s \<longleftrightarrow>
     (\<forall>t. in_section (w t) \<longrightarrow> mutex_owner (mutexes s g_status_mutex) = Some t) \<and>
     (\<forall>t. mutex_owner (mutexes s g_status_mutex) = Some t \<longrightarrow>
        mutex_lock_count (mutexes s g_status_mutex) = 1 \<and> (in_section (w t) \<or> c t = InLock g_status_mutex))"

text \<open>No wait has a deadline, and a receiver that has been woken finds an item.\<close>

definition waits_ok :: "calls \<Rightarrow> kernel \<Rightarrow> bool" where
  "waits_ok c s \<longleftrightarrow>
     (\<forall>t. c t \<noteq> NoCall \<longrightarrow> unhurried s t \<and>
        (\<forall>q. c t = InReceive q \<longrightarrow> task_state s t \<noteq> NIMBLE_TASK_BLOCKED \<longrightarrow> 0 < queue_count (queues s q)))"

definition data_ok :: "(tcb_ptr \<Rightarrow> stage) \<Rightarrow> app \<Rightarrow> bool" where
  "data_ok w a \<longleftrightarrow>
     queue_item_size (queues (kern a) g_adc_sample_queue) = 4 \<and>
     queue_capacity (queues (kern a) g_adc_sample_queue) = ADC_QUEUE_DEPTH \<and>
     (if uart_stage w < 7 then queues (kern a) g_uart_rx_queue = uart_fields (uart_stage w)
      else queue_item_size (queues (kern a) g_uart_rx_queue) = 1 \<and>
        queue_capacity (queues (kern a) g_uart_rx_queue) = UART_RX_QUEUE_DEPTH) \<and>
     length (line_buf a) = 64 \<and> line_len a < CLI_LINE_BUF_LEN"

definition app_inv :: "bool \<Rightarrow> config \<Rightarrow> bool" where
  "app_inv b x \<longleftrightarrow> (case x of (a, c, w) \<Rightarrow>
     sys_inv b (live_heads w) app_nodes (kern a, c) \<and> stages_ok c w \<and> sections_ok c w (kern a) \<and>
     waits_ok c (kern a) \<and> data_ok w a)"

lemma app_invD:
  assumes "app_inv b (a, c, w)"
  shows "sys_inv b (live_heads w) app_nodes (kern a, c)" "stages_ok c w" "sections_ok c w (kern a)"
    "waits_ok c (kern a)" "data_ok w a"
  using assms by (simp_all add: app_inv_def)

lemma app_tasks_nodes: "t \<in> app_tasks \<longleftrightarrow> Link t \<in> app_nodes \<and> t \<noteq> idle_tcb"
  by (auto simp: app_tasks_def app_nodes_def app_ids)

lemma live_heads_mem:
  "MutexWaiters g_status_mutex \<in> live_heads w" "SemWaiters g_fault_semaphore \<in> live_heads w"
  "SemWaiters timer_wake_sem \<in> live_heads w" "QueueReceivers g_adc_sample_queue \<in> live_heads w"
  "QueueSenders g_adc_sample_queue \<in> live_heads w"
  "7 \<le> uart_stage w \<Longrightarrow> QueueReceivers g_uart_rx_queue \<in> live_heads w"
  "8 \<le> uart_stage w \<Longrightarrow> QueueSenders g_uart_rx_queue \<in> live_heads w"
  by (simp_all add: live_heads_def heads_at_def uart_heads_def app_heads_def)

lemma stage_done: "init_done p \<Longrightarrow> stores_made (At p) = 8"
  by (cases p) simp_all

lemma uart_stage_same:
  assumes "t \<noteq> comms_tcb \<or> stores_made st = stores_made (w t)"
  shows "uart_stage (w(t := st)) = uart_stage w"
  using assms by (auto simp: uart_stage_def)

lemma call_done: "call_of p \<noteq> NoCall \<Longrightarrow> init_done p"
  by (cases p) simp_all

lemma uart_stage_moves:
  "w t = At p \<Longrightarrow> init_done p \<Longrightarrow> init_done p' \<Longrightarrow> uart_stage (w(t := At p')) = uart_stage w"
  "w t = At p \<Longrightarrow> init_done p \<Longrightarrow> uart_stage (w(t := Locked p')) = uart_stage w"
  "w t = Locked p \<Longrightarrow> uart_stage (w(t := Accessed p' st)) = uart_stage w"
  "w t = Accessed p st \<Longrightarrow> init_done p' \<Longrightarrow> uart_stage (w(t := At p')) = uart_stage w"
  by (rule uart_stage_same; simp add: stage_done)+

lemma section_of_call: "section_of p a \<noteq> None \<longleftrightarrow> call_of p = InLock g_status_mutex"
  by (cases p rule: call_of.cases; cases "(p, a)" rule: section_of.cases) simp_all

lemma thread_task: "sys_inv b H app_nodes (s, c) \<Longrightarrow> thread s c t call \<Longrightarrow> t \<in> app_tasks"
  using thread_node threadD(4) by (auto simp: app_tasks_nodes elim!: sys_invE)

text \<open>Only the task a place belongs to waits there.\<close>

lemma call_of_runs:
  assumes "call_of p = call_of p'" "call_of p \<noteq> NoCall" "call_of p \<noteq> InLock g_status_mutex"
  shows "runs p' = runs p"
  using assms
  by (cases p rule: call_of.cases; cases p' rule: call_of.cases)
    (simp_all add: g_adc_sample_queue_def g_uart_rx_queue_def g_fault_semaphore_def timer_wake_sem_def)

lemma waiter_unique:
  assumes "stages_ok c w" "c x = call_of p" "call_of p \<noteq> NoCall" "call_of p \<noteq> InLock g_status_mutex"
  shows "x = runs p"
proof -
  have "x \<in> app_tasks" "call_of (place_in (w x)) = call_of p"
    using assms(1-3) by (simp_all add: stages_ok_def)
  moreover from this(2) have "runs (place_in (w x)) = runs p" using call_of_runs assms(3,4) by metis
  ultimately show ?thesis using assms(1) by (simp add: stages_ok_def)
qed

lemma receives_from:
  assumes "stages_ok c w" "c x = InReceive q"
  shows "q = g_adc_sample_queue \<and> x = control_tcb \<or> q = g_uart_rx_queue \<and> x = comms_tcb"
proof -
  have c: "call_of (place_in (w x)) = InReceive q" "runs (place_in (w x)) = x"
    using assms by (auto simp: stages_ok_def)
  then show ?thesis by (cases "place_in (w x)" rule: call_of.cases) auto
qed

section \<open>Interrupts\<close>

lemma kern_same [simp]: "a\<lparr>kern := kern a\<rparr> = a"
  by (cases a) simp

text \<open>A change of the kernel's state alone, by an interrupt.\<close>

lemma irq_keeps:
  assumes inv: "app_inv b (a, c, w)" and sys: "sys_inv b (live_heads w) app_nodes (k, c)"
    and calm: "calm app_nodes c K {} (kern a) k" and mu: "mutexes k = mutexes (kern a)"
    and K: "\<And>q. QueueReceivers q \<in> K \<Longrightarrow> 0 < queue_count (queues k q)"
    and q: "\<And>q. 0 < queue_count (queues (kern a) q) \<Longrightarrow> 0 < queue_count (queues k q)"
    and d: "data_ok w (a\<lparr>kern := k\<rparr>)"
  shows "app_inv b (a\<lparr>kern := k\<rparr>, c, w)"
proof -
  note I = app_invD [OF inv]
  have "waits_ok c k"
    unfolding waits_ok_def
  proof (intro allI impI conjI)
    fix t assume t: "c t \<noteq> NoCall"
    then have tN: "Link t \<in> app_nodes" and u: "unhurried (kern a) t"
      using I(2,4) by (auto simp: stages_ok_def waits_ok_def app_tasks_nodes)
    show "unhurried k t" using calmD(1) [OF calm tN _ u] by simp
    fix q' assume r: "c t = InReceive q'" and nb: "task_state k t \<noteq> NIMBLE_TASK_BLOCKED"
    show "0 < queue_count (queues k q')"
    proof (cases "task_state (kern a) t = NIMBLE_TASK_BLOCKED")
      case True
      then obtain j where "j \<in> K" "waits_on (c t) = Some j" using calmD(2) [OF calm tN _ u] nb by auto
      then show ?thesis using r K by simp
    next
      case False
      then have "0 < queue_count (queues (kern a) q')" using I(4) r t unfolding waits_ok_def by blast
      then show ?thesis by (rule q)
    qed
  qed
  then show ?thesis using I(2,3) sys mu d by (simp add: app_inv_def sections_ok_def)
qed

lemma data_ok_kern:
  assumes "data_ok w a" "queues k = queues (kern a)"
  shows "data_ok w (a\<lparr>kern := k\<rparr>)"
  using assms by (simp add: data_ok_def)

lemma tick_keeps:
  assumes inv: "app_inv b (a, c, w)" and k: "SysTick_Handler (kern a) = Some k"
  shows "app_inv b (a\<lparr>kern := k\<rparr>, c, w)"
proof -
  note I = app_invD [OF inv]
  have qs: "queues k = queues (kern a)" by (rule tick_queues [OF I(1) k])
  show ?thesis
    by (rule irq_keeps [OF inv _ tick_calm [OF I(1) k]])
      (use tick_step [OF I(1)] k qs data_ok_kern [OF I(5) qs] in auto)
qed

lemma switch_keeps:
  assumes inv: "app_inv b (a, c, w)" and k: "PendSV_Handler (kern a) = Some k"
  shows "app_inv b (a\<lparr>kern := k\<rparr>, c, w)"
proof -
  note I = app_invD [OF inv]
  have qs: "queues k = queues (kern a)" by (rule switch_queues [OF I(1) k])
  show ?thesis
    by (rule irq_keeps [OF inv _ switch_calm [OF I(1) k]])
      (use switch_step [OF I(1)] k qs data_ok_kern [OF I(5) qs] in auto)
qed

text \<open>The two handlers, by the kernel calls they make.\<close>

lemma request_same [simp]:
  "queues (nimble_port_request_context_switch s) = queues s" "mutexes (nimble_port_request_context_switch s) = mutexes s"
  by (simp_all add: nimble_port_request_context_switch_def)

lemma adc_calls:
  assumes "ADC_IRQHandler dr s = Some k"
  obtains r y s1 s2 where
    "nimble_queue_send_from_isr g_adc_sample_queue (sample_bytes (adc_sample dr)) s = Some (r, y, s1)"
    "s2 = s1 \<or> (\<exists>r' y'. nimble_semaphore_give_from_isr g_fault_semaphore s1 = Some (r', y', s2))"
    "k = s2 \<or> k = nimble_port_request_context_switch s2"
proof -
  let ?x = "adc_sample dr"
  obtain r y s1 where s1: "nimble_queue_send_from_isr g_adc_sample_queue (sample_bytes ?x) s = Some (r, y, s1)"
    using assms by (cases "nimble_queue_send_from_isr g_adc_sample_queue (sample_bytes ?x) s")
      (auto simp: ADC_IRQHandler_def Let_def)
  show thesis
  proof (cases "over_limit ?x")
    case True
    then obtain r' y' s2 where s2: "nimble_semaphore_give_from_isr g_fault_semaphore s1 = Some (r', y', s2)"
      using assms s1 by (cases "nimble_semaphore_give_from_isr g_fault_semaphore s1") (auto simp: ADC_IRQHandler_def Let_def)
    then have "k = s2 \<or> k = nimble_port_request_context_switch s2"
      using assms s1 True by (auto simp: ADC_IRQHandler_def Let_def split: if_splits)
    then show thesis using that [OF s1] s2 by blast
  next
    case False
    then have "k = s1 \<or> k = nimble_port_request_context_switch s1"
      using assms s1 by (auto simp: ADC_IRQHandler_def Let_def split: if_splits)
    then show thesis using that [OF s1] by blast
  qed
qed

lemma adc_keeps:
  assumes inv: "app_inv b (a, c, w)" and k: "ADC_IRQHandler dr (kern a) = Some k"
  shows "app_inv b (a\<lparr>kern := k\<rparr>, c, w)"
proof -
  note I = app_invD [OF inv] and H = live_heads_mem [of w]
  let ?q = g_adc_sample_queue and ?H = "live_heads w"
  obtain r y s1 s2 where s1: "nimble_queue_send_from_isr ?q (sample_bytes (adc_sample dr)) (kern a) = Some (r, y, s1)"
    and s2: "s2 = s1 \<or> (\<exists>r' y'. nimble_semaphore_give_from_isr g_fault_semaphore s1 = Some (r', y', s2))"
    and k': "k = s2 \<or> k = nimble_port_request_context_switch s2"
    using k by (rule adc_calls)
  have size: "length (sample_bytes (adc_sample dr)) = unat (queue_item_size (queues (kern a) ?q))"
    using I(5) by (simp add: data_ok_def)
  have cap: "queue_capacity (queues (kern a) ?q) \<noteq> 0" using I(5) by (simp add: data_ok_def ADC_QUEUE_DEPTH_def)
  have i1: "sys_inv b ?H app_nodes (s1, c)" "mutexes s1 = mutexes (kern a)"
    using isr_send_step [OF I(1) H(4) size] s1 by auto
  note c1 = isr_send_calm [OF I(1) H(4) size s1] and q1 = isr_send_queues [OF I(1) H(4) size s1]
  have i2: "sys_inv b ?H app_nodes (s2, c) \<and> mutexes s2 = mutexes s1 \<and> queues s2 = queues s1 \<and>
      calm app_nodes c {SemWaiters g_fault_semaphore} {} s1 s2"
    using s2 isr_give_step [OF i1(1) H(2)] isr_give_calm [OF i1(1) H(2)] isr_give_queues i1(1) calm_refl by fastforce
  have "calm app_nodes c {QueueReceivers ?q, SemWaiters g_fault_semaphore} {} (kern a) s2"
    by (rule calm_trans [OF calm_mono [OF c1] calm_mono]) (use i2 in auto)
  then have calm: "calm app_nodes c {QueueReceivers ?q, SemWaiters g_fault_semaphore} {} (kern a) k" using k' by auto
  have qs: "queues k = queues s1" "mutexes k = mutexes (kern a)" "sys_inv b ?H app_nodes (k, c)"
    using k' i2 i1(2) by auto
  show ?thesis
  proof (rule irq_keeps [OF inv qs(3) calm qs(2)])
    show "0 < queue_count (queues k x)" if "QueueReceivers x \<in> {QueueReceivers ?q, SemWaiters g_fault_semaphore}" for x
      using that qs(1) q1(3) [OF cap] by auto
    show "0 < queue_count (queues k x)" if "0 < queue_count (queues (kern a) x)" for x
      using that qs(1) q1(1) q1(3) [OF cap] by (cases "x = ?q") auto
    have "queues k g_uart_rx_queue = queues (kern a) g_uart_rx_queue"
      using qs(1) q1(1) by (simp add: g_uart_rx_queue_def g_adc_sample_queue_def)
    then show "data_ok w (a\<lparr>kern := k\<rparr>)" using I(5) qs(1) q1(2,4) by (simp add: data_ok_def)
  qed
qed

lemma usart_keeps:
  assumes inv: "app_inv b (a, c, w)" and k: "USART1_IRQHandler sr dr (kern a) = Some k"
    and window: "uart_window w \<longrightarrow> sr AND USART1_SR_RXNE = 0"
  shows "app_inv b (a\<lparr>kern := k\<rparr>, c, w)"
proof (cases "sr AND USART1_SR_RXNE = 0")
  case True
  then have "k = kern a" using k by (simp add: USART1_IRQHandler_def)
  then show ?thesis using inv by simp
next
  case False
  note I = app_invD [OF inv] and H = live_heads_mem [of w]
  let ?q = g_uart_rx_queue and ?H = "live_heads w" and ?b = "[ucast (dr AND 0xFF)] :: u8 list"
  obtain r y s1 where s1: "nimble_queue_send_from_isr ?q ?b (kern a) = Some (r, y, s1)"
    and k': "k = s1 \<or> k = nimble_port_request_context_switch s1"
    using k False by (auto simp: USART1_IRQHandler_def Let_def bind_eq_Some_conv split: if_splits)
  show ?thesis
  proof (cases "uart_stage w < 7")
    case True
    then have "uart_stage w < 3" using window False by (simp add: uart_window_def)
    then have "\<not> queue_count (queues (kern a) ?q) < queue_capacity (queues (kern a) ?q)"
      using I(5) by (simp add: data_ok_def uart_fields_def)
    then have "s1 = kern a" "\<not> y" using send_from_isr_full s1 by auto
    then have "k = kern a" using k False s1 by (simp add: USART1_IRQHandler_def Let_def)
    then show ?thesis using inv by simp
  next
    case False
    then have live: "7 \<le> uart_stage w" by simp
    then have size: "length ?b = unat (queue_item_size (queues (kern a) ?q))"
      and cap: "queue_capacity (queues (kern a) ?q) \<noteq> 0"
      using I(5) by (simp_all add: data_ok_def UART_RX_QUEUE_DEPTH_def)
    have i1: "sys_inv b ?H app_nodes (s1, c)" "mutexes s1 = mutexes (kern a)"
      using isr_send_step [OF I(1) H(6) [OF live] size] s1 by auto
    note c1 = isr_send_calm [OF I(1) H(6) [OF live] size s1] and q1 = isr_send_queues [OF I(1) H(6) [OF live] size s1]
    have calm: "calm app_nodes c {QueueReceivers ?q} {} (kern a) k" using k' c1 by auto
    have qs: "queues k = queues s1" "mutexes k = mutexes (kern a)" "sys_inv b ?H app_nodes (k, c)"
      using k' i1 by auto
    show ?thesis
    proof (rule irq_keeps [OF inv qs(3) calm qs(2)])
      show "0 < queue_count (queues k x)" if "QueueReceivers x \<in> {QueueReceivers ?q}" for x
        using that qs(1) q1(3) [OF cap] by auto
      show "0 < queue_count (queues k x)" if "0 < queue_count (queues (kern a) x)" for x
        using that qs(1) q1(1) q1(3) [OF cap] by (cases "x = ?q") auto
      have "queues k g_adc_sample_queue = queues (kern a) g_adc_sample_queue"
        using qs(1) q1(1) by (simp add: g_uart_rx_queue_def g_adc_sample_queue_def)
      then show "data_ok w (a\<lparr>kern := k\<rparr>)" using I(5) qs(1) q1(2,4) False by (simp add: data_ok_def)
    qed
  qed
qed

lemma irq_sound: "app_irq x y \<Longrightarrow> app_inv b x \<Longrightarrow> app_inv b y"
  by (induction rule: app_irq.induct) (auto intro: tick_keeps switch_keeps adc_keeps usart_keeps)

section \<open>Task steps\<close>

text \<open>A step of task \<open>t\<close>: what it has to establish for the invariant.\<close>

lemma task_keeps:
  assumes inv: "app_inv b (a, c, w)" and t: "t \<in> app_tasks"
    and out: "\<And>x. x \<noteq> t \<Longrightarrow> c' x = c x" "\<And>x. x \<noteq> t \<Longrightarrow> w' x = w x"
    and sys: "sys_inv b (live_heads w') app_nodes (kern a', c')"
    and stage: "runs (place_in (w' t)) = t"
      "in_section (w' t) \<Longrightarrow> call_of (place_in (w' t)) = InLock g_status_mutex \<and> c' t = NoCall"
      "c' t \<noteq> NoCall \<Longrightarrow> \<not> in_section (w' t) \<and> call_of (place_in (w' t)) = c' t"
    and sec: "sections_ok c' w' (kern a')"
    and calm: "calm app_nodes c K {t} (kern a) (kern a')" and K: "\<And>q. QueueReceivers q \<notin> K"
    and self: "c' t \<noteq> NoCall \<Longrightarrow> unhurried (kern a') t \<and> task_state (kern a') t = NIMBLE_TASK_BLOCKED"
    and q: "\<And>x q. x \<noteq> t \<Longrightarrow> c x = InReceive q \<Longrightarrow> queues (kern a') q = queues (kern a) q"
    and d: "data_ok w' a'"
  shows "app_inv b (a', c', w')"
proof -
  note I = app_invD [OF inv]
  have "waits_ok c' (kern a')"
    unfolding waits_ok_def
  proof (intro allI impI conjI)
    fix x assume x: "c' x \<noteq> NoCall"
    have u: "unhurried (kern a) x" "Link x \<in> app_nodes" if "x \<noteq> t"
      using I(2,4) x out(1) [OF that] by (auto simp: stages_ok_def waits_ok_def app_tasks_nodes)
    show "unhurried (kern a') x"
      using self x u calmD(1) [OF calm] by (cases "x = t") auto
    fix q' assume r: "c' x = InReceive q'" and nb: "task_state (kern a') x \<noteq> NIMBLE_TASK_BLOCKED"
    then have xt: "x \<noteq> t" using self by auto
    then have cx: "c x = InReceive q'" using r out(1) by simp
    have "task_state (kern a) x \<noteq> NIMBLE_TASK_BLOCKED"
    proof
      assume "task_state (kern a) x = NIMBLE_TASK_BLOCKED"
      then obtain j where "j \<in> K" "waits_on (c x) = Some j" using calmD(2) [OF calm u(2) _ u(1)] xt nb by auto
      then show False using cx K [of q'] by auto
    qed
    then have "0 < queue_count (queues (kern a) q')" using I(4) cx unfolding waits_ok_def by (metis call.distinct(7))
    then show "0 < queue_count (queues (kern a') q')" using q [OF xt cx] by simp
  qed
  moreover have "stages_ok c' w'"
    unfolding stages_ok_def
  proof (intro conjI ballI allI impI)
    fix x assume "x \<in> app_tasks"
    then show "runs (place_in (w' x)) = x" using I(2) out stage(1) by (cases "x = t") (simp_all add: stages_ok_def)
  next
    fix x assume "in_section (w' x)"
    then show "call_of (place_in (w' x)) = InLock g_status_mutex" "c' x = NoCall"
      using I(2) out stage(2) by (cases "x = t", simp, simp add: stages_ok_def)+
  next
    fix x assume "c' x \<noteq> NoCall"
    then show "x \<in> app_tasks" "\<not> in_section (w' x)" "call_of (place_in (w' x)) = c' x"
      using I(2) out stage(3) t by (cases "x = t", simp, simp add: stages_ok_def)+
  qed
  ultimately show ?thesis using sys sec d by (simp add: app_inv_def)
qed

lemma sections_step:
  assumes "sections_ok c w s" and out: "\<And>x. x \<noteq> t \<Longrightarrow> c' x = c x" "\<And>x. x \<noteq> t \<Longrightarrow> w' x = w x"
    and "mutexes s' = mutexes s" "\<not> in_section (w t)" "c t \<noteq> InLock g_status_mutex" "\<not> in_section (w' t)"
  shows "sections_ok c' w' s'"
  unfolding sections_ok_def
proof (intro conjI allI impI)
  fix x assume x: "in_section (w' x)"
  then have "x \<noteq> t" using assms(7) by auto
  then show "mutex_owner (mutexes s' g_status_mutex) = Some x" using x assms(1,4) out by (simp add: sections_ok_def)
next
  fix x assume "mutex_owner (mutexes s' g_status_mutex) = Some x"
  then have x: "mutex_lock_count (mutexes s g_status_mutex) = 1" "in_section (w x) \<or> c x = InLock g_status_mutex"
    using assms(1,4) by (simp_all add: sections_ok_def)
  then have "x \<noteq> t" using assms(5,6) by auto
  then show "mutex_lock_count (mutexes s' g_status_mutex) = 1" "in_section (w' x) \<or> c' x = InLock g_status_mutex"
    using x assms(4) out by simp_all
qed

lemma after_call_other: "x \<noteq> t \<Longrightarrow> after_call r t call c x = c x"
  by (cases r) simp_all

lemma move_other: "x \<noteq> t \<Longrightarrow> move r t w x = w x"
  by (cases r) simp_all

text \<open>The first half of a call outside the sections.\<close>

lemma plain_keeps:
  assumes inv: "app_inv b (a, c, w)" and th: "thread (kern a) c t NoCall" and wt: "w t = At p"
    and p: "call_of p \<noteq> InLock g_status_mutex"
    and sys: "sys_inv b (live_heads (move r t w)) app_nodes (kern a', after_call r t (call_of p) c)"
    and mu: "mutexes (kern a') = mutexes (kern a)"
    and calm: "calm app_nodes c K {t} (kern a) (kern a')" and K: "\<And>q. QueueReceivers q \<notin> K"
    and bl: "r = Blocks \<Longrightarrow> call_of p \<noteq> NoCall \<Longrightarrow> unhurried (kern a') t \<and> task_state (kern a') t = NIMBLE_TASK_BLOCKED"
    and ret: "\<And>p'. r = Returns p' \<Longrightarrow> runs p' = runs p"
    and q: "\<And>x q. x \<noteq> t \<Longrightarrow> c x = InReceive q \<Longrightarrow> queues (kern a') q = queues (kern a) q"
    and d: "data_ok (move r t w) a'"
  shows "app_inv b (a', after_call r t (call_of p) c, move r t w)"
proof (rule task_keeps [OF inv])
  note I = app_invD [OF inv]
  have ct: "c t = NoCall" by (rule threadD(3) [OF th])
  show t: "t \<in> app_tasks" by (rule thread_task [OF I(1) th])
  have rt: "runs p = t" using I(2) t wt by (auto simp: stages_ok_def)
  show "runs (place_in (move r t w t)) = t" using ret rt wt by (cases r) simp_all
  show "sections_ok (after_call r t (call_of p) c) (move r t w) (kern a')"
    by (rule sections_step [where t = t, OF I(3) _ _ mu])
      (use wt ct in \<open>(cases r; simp add: after_call_other move_other)+\<close>)
qed (use sys calm K q d bl wt threadD(3) [OF th] after_call_other move_other in \<open>(cases r; simp)+\<close>)

lemma call_calm_self:
  assumes "call_calm N c K t NIMBLE_WAIT_FOREVER r s s'"
  shows "calm N c K {t} s s'"
    "r = Blocks \<Longrightarrow> unhurried s' t \<and> task_state s' t = NIMBLE_TASK_BLOCKED"
  using assms by (auto simp: call_calm_def elim: calm_mono split: call_result.splits)

lemma move_comms:
  assumes "w t = At p" "init_done p" "\<And>p'. r = Returns p' \<Longrightarrow> init_done p'"
  shows "uart_stage (move r t w) = uart_stage w"
  using assms by (cases r) (auto simp: stage_done intro!: uart_stage_same)

lemma data_ok_cong:
  assumes "data_ok w (a\<lparr>kern := k\<rparr>)" "kern a' = k" "length (line_buf a') = 64" "line_len a' < CLI_LINE_BUF_LEN"
    and "uart_stage w' = uart_stage w"
  shows "data_ok w' a'"
  using assms by (auto simp: data_ok_def)

lemma plain_call:
  fixes r0 :: "'x call_result"
  assumes inv: "app_inv b (a, c, w)" and th: "thread (kern a) c t NoCall" and wt: "w t = At p"
    and p: "call_of p \<noteq> InLock g_status_mutex" "init_done p" and r: "r = Blocks \<longleftrightarrow> r0 = Blocks"
    and sys: "sys_inv b (live_heads w) app_nodes (k, after_call r0 t (call_of p) c)"
    and mu: "mutexes k = mutexes (kern a)"
    and calm: "call_calm app_nodes c K t NIMBLE_WAIT_FOREVER r0 (kern a) k" and K: "\<And>q. QueueReceivers q \<notin> K"
    and ret: "\<And>p'. r = Returns p' \<Longrightarrow> runs p' = runs p \<and> init_done p'"
    and q: "\<And>x q. x \<noteq> t \<Longrightarrow> c x = InReceive q \<Longrightarrow> queues k q = queues (kern a) q"
    and d: "data_ok w (a\<lparr>kern := k\<rparr>)"
    and a': "kern a' = k" "length (line_buf a') = 64" "line_len a' < CLI_LINE_BUF_LEN"
  shows "app_inv b (a', after_call r t (call_of p) c, move r t w)"
proof (rule plain_keeps [OF inv th wt p(1)])
  have mc: "uart_stage (move r t w) = uart_stage w"
    by (rule move_comms [of w t p r, OF wt p(2)]) (use ret in blast)
  have "after_call r t (call_of p) c = after_call r0 t (call_of p) c"
    using r by (cases r; cases r0) simp_all
  then show "sys_inv b (live_heads (move r t w)) app_nodes (kern a', after_call r t (call_of p) c)"
    using sys a'(1) mc by (simp add: live_heads_def)
  show "data_ok (move r t w) a'" using data_ok_cong [of w k a a' "move r t w"] d a' mc by blast
  show "calm app_nodes c K {t} (kern a) (kern a')" using call_calm_self(1) [OF calm] a'(1) by simp
qed (use mu K ret q a' r call_calm_self(2) [OF calm] in simp_all)

lemma line_ok:
  assumes "app_inv b (a, c, w)"
  shows "length (line_buf a) = 64" "line_len a < CLI_LINE_BUF_LEN"
  using app_invD(5) [OF assms] by (simp_all add: data_ok_def)

text \<open>Taking a semaphore without a timeout.\<close>

lemma take_keeps:
  fixes r :: "place call_result"
  assumes inv: "app_inv b (a, c, w)" and th: "thread (kern a) c t NoCall" and wt: "w t = At p"
    and p: "call_of p = InTake q" "SemWaiters q \<in> live_heads w"
    and k: "nimble_semaphore_take q NIMBLE_WAIT_FOREVER (kern a) = Some (r0, k)" and r: "r = Blocks \<longleftrightarrow> r0 = Blocks"
    and ret: "\<And>p'. r = Returns p' \<Longrightarrow> runs p' = runs p \<and> init_done p'"
  shows "app_inv b (a\<lparr>kern := k\<rparr>, after_call r t (call_of p) c, move r t w)"
proof (rule plain_call [where K = "{}", OF inv th wt _ _ r])
  note I = app_invD [OF inv]
  have qs: "queues k = queues (kern a)" by (rule take_queues [OF k])
  show "data_ok w (a\<lparr>kern := k\<rparr>)" by (rule data_ok_kern [OF I(5) qs])
  show "sys_inv b (live_heads w) app_nodes (k, after_call r0 t (call_of p) c)" "mutexes k = mutexes (kern a)"
    using take_step [OF I(1) th p(2), of NIMBLE_WAIT_FOREVER] k p(1) by auto
  show "call_calm app_nodes c {} t NIMBLE_WAIT_FOREVER r0 (kern a) k" by (rule take_calm [OF I(1) th p(2) k])
  show "queues k x = queues (kern a) x" for x using qs by simp
  show "init_done p" using p(1) by (cases p) auto
qed (use p ret line_ok [OF inv] in simp_all)

text \<open>Receiving without a timeout; the line buffer may change with the byte received.\<close>

lemma receive_keeps:
  assumes inv: "app_inv b (a, c, w)" and th: "thread (kern a) c t NoCall" and wt: "w t = At p"
    and p: "call_of p = InReceive q" "QueueReceivers q \<in> live_heads w" "QueueSenders q \<in> live_heads w"
    and k: "nimble_queue_receive q NIMBLE_WAIT_FOREVER (kern a) = Some (r0, k)" and r: "r = Blocks \<longleftrightarrow> r0 = Blocks"
    and ret: "\<And>p'. r = Returns p' \<Longrightarrow> runs p' = runs p \<and> init_done p'"
    and d: "data_ok w (a\<lparr>kern := k\<rparr>)" and a': "kern a' = k" "length (line_buf a') = 64" "line_len a' < CLI_LINE_BUF_LEN"
  shows "app_inv b (a', after_call r t (call_of p) c, move r t w)"
proof (rule plain_call [where K = "{QueueSenders q}", OF inv th wt _ _ r])
  note I = app_invD [OF inv]
  have oq: "only_queue q (kern a) k" by (rule receive_queues [OF k])
  show "sys_inv b (live_heads w) app_nodes (k, after_call r0 t (call_of p) c)" "mutexes k = mutexes (kern a)"
    using receive_step [OF I(1) th p(2,3), of NIMBLE_WAIT_FOREVER] k p(1) by auto
  show "call_calm app_nodes c {QueueSenders q} t NIMBLE_WAIT_FOREVER r0 (kern a) k" by (rule receive_calm [OF I(1) th p(2,3) k])
  show "queues k x = queues (kern a) x" if "y \<noteq> t" "c y = InReceive x" for x y
  proof -
    have "runs p = t" using I(2) thread_task [OF I(1) th] wt by (auto simp: stages_ok_def)
    then have "x \<noteq> q" using waiter_unique [OF I(2), of y p] that p(1) by auto
    then show ?thesis using oq by (simp add: only_queue_def)
  qed
  show "init_done p" using p(1) by (cases p) auto
qed (use p ret d a' in simp_all)

lemma receive_data:
  assumes "data_ok w a" "only_queue q (kern a) k" "q = g_adc_sample_queue \<or> q = g_uart_rx_queue \<and> 7 \<le> uart_stage w"
  shows "data_ok w (a\<lparr>kern := k\<rparr>)"
  using assms by (auto simp: data_ok_def only_queue_def g_adc_sample_queue_def g_uart_rx_queue_def)

text \<open>A received byte stays within the line buffer.\<close>

lemma comms_byte_ok:
  assumes "length buf = 64" "n < CLI_LINE_BUF_LEN"
  shows "\<exists>cmd buf' n'. comms_byte byte (buf, n) = Some (cmd, buf', n') \<and> length buf' = 64 \<and> n' < CLI_LINE_BUF_LEN"
proof -
  have n: "unat n < length buf" using assms by (simp add: CLI_LINE_BUF_LEN_def word_less_nat_alt)
  have "n + 1 < CLI_LINE_BUF_LEN" if "n < CLI_LINE_BUF_LEN - 1"
    using that by (simp add: CLI_LINE_BUF_LEN_def word_less_nat_alt unat_word_ariths)
  moreover have "0 < CLI_LINE_BUF_LEN" by (simp add: CLI_LINE_BUF_LEN_def)
  ultimately show ?thesis using n assms by (auto simp: comms_byte_def Let_def)
qed

lemma comms_received_ok:
  assumes "length (line_buf a) = 64" "line_len a < CLI_LINE_BUF_LEN"
  shows "\<exists>pc a'. comms_received x a = Some (pc, a') \<and> kern a' = kern a \<and> length (line_buf a') = 64 \<and>
     line_len a' < CLI_LINE_BUF_LEN"
proof (cases "\<exists>byte. x = (NIMBLE_OK, Some [byte])")
  case True
  then obtain byte where x: "x = (NIMBLE_OK, Some [byte])" by blast
  obtain cmd buf n where "comms_byte byte (line_buf a, line_len a) = Some (cmd, buf, n)" "length buf = 64" "n < CLI_LINE_BUF_LEN"
    using comms_byte_ok [OF assms] by blast
  then show ?thesis
    by (cases cmd; cases "the cmd") (simp_all add: x comms_received_def ps_uart_puts_def)
next
  case False
  then have "comms_received x a = Some (Comms_Receive, a)"
    by (auto simp: comms_received_def split: prod.splits nimble_status_t.splits option.splits list.splits)
  then show ?thesis using assms by simp
qed

text \<open>The stores of the comms task, one by one, bring the receive queue to life.\<close>

lemma heads_at_uart:
  "QueueReceivers g_uart_rx_queue \<in> heads_at n \<longleftrightarrow> 7 \<le> n" "QueueSenders g_uart_rx_queue \<in> heads_at n \<longleftrightarrow> 8 \<le> n"
  by (auto simp: heads_at_def uart_heads_def app_heads_def boot_heads_def g_uart_rx_queue_def g_adc_sample_queue_def)

lemma uart_store:
  assumes "n < 8"
  shows "uart_init_stores ! n = (if n < 6 then update_queue g_uart_rx_queue ([queue_buffer_update (\<lambda>_. replicate 64 0),
       queue_item_size_update (\<lambda>_. 1), queue_capacity_update (\<lambda>_. UART_RX_QUEUE_DEPTH), queue_count_update (\<lambda>_. 0),
       queue_head_update (\<lambda>_. 0), queue_tail_update (\<lambda>_. 0)] ! n)
     else if n = 6 then update_heap (nimble_list_init (QueueReceivers g_uart_rx_queue))
     else update_heap (nimble_list_init (QueueSenders g_uart_rx_queue)))"
proof -
  have "n \<in> {0, 1, 2, 3, 4, 5, 6, 7}" using assms by auto
  then show ?thesis by (auto simp: uart_init_stores_def queue_init_stores_def)
qed

lemma uart_store_queues:
  assumes "n < 8" "n < 7 \<Longrightarrow> queues s g_uart_rx_queue = uart_fields n"
  shows "queues ((uart_init_stores ! n) s) =
    (if n < 6 then (queues s)(g_uart_rx_queue := uart_fields (Suc n)) else queues s)"
proof -
  have "n \<in> {0, 1, 2, 3, 4, 5, 6, 7}" using assms by auto
  then show ?thesis using assms(2)
    by (auto simp: uart_init_stores_def queue_init_stores_def uart_fields_def update_queue_def update_heap_def)
qed

lemma uart_store_frame:
  assumes "n < 8"
  shows "(uart_init_stores ! n) s = s\<lparr>queues := queues ((uart_init_stores ! n) s), heap := heap ((uart_init_stores ! n) s)\<rparr>"
  using assms by (cases s) (simp add: uart_store update_queue_def update_heap_def)

definition uart_lists :: "nat \<Rightarrow> (node \<Rightarrow> node list) \<Rightarrow> node \<Rightarrow> node list" where
  "uart_lists n L = (if n = 6 then L(QueueReceivers g_uart_rx_queue := [])
     else if n = 7 then L(QueueSenders g_uart_rx_queue := []) else L)"

lemma uart_store_sched:
  assumes i: "sched_inv b {} (heads_at n) N L s" and n: "n < 8"
  shows "sched_inv b {} (heads_at (Suc n)) N (uart_lists n L) ((uart_init_stores ! n) s)"
proof -
  consider "n < 6" | "n = 6" | "n = 7" using n by linarith
  then show ?thesis
  proof cases
    case 1
    then show ?thesis using i by (simp add: uart_store uart_lists_def heads_at_def update_queue_def)
  next
    case 2
    have "sched_inv b {} (insert (QueueReceivers g_uart_rx_queue) (heads_at n)) N
        (L(QueueReceivers g_uart_rx_queue := [])) (update_heap (nimble_list_init (QueueReceivers g_uart_rx_queue)) s)"
      by (rule init_wait_head_inv [OF i]) (simp_all add: heads_at_uart 2)
    then show ?thesis using 2 by (simp add: uart_store uart_lists_def heads_at_def)
  next
    case 3
    have "sched_inv b {} (insert (QueueSenders g_uart_rx_queue) (heads_at n)) N
        (L(QueueSenders g_uart_rx_queue := [])) (update_heap (nimble_list_init (QueueSenders g_uart_rx_queue)) s)"
      by (rule init_wait_head_inv [OF i]) (simp_all add: heads_at_uart 3)
    then show ?thesis using 3 by (simp add: uart_store uart_lists_def heads_at_def uart_heads_def)
  qed
qed

lemma uart_heads_old:
  assumes "k \<in> heads_at (Suc n)" "n < 8"
  shows "k \<in> heads_at n \<and> uart_lists n L k = L k \<or> uart_lists n L k = [] \<and>
     (k = QueueReceivers g_uart_rx_queue \<and> n = 6 \<or> k = QueueSenders g_uart_rx_queue \<and> n = 7)"
  using assms heads_at_uart [of n] by (auto simp: heads_at_def uart_lists_def uart_heads_def split: if_splits)

lemma uart_store_inv:
  assumes inv: "sys_inv b (heads_at n) N (s, c)" and n: "n < 8"
    and q: "n < 7 \<Longrightarrow> queues s g_uart_rx_queue = uart_fields n"
  defines "s' \<equiv> (uart_init_stores ! n) s"
  shows "sys_inv b (heads_at (Suc n)) N (s', c)" "calm N c K T s s'"
    "mutexes s' = mutexes s" "tcbs s' = tcbs s" "nimble_current_tcb s' = nimble_current_tcb s"
proof -
  let ?H = "heads_at n" and ?H' = "heads_at (Suc n)" and ?q = g_uart_rx_queue
  obtain L where i: "sched_inv b {} ?H N L s" and o: "objs_inv ?H N L c s" using inv by (rule sys_invE)
  let ?L = "uart_lists n L"
  have i': "sched_inv b {} ?H' N ?L s'" unfolding s'_def by (rule uart_store_sched [OF i n])
  note fr = uart_store_frame [OF n, of s, folded s'_def] and qs = uart_store_queues [OF n q, folded s'_def]
  show mu: "mutexes s' = mutexes s" and tc: "tcbs s' = tcbs s" and "nimble_current_tcb s' = nimble_current_tcb s"
    by (subst fr, simp)+
  have ot: "semaphores s' = semaphores s" "timers s' = timers s" by (subst fr, simp)+
  show "calm N c K T s s'" by (rule calm_fields [OF i i' _ tc]) (simp add: uart_lists_def)
  note D = objs_invD [OF o] and old = uart_heads_old [OF _ n, of _ L]
  have qx: "queues s' x = queues s x" if "QueueReceivers x \<in> ?H" for x
    using that heads_at_uart(1) [of n] qs n by (cases "x = ?q") auto
  have wf: "queue_wf (uart_fields 6)"
  proof -
    have "uart_fields 6 = new_queue (replicate 64 0) 1 UART_RX_QUEUE_DEPTH" by (simp add: uart_fields_def new_queue_def)
    then show ?thesis using new_queue_wf(1) [of UART_RX_QUEUE_DEPTH 1 "replicate 64 0"] by (simp add: UART_RX_QUEUE_DEPTH_def)
  qed
  have mem: "k \<in> ?H' \<longleftrightarrow> k \<in> ?H \<and> ?L k = L k" if "k \<noteq> QueueReceivers ?q" "k \<noteq> QueueSenders ?q" for k
    using that n by (auto simp: heads_at_def uart_lists_def uart_heads_def)
  have "queue_inv ?H' s'"
    unfolding queue_inv_def
  proof (intro allI impI)
    fix x assume "QueueReceivers x \<in> ?H'"
    then consider "QueueReceivers x \<in> ?H" | "x = ?q" "n = 6" using old by blast
    then show "queue_wf (queues s' x)"
      by cases (use D(3) qx wf q qs in \<open>auto simp: queue_inv_def\<close>)
  qed
  moreover have "sem_inv ?H' ?L s'" using D(1) by (auto simp: sem_inv_def ot mem)
  moreover have "mutex_inv ?H' ?L s'" using D(2) by (auto simp: mutex_inv_def mu mem)
  moreover have "waits_inv ?H' ?L c"
    using D(4) old unfolding waits_inv_def by (metis empty_iff list.set(1))
  moreover have "handoff_inv c s'" using D(5) by (simp add: handoff_inv_def woken_ok_def mu tc)
  moreover have "calls_inv ?H' c s'"
  proof -
    have up: "QueueReceivers x \<in> ?H \<Longrightarrow> QueueReceivers x \<in> ?H'" for x
      using heads_at_uart(1) [of n] heads_at_uart(1) [of "Suc n"] mem [of "QueueReceivers x"]
      by (cases "x = ?q") (auto simp: uart_lists_def)
    show ?thesis using D(6) up qx by (auto simp: calls_inv_def)
  qed
  moreover have "idle_inv N s'" using D(7) by (simp add: idle_inv_def can_run_def tc)
  moreover have "\<exists>ts. timers_inv ?H' N ?L ts s'"
    using D(8) mem [of ActiveTimers] by (auto simp: timers_inv_def ot uart_lists_def)
  ultimately have "objs_inv ?H' N ?L c s'" by (simp add: objs_inv_def)
  then show "sys_inv b ?H' N (s', c)" by (rule sys_invI [OF i'])
qed

lemma comms_init_keeps:
  assumes inv: "app_inv b (a, c, w)" and th: "thread (kern a) c t NoCall" and wt: "w t = At (Comms_Init n)"
    and step: "comms_init_step n a = (r, a')"
  shows "app_inv b (a', after_call r t (call_of (Comms_Init n)) c, move r t w)"
proof -
  note I = app_invD [OF inv]
  have t: "t = comms_tcb" using I(2) thread_task [OF I(1) th] wt by (auto simp: stages_ok_def)
  define m where "m = min n 7"
  have m: "m < 8" "uart_stage w = m" using wt t by (simp_all add: m_def uart_stage_def)
  have "last uart_init_stores = uart_init_stores ! 7"
    by (simp add: uart_init_stores_def queue_init_stores_def)
  then have k: "kern a' = (uart_init_stores ! m) (kern a)" and r: "r \<noteq> Blocks" "uart_stage (move r t w) = Suc m"
    and line: "line_buf a' = line_buf a" "line_len a' = line_len a \<or> line_len a' = 0"
    and runs: "\<And>p. r = Returns p \<Longrightarrow> runs p = comms_tcb"
    using step t by (auto simp: comms_init_step_def m_def uart_stage_def min_def split: if_splits)
  have q: "m < 7 \<Longrightarrow> queues (kern a) g_uart_rx_queue = uart_fields m" using I(5) m by (simp add: data_ok_def)
  have sys: "sys_inv b (heads_at m) app_nodes (kern a, c)" using I(1) m(2) by (simp add: live_heads_def)
  note U = uart_store_inv [OF sys m(1) q] and Q = uart_store_queues [OF m(1) q]
  have c: "after_call r t (call_of (Comms_Init n)) c = c" using r by (cases r) auto
  show ?thesis
  proof (rule plain_keeps [where K = "{}", OF inv th wt])
    show "sys_inv b (live_heads (move r t w)) app_nodes (kern a', after_call r t (call_of (Comms_Init n)) c)"
      unfolding c live_heads_def r(2) k by (rule U(1))
    show "data_ok (move r t w) a'"
    proof -
      let ?a = "queues (kern a) g_adc_sample_queue" and ?u = "queues (kern a) g_uart_rx_queue"
      let ?k = "(uart_init_stores ! m) (kern a)"
      have old: "queue_item_size ?a = 4" "queue_capacity ?a = ADC_QUEUE_DEPTH" "length (line_buf a) = 64"
        "line_len a < CLI_LINE_BUF_LEN" "7 \<le> m \<Longrightarrow> queue_item_size ?u = 1 \<and> queue_capacity ?u = UART_RX_QUEUE_DEPTH"
        using I(5) m(2) by (simp_all add: data_ok_def)
      have adc: "queues ?k g_adc_sample_queue = ?a"
        using Q by (simp add: g_uart_rx_queue_def g_adc_sample_queue_def)
      have "Suc m < 7 \<Longrightarrow> queues ?k g_uart_rx_queue = uart_fields (Suc m)" using Q by simp
      moreover have "queue_item_size (queues ?k g_uart_rx_queue) = 1 \<and>
          queue_capacity (queues ?k g_uart_rx_queue) = UART_RX_QUEUE_DEPTH" if "\<not> Suc m < 7"
      proof (cases "m = 6")
        case True
        then show ?thesis using Q q by (simp add: uart_fields_def)
      next
        case False
        then have "7 \<le> m" using that by simp
        then show ?thesis using Q old(5) by simp
      qed
      moreover have "line_len a' < CLI_LINE_BUF_LEN" using old(4) line(2) by (auto simp: CLI_LINE_BUF_LEN_def)
      ultimately show ?thesis
        unfolding data_ok_def r(2) k adc using old line(1) by simp
    qed
    show "queues (kern a') q = queues (kern a) q" if "x \<noteq> t" "c x = InReceive q" for x q
      using receives_from [OF I(2) that(2)] that(1) t Q unfolding k
      by (auto simp: g_uart_rx_queue_def g_adc_sample_queue_def)
  qed (use U k r runs t in simp_all)
qed

text \<open>No timer is ever active: there are no timer nodes.\<close>

lemma no_timers:
  assumes i: "sched_inv b {} H app_nodes L s" and o: "objs_inv H app_nodes L c s"
  shows "timers_inv H app_nodes L [] s"
proof -
  obtain ts where ts: "timers_inv H app_nodes L ts s" using objs_invD(8) [OF o] by blast
  have "ts = []"
  proof (rule ccontr)
    assume "ts \<noteq> []"
    then obtain x xs where x: "ts = x # xs" by (cases ts) auto
    then have "TimerLink x \<in> app_nodes" using timers_inv_member [OF i ts, of x] x by simp
    then show False by (simp add: app_nodes_def)
  qed
  then show ?thesis using ts by simp
qed

lemma service_fire:
  assumes "sys_inv b H app_nodes (s, c)"
  shows "timer_expire_one s = Some (None, s)" "timer_wait_ticks s = Some (NIMBLE_WAIT_FOREVER, s)"
proof -
  obtain L where i: "sched_inv b {} H app_nodes L s" and o: "objs_inv H app_nodes L c s" using assms by (rule sys_invE)
  note t = no_timers [OF i o]
  show "timer_expire_one s = Some (None, s)" using expire_one_idle [OF i t] by simp
  show "timer_wait_ticks s = Some (NIMBLE_WAIT_FOREVER, s)" using timer_wait_ticks_eq [OF i t] by simp
qed

lemma delay_keeps:
  assumes inv: "app_inv b (a, c, w)" and th: "thread (kern a) c t NoCall" and wt: "w t = At (Logger Logger_Delay)"
    and k: "nimble_task_delay n (kern a) = Some k"
  shows "app_inv b (a\<lparr>kern := k\<rparr>, c, w(t := At (Logger Logger_Get)))"
proof -
  note I = app_invD [OF inv]
  let ?r = "Returns (Logger Logger_Get) :: place call_result"
  have qs: "queues k = queues (kern a)" by (rule delay_queues [OF k])
  have t: "t \<noteq> comms_tcb" using I(2) thread_task [OF I(1) th] wt by (auto simp: stages_ok_def app_ids)
  have mc: "uart_stage (w(t := st)) = uart_stage w" for st using t by (intro uart_stage_same) simp
  have "app_inv b (a\<lparr>kern := k\<rparr>, after_call ?r t (call_of (Logger Logger_Delay)) c, move ?r t w)"
    by (rule plain_keeps [where K = "{}", OF inv th wt])
      (use delay_step [OF I(1) th, of n] k delay_calm [OF I(1) th k] qs t data_ok_kern [OF I(5) qs] in
        \<open>auto simp: live_heads_def data_ok_def mc\<close>)
  then show ?thesis by simp
qed

lemma plain_places:
  assumes "section_of p a = None"
  obtains "p = Protection Protection_Take" | "p = Control Control_Receive" | n where "p = Comms_Init n"
    | "p = Comms Comms_Receive" | "p = Logger Logger_Delay" | "p = Service Service_Wait" | "p = Service Service_Fire"
  using assms section_of_call [of p a] by (cases p rule: call_of.cases) auto

lemma plain_sound:
  assumes inv: "app_inv b (a, c, w)" and th: "thread (kern a) c t NoCall" and wt: "w t = At p"
    and p: "section_of p a = None" and step: "plain_step p a = Some (r, a')"
  shows "app_inv b (a', after_call r t (call_of p) c, move r t w)"
proof -
  note I = app_invD [OF inv] and H = live_heads_mem [of w] and line = line_ok [OF inv]
  have pc: "call_of p \<noteq> InLock g_status_mutex" using p section_of_call by blast
  have tp: "runs p = t" using I(2) thread_task [OF I(1) th] wt by (auto simp: stages_ok_def)
  from p show ?thesis
  proof (cases rule: plain_places)
    case 1
    obtain r0 k where k: "nimble_semaphore_take g_fault_semaphore NIMBLE_WAIT_FOREVER (kern a) = Some (r0, k)"
      using step 1 by (cases "nimble_semaphore_take g_fault_semaphore NIMBLE_WAIT_FOREVER (kern a)") (auto simp: at_place_def)
    then show ?thesis
      using step 1 take_keeps [OF inv th wt _ H(2) k, of r] by (cases r0) (auto simp: at_place_def)
  next
    case 2
    obtain r0 k where k: "nimble_queue_receive g_adc_sample_queue NIMBLE_WAIT_FOREVER (kern a) = Some (r0, k)"
      using step 2 by (cases "nimble_queue_receive g_adc_sample_queue NIMBLE_WAIT_FOREVER (kern a)") (auto simp: at_place_def)
    have d: "data_ok w (a\<lparr>kern := k\<rparr>)" by (rule receive_data [OF I(5) receive_queues [OF k]]) simp
    show ?thesis
      using step 2 k receive_keeps [OF inv th wt _ H(4,5) k _ _ d, of r a'] line
      by (cases r0) (auto simp: at_place_def)
  next
    case 3
    then show ?thesis using step comms_init_keeps [OF inv th] wt by (cases "comms_init_step n a") auto
  next
    case 4
    obtain r0 k where k: "nimble_queue_receive g_uart_rx_queue NIMBLE_WAIT_FOREVER (kern a) = Some (r0, k)"
      using step 4 by (cases "nimble_queue_receive g_uart_rx_queue NIMBLE_WAIT_FOREVER (kern a)") (auto simp: at_place_def)
    have live: "7 \<le> uart_stage w" "8 \<le> uart_stage w" using wt tp 4 by (auto simp: uart_stage_def)
    have d: "data_ok w (a\<lparr>kern := k\<rparr>)" by (rule receive_data [OF I(5) receive_queues [OF k]]) (simp add: live)
    note R = receive_keeps [OF inv th wt _ H(6) [OF live(1)] H(7) [OF live(2)] k _ _ d, of r a']
    show ?thesis
    proof (cases r0)
      case Blocks
      then show ?thesis using step 4 k R line by (auto simp: at_place_def)
    next
      case (Returns x)
      obtain pc b where x: "comms_received x (a\<lparr>kern := k\<rparr>) = Some (pc, b)" "kern b = k"
        "length (line_buf b) = 64" "line_len b < CLI_LINE_BUF_LEN"
        using comms_received_ok [of "a\<lparr>kern := k\<rparr>" x] line by auto
      then show ?thesis using step 4 k R Returns by (auto simp: at_place_def)
    qed
  next
    case 5
    obtain k where "nimble_task_delay LOGGER_PERIOD_TICKS (kern a) = Some k"
      using step 5 by (cases "nimble_task_delay LOGGER_PERIOD_TICKS (kern a)") (auto simp: at_place_def)
    then show ?thesis using step 5 delay_keeps [OF inv th, of LOGGER_PERIOD_TICKS k] wt by (auto simp: at_place_def)
  next
    case 6
    obtain r0 k where k: "nimble_semaphore_take timer_wake_sem NIMBLE_WAIT_FOREVER (kern a) = Some (r0, k)"
      using step 6 service_fire(2) [OF I(1)]
      by (cases "nimble_semaphore_take timer_wake_sem NIMBLE_WAIT_FOREVER (kern a)") (auto simp: timer_task_wait_def)
    then show ?thesis
      using step 6 service_fire(2) [OF I(1)] take_keeps [OF inv th wt _ H(3) k, of r]
      by (cases r0) (auto simp: timer_task_wait_def)
  next
    case 7
    have "app_inv b (a\<lparr>kern := kern a\<rparr>, after_call (Returns (Service Service_Wait) :: place call_result) t (call_of p) c,
        move (Returns (Service Service_Wait)) t w)"
      by (rule plain_call [where K = "{}" and ?r0.0 = "Returns ()", OF inv th wt pc])
        (use 7 I line in \<open>simp_all add: call_calm_def calm_refl\<close>)
    then show ?thesis using step 7 service_fire(1) [OF I(1)] by auto
  qed
qed

section \<open>The second halves\<close>

lemma resume_keeps:
  assumes inv: "app_inv b (a, c, w)" and th: "thread (kern a) c t (call_of p)" and wt: "w t = At p"
    and p: "call_of p \<noteq> InLock g_status_mutex" "call_of p \<noteq> NoCall"
    and sys: "sys_inv b (live_heads w) app_nodes (k, c(t := NoCall))" and mu: "mutexes k = mutexes (kern a)"
    and calm: "calm app_nodes c {} {t} (kern a) k" and ret: "runs p' = runs p" "init_done p'"
    and q: "\<And>q. call_of p \<noteq> InReceive q \<Longrightarrow> queues k q = queues (kern a) q"
    and d: "data_ok w (a\<lparr>kern := k\<rparr>)"
    and a': "kern a' = k" "length (line_buf a') = 64" "line_len a' < CLI_LINE_BUF_LEN"
  shows "app_inv b (a', c(t := NoCall), w(t := At p'))"
proof (rule task_keeps [where t = t and K = "{}", OF inv])
  note I = app_invD [OF inv]
  have p0: "init_done p" using p(2) by (cases p) auto
  have ct: "c t = call_of p" by (rule threadD(3) [OF th])
  show t: "t \<in> app_tasks" by (rule thread_task [OF I(1) th])
  have rt: "runs p = t" using I(2) t wt by (auto simp: stages_ok_def)
  then show "runs (place_in ((w(t := At p')) t)) = t" using ret(1) by simp
  have mc: "uart_stage (w(t := At p')) = uart_stage w"
    by (rule uart_stage_moves(1) [where w = w, OF wt p0 ret(2)])
  then show "sys_inv b (live_heads (w(t := At p'))) app_nodes (kern a', c(t := NoCall))"
    using sys a'(1) by (simp add: live_heads_def)
  show "data_ok (w(t := At p')) a'" using data_ok_cong [of w k a a' "w(t := At p')"] d a' mc by blast
  show "sections_ok (c(t := NoCall)) (w(t := At p')) (kern a')"
    by (rule sections_step [where t = t, OF I(3)]) (use mu a'(1) wt ct p(1) in simp_all)
  show "queues (kern a') y = queues (kern a) y" if "x \<noteq> t" "c x = InReceive y" for x y
  proof -
    have "call_of p \<noteq> InReceive y" using waiter_unique [OF I(2), of x p] that p(2) rt by auto
    then show ?thesis using q a'(1) by simp
  qed
qed (use calm a'(1) in simp_all)

lemma resume_sound:
  assumes inv: "app_inv b (a, c, w)" and th: "thread (kern a) c t (call_of p)" and wt: "w t = At p"
    and p: "section_of p a = None" "call_of p \<noteq> NoCall" and step: "plain_resume t p a = Some (r, a')"
  shows "app_inv b (a', c(t := NoCall), move r t w)"
proof -
  note I = app_invD [OF inv] and line = line_ok [OF inv]
  have pc: "call_of p \<noteq> InLock g_status_mutex" using p(1) section_of_call by blast
  have tp: "runs p = t" using I(2) thread_task [OF I(1) th] wt by (auto simp: stages_ok_def)
  note R = resume_keeps [OF inv th wt pc p(2)]
  consider q where "call_of p = InTake q" "p = Protection Protection_Take \<or> p = Service Service_Wait"
    | q where "call_of p = InReceive q" "p = Control Control_Receive \<or> p = Comms Comms_Receive"
    using pc p(2) by (cases p rule: call_of.cases) auto
  then show ?thesis
  proof cases
    case 1
    obtain x k where k: "nimble_semaphore_take_resume q t (kern a) = (x, k)" by (cases "nimble_semaphore_take_resume q t (kern a)")
    have th': "thread (kern a) c t (InTake q)" using th 1(1) by simp
    have qs: "queues k = queues (kern a)" by (rule resume_queues(1) [OF k])
    have sys: "sys_inv b (live_heads w) app_nodes (k, c(t := NoCall))" "mutexes k = mutexes (kern a)"
      using take_resume_step [OF I(1) th', of q] k by auto
    note c = take_resume_calm(1) [OF I(1) th' k] and d = data_ok_kern [OF I(5) qs]
    show ?thesis
      using 1 step k R [OF sys c _ _ _ d] qs line
      by (auto simp: at_place_def protection_taken_def g_fault_semaphore_def timer_wake_sem_def)
  next
    case 2
    have th': "thread (kern a) c t (InReceive q)" using th 2(1) by simp
    obtain x k where k: "nimble_queue_receive_resume q t (kern a) = Some (x, k)"
      and sys: "sys_inv b (live_heads w) app_nodes (k, c(t := NoCall))" "mutexes k = mutexes (kern a)"
      using receive_resume_step [OF I(1) th'] by blast
    have oq: "only_queue q (kern a) k" by (rule receive_resume_queues [OF k])
    have d: "data_ok w (a\<lparr>kern := k\<rparr>)" by (rule receive_data [OF I(5) oq]) (use 2 wt tp in \<open>auto simp: uart_stage_def\<close>)
    have q': "queues k y = queues (kern a) y" if "call_of p \<noteq> InReceive y" for y
      using oq 2(1) that by (auto simp: only_queue_def)
    note S = R [OF sys receive_resume_calm(1) [OF I(1) th' k] _ _ q' d]
    consider "p = Control Control_Receive" "q = g_adc_sample_queue" | "p = Comms Comms_Receive" "q = g_uart_rx_queue"
      using 2 by auto
    then show ?thesis
    proof cases
      case 1
      then show ?thesis using step k S line by (auto simp: at_place_def)
    next
      case 2
      obtain pc b where x: "comms_received x (a\<lparr>kern := k\<rparr>) = Some (pc, b)" "kern b = k"
        "length (line_buf b) = 64" "line_len b < CLI_LINE_BUF_LEN"
        using comms_received_ok [of "a\<lparr>kern := k\<rparr>" x] line by auto
      then show ?thesis using step 2 k S by (auto simp: at_place_def)
    qed
  qed
qed

section \<open>The sections\<close>

text \<open>What the calls of a section do to the mutex.\<close>

lemma lock_outcome:
  assumes inv: "sys_inv b H N (s, c)" and th: "thread s c t NoCall" and m: "MutexWaiters m \<in> H"
    and no: "mutex_owner (mutexes s m) \<noteq> Some t" and k: "nimble_mutex_lock m NIMBLE_WAIT_FOREVER s = Some (r, k)"
  shows "mutex_owner (mutexes s m) = None \<Longrightarrow> r \<noteq> Blocks \<and> mutexes k m = \<lparr>mutex_owner = Some t, mutex_lock_count = 1\<rparr>"
    "mutex_owner (mutexes s m) \<noteq> None \<Longrightarrow> r = Blocks \<and> mutexes k = mutexes s"
proof -
  assume "mutex_owner (mutexes s m) = None"
  then show "r \<noteq> Blocks \<and> mutexes k m = \<lparr>mutex_owner = Some t, mutex_lock_count = 1\<rparr>"
    using lock_free [of s m NIMBLE_WAIT_FOREVER] k threadD(1) [OF th] by auto
next
  obtain L where i: "sched_inv b {} H N L s" using inv by (rule sys_invE)
  note T = threadD [OF th]
  assume "mutex_owner (mutexes s m) \<noteq> None"
  then obtain w where w: "mutex_owner (mutexes s m) = Some w" "w \<noteq> t" using no by auto
  obtain ts where ts: "L (MutexWaiters m) = map EventLink ts"
    using wait_links [OF sched_inv_shape [OF i] m] by auto
  have nw: "NIMBLE_WAIT_FOREVER \<noteq> NIMBLE_NO_WAIT" by (simp add: kdefs)
  let ?B = "boost w (task_priority s t) s"
  have r: "r = Blocks" and f: "k = ?B\<lparr>tcbs := (tcbs ?B)(t := (tcbs s t)\<lparr>tcb_state := NIMBLE_TASK_BLOCKED,
         tcb_wake_tick := if NIMBLE_WAIT_FOREVER = NIMBLE_WAIT_FOREVER then tcb_wake_tick (tcbs s t)
                          else g_tick_count s + NIMBLE_WAIT_FOREVER\<rparr>),
       pendsv := True, heap := heap k, ready_bitmap := ready_bitmap k\<rparr>"
    using lock_blocks [OF i T(1,2) m ts w nw] k by auto
  have "mutexes k = mutexes s" by (subst f) simp
  then show "r = Blocks \<and> mutexes k = mutexes s" using r by simp
qed

lemma unlock_outcome:
  assumes inv: "sys_inv b H N (s, c)" and th: "thread s c t NoCall" and m: "MutexWaiters m \<in> H"
    and own: "mutex_owner (mutexes s m) = Some t" "mutex_lock_count (mutexes s m) = 1"
    and k: "nimble_mutex_unlock m s = Some (r, k)"
  shows "r = NIMBLE_OK" "mutex_owner (mutexes k m) = None \<or>
     (\<exists>x. x \<noteq> t \<and> c x = InLock m \<and> mutexes k m = \<lparr>mutex_owner = Some x, mutex_lock_count = 1\<rparr>)"
proof -
  obtain L where i: "sched_inv b {} H N L s" and o: "objs_inv H N L c s" using inv by (rule sys_invE)
  note T = threadD [OF th]
  have "r = NIMBLE_OK \<and> (mutex_owner (mutexes k m) = None \<or>
     (\<exists>x. x \<noteq> t \<and> c x = InLock m \<and> mutexes k m = \<lparr>mutex_owner = Some x, mutex_lock_count = 1\<rparr>))"
  proof (cases "L (MutexWaiters m)")
    case Nil
    then show ?thesis using unlock_no_waiter [OF i T(1,2) m own] k by (auto simp: release_state_def)
  next
    case (Cons n ws)
    then obtain x where x: "L (MutexWaiters m) = EventLink x # ws"
      using wait_links [OF sched_inv_shape [OF i] m] by (cases n) auto
    have r: "r = NIMBLE_OK" "x \<noteq> t"
      and f: "k = s\<lparr>tcbs := (tcbs s)(t := (tcbs s t)\<lparr>tcb_priority := tcb_base_priority (tcbs s t)\<rparr>,
                 x := (tcbs s x)\<lparr>tcb_last_wait_result := NIMBLE_OK, tcb_state := NIMBLE_TASK_READY\<rparr>),
            mutexes := (mutexes s)(m := \<lparr>mutex_owner = Some x, mutex_lock_count = 1\<rparr>),
            pendsv := True, heap := heap k, ready_bitmap := ready_bitmap k\<rparr>"
      using unlock_handoff [OF i T(1,2) m own x] k by auto
    have "mutexes k m = \<lparr>mutex_owner = Some x, mutex_lock_count = 1\<rparr>" by (subst f) simp
    moreover have "EventLink x \<in> set (L (MutexWaiters m))" using x by simp
    then have "waits_on (c x) = Some (MutexWaiters m)" using objs_invD(4) [OF o] m unfolding waits_inv_def by blast
    then have "c x = InLock m" by (cases "c x") simp_all
    ultimately show ?thesis using r by blast
  qed
  then show "r = NIMBLE_OK" "mutex_owner (mutexes k m) = None \<or>
     (\<exists>x. x \<noteq> t \<and> c x = InLock m \<and> mutexes k m = \<lparr>mutex_owner = Some x, mutex_lock_count = 1\<rparr>)" by blast+
qed

lemma lock_sound:
  assumes inv: "app_inv b (a, c, w)" and th: "thread (kern a) c t NoCall" and wt: "w t = At p"
    and p: "section_of p a \<noteq> None" and ok: "may_boost b g_status_mutex t (kern a)"
    and k: "nimble_mutex_lock g_status_mutex NIMBLE_WAIT_FOREVER (kern a) = Some (r, k)"
  shows "app_inv b (a\<lparr>kern := k\<rparr>, after_call r t (InLock g_status_mutex) c,
    case r of Returns _ \<Rightarrow> w(t := Locked p) | Blocks \<Rightarrow> w)"
proof -
  note I = app_invD [OF inv] and H = live_heads_mem [of w] and T = threadD [OF th]
  have pc: "call_of p = InLock g_status_mutex" using p section_of_call by blast
  have t: "t \<in> app_tasks" by (rule thread_task [OF I(1) th])
  have rt: "runs p = t" using I(2) t wt by (auto simp: stages_ok_def)
  have no: "mutex_owner (mutexes (kern a) g_status_mutex) \<noteq> Some t"
    using I(3) wt T(3) by (auto simp: sections_ok_def)
  have sys: "sys_inv b (live_heads w) app_nodes (k, after_call r t (InLock g_status_mutex) c)"
    using lock_step [OF I(1) th H(1) ok, of NIMBLE_WAIT_FOREVER] k by auto
  have calm: "call_calm app_nodes c {} t NIMBLE_WAIT_FOREVER r (kern a) k" by (rule lock_calm [OF I(1) th H(1) k])
  have qs: "queues k = queues (kern a)" by (rule lock_queues [OF k])
  note d = data_ok_kern [OF I(5) qs] and out = lock_outcome [OF I(1) th H(1) no k]
  show ?thesis
  proof (cases r)
    case (Returns x)
    then have own: "mutex_owner (mutexes (kern a) g_status_mutex) = None"
      using out(2) by (metis call_result.distinct(1))
    have k': "mutexes k g_status_mutex = \<lparr>mutex_owner = Some t, mutex_lock_count = 1\<rparr>" using out(1) [OF own] by simp
    have "app_inv b (a\<lparr>kern := k\<rparr>, c, w(t := Locked p))"
    proof (rule task_keeps [where t = t and K = "{}", OF inv t])
      have mc: "uart_stage (w(t := Locked p)) = uart_stage w" by (rule uart_stage_moves(2) [where w = w, OF wt call_done]) (simp add: pc)
      then show "sys_inv b (live_heads (w(t := Locked p))) app_nodes (kern (a\<lparr>kern := k\<rparr>), c)"
        using sys Returns by (simp add: live_heads_def)
      show "data_ok (w(t := Locked p)) (a\<lparr>kern := k\<rparr>)"
        using data_ok_cong [of w k a "a\<lparr>kern := k\<rparr>" "w(t := Locked p)"] d mc line_ok [OF inv] by simp
      show "sections_ok c (w(t := Locked p)) (kern (a\<lparr>kern := k\<rparr>))"
        using I(3) own k' by (auto simp: sections_ok_def)
      show "calm app_nodes c {} {t} (kern a) (kern (a\<lparr>kern := k\<rparr>))" using call_calm_self(1) [OF calm] by simp
    qed (use rt pc T(3) qs in simp_all)
    then show ?thesis using Returns by simp
  next
    case Blocks
    then have mu: "mutexes k = mutexes (kern a)" using out by auto
    let ?c = "c(t := InLock g_status_mutex)"
    have "app_inv b (a\<lparr>kern := k\<rparr>, ?c, w)"
    proof (rule task_keeps [where t = t and K = "{}", OF inv t])
      show "sections_ok ?c w (kern (a\<lparr>kern := k\<rparr>))" using I(3) mu no by (auto simp: sections_ok_def)
      show "calm app_nodes c {} {t} (kern a) (kern (a\<lparr>kern := k\<rparr>))" using call_calm_self(1) [OF calm] by simp
    qed (use rt pc wt qs d sys Blocks call_calm_self(2) [OF calm] in simp_all)
    then show ?thesis using Blocks by simp
  qed
qed

lemma lock_resume_sound:
  assumes inv: "app_inv b (a, c, w)" and th: "thread (kern a) c t (InLock g_status_mutex)" and wt: "w t = At p"
    and k: "nimble_mutex_lock_resume g_status_mutex t (kern a) = (r, k)"
  shows "app_inv b (a\<lparr>kern := k\<rparr>, c(t := NoCall), w(t := Locked p))" "r = NIMBLE_OK"
proof -
  note I = app_invD [OF inv] and T = threadD [OF th]
  have t: "t \<in> app_tasks" by (rule thread_task [OF I(1) th])
  have "c t \<noteq> NoCall" using T(3) by simp
  then have "call_of (place_in (w t)) = c t" "runs (place_in (w t)) = t" using I(2) t unfolding stages_ok_def by blast+
  then have pc: "call_of p = InLock g_status_mutex" "runs p = t" using wt T(3) by simp_all
  have "unhurried (kern a) t" using I(4) T(3) by (simp add: waits_ok_def)
  then have r: "r = NIMBLE_OK" "k = kern a" "mutex_owner (mutexes (kern a) g_status_mutex) = Some t"
    using lock_resume_calm(3) [OF I(1) th k] by auto
  have sys: "sys_inv b (live_heads w) app_nodes (k, c(t := NoCall))" using lock_resume_step [OF I(1) th] k by auto
  show "r = NIMBLE_OK" by (rule r)
  show "app_inv b (a\<lparr>kern := k\<rparr>, c(t := NoCall), w(t := Locked p))"
  proof (rule task_keeps [where t = t and K = "{}", OF inv t])
    have mc: "uart_stage (w(t := Locked p)) = uart_stage w" by (rule uart_stage_moves(2) [where w = w, OF wt call_done]) (simp add: pc)
    then show "sys_inv b (live_heads (w(t := Locked p))) app_nodes (kern (a\<lparr>kern := k\<rparr>), c(t := NoCall))"
      using sys by (simp add: live_heads_def)
    have "data_ok w (a\<lparr>kern := k\<rparr>)" using I(5) r(2) by simp
    then show "data_ok (w(t := Locked p)) (a\<lparr>kern := k\<rparr>)"
      using data_ok_cong [of w k a "a\<lparr>kern := k\<rparr>" "w(t := Locked p)"] mc line_ok [OF inv] by simp
    show "sections_ok (c(t := NoCall)) (w(t := Locked p)) (kern (a\<lparr>kern := k\<rparr>))"
      using I(3) r(2,3) by (auto simp: sections_ok_def)
  qed (use pc T(3) r(2) in \<open>simp_all add: calm_refl\<close>)
qed

lemma access_sound:
  assumes inv: "app_inv b (a, c, w)" and th: "thread (kern a) c t NoCall" and wt: "w t = Locked p"
  shows "app_inv b (a\<lparr>g_status := st\<rparr>, c, w(t := Accessed p st))"
proof -
  note I = app_invD [OF inv] and T = threadD [OF th]
  have t: "t \<in> app_tasks" by (rule thread_task [OF I(1) th])
  have "in_section (w t)" using wt by simp
  then have pc: "call_of p = InLock g_status_mutex" using I(2) wt unfolding stages_ok_def by (metis place_in.simps(2))
  have rt: "runs p = t" using I(2) t wt by (auto simp: stages_ok_def)
  have mc: "uart_stage (w(t := Accessed p st)) = uart_stage w" by (rule uart_stage_moves(3) [where w = w, OF wt])
  show ?thesis
  proof (rule task_keeps [where t = t and K = "{}", OF inv t])
    show "sys_inv b (live_heads (w(t := Accessed p st))) app_nodes (kern (a\<lparr>g_status := st\<rparr>), c)"
      using I(1) mc by (simp add: live_heads_def)
    show "data_ok (w(t := Accessed p st)) (a\<lparr>g_status := st\<rparr>)"
      using I(5) mc by (auto simp: data_ok_def)
    show "sections_ok c (w(t := Accessed p st)) (kern (a\<lparr>g_status := st\<rparr>))"
      using I(3) wt by (auto simp: sections_ok_def)
  qed (use pc rt T(3) in \<open>simp_all add: calm_refl\<close>)
qed

lemma after_section_ok:
  assumes "after_section p status a = (p', a')" "call_of p = InLock g_status_mutex"
  shows "kern a' = kern a \<and> line_buf a' = line_buf a \<and> line_len a' = line_len a \<and> runs p' = runs p \<and>
     init_done p' \<and> init_done p"
proof -
  have c: "kern a' = kern a \<and> line_buf a' = line_buf a \<and> line_len a' = line_len a"
    if "control_after pc status a = (x, a')" for pc x
    using that by (cases pc) (auto simp: control_switch_def control_sync_def Let_def split: prod.splits)
  show ?thesis
    using assms by (cases p) (auto simp: ps_uart_puts_def dest: c split: prod.splits)
qed

lemma unlock_sound:
  assumes inv: "app_inv b (a, c, w)" and th: "thread (kern a) c t NoCall" and wt: "w t = Accessed p status"
    and k: "nimble_mutex_unlock g_status_mutex (kern a) = Some (r, k)"
    and after: "after_section p status (a\<lparr>kern := k\<rparr>) = (p', a')"
  shows "app_inv b (a', c, w(t := At p'))" "r = NIMBLE_OK"
proof -
  note I = app_invD [OF inv] and H = live_heads_mem [of w] and T = threadD [OF th]
  have t: "t \<in> app_tasks" by (rule thread_task [OF I(1) th])
  have ins: "in_section (w t)" using wt by simp
  then have pc: "call_of p = InLock g_status_mutex" using I(2) wt unfolding stages_ok_def by (metis place_in.simps(3))
  have rt: "runs p = t" using I(2) t wt by (auto simp: stages_ok_def)
  note A = after_section_ok [OF after pc]
  have own: "mutex_owner (mutexes (kern a) g_status_mutex) = Some t" "mutex_lock_count (mutexes (kern a) g_status_mutex) = 1"
    using I(3) ins by (auto simp: sections_ok_def)
  note out = unlock_outcome [OF I(1) th H(1) own k]
  have sys: "sys_inv b (live_heads w) app_nodes (k, c)" using unlock_step [OF I(1) th H(1)] k by auto
  have qs: "queues k = queues (kern a)" by (rule unlock_queues [OF k])
  have mc: "uart_stage (w(t := At p')) = uart_stage w" by (rule uart_stage_moves(4) [where w = w, OF wt]) (simp add: A)
  show "r = NIMBLE_OK" by (rule out(1))
  show "app_inv b (a', c, w(t := At p'))"
  proof (rule task_keeps [where t = t and K = "{MutexWaiters g_status_mutex}", OF inv t])
    show "sys_inv b (live_heads (w(t := At p'))) app_nodes (kern a', c)"
      using sys A mc by (simp add: live_heads_def)
    show "calm app_nodes c {MutexWaiters g_status_mutex} {t} (kern a) (kern a')"
      using unlock_calm [OF I(1) th H(1) k] A by (auto elim: calm_mono)
    have "data_ok w (a\<lparr>kern := k\<rparr>)" by (rule data_ok_kern [OF I(5) qs])
    then show "data_ok (w(t := At p')) a'"
      using data_ok_cong [of w k a a' "w(t := At p')"] mc line_ok [OF inv] A by simp
    have "\<not> in_section (w x)" if "x \<noteq> t" for x using I(3) own(1) that by (auto simp: sections_ok_def)
    then show "sections_ok c (w(t := At p')) (kern a')"
      using out(2) A by (auto simp: sections_ok_def)
  qed (use rt A T(3) qs in simp_all)
qed

section \<open>Every step\<close>

lemma app_task_sound: "app_task b t x y \<Longrightarrow> app_inv b x \<Longrightarrow> app_inv b y"
proof (induction rule: app_task.induct)
  case (plain a c w p r a')
  then show ?case by (intro plain_sound)
next
  case (plain_resume a c p w r a')
  then show ?case by (intro resume_sound)
next
  case (lock a c w p r k)
  then show ?case by (intro lock_sound)
next
  case (lock_resume a c w p r k)
  then show ?case by (intro lock_resume_sound(1))
next
  case (access a c w p f)
  then show ?case by (intro access_sound)
next
  case (unlock a c w p status r k p' a')
  then show ?case by (intro unlock_sound(1))
qed

lemma app_step_sound: "app_step b x y \<Longrightarrow> app_inv b x \<Longrightarrow> app_inv b y"
  unfolding app_step_def using irq_sound app_task_sound by blast

end
