(* ===== verification/Inheritance.thy ===== *)
theory Inheritance
  imports System_Properties
begin

text \<open>
  When priority inheritance is harmless. \<^verbatim>\<open>nimble_mutex_lock\<close> raises the priority of an owner that sits
  on a ready list and leaves it there, so that later a bit of the ready bitmap may be set for an
  empty list (theory \<open>Defects\<close>). \<open>inherit_inv\<close> is an invariant under which no context switch ever
  reads such a bit. It holds as long as tasks lock one mutex at a time, without a timeout, and do
  not block while they own it.
\<close>

section \<open>The invariant\<close>

text \<open>\<open>x\<close> lends its priority to \<open>t\<close>: it waits for a mutex that \<open>t\<close> owns (every task lends to itself).\<close>

definition lends :: "node set \<Rightarrow> (node \<Rightarrow> node list) \<Rightarrow> kernel \<Rightarrow> tcb_ptr \<Rightarrow> tcb_ptr \<Rightarrow> bool" where
  "lends H L s x t \<longleftrightarrow> x = t \<or>
     (\<exists>m. MutexWaiters m \<in> H \<and> mutex_owner (mutexes s m) = Some t \<and> EventLink x \<in> set (L (MutexWaiters m)))"

definition level :: "kernel \<Rightarrow> tcb_ptr \<Rightarrow> nat" where
  "level s t = unat (tcb_base_priority (tcbs s t))"

text \<open>\<open>t\<close> will be chosen before a ready list of priority \<open>p\<close> is looked at.\<close>

definition ahead :: "(node \<Rightarrow> node list) \<Rightarrow> kernel \<Rightarrow> nat \<Rightarrow> tcb_ptr \<Rightarrow> bool" where
  "ahead L s p t \<longleftrightarrow> nimble_current_tcb s = Some t \<and> task_state s t = NIMBLE_TASK_RUNNING \<or>
     (\<exists>q. p < q \<and> q < 32 \<and> Link t \<in> set (L (ReadyList q)))"

text \<open>
  Priorities: a task runs at the highest base priority that is lent to it; owners are runnable and
  own one mutex; waiters stand in order and have no deadline. Structures: a task is on the list of
  a priority that is lent to it, and a bit without a list belongs to a priority lent to a task
  that is ahead of it.
\<close>

definition inherit_inv :: "node set \<Rightarrow> node set \<Rightarrow> (node \<Rightarrow> node list) \<Rightarrow> kernel \<Rightarrow> bool" where
  "inherit_inv H N L s \<longleftrightarrow>
     (\<forall>t. Link t \<in> N \<longrightarrow> (\<exists>x. lends H L s x t \<and> level s x = unat (task_priority s t))) \<and>
     (\<forall>t x. Link t \<in> N \<longrightarrow> lends H L s x t \<longrightarrow> level s x \<le> unat (task_priority s t)) \<and>
     (\<forall>m t. MutexWaiters m \<in> H \<longrightarrow> mutex_owner (mutexes s m) = Some t \<longrightarrow> can_run N s t) \<and>
     (\<forall>m m' t. MutexWaiters m \<in> H \<longrightarrow> MutexWaiters m' \<in> H \<longrightarrow> mutex_owner (mutexes s m) = Some t \<longrightarrow>
        mutex_owner (mutexes s m') = Some t \<longrightarrow> m = m') \<and>
     (\<forall>m ts. MutexWaiters m \<in> H \<longrightarrow> L (MutexWaiters m) = map EventLink ts \<longrightarrow> prio_sorted (task_priority s) ts) \<and>
     (\<forall>m x. MutexWaiters m \<in> H \<longrightarrow> EventLink x \<in> set (L (MutexWaiters m)) \<longrightarrow> Link x \<notin> set (L DelayedList)) \<and>
     (\<forall>p t. p < 32 \<longrightarrow> Link t \<in> set (L (ReadyList p)) \<longrightarrow> (\<exists>x. lends H L s x t \<and> level s x = p)) \<and>
     (\<forall>p. p < 32 \<longrightarrow> bit (ready_bitmap s) p \<longrightarrow> L (ReadyList p) = [] \<longrightarrow>
        (\<exists>x t. level s x = p \<and> lends H L s x t \<and> ahead L s p t))"

lemma inherit_invI:
  assumes "\<And>t. Link t \<in> N \<Longrightarrow> \<exists>x. lends H L s x t \<and> level s x = unat (task_priority s t)"
    "\<And>t x. Link t \<in> N \<Longrightarrow> lends H L s x t \<Longrightarrow> level s x \<le> unat (task_priority s t)"
    "\<And>m t. MutexWaiters m \<in> H \<Longrightarrow> mutex_owner (mutexes s m) = Some t \<Longrightarrow> can_run N s t"
    "\<And>m m' t. MutexWaiters m \<in> H \<Longrightarrow> MutexWaiters m' \<in> H \<Longrightarrow> mutex_owner (mutexes s m) = Some t \<Longrightarrow>
       mutex_owner (mutexes s m') = Some t \<Longrightarrow> m = m'"
    "\<And>m ts. MutexWaiters m \<in> H \<Longrightarrow> L (MutexWaiters m) = map EventLink ts \<Longrightarrow> prio_sorted (task_priority s) ts"
    "\<And>m x. MutexWaiters m \<in> H \<Longrightarrow> EventLink x \<in> set (L (MutexWaiters m)) \<Longrightarrow> Link x \<notin> set (L DelayedList)"
    "\<And>p t. p < 32 \<Longrightarrow> Link t \<in> set (L (ReadyList p)) \<Longrightarrow> \<exists>x. lends H L s x t \<and> level s x = p"
    "\<And>p. p < 32 \<Longrightarrow> bit (ready_bitmap s) p \<Longrightarrow> L (ReadyList p) = [] \<Longrightarrow>
       \<exists>x t. level s x = p \<and> lends H L s x t \<and> ahead L s p t"
  shows "inherit_inv H N L s"
  unfolding inherit_inv_def using assms by blast

lemma inherit_invD:
  assumes "inherit_inv H N L s"
  shows "Link t \<in> N \<Longrightarrow> \<exists>x. lends H L s x t \<and> level s x = unat (task_priority s t)"
    "Link t \<in> N \<Longrightarrow> lends H L s x t \<Longrightarrow> level s x \<le> unat (task_priority s t)"
    "MutexWaiters m \<in> H \<Longrightarrow> mutex_owner (mutexes s m) = Some t \<Longrightarrow> can_run N s t"
    "MutexWaiters m \<in> H \<Longrightarrow> MutexWaiters m' \<in> H \<Longrightarrow> mutex_owner (mutexes s m) = Some t \<Longrightarrow>
       mutex_owner (mutexes s m') = Some t \<Longrightarrow> m = m'"
    "MutexWaiters m \<in> H \<Longrightarrow> L (MutexWaiters m) = map EventLink ts \<Longrightarrow> prio_sorted (task_priority s) ts"
    "MutexWaiters m \<in> H \<Longrightarrow> EventLink x \<in> set (L (MutexWaiters m)) \<Longrightarrow> Link x \<notin> set (L DelayedList)"
    "p < 32 \<Longrightarrow> Link t \<in> set (L (ReadyList p)) \<Longrightarrow> \<exists>x. lends H L s x t \<and> level s x = p"
    "p < 32 \<Longrightarrow> bit (ready_bitmap s) p \<Longrightarrow> L (ReadyList p) = [] \<Longrightarrow>
       \<exists>x t. level s x = p \<and> lends H L s x t \<and> ahead L s p t"
  using assms unfolding inherit_inv_def by blast+

definition inherits :: "node set \<Rightarrow> node set \<Rightarrow> kernel \<Rightarrow> bool" where
  "inherits H N s \<longleftrightarrow> (\<exists>L. sched_inv False {} H N L s \<and> inherit_inv H N L s)"

text \<open>The invariant depends on the lists of the initialised heads only, and the heap determines them.\<close>

lemma linked_unique:
  assumes "successively (linked h) (a # xs @ [k])" "successively (linked h) (a # ys @ [k])" "k \<notin> set xs" "k \<notin> set ys"
  shows "xs = ys"
  using assms
proof (induction xs arbitrary: a ys)
  case Nil
  then show ?case by (cases ys) (auto simp: linked_def)
next
  case (Cons x xs)
  then obtain y zs where ys: "ys = y # zs" by (cases ys) (auto simp: linked_def)
  then have "x = y" using Cons.prems by (simp add: linked_def)
  moreover have "xs = zs" using Cons.IH [of x zs] Cons.prems ys calculation by simp
  ultimately show ?case using ys by simp
qed

lemma repr_unique:
  assumes "repr H N L h" "repr H N L' h" "k \<in> H"
  shows "L k = L' k"
  using linked_unique [of h k "L k" k "L' k"] repr_circle [OF assms(1,3)] repr_circle [OF assms(2,3)]
  by (simp add: circle_def)

lemma inherit_inv_cong:
  assumes "inherit_inv H N L s" "shape H N L" and eq: "\<And>k. k \<in> H \<Longrightarrow> L' k = L k"
  shows "inherit_inv H N L' s"
proof -
  have "\<And>p. p < 32 \<Longrightarrow> L' (ReadyList p) = L (ReadyList p)" "L' DelayedList = L DelayedList"
    using eq assms(2) by (simp_all add: shape_def)
  moreover have "lends H L' s = lends H L s" using eq by (auto simp: lends_def fun_eq_iff)
  moreover have "ahead L' s p t = ahead L s p t" for p t using calculation(1) by (auto simp: ahead_def)
  ultimately show ?thesis using assms(1) eq unfolding inherit_inv_def by (simp cong: conj_cong)
qed

lemma inheritsD:
  assumes "inherits H N s" "sched_inv b {} H N L s"
  shows "inherit_inv H N L s"
proof -
  obtain L' where L': "sched_inv False {} H N L' s" "inherit_inv H N L' s" using assms(1) by (auto simp: inherits_def)
  have "L k = L' k" if "k \<in> H" for k
    by (rule repr_unique [OF sched_inv_repr [OF assms(2)] sched_inv_repr [OF L'(1)] that])
  then show ?thesis using inherit_inv_cong [OF L'(2) sched_inv_shape [OF L'(1)]] by simp
qed

lemma inheritsI: "sched_inv b {} H N L s \<Longrightarrow> inherit_inv H N L s \<Longrightarrow> inherits H N s"
  using sched_inv_weaken unfolding inherits_def by blast

text \<open>A waiter of a mutex is blocked, so it owns none.\<close>

lemma waiter_blocked:
  assumes "sched_inv b {} H N L s" "MutexWaiters m \<in> H" "EventLink x \<in> set (L (MutexWaiters m))"
  shows "task_state s x = NIMBLE_TASK_BLOCKED" "Link x \<in> N"
proof -
  show "task_state s x = NIMBLE_TASK_BLOCKED"
    using tasks_inv_event [OF sched_inv_tasks [OF assms(1)] _ assms(2,3)] by simp
  have "EventLink x \<in> N" by (rule repr_member [OF sched_inv_repr [OF assms(1)] assms(2,3)])
  then show "Link x \<in> N" using sched_inv_shape [OF assms(1)] by (simp add: shape_event)
qed

definition owns_none :: "node set \<Rightarrow> kernel \<Rightarrow> tcb_ptr \<Rightarrow> bool" where
  "owns_none H s t \<longleftrightarrow> (\<forall>m. MutexWaiters m \<in> H \<longrightarrow> mutex_owner (mutexes s m) \<noteq> Some t)"

lemma lends_none: "owns_none H s t \<Longrightarrow> lends H L s x t \<longleftrightarrow> x = t"
  by (auto simp: lends_def owns_none_def)

lemma blocked_owns_none:
  assumes "inherit_inv H N L s" "task_state s t = NIMBLE_TASK_BLOCKED"
  shows "owns_none H s t"
  using inherit_invD(3) [OF assms(1), of _ t] assms(2) by (auto simp: owns_none_def can_run_def)

text \<open>A task that owns nothing has its base priority.\<close>

lemma level_prio:
  assumes "inherit_inv H N L s" "owns_none H s t" "Link t \<in> N"
  shows "unat (task_priority s t) = level s t"
  using inherit_invD(1) [OF assms(1,3)] lends_none [OF assms(2)] by auto

section \<open>Steps that wake\<close>

text \<open>Steps that leave owners, waiters and priorities alone and put tasks on the lists of their priorities.\<close>

lemma inherit_wakes:
  assumes J: "inherit_inv H N L s"
    and tc: "\<And>t. task_priority s' t = task_priority s t" "\<And>t. level s' t = level s t"
      "mutexes s' = mutexes s" "nimble_current_tcb s' = nimble_current_tcb s"
      "\<And>t. can_run N s t \<Longrightarrow> can_run N s' t"
      "\<And>t. nimble_current_tcb s = Some t \<Longrightarrow> task_state s t = NIMBLE_TASK_RUNNING \<Longrightarrow> task_state s' t = NIMBLE_TASK_RUNNING"
    and W: "\<And>m. MutexWaiters m \<in> H \<Longrightarrow> L' (MutexWaiters m) = L (MutexWaiters m)"
    and D: "\<And>t. Link t \<in> set (L' DelayedList) \<Longrightarrow> Link t \<in> set (L DelayedList)"
    and R: "\<And>p t. p < 32 \<Longrightarrow> Link t \<in> set (L (ReadyList p)) \<Longrightarrow> Link t \<in> set (L' (ReadyList p))"
      "\<And>p t. p < 32 \<Longrightarrow> Link t \<in> set (L' (ReadyList p)) \<Longrightarrow>
         Link t \<in> set (L (ReadyList p)) \<or> Link t \<in> N \<and> unat (task_priority s t) = p"
      "\<And>p. p < 32 \<Longrightarrow> L' (ReadyList p) = [] \<Longrightarrow> L (ReadyList p) = []"
    and B: "\<And>p. p < 32 \<Longrightarrow> bit (ready_bitmap s') p \<Longrightarrow> bit (ready_bitmap s) p \<or> L' (ReadyList p) \<noteq> []"
  shows "inherit_inv H N L' s'"
proof -
  note J' = inherit_invD [OF J]
  have ln: "lends H L' s' x t = lends H L s x t" for x t using W tc(3) by (auto simp: lends_def)
  show ?thesis
  proof (rule inherit_invI; (unfold ln tc)?)
    fix p t assume p: "p < 32" "Link t \<in> set (L' (ReadyList p))"
    then show "\<exists>x. lends H L s x t \<and> level s x = p" using R(2) [OF p] J'(1,7) by auto
  next
    fix p assume p: "p < 32" "bit (ready_bitmap s') p" "L' (ReadyList p) = []"
    then have "bit (ready_bitmap s) p" "L (ReadyList p) = []" using B R(3) by blast+
    then obtain x t where x: "level s x = p" "lends H L s x t" "ahead L s p t" using J'(8) p(1) by blast
    then have "ahead L' s' p t" using tc(4,6) R(1) unfolding ahead_def by metis
    then show "\<exists>x t. level s x = p \<and> lends H L s x t \<and> ahead L' s' p t" using x by blast
  next
    fix m ts assume "MutexWaiters m \<in> H" "L' (MutexWaiters m) = map EventLink ts"
    then show "prio_sorted (task_priority s) ts" using J'(5) W by simp
  next
    fix m x assume m: "MutexWaiters m \<in> H" "EventLink x \<in> set (L' (MutexWaiters m))"
    then have "EventLink x \<in> set (L (MutexWaiters m))" using W by simp
    then show "Link x \<notin> set (L' DelayedList)" using J'(6) [OF m(1)] D by blast
  qed (use J' W D tc(5) in auto)
qed

lemma event_list_unique:
  assumes "sched_inv b X H N L s" "k \<in> H" "k' \<in> H" "EventLink t \<in> set (L k)" "EventLink t \<in> set (L k')"
  shows "k' = k"
  using repr_disjoint [OF sched_inv_repr [OF assms(1)] assms(2,3)] assms(4,5) by blast

text \<open>What an operation does to the bitmap when it wakes the first waiter of a list.\<close>

definition wakes_bits :: "tcb_ptr option \<Rightarrow> kernel \<Rightarrow> kernel \<Rightarrow> bool" where
  "wakes_bits w s s' \<longleftrightarrow> ready_bitmap s' =
     (case w of None \<Rightarrow> ready_bitmap s | Some t \<Rightarrow> ready_bitmap s OR bit_mask (unat (task_priority s t)))"

lemma add_ready_bits:
  "nimble_scheduler_add_ready t s = Some s' \<Longrightarrow> ready_bitmap s' = ready_bitmap s OR bit_mask (unat (task_priority s t))"
  by (auto simp: nimble_scheduler_add_ready_def Let_def kdefs split: if_splits)

lemma wake_waiter_bits: "nimble_scheduler_wake_waiter k s = Some (w, s') \<Longrightarrow> wakes_bits w s s'"
  by (auto simp: nimble_scheduler_wake_waiter_def wakes_bits_def Let_def kdefs
      dest!: add_ready_bits sym [of "Some _"] split: if_splits bind_splits)

lemma inherit_woken:
  assumes i: "sched_inv b {} H N L s" and J: "inherit_inv H N L s" and k: "k \<in> H" "wait_head k" "\<And>m. k \<noteq> MutexWaiters m"
    and tc: "tcbs s' = woken_tcbs (first_waiter k L) (tcbs s)" "mutexes s' = mutexes s"
      "nimble_current_tcb s' = nimble_current_tcb s"
    and B: "wakes_bits (first_waiter k L) s s'"
  shows "inherit_inv H N (woken_lists s (first_waiter k L) L) s'"
proof -
  obtain ts where ts: "L k = map EventLink ts" using wait_links [OF sched_inv_shape [OF i] k(1,2)] by blast
  show ?thesis
  proof (cases ts)
    case Nil
    then have "first_waiter k L = None" using ts by simp
    then show ?thesis
      using tc B by (intro inherit_wakes [OF J]) (simp_all add: woken_tcbs_def woken_lists_def wakes_bits_def level_def can_run_def)
  next
    case (Cons t ws)
    then have w: "first_waiter k L = Some t" and m: "EventLink t \<in> set (L k)" using ts by simp_all
    have bl: "task_state s t = NIMBLE_TASK_BLOCKED" using tasks_inv_event [OF sched_inv_tasks [OF i] _ k(1) m] by simp
    have "EventLink t \<in> N" by (rule repr_member [OF sched_inv_repr [OF i] k(1) m])
    then have tN: "Link t \<in> N" using sched_inv_shape [OF i] by (simp add: shape_event)
    have nw: "EventLink t \<notin> set (L (MutexWaiters x))" if "MutexWaiters x \<in> H" for x
      using event_list_unique [OF i k(1) that m] k(3) by blast
    have nl: "Link t \<notin> set (L (MutexWaiters x))" if "MutexWaiters x \<in> H" for x
      using shape_fits [OF sched_inv_shape [OF i] that] by fastforce
    have nr: "Link t \<notin> set (L (ReadyList p))" if "p < 32" for p
      using tasks_inv_ready_state [OF sched_inv_tasks [OF i] that, of t] bl by auto
    have er: "EventLink y \<notin> set (L (ReadyList p))" if "p < 32" for p y
      using shape_fits [OF sched_inv_shape [OF i], of "ReadyList p"] shape_ready [OF sched_inv_shape [OF i]] that by fastforce
    have tc': "tcbs s' = (tcbs s)(t := (tcbs s t)\<lparr>tcb_last_wait_result := NIMBLE_OK, tcb_state := NIMBLE_TASK_READY\<rparr>)"
      using tc(1) w by (simp add: woken_tcbs_def)
    have p32: "unat (task_priority s t) < 32" by (rule sched_inv_prio [OF i tN])
    show ?thesis
      unfolding w woken_lists_def
    proof (rule inherit_wakes [OF J _ _ tc(2,3)])
      show "p < 32 \<Longrightarrow> bit (ready_bitmap s') p \<Longrightarrow> bit (ready_bitmap s) p \<or>
          (case Some t of None \<Rightarrow> L | Some t \<Rightarrow> wake_lists (unat (task_priority s t)) t L) (ReadyList p) \<noteq> []" for p
        using B w p32 by (auto simp: wakes_bits_def bit_set_mask wake_lists_def)
      show "p < 32 \<Longrightarrow> (case Some t of None \<Rightarrow> L | Some t \<Rightarrow> wake_lists (unat (task_priority s t)) t L) (ReadyList p) = [] \<Longrightarrow>
          L (ReadyList p) = []" for p
        using nr er [of p t] by (auto simp: wake_lists_def split: if_splits)
    qed (use bl nw nl nr er tN in \<open>auto simp: tc' level_def can_run_def wake_lists_def removeAll_filter_not_eq
        split: if_splits intro!: filter_True\<close>)
  qed
qed

section \<open>Steps that block\<close>

text \<open>The running task leaves the ready structures, and the bit of its priority does not stay behind.\<close>

lemma inherit_blocks:
  assumes J: "inherit_inv H N L s" and t: "nimble_current_tcb s = Some t" "Link t \<in> N" "owns_none H s t"
    and tc: "\<And>x. level s' x = level s x" "mutexes s' = mutexes s" "nimble_current_tcb s' = nimble_current_tcb s"
      "\<And>x. x \<noteq> t \<Longrightarrow> task_state s' x = task_state s x"
    and W: "\<And>m x. MutexWaiters m \<in> H \<Longrightarrow> EventLink x \<in> set (L (MutexWaiters m)) \<Longrightarrow> EventLink x \<in> set (L' (MutexWaiters m))"
    and P: "\<And>x. Link x \<in> N \<Longrightarrow> \<exists>y. lends H L' s' y x \<and> level s y = unat (task_priority s' x)"
      "\<And>x y. Link x \<in> N \<Longrightarrow> lends H L' s' y x \<Longrightarrow> level s y \<le> unat (task_priority s' x)"
      "\<And>m ts. MutexWaiters m \<in> H \<Longrightarrow> L' (MutexWaiters m) = map EventLink ts \<Longrightarrow> prio_sorted (task_priority s') ts"
    and D: "\<And>m x. MutexWaiters m \<in> H \<Longrightarrow> EventLink x \<in> set (L' (MutexWaiters m)) \<Longrightarrow> Link x \<notin> set (L' DelayedList)"
    and R: "\<And>p. p < 32 \<Longrightarrow> L' (ReadyList p) = L (ReadyList p)"
    and B: "\<And>p. p < 32 \<Longrightarrow> bit (ready_bitmap s') p \<Longrightarrow>
         bit (ready_bitmap s) p \<and> (p = unat (task_priority s t) \<longrightarrow> L (ReadyList p) \<noteq> [])"
  shows "inherit_inv H N L' s'"
proof -
  note J' = inherit_invD [OF J]
  have ln: "lends H L' s' x y" if "lends H L s x y" for x y using that W tc(2) by (auto simp: lends_def)
  have run: "can_run N s' x" if "MutexWaiters m \<in> H" "mutex_owner (mutexes s m) = Some x" for m x
  proof -
    have "x \<noteq> t" using t(3) that by (auto simp: owns_none_def)
    then show ?thesis using J'(3) [OF that] tc(4) by (simp add: can_run_def)
  qed
  have prio: "unat (task_priority s t) = level s t" by (rule level_prio [OF J t(3,2)])
  show ?thesis
  proof (rule inherit_invI; (unfold tc(1-3))?)
    fix p x assume "p < 32" "Link x \<in> set (L' (ReadyList p))"
    then show "\<exists>y. lends H L' s' y x \<and> level s y = p" using J'(7) [of p x] R ln by auto
  next
    fix p assume p: "p < 32" "bit (ready_bitmap s') p" "L' (ReadyList p) = []"
    then have "bit (ready_bitmap s) p" and ne: "p \<noteq> unat (task_priority s t)" and e: "L (ReadyList p) = []"
      using B [OF p(1,2)] R [OF p(1)] by auto
    then obtain x o' where x: "level s x = p" "lends H L s x o'" "ahead L s p o'" using J'(8) p(1) by blast
    have "o' \<noteq> t" using x(1,2) ne prio lends_none [OF t(3)] by auto
    then have "ahead L' s' p o'" using x(3) t(1) R by (auto simp: ahead_def)
    then show "\<exists>x o'. level s x = p \<and> lends H L' s' x o' \<and> ahead L' s' p o'" using x ln by blast
  next
    fix m x assume "MutexWaiters m \<in> H" "EventLink x \<in> set (L' (MutexWaiters m))"
    then show "Link x \<notin> set (L' DelayedList)" by (rule D)
  qed (use J'(4) P run in auto)
qed

lemma remove_bits:
  assumes i: "sched_inv b X H N L s" and t: "Link t \<in> N" and s': "nimble_scheduler_remove t s = Some s'"
    and p: "p < 32" "bit (ready_bitmap s') p"
  shows "bit (ready_bitmap s) p \<and> (p = unat (task_priority s t) \<longrightarrow> delist (Link t) L (ReadyList p) \<noteq> [])"
proof -
  let ?p = "unat (task_priority s t)"
  have "?p < 32" by (rule sched_inv_prio [OF i t])
  have r: "repr H N (delist (Link t) L) (nimble_list_remove (Link t) (heap s))"
    using i t by (intro repr_remove sched_inv_repr)
  have "nimble_list_is_empty (ReadyList ?p) (nimble_list_remove (Link t) (heap s)) \<longleftrightarrow> delist (Link t) L (ReadyList ?p) = []"
    by (rule repr_is_empty [OF r sched_inv_prio_head [OF i t]])
  then show ?thesis
    using s' p remove_eq [OF \<open>?p < 32\<close>] by (auto simp: bit_clear_mask simp del: delist_apply split: if_splits)
qed

lemma prepare_block_bits:
  assumes i: "sched_inv b X H N L s" and t: "Link t \<in> N" and s': "nimble_scheduler_prepare_block t w s = Some s'"
    and p: "p < 32" "bit (ready_bitmap s') p"
  shows "bit (ready_bitmap s) p \<and> (p = unat (task_priority s t) \<longrightarrow> delist (Link t) L (ReadyList p) \<noteq> [])"
proof -
  obtain s1 where r: "nimble_scheduler_remove t s = Some s1" and b: "ready_bitmap s' = ready_bitmap s1"
    using s' by (auto simp: nimble_scheduler_prepare_block_def Let_def kdefs split: bind_splits if_splits)
  show ?thesis using remove_bits [OF i t r p(1)] p(2) b by simp
qed

context wait_list
begin

lemma block_bits:
  assumes i: "sched_inv b {} H N L s" and run: "task_state s t = NIMBLE_TASK_RUNNING"
    and k: "k \<in> H" "wait_head k" and t: "Link t \<in> N"
    and s': "ins k t s = Some s1" "nimble_scheduler_prepare_block t w s1 = Some s2"
    and p: "p < 32" "bit (ready_bitmap s2) p"
  shows "bit (ready_bitmap s) p \<and> (p = unat (task_priority s t) \<longrightarrow> L (ReadyList p) \<noteq> [])"
proof -
  obtain ts where ts: "L k = map EventLink ts" using wait_links [OF sched_inv_shape [OF i] k] by blast
  have fe: "free_node H L (EventLink t)" using event_free [OF i, of t] run by simp
  let ?L = "L(k := map EventLink (prio_insert (task_priority s) t ts))"
  have i1: "sched_inv b {t} H N ?L s1" and f: "s1 = s\<lparr>heap := heap s1\<rparr>"
    using ins_spec [OF i k t fe ts] s'(1) by auto
  have s1: "ready_bitmap s1 = ready_bitmap s" "tcbs s1 = tcbs s" by (subst f, simp)+
  have "delist (Link t) ?L (ReadyList p) \<noteq> [] \<Longrightarrow> L (ReadyList p) \<noteq> []" using k(2) by (cases k) auto
  then show ?thesis using prepare_block_bits [OF i1 t s'(2) p] s1 by auto
qed

end

lemma lists_after_block:
  assumes i: "sched_inv b {} H N L s" and run: "task_state s t = NIMBLE_TASK_RUNNING" and k: "wait_head k"
  shows "p < 32 \<Longrightarrow> block_lists t v (L(k := xs)) (ReadyList p) = L (ReadyList p)"
    "wait_head j \<Longrightarrow> j \<in> H \<Longrightarrow> j \<noteq> k \<Longrightarrow> block_lists t v (L(k := xs)) j = L j"
    "k \<in> H \<Longrightarrow> Link t \<notin> set xs \<Longrightarrow> block_lists t v (L(k := xs)) k = xs"
    "Link x \<in> set (block_lists t v (L(k := xs)) DelayedList) \<Longrightarrow> x \<noteq> t \<Longrightarrow> Link x \<in> set (L DelayedList)"
    "Link t \<notin> set (block_lists t NIMBLE_WAIT_FOREVER (L(k := xs)) DelayedList)"
proof -
  have nk: "ReadyList q \<noteq> k" "DelayedList \<noteq> k" for q using k by auto
  have nr: "Link t \<notin> set (L (ReadyList q))" if "q < 32" for q
    using tasks_inv_ready_state [OF sched_inv_tasks [OF i] that, of t] run by auto
  show "p < 32 \<Longrightarrow> block_lists t v (L(k := xs)) (ReadyList p) = L (ReadyList p)"
    using nr nk by (simp add: block_lists_def removeAll_id)
  have "Link t \<notin> set (L j)" if "wait_head j" "j \<in> H" for j
    using shape_fits [OF sched_inv_shape [OF i] that(2), of "Link t"] that(1) by (cases j) auto
  moreover have "j \<noteq> DelayedList" if "wait_head j" for j using that by auto
  ultimately show "wait_head j \<Longrightarrow> j \<in> H \<Longrightarrow> j \<noteq> k \<Longrightarrow> block_lists t v (L(k := xs)) j = L j"
    by (simp add: block_lists_def removeAll_id)
  show "k \<in> H \<Longrightarrow> Link t \<notin> set xs \<Longrightarrow> block_lists t v (L(k := xs)) k = xs"
    using nk by (simp add: block_lists_def removeAll_id)
  show "Link x \<in> set (block_lists t v (L(k := xs)) DelayedList) \<Longrightarrow> x \<noteq> t \<Longrightarrow> Link x \<in> set (L DelayedList)"
    "Link t \<notin> set (block_lists t NIMBLE_WAIT_FOREVER (L(k := xs)) DelayedList)"
    using nk(2) by (auto simp: block_lists_def split: if_splits)
qed

text \<open>Blocking on an object that is not a mutex.\<close>

lemma inherit_blocked:
  assumes i: "sched_inv b {} H N L s" and J: "inherit_inv H N L s"
    and t: "nimble_current_tcb s = Some t" "task_state s t = NIMBLE_TASK_RUNNING" "owns_none H s t"
    and k: "wait_head k" "\<And>m. k \<noteq> MutexWaiters m"
    and f: "tcbs s' = (tcbs s)(t := (tcbs s t)\<lparr>tcb_state := NIMBLE_TASK_BLOCKED, tcb_wake_tick := w\<rparr>)"
      "mutexes s' = mutexes s" "nimble_current_tcb s' = nimble_current_tcb s"
    and B: "\<And>p. p < 32 \<Longrightarrow> bit (ready_bitmap s') p \<Longrightarrow>
         bit (ready_bitmap s) p \<and> (p = unat (task_priority s t) \<longrightarrow> L (ReadyList p) \<noteq> [])"
  shows "inherit_inv H N (block_lists t v (L(k := xs))) s'"
proof -
  let ?L = "block_lists t v (L(k := xs))"
  note J' = inherit_invD [OF J] and A = lists_after_block [OF i t(2) k(1)]
  have tN: "Link t \<in> N" by (rule tasks_inv_current [OF sched_inv_tasks [OF i] t(1)])
  have W: "?L (MutexWaiters m) = L (MutexWaiters m)" if "MutexWaiters m \<in> H" for m
    using A(2) [of "MutexWaiters m"] k(2) [of m] that by simp
  have ln: "lends H ?L s' x y = lends H L s x y" for x y using W f(2) by (auto simp: lends_def)
  have pr: "task_priority s' x = task_priority s x" "level s' x = level s x" for x
    by (simp_all add: f(1) level_def)
  have "x \<noteq> t" if "MutexWaiters m \<in> H" "EventLink x \<in> set (L (MutexWaiters m))" for m x
    using waiter_blocked(1) [OF i that] t(2) by auto
  then have D: "Link x \<notin> set (?L DelayedList)" if "MutexWaiters m \<in> H" "EventLink x \<in> set (?L (MutexWaiters m))" for m x
    using A(4) [of x] J'(6) [OF that(1)] that W by auto
  have R: "?L (ReadyList p) = L (ReadyList p)" if "p < 32" for p by (rule A(1) [OF that])
  have S: "prio_sorted (task_priority s') ts" if "MutexWaiters m \<in> H" "?L (MutexWaiters m) = map EventLink ts" for m ts
    using J'(5) [OF that(1)] that W by (simp add: pr)
  have P: "\<exists>y. lends H ?L s' y x \<and> level s y = unat (task_priority s' x)"
    "\<And>y. lends H ?L s' y x \<Longrightarrow> level s y \<le> unat (task_priority s' x)" if "Link x \<in> N" for x
    unfolding ln pr by (rule J'(1) [OF that], rule J'(2) [OF that])
  have o: "task_state s' x = task_state s x" if "x \<noteq> t" for x using that by (simp add: f(1))
  show ?thesis
    by (rule inherit_blocks [OF J t(1) tN t(3) pr(2) f(2,3) o _ P S D R B])
      (assumption | simp add: W del: fun_upd_apply)+
qed

section \<open>Locking and unlocking\<close>

text \<open>A free mutex is taken by a task that owns none.\<close>

lemma inherit_lock_free:
  assumes J: "inherit_inv H N L s" and mu: "mutex_inv H L s" "mutex_owner (mutexes s m) = None"
    and t: "can_run N s t" "owns_none H s t"
    and f: "mutexes s' = (mutexes s)(m := x)" "mutex_owner x = Some t" "tcbs s' = tcbs s"
      "nimble_current_tcb s' = nimble_current_tcb s" "ready_bitmap s' = ready_bitmap s"
  shows "inherit_inv H N L s'"
proof -
  note J' = inherit_invD [OF J]
  have e: "L (MutexWaiters m) = []" if "MutexWaiters m \<in> H" using mu that by (simp add: mutex_inv_def)
  have ln: "lends H L s' y z = lends H L s y z" for y z
    using e mu(2) unfolding lends_def f(1) by (metis fun_upd_apply empty_iff list.set(1) option.distinct(1))
  have l: "level s' y = level s y" "ahead L s' p y = ahead L s p y" "can_run N s' y = can_run N s y" for p y
    by (simp_all add: level_def ahead_def can_run_def f)
  show ?thesis
  proof (rule inherit_invI; (unfold ln l f(3,5))?)
    show "can_run N s y" if "MutexWaiters j \<in> H" "mutex_owner (mutexes s' j) = Some y" for j y
      using that t(1) J'(3) by (auto simp: f(1,2) split: if_splits)
    show "j = j'" if "MutexWaiters j \<in> H" "MutexWaiters j' \<in> H" "mutex_owner (mutexes s' j) = Some y"
      "mutex_owner (mutexes s' j') = Some y" for j j' y
      using that t(2) J'(4) [of j j'] by (auto simp: f(1,2) owns_none_def split: if_splits)
  qed (use J' in auto)
qed

text \<open>A contended mutex: the owner inherits, wherever it sits, and the task blocks without a timeout.\<close>

lemma lock_lends:
  assumes i: "sched_inv b {} H N L s" and run: "task_state s t = NIMBLE_TASK_RUNNING"
    and m: "MutexWaiters m \<in> H" "L (MutexWaiters m) = map EventLink ts" and o': "mutex_owner (mutexes s m) = Some o'"
    and f: "mutexes s' = mutexes s"
  defines "us \<equiv> prio_insert (task_priority (boost o' (task_priority s t) s)) t ts"
  defines "L' \<equiv> block_lists t NIMBLE_WAIT_FOREVER (L(MutexWaiters m := map EventLink us))"
  shows "MutexWaiters j \<in> H \<Longrightarrow> L' (MutexWaiters j) = (if j = m then map EventLink us else L (MutexWaiters j))"
    and "lends H L' s' y z \<longleftrightarrow> lends H L s y z \<or> y = t \<and> z = o'"
proof -
  have wk: "wait_head (MutexWaiters m)" by simp
  note A = lists_after_block [OF i run wk]
  have W: "L' (MutexWaiters j) = (if j = m then map EventLink us else L (MutexWaiters j))" if "MutexWaiters j \<in> H" for j
  proof (cases "j = m")
    case True
    have "Link t \<notin> set (map EventLink us)" by auto
    then show ?thesis using A(3) [OF m(1)] True unfolding L'_def by simp
  qed (use A(2) [of "MutexWaiters j"] that in \<open>simp add: L'_def\<close>)
  then show "MutexWaiters j \<in> H \<Longrightarrow> L' (MutexWaiters j) = (if j = m then map EventLink us else L (MutexWaiters j))" .
  have set: "set us = insert t (set ts)" unfolding us_def by (rule set_prio_insert)
  have mem: "EventLink y \<in> set (L' (MutexWaiters j)) \<longleftrightarrow> EventLink y \<in> set (L (MutexWaiters j)) \<or> y = t \<and> j = m"
    if "MutexWaiters j \<in> H" for j
    using W [OF that] set m(2) by auto
  show "lends H L' s' y z \<longleftrightarrow> lends H L s y z \<or> y = t \<and> z = o'"
    using mem m(1) o' unfolding lends_def f by fastforce
qed

lemma inherit_lock_blocks:
  assumes i: "sched_inv b {} H N L s" and J: "inherit_inv H N L s"
    and t: "nimble_current_tcb s = Some t" "task_state s t = NIMBLE_TASK_RUNNING" "owns_none H s t"
    and m: "MutexWaiters m \<in> H" "L (MutexWaiters m) = map EventLink ts"
    and o': "mutex_owner (mutexes s m) = Some o'"
    and f: "tcbs s' = (tcbs (boost o' (task_priority s t) s))
        (t := (tcbs s t)\<lparr>tcb_state := NIMBLE_TASK_BLOCKED, tcb_wake_tick := w\<rparr>)"
      "mutexes s' = mutexes s" "nimble_current_tcb s' = nimble_current_tcb s"
    and B: "\<And>p. p < 32 \<Longrightarrow> bit (ready_bitmap s') p \<Longrightarrow>
         bit (ready_bitmap s) p \<and> (p = unat (task_priority s t) \<longrightarrow> L (ReadyList p) \<noteq> [])"
  shows "inherit_inv H N (block_lists t NIMBLE_WAIT_FOREVER (L(MutexWaiters m :=
      map EventLink (prio_insert (task_priority (boost o' (task_priority s t) s)) t ts)))) s'"
proof -
  let ?k = "MutexWaiters m" and ?B = "boost o' (task_priority s t) s"
  let ?ts = "prio_insert (task_priority ?B) t ts"
  let ?L = "block_lists t NIMBLE_WAIT_FOREVER (L(?k := map EventLink ?ts))"
  note J' = inherit_invD [OF J] and W = lock_lends(1) [OF i t(2) m o' f(2)] and ln = lock_lends(2) [OF i t(2) m o' f(2)]
  have wk: "wait_head ?k" by simp
  note A = lists_after_block [OF i t(2) wk]
  have tN: "Link t \<in> N" by (rule tasks_inv_current [OF sched_inv_tasks [OF i] t(1)])
  have to: "o' \<noteq> t" using t(3) m(1) o' by (auto simp: owns_none_def)
  have lv: "level s' x = level s x" for x by (simp add: f(1) level_def)
  have pr: "task_priority s' x = (if x = o' then max (task_priority s t) (task_priority s o') else task_priority s x)" for x
    using to by (simp add: f(1))
  have lt: "level s t = unat (task_priority s t)" using level_prio [OF J t(3) tN] by simp
  have mx: "unat (max a c) = max (unat a) (unat c)" for a c :: u8
    by (simp add: max_def word_le_nat_alt)
  have P1: "\<exists>y. lends H ?L s' y x \<and> level s y = unat (task_priority s' x)" if x: "Link x \<in> N" for x
    using J'(1) [OF x] lt unfolding pr ln by (auto simp: mx max_def)
  have P2: "level s y \<le> unat (task_priority s' x)" if x: "Link x \<in> N" and y: "lends H ?L s' y x" for x y
    using J'(2) [OF x, of y] y lt unfolding pr ln by (auto simp: mx)
  have S: "prio_sorted (task_priority s') us" if j: "MutexWaiters j \<in> H" "?L (MutexWaiters j) = map EventLink us" for j us
  proof -
    have no: "x \<noteq> o'" if "EventLink x \<in> set (L (MutexWaiters j))" for x
      using blocked_owns_none [OF J waiter_blocked(1) [OF i j(1) that]] m(1) o' by (auto simp: owns_none_def)
    show ?thesis
    proof (cases "j = m")
      case True
      then have us: "us = ?ts" using j(2) W [OF j(1)] by (auto intro: map_injective simp: inj_def)
      have "prio_sorted (task_priority ?B) ts"
        by (subst prio_sorted_cong [where pr' = "task_priority s"]) (use no m(2) True J'(5) [OF m] in auto)
      then have "prio_sorted (task_priority ?B) ?ts" by (rule prio_sorted_insert)
      then show ?thesis unfolding us
        by (subst prio_sorted_cong [where pr' = "task_priority ?B"]) (use to in \<open>auto simp: f(1)\<close>)
    next
      case False
      then have L: "L (MutexWaiters j) = map EventLink us" using j W by simp
      show ?thesis
        by (subst prio_sorted_cong [where pr' = "task_priority s"]) (use no L J'(5) [OF j(1) L] in \<open>auto simp: pr\<close>)
    qed
  qed
  have mem: "EventLink x \<in> set (?L (MutexWaiters j)) \<longleftrightarrow> EventLink x \<in> set (L (MutexWaiters j)) \<or> x = t \<and> j = m"
    if "MutexWaiters j \<in> H" for j x
    using W [OF that] m(2) by auto
  have D: "Link x \<notin> set (?L DelayedList)" if j: "MutexWaiters j \<in> H" "EventLink x \<in> set (?L (MutexWaiters j))" for j x
    using mem [OF j(1)] j J'(6) [OF j(1)] A(4) [of x] A(5) by (cases "x = t") auto
  have st: "task_state s' x = task_state s x" if "x \<noteq> t" for x using that by (simp add: f(1))
  have W': "EventLink x \<in> set (?L (MutexWaiters j))" if "MutexWaiters j \<in> H" "EventLink x \<in> set (L (MutexWaiters j))" for j x
    using mem that by blast
  show ?thesis by (rule inherit_blocks [OF J t(1) tN t(3) lv f(2,3) st W' P1 P2 S D A(1) B])
qed

text \<open>The last unlock without a waiter: the owner already runs at its base priority.\<close>

lemma inherit_release:
  assumes J: "inherit_inv H N L s" and t: "Link t \<in> N"
    and m: "MutexWaiters m \<in> H" "mutex_owner (mutexes s m) = Some t" "L (MutexWaiters m) = []"
    and f: "tcbs s' = (tcbs s)(t := (tcbs s t)\<lparr>tcb_priority := tcb_base_priority (tcbs s t)\<rparr>)"
      "mutexes s' = (mutexes s)(m := x)" "mutex_owner x = None"
      "nimble_current_tcb s' = nimble_current_tcb s" "ready_bitmap s' = ready_bitmap s"
  shows "inherit_inv H N L s'"
proof -
  note J' = inherit_invD [OF J]
  have ln: "lends H L s' y z = lends H L s y z" for y z
    using m unfolding lends_def f(2) by (metis fun_upd_apply f(3) empty_iff list.set(1) option.distinct(1))
  have "lends H L s y t \<longleftrightarrow> y = t" for y
    unfolding lends_def using m J'(4) [OF _ m(1) _ m(2)] by (metis empty_iff list.set(1))
  then have "unat (task_priority s t) = level s t" using J'(1) [OF t] by auto
  then have p: "task_priority s' y = task_priority s y" for y by (simp add: f(1) level_def word_unat_eq_iff)
  have l: "level s' y = level s y" "ahead L s' q y = ahead L s q y" "can_run N s' y = can_run N s y" for q y
    by (auto simp: level_def ahead_def can_run_def f)
  show ?thesis
  proof (rule inherit_invI; (unfold ln l p f(5))?)
    show "can_run N s y" if "MutexWaiters j \<in> H" "mutex_owner (mutexes s' j) = Some y" for j y
      using that J'(3) by (auto simp: f(2,3) split: if_splits)
    show "j = j'" if "MutexWaiters j \<in> H" "MutexWaiters j' \<in> H" "mutex_owner (mutexes s' j) = Some y"
      "mutex_owner (mutexes s' j') = Some y" for j j' y
      using that J'(4) [of j j'] by (auto simp: f(2,3) split: if_splits)
  qed (use J' in auto)
qed

text \<open>The hand-off: the first waiter becomes ready at its own priority, the highest of those that wait.\<close>

lemma handoff_lists:
  assumes i: "sched_inv b {} H N L s" and J: "inherit_inv H N L s"
    and m: "MutexWaiters m \<in> H" "L (MutexWaiters m) = EventLink w # ws"
  defines "p \<equiv> unat (task_priority s w)"
  shows "task_state s w = NIMBLE_TASK_BLOCKED" "Link w \<in> N" "owns_none H s w" "p < 32" "p = level s w"
    and "MutexWaiters j \<in> H \<Longrightarrow> wake_lists p w L (MutexWaiters j) = (if j = m then ws else L (MutexWaiters j))"
    and "q < 32 \<Longrightarrow> Link w \<notin> set (L (ReadyList q)) \<and>
       wake_lists p w L (ReadyList q) = (if q = p then L (ReadyList q) @ [Link w] else L (ReadyList q))"
    and "EventLink y \<in> set ws \<Longrightarrow> level s y \<le> p"
proof -
  note sh = sched_inv_shape [OF i]
  have mw: "EventLink w \<in> set (L (MutexWaiters m))" using m(2) by simp
  note bl = waiter_blocked [OF i m(1) mw]
  show "task_state s w = NIMBLE_TASK_BLOCKED" "Link w \<in> N" by (fact bl)+
  show "p < 32" unfolding p_def by (rule sched_inv_prio [OF i bl(2)])
  show wn: "owns_none H s w" by (rule blocked_owns_none [OF J bl(1)])
  show "p = level s w" unfolding p_def by (rule level_prio [OF J wn bl(2)])
  have dist: "EventLink w \<notin> set ws" using repr_distinct [OF sched_inv_repr [OF i] m(1)] m(2) by simp
  show "wake_lists p w L (MutexWaiters j) = (if j = m then ws else L (MutexWaiters j))" if j: "MutexWaiters j \<in> H"
  proof -
    have "Link w \<notin> set (L (MutexWaiters j))" using shape_fits [OF sh j] by fastforce
    moreover have "EventLink w \<notin> set (L (MutexWaiters j))" if "j \<noteq> m"
      using event_list_unique [OF i m(1) j mw] that by auto
    ultimately show ?thesis using m(2) dist by (auto simp: wake_lists_def removeAll_id)
  qed
  show "Link w \<notin> set (L (ReadyList q)) \<and>
       wake_lists p w L (ReadyList q) = (if q = p then L (ReadyList q) @ [Link w] else L (ReadyList q))" if q: "q < 32"
  proof -
    have "Link w \<notin> set (L (ReadyList q))" using tasks_inv_ready_state [OF sched_inv_tasks [OF i] q, of w] bl(1) by auto
    moreover have "EventLink w \<notin> set (L (ReadyList q))"
      using shape_fits [OF sh, of "ReadyList q"] shape_ready [OF sh] q by fastforce
    ultimately show ?thesis by (auto simp: wake_lists_def removeAll_id)
  qed
  show "level s y \<le> p" if y: "EventLink y \<in> set ws"
  proof -
    have "EventLink y \<in> set (L (MutexWaiters m))" using y m(2) by simp
    note by' = waiter_blocked [OF i m(1) this]
    obtain us where us: "L (MutexWaiters m) = map EventLink us" using wait_links [OF sh m(1)] by auto
    then obtain vs where "us = w # vs" "y \<in> set vs" using m(2) y by (cases us) auto
    then have "task_priority s y \<le> task_priority s w" using prio_sorted_head inherit_invD(5) [OF J m(1) us] by blast
    then show ?thesis using level_prio [OF J blocked_owns_none [OF J by'(1)] by'(2)] by (simp add: p_def word_le_nat_alt)
  qed
qed

text \<open>Who lends to whom then: nobody to \<open>t\<close> any more, the rest of the waiters to \<open>w\<close>.\<close>

lemma handoff_lends:
  assumes i: "sched_inv b {} H N L s" and J: "inherit_inv H N L s" and wt: "w \<noteq> t"
    and m: "MutexWaiters m \<in> H" "mutex_owner (mutexes s m) = Some t" "L (MutexWaiters m) = EventLink w # ws"
    and f: "mutexes s' = (mutexes s)(m := x)" "mutex_owner x = Some w"
  defines "L' \<equiv> wake_lists (unat (task_priority s w)) w L"
  shows "MutexWaiters j \<in> H \<Longrightarrow> mutex_owner (mutexes s' j) = Some y \<longleftrightarrow>
      (if y = t then False else if y = w then j = m else j \<noteq> m \<and> mutex_owner (mutexes s j) = Some y)"
    and "lends H L' s' y t \<longleftrightarrow> y = t" "lends H L' s' y w \<longleftrightarrow> y = w \<or> EventLink y \<in> set ws"
    and "z \<noteq> t \<Longrightarrow> z \<noteq> w \<Longrightarrow> lends H L' s' y z \<longleftrightarrow> lends H L s y z"
proof -
  note hl = handoff_lists [OF i J m(1,3), folded L'_def] and J' = inherit_invD [OF J]
  have ow: "mutex_owner (mutexes s' j) = Some y \<longleftrightarrow>
      (if y = t then False else if y = w then j = m else j \<noteq> m \<and> mutex_owner (mutexes s j) = Some y)"
    if j: "MutexWaiters j \<in> H" for j y
  proof (cases "j = m")
    case True
    then show ?thesis using wt by (auto simp: f)
  next
    case False
    have "mutex_owner (mutexes s j) \<noteq> Some t" using J'(4) [OF j m(1) _ m(2)] False by blast
    moreover have "mutex_owner (mutexes s j) \<noteq> Some w" using hl(3) j by (simp add: owns_none_def)
    ultimately show ?thesis using False by (auto simp: f(1))
  qed
  then show "MutexWaiters j \<in> H \<Longrightarrow> mutex_owner (mutexes s' j) = Some y \<longleftrightarrow>
      (if y = t then False else if y = w then j = m else j \<noteq> m \<and> mutex_owner (mutexes s j) = Some y)" .
  show "lends H L' s' y t \<longleftrightarrow> y = t" using ow by (auto simp: lends_def)
  show "lends H L' s' y w \<longleftrightarrow> y = w \<or> EventLink y \<in> set ws" using ow [of _ w] wt m(1) hl(6) by (auto simp: lends_def)
  assume z: "z \<noteq> t" "z \<noteq> w"
  then have "mutex_owner (mutexes s m) \<noteq> Some z" using m(2) by simp
  then show "lends H L' s' y z \<longleftrightarrow> lends H L s y z" using ow [of _ z] z hl(6) unfolding lends_def by metis
qed

text \<open>A bit that is left over still belongs to a task that is chosen first: \<open>t\<close> runs, \<open>w\<close> is more urgent.\<close>

lemma handoff_bits:
  assumes i: "sched_inv b {} H N L s" and J: "inherit_inv H N L s"
    and t: "nimble_current_tcb s = Some t" "task_state s t = NIMBLE_TASK_RUNNING" "w \<noteq> t"
    and m: "MutexWaiters m \<in> H" "mutex_owner (mutexes s m) = Some t" "L (MutexWaiters m) = EventLink w # ws"
    and f: "mutexes s' = (mutexes s)(m := x)" "mutex_owner x = Some w"
      "nimble_current_tcb s' = nimble_current_tcb s" "task_state s' t = NIMBLE_TASK_RUNNING"
      "ready_bitmap s' = ready_bitmap s OR bit_mask (unat (task_priority s w))"
  defines "L' \<equiv> wake_lists (unat (task_priority s w)) w L"
  assumes q: "q < 32" "bit (ready_bitmap s') q" "L' (ReadyList q) = []"
  shows "\<exists>y z. level s y = q \<and> lends H L' s' y z \<and> ahead L' s' q z"
proof -
  note hl = handoff_lists [OF i J m(1,3), folded L'_def] and ln = handoff_lends [OF i J t(3) m f(1,2), folded L'_def]
  let ?p = "unat (task_priority s w)"
  have ne: "q \<noteq> ?p" and e: "L (ReadyList q) = []" using q(3) hl(7) [OF q(1)] by (auto split: if_splits)
  then have "bit (ready_bitmap s) q" using q(2) hl(4) by (simp add: f(5) bit_set_mask)
  then obtain y z where y: "level s y = q" "lends H L s y z" "ahead L s q z" using inherit_invD(8) [OF J q(1)] e by blast
  show ?thesis
  proof (cases "z = t")
    case True
    have run: "ahead L' s' q t" using t f by (simp add: ahead_def)
    consider "y = t" | "EventLink y \<in> set (L (MutexWaiters m))"
      using y(2) True inherit_invD(4) [OF J _ m(1) _ m(2)] by (auto simp: lends_def)
    then show ?thesis
    proof cases
      case 1
      then show ?thesis using run ln(2) y(1) by blast
    next
      case 2
      then have ys: "EventLink y \<in> set ws" using m(3) y(1) hl(5) ne by auto
      then have "q < ?p" using hl(8) y(1) ne by fastforce
      then have "ahead L' s' q w" using hl(4) hl(7) [OF hl(4)] by (auto simp: ahead_def)
      then show ?thesis using ln(3) ys y(1) by blast
    qed
  next
    case False
    then obtain r where r: "q < r" "r < 32" "Link z \<in> set (L (ReadyList r))" using y(3) t(1) by (auto simp: ahead_def)
    then have "z \<noteq> w" using hl(7) [OF r(2)] by blast
    moreover have "ahead L' s' q z" using r hl(7) [OF r(2)] by (auto simp: ahead_def)
    ultimately show ?thesis using ln(4) [OF False] y by blast
  qed
qed

lemma inherit_handoff:
  assumes i: "sched_inv b {} H N L s" and J: "inherit_inv H N L s"
    and t: "nimble_current_tcb s = Some t" "task_state s t = NIMBLE_TASK_RUNNING"
    and m: "MutexWaiters m \<in> H" "mutex_owner (mutexes s m) = Some t" "L (MutexWaiters m) = EventLink w # ws"
    and f: "tcbs s' = (tcbs s)(t := (tcbs s t)\<lparr>tcb_priority := tcb_base_priority (tcbs s t)\<rparr>,
        w := (tcbs s w)\<lparr>tcb_last_wait_result := NIMBLE_OK, tcb_state := NIMBLE_TASK_READY\<rparr>)"
      "mutexes s' = (mutexes s)(m := x)" "mutex_owner x = Some w"
      "nimble_current_tcb s' = nimble_current_tcb s"
      "ready_bitmap s' = ready_bitmap s OR bit_mask (unat (task_priority s w))"
  shows "inherit_inv H N (wake_lists (unat (task_priority s w)) w L) s'"
proof -
  let ?L = "wake_lists (unat (task_priority s w)) w L"
  note J' = inherit_invD [OF J] and hl = handoff_lists [OF i J m(1,3)]
  have wt: "w \<noteq> t" using hl(1) t(2) by auto
  note ln = handoff_lends [OF i J wt m f(2,3)]
  have lv: "level s' y = level s y" for y by (simp add: f(1) level_def)
  have pr: "task_priority s' y = (if y = t then tcb_base_priority (tcbs s t) else task_priority s y)" for y
    using wt by (simp add: f(1))
  have st: "task_state s' t = NIMBLE_TASK_RUNNING" using wt t(2) by (simp add: f(1))
  show ?thesis
  proof (rule inherit_invI; (unfold lv)?)
    show "\<exists>z. lends H ?L s' z y \<and> level s z = unat (task_priority s' y)" if "Link y \<in> N" for y
      using J'(1) [OF that] ln(4) [of y] ln(2,3) hl(5) wt unfolding pr by (cases "y = t"; cases "y = w") (auto simp: level_def)
    show "level s z \<le> unat (task_priority s' y)" if "Link y \<in> N" "lends H ?L s' z y" for y z
      using J'(2) [OF that(1)] that(2) ln(4) [of y] ln(2,3) hl(5,8) wt unfolding pr
      by (cases "y = t"; cases "y = w") (auto simp: level_def)
    show "can_run N s' y" if "MutexWaiters j \<in> H" "mutex_owner (mutexes s' j) = Some y" for j y
      using that ln(1) [OF that(1), of y] J'(3) [OF that(1), of y] hl(2) by (auto simp: can_run_def f(1) split: if_splits)
    show "j = j'" if "MutexWaiters j \<in> H" "MutexWaiters j' \<in> H" "mutex_owner (mutexes s' j) = Some y"
      "mutex_owner (mutexes s' j') = Some y" for j j' y
      using that ln(1) J'(4) [of j j' y] by (auto split: if_splits)
  next
    fix j us assume j: "MutexWaiters j \<in> H" "?L (MutexWaiters j) = map EventLink us"
    define vs where "vs = (if j = m then w # us else us)"
    have "L (MutexWaiters j) = map EventLink vs" using j hl(6) [OF j(1)] m(3) by (simp add: vs_def split: if_splits)
    moreover have "EventLink t \<notin> set (L (MutexWaiters j))" using waiter_blocked(1) [OF i j(1), of t] t(2) by auto
    ultimately have "prio_sorted (task_priority s) us" "t \<notin> set us"
      using J'(5) [OF j(1), of vs] by (auto simp: vs_def prio_sorted_Cons split: if_splits)
    then show "prio_sorted (task_priority s') us"
      by (subst prio_sorted_cong [where pr' = "task_priority s"]) (auto simp: pr)
  next
    fix j y assume j: "MutexWaiters j \<in> H" "EventLink y \<in> set (?L (MutexWaiters j))"
    then have "EventLink y \<in> set (L (MutexWaiters j))" using hl(6) [OF j(1)] m(3) by (auto split: if_splits)
    then show "Link y \<notin> set (?L DelayedList)" using J'(6) [OF j(1)] by (auto simp: wake_lists_def)
  next
    fix q y assume q: "q < 32" "Link y \<in> set (?L (ReadyList q))"
    show "\<exists>z. lends H ?L s' z y \<and> level s z = q"
    proof (cases "y = w")
      case True
      then show ?thesis using q hl(5) hl(7) [OF q(1)] ln(3) by (auto split: if_splits)
    next
      case False
      then have yq: "Link y \<in> set (L (ReadyList q))" using q hl(7) [OF q(1)] by (auto split: if_splits)
      then have "y \<noteq> t" using tasks_inv_ready_state [OF sched_inv_tasks [OF i] q(1), of y] t(2) by auto
      then show ?thesis using J'(7) [OF q(1) yq] ln(4) [of y] False by simp
    qed
  next
    fix q assume "q < 32" "bit (ready_bitmap s') q" "?L (ReadyList q) = []"
    then show "\<exists>y z. level s y = q \<and> lends H ?L s' y z \<and> ahead ?L s' q z"
      by (rule handoff_bits [OF i J t wt m f(2,3,4) st f(5)])
  qed
qed

section \<open>The context switch\<close>

lemma inherit_inv_same:
  assumes "\<And>t. task_priority s' t = task_priority s t" "\<And>t. task_state s' t = task_state s t"
    "\<And>t. tcb_base_priority (tcbs s' t) = tcb_base_priority (tcbs s t)"
    "mutexes s' = mutexes s" "nimble_current_tcb s' = nimble_current_tcb s" "ready_bitmap s' = ready_bitmap s"
  shows "inherit_inv H N L s' = inherit_inv H N L s"
proof -
  have "lends H L s' = lends H L s" "level s' = level s" "ahead L s' = ahead L s" "can_run N s' = can_run N s"
    using assms by (auto simp: lends_def level_def ahead_def can_run_def fun_eq_iff)
  then show ?thesis unfolding inherit_inv_def assms by simp
qed

lemma requeue_bits:
  assumes i: "sched_inv b {} H N L s" and s1: "requeue_current s = Some s1" and p: "p < 32" "bit (ready_bitmap s1) p"
  shows "bit (ready_bitmap s) p \<or> requeue_lists s L (ReadyList p) \<noteq> []"
proof (cases "\<exists>c. nimble_current_tcb s = Some c \<and> task_state s c = NIMBLE_TASK_RUNNING")
  case True
  then obtain c where c: "nimble_current_tcb s = Some c" "task_state s c = NIMBLE_TASK_RUNNING" by blast
  have "Link c \<in> N" by (rule tasks_inv_current [OF sched_inv_tasks [OF i] c(1)])
  then have c32: "unat (task_priority s c) < 32" by (rule sched_inv_prio [OF i])
  have "nimble_scheduler_add_ready c s = Some s1" using s1 c by (simp add: requeue_current_def)
  then show ?thesis using add_ready_bits p(2) c c32 by (auto simp: requeue_lists_def bit_set_mask)
next
  case False
  then have "s1 = s" using s1 by (auto simp: requeue_current_def split: option.splits)
  then show ?thesis using p(2) by simp
qed

text \<open>After the running task has been put back, a task that is ahead of \<open>p\<close> is on a list above \<open>p\<close>, or \<open>p\<close> has a list.\<close>

lemma ahead_requeued:
  assumes i: "sched_inv b {} H N L s" and J: "inherit_inv H N L s"
    and x: "level s x = p" "lends H L s x t" "ahead L s p t" and e: "requeue_lists s L (ReadyList p) = []"
  obtains q where "p < q" "q < 32" "Link t \<in> set (requeue_lists s L (ReadyList q))"
proof (cases "nimble_current_tcb s = Some t \<and> task_state s t = NIMBLE_TASK_RUNNING")
  case True
  let ?q = "unat (task_priority s t)"
  have tN: "Link t \<in> N" using tasks_inv_current [OF sched_inv_tasks [OF i]] True by blast
  have q: "?q < 32" "Link t \<in> set (requeue_lists s L (ReadyList ?q))"
    using sched_inv_prio [OF i tN] True by (simp_all add: requeue_lists_def)
  moreover have "p \<le> ?q" using inherit_invD(2) [OF J tN x(2)] x(1) by simp
  moreover have "p \<noteq> ?q" using e q(2) by auto
  ultimately show thesis using that [of ?q] by simp
next
  case False
  then obtain q where "p < q" "q < 32" "Link t \<in> set (L (ReadyList q))" using x(3) by (auto simp: ahead_def)
  moreover then have "Link t \<in> set (requeue_lists s L (ReadyList q))"
    by (auto simp: requeue_lists_def split: option.splits)
  ultimately show thesis using that by blast
qed

text \<open>So the highest bit always has a list: \<^verbatim>\<open>nimble_scheduler_select_next\<close> finds a task.\<close>

lemma select_defined:
  assumes i: "sched_inv b {} H N L s" and J: "inherit_inv H N L s"
    and run: "\<exists>p<32. requeue_lists s L (ReadyList p) \<noteq> []"
  shows "nimble_scheduler_select_next s \<noteq> None"
proof -
  let ?L = "requeue_lists s L"
  obtain s1 where s1: "requeue_current s = Some s1" and i1: "sched_inv b {} H N ?L s1"
    using requeue_current_inv [OF i] by blast
  note bm = sched_inv_bitmap [OF i1] and sh = sched_inv_shape [OF i1]
  have "ready_bitmap s1 \<noteq> 0" using run bitmap_nonzero [OF bm] by blast
  then obtain w where w: "highest_set_bit (ready_bitmap s1) = Some w" "unat w < 32"
      "bit (ready_bitmap s1) (unat w)" and max: "\<And>j. bit (ready_bitmap s1) j \<Longrightarrow> j \<le> unat w"
    by (rule highest_set_bit_max) blast
  have h: "ReadyList (unat w) \<in> H" using sh w(2) by (simp add: shape_ready)
  have ne: "?L (ReadyList (unat w)) \<noteq> []"
  proof
    assume e: "?L (ReadyList (unat w)) = []"
    then have "bit (ready_bitmap s) (unat w)" using requeue_bits [OF i s1 w(2,3)] by blast
    moreover have "L (ReadyList (unat w)) = []" using e by (auto simp: requeue_lists_def split: option.splits if_splits)
    ultimately obtain x t where x: "level s x = unat w" "lends H L s x t" "ahead L s (unat w) t"
      using inherit_invD(8) [OF J w(2)] by blast
    obtain q where q: "unat w < q" "q < 32" "Link t \<in> set (?L (ReadyList q))" by (rule ahead_requeued [OF i J x e])
    then have "?L (ReadyList q) \<noteq> []" by (metis empty_iff list.set(1))
    then have "bit (ready_bitmap s1) q" by (rule bitmap_inv_set [OF bm q(2)])
    then show False using max q(1) by fastforce
  qed
  obtain n ns where n: "?L (ReadyList (unat w)) = Link n # ns" using ready_head_link [OF sh w(2) ne] by blast
  have nN: "Link n \<in> N" using repr_member [OF sched_inv_repr [OF i1] h] n by simp
  have "node_next (heap s1) (ReadyList (unat w)) = Link n" using repr_next_head [OF sched_inv_repr [OF i1] h] n by simp
  moreover obtain s2 where "nimble_scheduler_remove n s1 = Some s2"
    using sched_inv_prio [OF i1 nN] by (simp add: remove_eq)
  ultimately show ?thesis using s1 w(1) by (simp add: nimble_scheduler_select_next_def)
qed

lemma select_bits:
  assumes i: "sched_inv b {} H N L s" and s': "nimble_scheduler_select_next s = Some (n, s')"
    and p: "p < 32" "bit (ready_bitmap s') p"
  shows "bit (ready_bitmap s) p \<or> requeue_lists s L (ReadyList p) \<noteq> []"
proof -
  obtain s1 s2 where s1: "requeue_current s = Some s1" and s2: "nimble_scheduler_remove n s1 = Some s2"
    and b: "ready_bitmap s' = ready_bitmap s2"
    using s' by (auto simp: nimble_scheduler_select_next_def Let_def update_tcb_def split: bind_splits)
  have "bit (ready_bitmap s1) p"
    using s2 p(2) b by (auto simp: nimble_scheduler_remove_def Let_def kdefs bit_clear_mask split: if_splits)
  then show ?thesis by (rule requeue_bits [OF i s1 p(1)])
qed

lemma inherit_switch:
  assumes i: "sched_inv b {} H N L s" and J: "inherit_inv H N L s"
    and h: "h < 32" "requeue_lists s L (ReadyList h) = Link n # ns"
    and f: "\<And>t. task_priority s' t = task_priority s t" "\<And>t. tcb_base_priority (tcbs s' t) = tcb_base_priority (tcbs s t)"
      "\<And>t. task_state s' t = (if t = n then NIMBLE_TASK_RUNNING
          else if nimble_current_tcb s = Some t \<and> task_state s t = NIMBLE_TASK_RUNNING then NIMBLE_TASK_READY
          else task_state s t)"
      "mutexes s' = mutexes s" "nimble_current_tcb s' = Some n"
    and B: "\<And>p. p < 32 \<Longrightarrow> bit (ready_bitmap s') p \<Longrightarrow> bit (ready_bitmap s) p \<or> requeue_lists s L (ReadyList p) \<noteq> []"
  shows "inherit_inv H N (delist (Link n) (requeue_lists s L)) s'"
proof -
  let ?R = "requeue_lists s L" and ?L = "delist (Link n) (requeue_lists s L)"
  note J' = inherit_invD [OF J]
  have W: "?L (MutexWaiters m) = L (MutexWaiters m)" if "MutexWaiters m \<in> H" for m
  proof -
    have "Link n \<notin> set (L (MutexWaiters m))" using shape_fits [OF sched_inv_shape [OF i] that] by fastforce
    then show ?thesis by (simp add: requeue_lists_def removeAll_id split: option.splits)
  qed
  have D: "Link t \<in> set (L DelayedList)" if "Link t \<in> set (?L DelayedList)" for t
    using that by (auto simp: requeue_lists_def split: option.splits if_splits)
  have ln: "lends H ?L s' x t = lends H L s x t" for x t unfolding lends_def f(4) using W by metis
  have lv: "level s' t = level s t" for t by (simp add: level_def f(2))
  have run: "ahead ?L s' p n" for p by (simp add: ahead_def f(3,5))
  have still: "ahead ?L s' p t" if "p < q" "q < 32" "Link t \<in> set (?R (ReadyList q))" for p q t
    using that run by (cases "t = n") (auto simp: ahead_def)
  have listed: "\<exists>x. lends H L s x t \<and> level s x = p" if p: "p < 32" "Link t \<in> set (?R (ReadyList p))" for p t
  proof (cases "Link t \<in> set (L (ReadyList p))")
    case False
    then have c: "nimble_current_tcb s = Some t" "p = unat (task_priority s t)"
      using p(2) by (auto simp: requeue_lists_def split: option.splits if_splits)
    have "Link t \<in> N" by (rule tasks_inv_current [OF sched_inv_tasks [OF i] c(1)])
    then show ?thesis using J'(1) c(2) by simp
  qed (use J'(7) p(1) in blast)
  show ?thesis
  proof (rule inherit_invI; (unfold ln lv f(1,4))?)
    fix p t assume "p < 32" "Link t \<in> set (?L (ReadyList p))"
    then show "\<exists>x. lends H L s x t \<and> level s x = p" using listed by simp
  next
    fix p assume p: "p < 32" "bit (ready_bitmap s') p" "?L (ReadyList p) = []"
    show "\<exists>x t. level s x = p \<and> lends H L s x t \<and> ahead ?L s' p t"
    proof (cases "?R (ReadyList p) = []")
      case True
      then have "L (ReadyList p) = []" by (auto simp: requeue_lists_def split: option.splits if_splits)
      then obtain x t where x: "level s x = p" "lends H L s x t" "ahead L s p t"
        using B [OF p(1,2)] J'(8) [OF p(1)] True by blast
      obtain q where "p < q" "q < 32" "Link t \<in> set (?R (ReadyList q))" by (rule ahead_requeued [OF i J x True])
      then show ?thesis using x still by blast
    next
      case False
      then obtain y where "y \<in> set (?R (ReadyList p))" by (meson last_in_set)
      moreover then have "y = Link n" using p(3) by (auto simp: removeAll_filter_not_eq filter_empty_conv)
      ultimately show ?thesis using listed [OF p(1)] run by blast
    qed
  next
    fix m t assume "MutexWaiters m \<in> H" "mutex_owner (mutexes s m) = Some t"
    then have "can_run N s t" by (rule J'(3))
    then show "can_run N s' t" by (auto simp: can_run_def f(3))
  next
    fix m ts assume "MutexWaiters m \<in> H" "?L (MutexWaiters m) = map EventLink ts"
    then show "prio_sorted (task_priority s) ts" using J'(5) W by simp
  next
    fix m x assume m: "MutexWaiters m \<in> H" "EventLink x \<in> set (?L (MutexWaiters m))"
    then have "EventLink x \<in> set (L (MutexWaiters m))" unfolding W [OF m(1)] by simp
    then show "Link x \<notin> set (?L DelayedList)" using J'(6) [OF m(1)] D by blast
  qed (use J' in auto)
qed

lemma switch_inherits:
  assumes inv: "sys_inv b H N (s, c)" and J: "inherits H N s"
  shows "\<exists>s'. PendSV_Handler s = Some s' \<and> inherits H N s'"
proof -
  obtain L where i: "sched_inv b {} H N L s" and o: "objs_inv H N L c s" using inv by (rule sys_invE)
  have idle: "can_run N s idle_tcb" using objs_invD(7) [OF o] by (simp add: idle_inv_def)
  note run = runnable_listed [OF i idle]
  have JL: "inherit_inv H N L s" by (rule inheritsD [OF J i])
  let ?s = "switch_out s"
  have so: "mutexes ?s = mutexes s" "ready_bitmap ?s = ready_bitmap s"
    "tcb_base_priority (tcbs ?s t) = tcb_base_priority (tcbs s t)" for t
    by (auto simp: switch_out_def update_tcb_def store_r4_r11_def split: option.splits)
  have J1: "inherit_inv H N L ?s" using JL by (subst inherit_inv_same) (simp_all add: so)
  have L: "requeue_lists ?s L = requeue_lists s L" by (rule requeue_lists_cong) simp_all
  have i1: "sched_inv b {} H N L ?s" using i by simp
  have sel0: "nimble_scheduler_select_next ?s \<noteq> None" by (rule select_defined [OF i1 J1]) (simp add: L run)
  then obtain n1 s1 where "nimble_scheduler_select_next ?s = Some (n1, s1)" by auto
  moreover from this have "nimble_next_tcb s1 = Some n1"
    by (auto simp: nimble_scheduler_select_next_def Let_def split: bind_splits)
  ultimately have ok: "b \<or> PendSV_Handler s \<noteq> None"
    by (auto simp: PendSV_Handler_def switch_out_def Let_def split: option.splits)
  obtain n p ns s1 s' where h: "PendSV_Handler s = Some s'"
    and sel: "nimble_scheduler_select_next ?s = Some (n, s1)"
    and top: "top_ready (requeue_lists s L) p" "requeue_lists s L (ReadyList p) = Link n # ns"
    and i': "sched_inv b {} H N (delist (Link n) (requeue_lists s L)) s'"
    and f': "s' = (load_r4_r11 (tcb_sp (tcbs s1 n)) (s1\<lparr>nimble_current_tcb := Some n\<rparr>))
            \<lparr>psp := tcb_sp (tcbs s1 n) + 32\<rparr>"
    using PendSV_inv [OF i ok run] by blast
  have ok': "b \<or> nimble_scheduler_select_next ?s \<noteq> None" using sel by simp
  obtain f: "s1 = ?s\<lparr>tcbs := \<lambda>t. if t = n then (tcbs ?s t)\<lparr>tcb_state := NIMBLE_TASK_RUNNING\<rparr>
                       else if nimble_current_tcb ?s = Some t \<and> task_state ?s t = NIMBLE_TASK_RUNNING
                       then (tcbs ?s t)\<lparr>tcb_state := NIMBLE_TASK_READY\<rparr> else tcbs ?s t,
            nimble_next_tcb := Some n, heap := heap s1, ready_bitmap := ready_bitmap s1\<rparr>"
    using select_next_inv [OF i1 ok'] run sel unfolding L by auto
  have s1: "mutexes s1 = mutexes ?s" "tcbs s1 = (\<lambda>t. if t = n then (tcbs ?s t)\<lparr>tcb_state := NIMBLE_TASK_RUNNING\<rparr>
                       else if nimble_current_tcb ?s = Some t \<and> task_state ?s t = NIMBLE_TASK_RUNNING
                       then (tcbs ?s t)\<lparr>tcb_state := NIMBLE_TASK_READY\<rparr> else tcbs ?s t)"
    by (subst f, simp)+
  have e: "tcbs s' = tcbs s1" "mutexes s' = mutexes s1" "nimble_current_tcb s' = Some n" "ready_bitmap s' = ready_bitmap s1"
    by (simp_all add: f' load_r4_r11_def)
  have "inherit_inv H N (delist (Link n) (requeue_lists ?s L)) s'"
    by (rule inherit_switch [OF i1 J1, of p n ns])
      (use top select_bits [OF i1 sel] in \<open>auto simp: L e s1 top_ready_def\<close>)
  then show ?thesis using h i' inheritsI unfolding L by blast
qed

section \<open>The tick\<close>

lemma tick_wake_bits:
  "tick_wake t s = Some s' \<Longrightarrow> ready_bitmap s' = ready_bitmap s OR bit_mask (unat (task_priority s t))"
  by (auto simp: tick_wake_def Let_def kdefs dest!: add_ready_bits)

lemma tick_scan_bits:
  assumes "sched_inv b {} H N L s" "L DelayedList = map Link (done @ todo)"
    and "tick_scan (hd (map Link todo @ [DelayedList])) s = Some s'" "bit (ready_bitmap s') p"
  shows "bit (ready_bitmap s) p \<or> (\<exists>t\<in>set todo. tick_due s t \<and> unat (task_priority s t) = p)"
  using assms
proof (induction todo arbitrary: "done" L s)
  case Nil
  from Nil.prems(3,4) show ?case by (simp add: tick_scan.simps)
next
  case (Cons t todo)
  note inv = Cons.prems(1)
  have r: "repr H N L (heap s)" and dl: "DelayedList \<in> H"
    using inv by (auto intro: sched_inv_repr shape_delayed sched_inv_shape)
  have dist: "distinct (done @ t # todo)" using repr_distinct [OF r dl] Cons.prems(2) by (auto simp: distinct_map)
  have m: "Link t \<in> set (L DelayedList)" using Cons.prems(2) by simp
  have tN: "Link t \<in> N" by (rule repr_member [OF r dl m])
  have nx: "node_next (heap s) (Link t) = hd (map Link todo @ [DelayedList])"
    using repr_next_member [OF r dl, of "map Link done" "Link t" "map Link todo"] Cons.prems(2) by simp
  show ?case
  proof (cases "tick_due s t")
    case True
    obtain s1 where s1: "tick_wake t s = Some s1"
      and i1: "sched_inv b {} H N (wake_lists (unat (task_priority s t)) t L) s1"
      and f1: "s1 = s\<lparr>tcbs := (tcbs s)(t := timed_out (tcbs s t)), heap := heap s1, ready_bitmap := ready_bitmap s1\<rparr>"
      using tick_wake_inv [OF inv m] unfolding timed_out_def by auto
    have tc: "tcbs s1 = (tcbs s)(t := timed_out (tcbs s t))" "g_tick_count s1 = g_tick_count s"
      by (subst f1; simp)+
    have due: "tick_due s1 = tick_due s" by (auto simp: fun_eq_iff tick_due_def tc)
    have pr: "task_priority s1 y = task_priority s y" for y by (simp add: tc)
    have d: "wake_lists (unat (task_priority s t)) t L DelayedList = map Link (done @ todo)"
      using dist Cons.prems(2) by (simp add: wake_lists_delayed flip: map_append)
    have "tick_scan (hd (map Link todo @ [DelayedList])) s1 = Some s'"
      using Cons.prems(3) nx s1 True by (simp add: tick_scan.simps [of "Link t"])
    from Cons.IH [OF i1 d this Cons.prems(4)]
    consider "bit (ready_bitmap s1) p" | "\<exists>y\<in>set todo. tick_due s y \<and> unat (task_priority s y) = p"
      unfolding due pr by blast
    then show ?thesis
    proof cases
      case 1
      then show ?thesis using tick_wake_bits [OF s1] bit_set_mask [OF sched_inv_prio [OF inv tN]] True by auto
    qed auto
  next
    case False
    have d: "L DelayedList = map Link ((done @ [t]) @ todo)" using Cons.prems(2) by simp
    have "tick_scan (hd (map Link todo @ [DelayedList])) s = Some s'"
      using Cons.prems(3) nx False by (simp add: tick_scan.simps [of "Link t"])
    from Cons.IH [OF inv d this Cons.prems(4)] show ?thesis by auto
  qed
qed

lemma tick_inherits:
  assumes inv: "sys_inv b H N (s, c)" and J: "inherits H N s" and s': "SysTick_Handler s = Some s'"
  shows "inherits H N s'"
proof -
  obtain L where i: "sched_inv b {} H N L s" using inv by (rule sys_invE)
  have JL: "inherit_inv H N L s" by (rule inheritsD [OF J i])
  note sh = sched_inv_shape [OF i]
  obtain ts where ts: "L DelayedList = map Link ts" using delayed_links [OF sh] by blast
  let ?due = "tick_due (s\<lparr>g_tick_count := g_tick_count s + 1\<rparr>)"
  have i': "sched_inv b {} H N (tick_lists s ts L) s'"
    and f: "s' = s\<lparr>g_tick_count := g_tick_count s + 1, pendsv := True,
            tcbs := \<lambda>t. if t \<in> set ts \<and> ?due t then timed_out (tcbs s t) else tcbs s t,
            heap := heap s', ready_bitmap := ready_bitmap s'\<rparr>"
    using SysTick_inv [OF i ts] s' by auto
  let ?L = "tick_lists s ts L"
  have tc: "tcbs s' = (\<lambda>t. if t \<in> set ts \<and> ?due t then timed_out (tcbs s t) else tcbs s t)"
    "mutexes s' = mutexes s" "nimble_current_tcb s' = nimble_current_tcb s" by (subst f, simp)+
  have mem: "Link t \<in> N \<and> task_state s t = NIMBLE_TASK_BLOCKED" if "t \<in> set ts" for t
    using that ts repr_member [OF sched_inv_repr [OF i] shape_delayed [OF sh], of "Link t"]
      tasks_inv_delayed [OF sched_inv_tasks [OF i], of t] by simp
  have dist: "distinct ts" using repr_distinct [OF sched_inv_repr [OF i] shape_delayed [OF sh]] ts by (simp add: distinct_map)
  have R: "?L (ReadyList p) = L (ReadyList p) @ map Link (filter (\<lambda>t. unat (task_priority s t) = p) (filter ?due ts))"
    if p: "p < 32" for p
    unfolding tick_lists_def
  proof (rule wake_all_ready)
    show "Link t \<notin> set (L (ReadyList p))" if "t \<in> set (filter ?due ts)" for t
      using mem [of t] that tasks_inv_ready_state [OF sched_inv_tasks [OF i] p, of t] by auto
    show "EventLink t \<notin> set (L (ReadyList p))" for t
      using shape_fits [OF sh, of "ReadyList p"] shape_ready [OF sh] p by fastforce
  qed (use dist in simp)
  have W: "?L (MutexWaiters m) = L (MutexWaiters m)" if m: "MutexWaiters m \<in> H" for m
  proof -
    have "n \<notin> Link ` A \<and> n \<notin> EventLink ` set (filter ?due ts)" if n: "n \<in> set (L (MutexWaiters m))" for n A
    proof -
      obtain x where x: "n = EventLink x" using shape_fits [OF sh m n] by (cases n) auto
      then have "x \<notin> set ts" using inherit_invD(6) [OF JL m, of x] n ts by auto
      then show ?thesis using x by auto
    qed
    then show ?thesis unfolding tick_lists_def by (subst wake_all_other) (auto intro!: filter_True)
  qed
  have bits: "bit (ready_bitmap s) p \<or> (\<exists>t\<in>set ts. ?due t \<and> unat (task_priority s t) = p)"
    if "bit (ready_bitmap s') p" for p
  proof -
    let ?s = "s\<lparr>basepri := NIMBLE_KERNEL_SYSCALL_BASEPRI, g_tick_count := g_tick_count s + 1\<rparr>"
    have i1: "sched_inv b {} H N L ?s" using i by simp
    have nx: "node_next (heap s) DelayedList = hd (map Link ts @ [DelayedList])"
      using repr_next_head [OF sched_inv_repr [OF i] shape_delayed [OF sh]] ts by simp
    obtain s1 where "tick_scan (hd (map Link ts @ [DelayedList])) ?s = Some s1" "ready_bitmap s' = ready_bitmap s1"
      using s' nx by (auto simp: SysTick_Handler_def nimble_scheduler_tick_def Let_def kdefs split: bind_splits)
    from tick_scan_bits [OF i1, of "[]" ts, simplified, OF ts this(1)] this(2) that show ?thesis
      by (auto simp: tick_due_def)
  qed
  have "inherit_inv H N ?L s'"
  proof (rule inherit_wakes [OF JL _ _ tc(2,3)])
    show "Link t \<in> set (?L DelayedList) \<Longrightarrow> Link t \<in> set (L DelayedList)" for t
      using ts by (auto simp: tick_lists_delayed [where L = L, OF ts])
    show "p < 32 \<Longrightarrow> bit (ready_bitmap s') p \<Longrightarrow> bit (ready_bitmap s) p \<or> ?L (ReadyList p) \<noteq> []" for p
      using bits [of p] R [of p] by (auto simp: filter_empty_conv)
  qed (use R W mem in \<open>auto simp: tc level_def can_run_def\<close>)
  then show ?thesis by (rule inheritsI [OF i'])
qed

end
