(* ===== verification/Inheritance_Steps.thy ===== *)
theory Inheritance_Steps
  imports Inheritance Wait_Forever
begin

text \<open>
  Which calls keep the invariant of theory \<open>Inheritance\<close>: all of them, if the caller owns no mutex
  when it blocks or locks, and waits for a mutex without a timeout.
\<close>

section \<open>Calls that leave the ready structures alone\<close>

lemma inherits_same:
  assumes "inherits H N s" "heap s' = heap s" "ready_bitmap s' = ready_bitmap s" "nimble_current_tcb s' = nimble_current_tcb s"
    "tcbs s' = tcbs s" "mutexes s' = mutexes s"
  shows "inherits H N s'"
proof -
  obtain L where "sched_inv False {} H N L s" "inherit_inv H N L s" using assms(1) by (auto simp: inherits_def)
  then have "sched_inv False {} H N L s'" "inherit_inv H N L s'"
    using sched_inv_cong [of s' s] inherit_inv_same [of s' s] assms by simp_all
  then show ?thesis by (rule inheritsI)
qed

lemma inherits_fields [simp]:
  "inherits H N s \<Longrightarrow> inherits H N (s\<lparr>semaphores := v1\<rparr>)" "inherits H N s \<Longrightarrow> inherits H N (s\<lparr>queues := v2\<rparr>)"
  "inherits H N s \<Longrightarrow> inherits H N (s\<lparr>pendsv := v3\<rparr>)" "inherits H N s \<Longrightarrow> inherits H N (s\<lparr>timers := v4\<rparr>)"
  "inherits H N s \<Longrightarrow> inherits H N (nimble_port_request_context_switch s)"
  by (erule inherits_same; simp add: nimble_port_request_context_switch_def)+

text \<open>A change of the heap that keeps the lists.\<close>

lemma inherits_heap:
  assumes J: "inherits H N s" and i: "sched_inv b {} H N L s" "sched_inv b {} H N L s'"
    and f: "ready_bitmap s' = ready_bitmap s" "nimble_current_tcb s' = nimble_current_tcb s"
      "tcbs s' = tcbs s" "mutexes s' = mutexes s"
  shows "inherits H N s'"
proof (rule inheritsI [OF i(2)])
  show "inherit_inv H N L s'"
    using inheritsD [OF J i(1)] by (subst inherit_inv_same [where s = s]) (simp_all add: f)
qed

section \<open>Calls that wake\<close>

lemma inherits_woken:
  assumes i: "sched_inv b {} H N L s" and J: "inherits H N s" and k: "k \<in> H" "wait_head k" "\<And>m. k \<noteq> MutexWaiters m"
    and i': "sched_inv b {} H N (woken_lists s (first_waiter k L) L) s'"
    and f: "tcbs s' = woken_tcbs (first_waiter k L) (tcbs s)" "mutexes s' = mutexes s"
      "nimble_current_tcb s' = nimble_current_tcb s"
    and B: "wakes_bits (first_waiter k L) s s'"
  shows "inherits H N s'"
  by (rule inheritsI [OF i' inherit_woken [OF i inheritsD [OF J i] k f B]])

text \<open>The bitmap, from the wake inside the call.\<close>

lemma first_wake_bits:
  assumes i: "sched_inv b {} H N L s" and k: "k \<in> H" "wait_head k"
    and w: "nimble_scheduler_wake_waiter k s1 = Some (w, s2)"
    and s1: "heap s1 = heap s" "ready_bitmap s1 = ready_bitmap s" "nimble_current_tcb s1 = nimble_current_tcb s" "tcbs s1 = tcbs s"
    and b: "ready_bitmap s' = ready_bitmap s2"
  shows "wakes_bits (first_waiter k L) s s'"
proof -
  have "sched_inv b {} H N L s1" using i sched_inv_cong [of s1 s] s1 by simp
  from wake_waiter_total [OF this k] have "w = first_waiter k L" using w by auto
  then show ?thesis using wake_waiter_bits [OF w] s1(2,4) b by (simp add: wakes_bits_def split: option.splits)
qed

lemma isr_give_bits:
  assumes i: "sched_inv b {} H N L s" and q: "SemWaiters q \<in> H"
    and s': "nimble_semaphore_give_from_isr q s = Some (r, y, s')"
  shows "wakes_bits (first_waiter (SemWaiters q) L) s s'"
proof -
  obtain w s2 where "nimble_scheduler_wake_waiter (SemWaiters q) s = Some (w, s2)" "ready_bitmap s' = ready_bitmap s2"
    using s' by (auto simp: nimble_semaphore_give_from_isr_def Let_def kdefs split: bind_splits if_splits)
  from first_wake_bits [OF i q _ this(1) _ _ _ _ this(2)] show ?thesis by simp
qed

lemma give_bits:
  assumes i: "sched_inv b {} H N L s" and q: "SemWaiters q \<in> H" and s': "nimble_semaphore_give q s = Some (r, s')"
  shows "wakes_bits (first_waiter (SemWaiters q) L) s s'"
proof -
  obtain w s2 where "nimble_scheduler_wake_waiter (SemWaiters q) (s\<lparr>basepri := NIMBLE_KERNEL_SYSCALL_BASEPRI\<rparr>) = Some (w, s2)"
    "ready_bitmap s' = ready_bitmap s2"
    using s' by (auto simp: nimble_semaphore_give_def Let_def kdefs split: bind_splits if_splits)
  from first_wake_bits [OF i q _ this(1) _ _ _ _ this(2)] show ?thesis by simp
qed

lemma isr_send_bits:
  assumes i: "sched_inv b {} H N L s" and q: "QueueReceivers q \<in> H"
    and s': "nimble_queue_send_from_isr q item s = Some (r, y, s')"
    and room: "queue_count (queues s q) < queue_capacity (queues s q)"
  shows "wakes_bits (first_waiter (QueueReceivers q) L) s s'"
proof -
  obtain w s1 s2 where "nimble_scheduler_wake_waiter (QueueReceivers q) s1 = Some (w, s2)" "ready_bitmap s' = ready_bitmap s2"
    and s1: "heap s1 = heap s" "ready_bitmap s1 = ready_bitmap s" "nimble_current_tcb s1 = nimble_current_tcb s" "tcbs s1 = tcbs s"
    using s' room by (auto simp: nimble_queue_send_from_isr_def queue_copy_in_def Let_def kdefs not_le
        split: bind_splits if_splits option.splits)
  from first_wake_bits [OF i q _ this(1) s1 this(2)] show ?thesis by simp
qed

lemma send_bits:
  assumes i: "sched_inv b {} H N L s" and q: "QueueReceivers q \<in> H"
    and s': "nimble_queue_send q item v s = Some (r, s')"
    and room: "queue_count (queues s q) < queue_capacity (queues s q)"
  shows "wakes_bits (first_waiter (QueueReceivers q) L) s s'"
proof -
  obtain w s1 s2 where "nimble_scheduler_wake_waiter (QueueReceivers q) s1 = Some (w, s2)" "ready_bitmap s' = ready_bitmap s2"
    and s1: "heap s1 = heap s" "ready_bitmap s1 = ready_bitmap s" "nimble_current_tcb s1 = nimble_current_tcb s" "tcbs s1 = tcbs s"
    using s' room by (auto simp: nimble_queue_send_def queue_copy_in_def Let_def kdefs
        split: bind_splits if_splits option.splits)
  from first_wake_bits [OF i q _ this(1) s1 this(2)] show ?thesis by simp
qed

lemma receive_bits:
  assumes i: "sched_inv b {} H N L s" and q: "QueueSenders q \<in> H"
    and s': "nimble_queue_receive q v s = Some (r, s')" and item: "0 < queue_count (queues s q)"
  shows "wakes_bits (first_waiter (QueueSenders q) L) s s'"
proof -
  obtain w s1 s2 where "nimble_scheduler_wake_waiter (QueueSenders q) s1 = Some (w, s2)" "ready_bitmap s' = ready_bitmap s2"
    and s1: "heap s1 = heap s" "ready_bitmap s1 = ready_bitmap s" "nimble_current_tcb s1 = nimble_current_tcb s" "tcbs s1 = tcbs s"
    using s' item by (auto simp: nimble_queue_receive_def queue_copy_out_def Let_def kdefs
        split: bind_splits if_splits option.splits)
  from first_wake_bits [OF i q _ this(1) s1 this(2)] show ?thesis by simp
qed

lemma isr_give_inherits:
  assumes inv: "sys_inv b H N (s, c)" and J: "inherits H N s" and q: "SemWaiters q \<in> H"
    and s': "nimble_semaphore_give_from_isr q s = Some (r, w, s')"
  shows "inherits H N s'"
proof -
  obtain L where i: "sched_inv b {} H N L s" using inv by (rule sys_invE)
  let ?w = "first_waiter (SemWaiters q) L"
  have i': "sched_inv b {} H N (woken_lists s ?w L) s'"
    and f: "s' = s\<lparr>semaphores := (if ?w = None then (semaphores s)(q := bump (semaphores s q)) else semaphores s),
            tcbs := woken_tcbs ?w (tcbs s), heap := heap s', ready_bitmap := ready_bitmap s'\<rparr>"
    using give_from_isr_spec [OF i q] s' by auto
  show ?thesis
    by (rule inherits_woken [OF i J q _ _ i' _ _ _ isr_give_bits [OF i q s']]) (simp_all, (subst f, simp)+)
qed

lemma give_inherits:
  assumes i: "sched_inv b {} H N L s" and J: "inherits H N s" and q: "SemWaiters q \<in> H"
    and s': "nimble_semaphore_give q s = Some (r, s')"
  shows "inherits H N s'"
proof -
  let ?w = "first_waiter (SemWaiters q) L"
  have i': "sched_inv b {} H N (woken_lists s ?w L) s'"
    and f: "s' = s\<lparr>semaphores := (if ?w = None then (semaphores s)(q := bump (semaphores s q)) else semaphores s),
            tcbs := woken_tcbs ?w (tcbs s), pendsv := (pendsv s \<or> ?w \<noteq> None),
            heap := heap s', ready_bitmap := ready_bitmap s'\<rparr>"
    using give_spec [OF i q] s' by auto
  show ?thesis
    by (rule inherits_woken [OF i J q _ _ i' _ _ _ give_bits [OF i q s']]) (simp_all, (subst f, simp)+)
qed

lemma isr_send_inherits:
  assumes inv: "sys_inv b H N (s, c)" and J: "inherits H N s" and q: "QueueReceivers q \<in> H"
    and item: "length item = unat (queue_item_size (queues s q))"
    and s': "nimble_queue_send_from_isr q item s = Some (r, w, s')"
  shows "inherits H N s'"
proof (cases "queue_count (queues s q) < queue_capacity (queues s q)")
  case True
  obtain L where i: "sched_inv b {} H N L s" and o: "objs_inv H N L c s" using inv by (rule sys_invE)
  have wf: "queue_wf (queues s q)" using objs_invD(3) [OF o] q by (simp add: queue_inv_def)
  let ?w = "first_waiter (QueueReceivers q) L"
  obtain x where x: "copy_in item (queues s q) = Some x" using copy_in_returns [OF wf item True] by blast
  have i': "sched_inv b {} H N (woken_lists s ?w L) s'"
    and f: "s' = s\<lparr>queues := (queues s)(q := x), tcbs := woken_tcbs ?w (tcbs s),
            heap := heap s', ready_bitmap := ready_bitmap s'\<rparr>"
    using send_from_isr_room [OF i q True x] s' by auto
  show ?thesis
    by (rule inherits_woken [OF i J q _ _ i' _ _ _ isr_send_bits [OF i q s' True]]) (simp_all, (subst f, simp)+)
qed (use send_from_isr_full s' J in auto)

section \<open>Calls that block\<close>

text \<open>A blocking call joins its wait list and leaves the ready structures, under the raised BASEPRI.\<close>

definition blocks_by :: "(node \<Rightarrow> tcb_ptr \<Rightarrow> kernel \<Rightarrow> kernel option) \<Rightarrow> node \<Rightarrow> tcb_ptr \<Rightarrow> nimble_tick_t \<Rightarrow>
    kernel \<Rightarrow> kernel \<Rightarrow> bool" where
  "blocks_by ins k t v s s' \<longleftrightarrow> (\<exists>s1 s2. ins k t (s\<lparr>basepri := NIMBLE_KERNEL_SYSCALL_BASEPRI\<rparr>) = Some s1 \<and>
     nimble_scheduler_prepare_block t v s1 = Some s2 \<and> ready_bitmap s' = ready_bitmap s2)"

context wait_list
begin

lemma blocks_by_bits:
  assumes i: "sched_inv b {} H N L s" and run: "task_state s t = NIMBLE_TASK_RUNNING" "nimble_current_tcb s = Some t"
    and k: "k \<in> H" "wait_head k" and s': "blocks_by ins k t v s s'" and p: "p < 32" "bit (ready_bitmap s') p"
  shows "bit (ready_bitmap s) p \<and> (p = unat (task_priority s t) \<longrightarrow> L (ReadyList p) \<noteq> [])"
proof -
  let ?s = "s\<lparr>basepri := NIMBLE_KERNEL_SYSCALL_BASEPRI\<rparr>"
  have tN: "Link t \<in> N" by (rule tasks_inv_current [OF sched_inv_tasks [OF i] run(2)])
  obtain s1 s2 where s1: "ins k t ?s = Some s1" "nimble_scheduler_prepare_block t v s1 = Some s2"
    and b: "ready_bitmap s' = ready_bitmap s2"
    using s' by (auto simp: blocks_by_def)
  have i1: "sched_inv b {} H N L ?s" using i by simp
  show ?thesis using block_bits [OF i1 _ k tN s1 p(1)] run(1) p(2) b by simp
qed

lemma inherits_blocked:
  assumes i: "sched_inv b {} H N L s" and J: "inherits H N s"
    and t: "nimble_current_tcb s = Some t" "task_state s t = NIMBLE_TASK_RUNNING" "owns_none H s t"
    and k: "k \<in> H" "wait_head k" "\<And>m. k \<noteq> MutexWaiters m" and s': "blocks_by ins k t v s s'"
    and i': "sched_inv b {} H N (block_lists t v (L(k := xs))) s'"
    and f: "s' = s\<lparr>tcbs := (tcbs s)(t := (tcbs s t)\<lparr>tcb_state := NIMBLE_TASK_BLOCKED, tcb_wake_tick := w\<rparr>),
            pendsv := True, heap := heap s', ready_bitmap := ready_bitmap s'\<rparr>"
  shows "inherits H N s'"
proof -
  have tc: "tcbs s' = (tcbs s)(t := (tcbs s t)\<lparr>tcb_state := NIMBLE_TASK_BLOCKED, tcb_wake_tick := w\<rparr>)"
    "mutexes s' = mutexes s" "nimble_current_tcb s' = nimble_current_tcb s" by (subst f, simp)+
  show ?thesis
    by (rule inheritsI [OF i' inherit_blocked [OF i inheritsD [OF J i] t k(2,3) tc blocks_by_bits [OF i t(2,1) k(1,2) s']]])
qed

end

lemma take_blocks_by:
  "nimble_semaphore_take q v s = Some (Blocks, s') \<Longrightarrow> nimble_current_tcb s = Some t \<Longrightarrow>
   blocks_by semaphore_insert_waiter_priority_sorted (SemWaiters q) t v s s'"
  by (auto simp: nimble_semaphore_take_def blocks_by_def Let_def kdefs split: bind_splits if_splits)

lemma receive_blocks_by:
  "nimble_queue_receive q v s = Some (Blocks, s') \<Longrightarrow> nimble_current_tcb s = Some t \<Longrightarrow>
   blocks_by queue_insert_waiter_priority_sorted (QueueReceivers q) t v s s'"
  by (auto simp: nimble_queue_receive_def blocks_by_def Let_def kdefs split: bind_splits if_splits option.splits)

lemma send_blocks_by:
  "nimble_queue_send q item v s = Some (Blocks, s') \<Longrightarrow> nimble_current_tcb s = Some t \<Longrightarrow>
   blocks_by queue_insert_waiter_priority_sorted (QueueSenders q) t v s s'"
  by (auto simp: nimble_queue_send_def blocks_by_def Let_def kdefs split: bind_splits if_splits option.splits)

lemma take_inherits:
  assumes inv: "sys_inv b H N (s, c)" and J: "inherits H N s" and th: "thread s c t NoCall"
    and free: "r = Blocks \<Longrightarrow> owns_none H s t"
    and q: "SemWaiters q \<in> H" and s': "nimble_semaphore_take q v s = Some (r, s')"
  shows "inherits H N s'"
proof -
  obtain L where i: "sched_inv b {} H N L s" using inv by (rule sys_invE)
  consider "0 < sem_count (semaphores s q)" | "sem_count (semaphores s q) = 0" "v = NIMBLE_NO_WAIT"
    | "sem_count (semaphores s q) = 0" "v \<noteq> NIMBLE_NO_WAIT"
    by (cases "v = NIMBLE_NO_WAIT") (auto simp: word_gt_0)
  then show ?thesis
  proof cases
    case 1
    then show ?thesis using s' take_available [OF 1] J by auto
  next
    case 2
    then show ?thesis using take_no_wait s' J by auto
  next
    case 3
    obtain ts where ts: "L (SemWaiters q) = map EventLink ts" using wait_links [OF sched_inv_shape [OF i] q] by auto
    note T = threadD [OF th]
    have r: "r = Blocks"
      and i': "sched_inv b {} H N (block_lists t v (L(SemWaiters q := map EventLink (prio_insert (task_priority s) t ts)))) s'"
      and f: "s' = s\<lparr>tcbs := (tcbs s)(t := (tcbs s t)\<lparr>tcb_state := NIMBLE_TASK_BLOCKED,
                 tcb_wake_tick := if v = NIMBLE_WAIT_FOREVER then tcb_wake_tick (tcbs s t) else g_tick_count s + v\<rparr>),
            pendsv := True, heap := heap s', ready_bitmap := ready_bitmap s'\<rparr>"
      using take_blocks [OF i T(1,2) q ts 3] s' by auto
    have bl: "blocks_by semaphore_insert_waiter_priority_sorted (SemWaiters q) t v s s'"
      using take_blocks_by s' r T(1) by blast
    show ?thesis by (rule semaphore_wait.inherits_blocked [OF i J T(1,2) free [OF r] q _ _ bl i' f]) simp_all
  qed
qed

lemma receive_inherits:
  assumes inv: "sys_inv b H N (s, c)" and J: "inherits H N s" and th: "thread s c t NoCall"
    and free: "r = Blocks \<Longrightarrow> owns_none H s t"
    and q: "QueueReceivers q \<in> H" "QueueSenders q \<in> H" and s': "nimble_queue_receive q v s = Some (r, s')"
  shows "inherits H N s'"
proof -
  obtain L where i: "sched_inv b {} H N L s" and o: "objs_inv H N L c s" using inv by (rule sys_invE)
  have wf: "queue_wf (queues s q)" using objs_invD(3) [OF o] q by (simp add: queue_inv_def)
  consider "0 < queue_count (queues s q)" | "queue_count (queues s q) = 0" "v = NIMBLE_NO_WAIT"
    | "queue_count (queues s q) = 0" "v \<noteq> NIMBLE_NO_WAIT"
    by (cases "v = NIMBLE_NO_WAIT") (auto simp: word_gt_0)
  then show ?thesis
  proof cases
    case 1
    let ?w = "first_waiter (QueueSenders q) L"
    obtain y x where x: "copy_out (queues s q) = Some (y, x)" using copy_out_returns [OF wf 1] by blast
    have i': "sched_inv b {} H N (woken_lists s ?w L) s'"
      and f: "s' = s\<lparr>queues := (queues s)(q := x), tcbs := woken_tcbs ?w (tcbs s),
            pendsv := (pendsv s \<or> ?w \<noteq> None), heap := heap s', ready_bitmap := ready_bitmap s'\<rparr>"
      using receive_item [OF i q(2) 1 x, of v] s' by auto
    show ?thesis
      by (rule inherits_woken [OF i J q(2) _ _ i' _ _ _ receive_bits [OF i q(2) s' 1]]) (simp_all, (subst f, simp)+)
  next
    case 2
    then show ?thesis using receive_empty s' J by auto
  next
    case 3
    obtain ts where ts: "L (QueueReceivers q) = map EventLink ts" using wait_links [OF sched_inv_shape [OF i] q(1)] by auto
    note T = threadD [OF th]
    have r: "r = Blocks"
      and i': "sched_inv b {} H N (block_lists t v (L(QueueReceivers q := map EventLink (prio_insert (task_priority s) t ts)))) s'"
      and f: "s' = s\<lparr>tcbs := (tcbs s)(t := (tcbs s t)\<lparr>tcb_state := NIMBLE_TASK_BLOCKED,
                 tcb_wake_tick := if v = NIMBLE_WAIT_FOREVER then tcb_wake_tick (tcbs s t) else g_tick_count s + v\<rparr>),
            pendsv := True, heap := heap s', ready_bitmap := ready_bitmap s'\<rparr>"
      using receive_blocks [OF i T(1,2) q(1) ts 3] s' by auto
    have bl: "blocks_by queue_insert_waiter_priority_sorted (QueueReceivers q) t v s s'"
      using receive_blocks_by s' r T(1) by blast
    show ?thesis by (rule queue_wait.inherits_blocked [OF i J T(1,2) free [OF r] q(1) _ _ bl i' f]) simp_all
  qed
qed

lemma send_inherits:
  assumes inv: "sys_inv b H N (s, c)" and J: "inherits H N s" and th: "thread s c t NoCall"
    and free: "r = Blocks \<Longrightarrow> owns_none H s t"
    and q: "QueueReceivers q \<in> H" "QueueSenders q \<in> H"
    and item: "length item = unat (queue_item_size (queues s q))" and s': "nimble_queue_send q item v s = Some (r, s')"
  shows "inherits H N s'"
proof -
  obtain L where i: "sched_inv b {} H N L s" and o: "objs_inv H N L c s" using inv by (rule sys_invE)
  have wf: "queue_wf (queues s q)" using objs_invD(3) [OF o] q by (simp add: queue_inv_def)
  consider "queue_count (queues s q) < queue_capacity (queues s q)"
    | "\<not> queue_count (queues s q) < queue_capacity (queues s q)" "v = NIMBLE_NO_WAIT"
    | "\<not> queue_count (queues s q) < queue_capacity (queues s q)" "v \<noteq> NIMBLE_NO_WAIT"
    by blast
  then show ?thesis
  proof cases
    case 1
    let ?w = "first_waiter (QueueReceivers q) L"
    obtain x where x: "copy_in item (queues s q) = Some x" using copy_in_returns [OF wf item 1] by blast
    have i': "sched_inv b {} H N (woken_lists s ?w L) s'"
      and f: "s' = s\<lparr>queues := (queues s)(q := x), tcbs := woken_tcbs ?w (tcbs s),
            pendsv := (pendsv s \<or> ?w \<noteq> None), heap := heap s', ready_bitmap := ready_bitmap s'\<rparr>"
      using send_room [OF i q(1) 1 x, of v] s' by auto
    show ?thesis
      by (rule inherits_woken [OF i J q(1) _ _ i' _ _ _ send_bits [OF i q(1) s' 1]]) (simp_all, (subst f, simp)+)
  next
    case 2
    then show ?thesis using send_full s' J by auto
  next
    case 3
    obtain ts where ts: "L (QueueSenders q) = map EventLink ts" using wait_links [OF sched_inv_shape [OF i] q(2)] by auto
    note T = threadD [OF th]
    have r: "r = Blocks"
      and i': "sched_inv b {} H N (block_lists t v (L(QueueSenders q := map EventLink (prio_insert (task_priority s) t ts)))) s'"
      and f: "s' = s\<lparr>tcbs := (tcbs s)(t := (tcbs s t)\<lparr>tcb_state := NIMBLE_TASK_BLOCKED,
                 tcb_wake_tick := if v = NIMBLE_WAIT_FOREVER then tcb_wake_tick (tcbs s t) else g_tick_count s + v\<rparr>),
            pendsv := True, heap := heap s', ready_bitmap := ready_bitmap s'\<rparr>"
      using send_blocks [OF i T(1,2) q(2) ts 3, of item] s' by auto
    have bl: "blocks_by queue_insert_waiter_priority_sorted (QueueSenders q) t v s s'"
      using send_blocks_by s' r T(1) by blast
    show ?thesis by (rule queue_wait.inherits_blocked [OF i J T(1,2) free [OF r] q(2) _ _ bl i' f]) simp_all
  qed
qed

lemma delay_inherits:
  assumes inv: "sys_inv b H N (s, c)" and J: "inherits H N s" and th: "thread s c t NoCall"
    and free: "n \<noteq> 0 \<Longrightarrow> owns_none H s t" and s': "nimble_task_delay n s = Some s'"
  shows "inherits H N s'"
proof (cases "n = 0")
  case False
  obtain L where i: "sched_inv b {} H N L s" using inv by (rule sys_invE)
  note T = threadD [OF th] and JL = inheritsD [OF J i] and sh = sched_inv_shape [OF i]
  note J' = inherit_invD [OF JL]
  have tN: "Link t \<in> N" by (rule thread_node [OF i th])
  let ?L = "enlist DelayedList (Link t) L"
  have i': "sched_inv b {} H N ?L s'"
    and f: "s' = s\<lparr>tcbs := (tcbs s)(t := (tcbs s t)\<lparr>tcb_wake_tick := g_tick_count s + n,
                                            tcb_state := NIMBLE_TASK_BLOCKED\<rparr>),
            pendsv := True, heap := heap s', ready_bitmap := ready_bitmap s'\<rparr>"
    using delay_inv [OF i T(1,2) False] s' by auto
  have tc: "tcbs s' = (tcbs s)(t := (tcbs s t)\<lparr>tcb_wake_tick := g_tick_count s + n, tcb_state := NIMBLE_TASK_BLOCKED\<rparr>)"
    "mutexes s' = mutexes s" "nimble_current_tcb s' = nimble_current_tcb s" by (subst f, simp)+
  have pr: "task_priority s' x = task_priority s x" "level s' x = level s x" for x by (simp_all add: tc level_def)
  have ln: "lends H ?L s' x y = lends H L s x y" for x y by (simp add: lends_def tc)
  let ?s = "s\<lparr>basepri := NIMBLE_KERNEL_SYSCALL_BASEPRI\<rparr>"
  obtain s1 where s1: "nimble_scheduler_remove t ?s = Some s1" "ready_bitmap s' = ready_bitmap s1"
    using s' False T(1) by (auto simp: nimble_task_delay_def nimble_scheduler_block_current_delay_def Let_def kdefs
        split: bind_splits)
  have i1: "sched_inv b {} H N L ?s" using i by simp
  have B: "bit (ready_bitmap s) p \<and> (p = unat (task_priority s t) \<longrightarrow> L (ReadyList p) \<noteq> [])"
    if "p < 32" "bit (ready_bitmap s') p" for p
    using remove_bits [OF i1 tN s1(1) that(1)] that(2) s1(2) by auto
  have "inherit_inv H N ?L s'"
  proof (rule inherit_blocks [OF JL T(1) tN free [OF False] pr(2) tc(2,3) _ _ _ _ _ _ _ B])
    show "\<exists>y. lends H ?L s' y x \<and> level s y = unat (task_priority s' x)" if "Link x \<in> N" for x
      unfolding ln pr by (rule J'(1) [OF that])
    show "level s y \<le> unat (task_priority s' x)" if "Link x \<in> N" "lends H ?L s' y x" for x y
      using J'(2) [OF that(1)] that(2) unfolding ln pr by blast
    show "prio_sorted (task_priority s') ts" if "MutexWaiters m \<in> H" "?L (MutexWaiters m) = map EventLink ts" for m ts
      using J'(5) [OF that(1)] that(2) by (simp add: pr)
    show "Link x \<notin> set (?L DelayedList)" if "MutexWaiters m \<in> H" "EventLink x \<in> set (?L (MutexWaiters m))" for m x
      using J'(6) [OF that(1), of x] waiter_blocked(1) [OF i that(1), of x] that(2) T(2) by auto
  qed (simp_all add: tc(1))
  then show ?thesis by (rule inheritsI [OF i'])
qed (use delay_zero s' J in simp)

section \<open>Mutexes\<close>

lemma inherits_count:
  assumes J: "inherits H N s" and o: "mutex_owner x = mutex_owner (mutexes s m)"
  shows "inherits H N (s\<lparr>mutexes := (mutexes s)(m := x)\<rparr>)" (is "inherits H N ?s")
proof -
  obtain L where i: "sched_inv False {} H N L s" and JL: "inherit_inv H N L s" using J by (auto simp: inherits_def)
  have ow: "mutex_owner (mutexes ?s j) = mutex_owner (mutexes s j)" for j using o by simp
  have "lends H L ?s = lends H L s" unfolding lends_def ow ..
  moreover have "level ?s = level s" "ahead L ?s = ahead L s" "can_run N ?s = can_run N s"
    by (auto simp: level_def ahead_def can_run_def fun_eq_iff)
  ultimately have "inherit_inv H N L ?s" using JL unfolding inherit_inv_def ow by simp
  then show ?thesis using i by (intro inheritsI [of False H N L]) simp_all
qed

lemma lock_blocks_by:
  assumes s': "nimble_mutex_lock m v s = Some (Blocks, s')" and t: "nimble_current_tcb s = Some t"
    and o: "mutex_owner (mutexes s m) = Some w" "w \<noteq> t"
  shows "blocks_by mutex_insert_waiter_priority_sorted (MutexWaiters m) t v (boost w (task_priority s t) s) s'"
  using assms
  by (cases s) (auto simp: nimble_mutex_lock_def blocks_by_def boost_def Let_def kdefs split: bind_splits if_splits)

lemma lock_inherits:
  assumes inv: "sys_inv b H N (s, c)" and J: "inherits H N s" and th: "thread s c t NoCall" and m: "MutexWaiters m \<in> H"
    and free: "mutex_owner (mutexes s m) = None \<or> r = Blocks \<Longrightarrow> owns_none H s t"
    and v: "r = Blocks \<Longrightarrow> v = NIMBLE_WAIT_FOREVER" and s': "nimble_mutex_lock m v s = Some (r, s')"
  shows "inherits H N s'"
proof -
  obtain L where i: "sched_inv b {} H N L s" and o: "objs_inv H N L c s" using inv by (rule sys_invE)
  note T = threadD [OF th] and JL = inheritsD [OF J i]
  have tN: "Link t \<in> N" by (rule thread_node [OF i th])
  let ?o = "mutex_owner (mutexes s m)"
  consider "?o = None" | "?o = Some t" | w where "?o = Some w" "w \<noteq> t" "v = NIMBLE_NO_WAIT"
    | w where "?o = Some w" "w \<noteq> t" "v \<noteq> NIMBLE_NO_WAIT"
    by (cases ?o) auto
  then show ?thesis
  proof cases
    case 1
    let ?x = "(mutexes s m)\<lparr>mutex_owner := nimble_current_tcb s, mutex_lock_count := 1\<rparr>"
    have s1: "s' = s\<lparr>mutexes := (mutexes s)(m := ?x)\<rparr>" using lock_free [OF 1] s' by simp
    have "can_run N s t" using T(2) tN by (simp add: can_run_def)
    then have "inherit_inv H N L s'"
      by (intro inherit_lock_free [where x = ?x, OF JL objs_invD(2) [OF o] 1 _ free [OF disjI1 [OF 1]]]) (simp_all add: s1 T(1))
    moreover have "sched_inv b {} H N L s'" using i by (simp add: s1)
    ultimately show ?thesis by (intro inheritsI)
  next
    case 2
    then show ?thesis using lock_recursive [of s m t v] T(1) s' inherits_count [OF J] by auto
  next
    case 3
    then show ?thesis using lock_no_wait [of s m] T(1) s' J by auto
  next
    case 4
    obtain ts where ts: "L (MutexWaiters m) = map EventLink ts" using wait_links [OF sched_inv_shape [OF i] m] by auto
    let ?B = "boost w (task_priority s t) s"
    let ?L = "\<lambda>v. block_lists t v (L(MutexWaiters m := map EventLink (prio_insert (task_priority ?B) t ts)))"
    have r: "r = Blocks"
      and i': "sched_inv (b \<and> boost_ok w (task_priority s t) s) {} H N (?L v) s'"
      and f: "s' = ?B\<lparr>tcbs := (tcbs ?B)(t := (tcbs s t)\<lparr>tcb_state := NIMBLE_TASK_BLOCKED,
                 tcb_wake_tick := if v = NIMBLE_WAIT_FOREVER then tcb_wake_tick (tcbs s t) else g_tick_count s + v\<rparr>),
            pendsv := True, heap := heap s', ready_bitmap := ready_bitmap s'\<rparr>"
      using lock_blocks [OF i T(1,2) m ts 4] s' by auto
    note v' = v [OF r] and none = free [OF disjI2 [OF r]]
    let ?w = "if v = NIMBLE_WAIT_FOREVER then tcb_wake_tick (tcbs s t) else g_tick_count s + v"
    have tc: "tcbs s' = (tcbs ?B)(t := (tcbs s t)\<lparr>tcb_state := NIMBLE_TASK_BLOCKED, tcb_wake_tick := ?w\<rparr>)"
      "mutexes s' = mutexes s" "nimble_current_tcb s' = nimble_current_tcb s" by (subst f, simp)+
    have iB: "sched_inv (b \<and> boost_ok w (task_priority s t) s) {} H N L ?B"
      by (rule boost_inv [OF i sched_inv_prio [OF i tN]])
    have bl: "blocks_by mutex_insert_waiter_priority_sorted (MutexWaiters m) t v ?B s'"
      using lock_blocks_by s' r T(1) 4(1,2) by blast
    have bB: "ready_bitmap ?B = ready_bitmap s" by (simp add: boost_def update_tcb_def)
    have B: "bit (ready_bitmap s) p \<and> (p = unat (task_priority s t) \<longrightarrow> L (ReadyList p) \<noteq> [])"
      if "p < 32" "bit (ready_bitmap s') p" for p
      using mutex_wait.blocks_by_bits [OF iB _ _ m _ bl that] T(1,2) 4(2) bB by auto
    have "inherit_inv H N (?L NIMBLE_WAIT_FOREVER) s'"
      by (rule inherit_lock_blocks [OF i JL T(1,2) none m ts 4(1) tc B])
    then show ?thesis using inheritsI [OF i'] v' by simp
  qed
qed

lemma unlock_bits:
  assumes i: "sched_inv b {} H N L s" and cur: "nimble_current_tcb s = Some t" and run: "task_state s t = NIMBLE_TASK_RUNNING"
    and m: "MutexWaiters m \<in> H" "mutex_owner (mutexes s m) = Some t" "mutex_lock_count (mutexes s m) = 1"
    and L: "L (MutexWaiters m) = EventLink w # ws" and s': "nimble_mutex_unlock m s = Some (r, s')"
  shows "ready_bitmap s' = ready_bitmap s OR bit_mask (unat (task_priority s w))"
proof -
  let ?r = "release_state m t s"
  note ir = release_state_inv [OF i cur run, of m]
  obtain s1 where w: "nimble_scheduler_wake_waiter (MutexWaiters m) ?r = Some (Some w, s1)"
    using wake_waiter_inv [OF ir m(1) L] by auto
  have "task_state s w = NIMBLE_TASK_BLOCKED" using waiter_blocked(1) [OF i m(1), of w] L by simp
  then have "w \<noteq> t" using run by auto
  then have "ready_bitmap s1 = ready_bitmap s OR bit_mask (unat (task_priority s w))"
    using wake_waiter_bits [OF w] by (simp add: wakes_bits_def release_state_def)
  then show ?thesis using unlock_last [OF cur m(2,3) w] s' by simp
qed

lemma unlock_inherits:
  assumes inv: "sys_inv b H N (s, c)" and J: "inherits H N s" and th: "thread s c t NoCall" and m: "MutexWaiters m \<in> H"
    and s': "nimble_mutex_unlock m s = Some (r, s')"
  shows "inherits H N s'"
proof -
  obtain L where i: "sched_inv b {} H N L s" and o: "objs_inv H N L c s" using inv by (rule sys_invE)
  note T = threadD [OF th] and JL = inheritsD [OF J i]
  have tN: "Link t \<in> N" by (rule thread_node [OF i th])
  let ?o = "mutex_owner (mutexes s m)" and ?n = "mutex_lock_count (mutexes s m)"
  consider "?o \<noteq> Some t" | "?o = Some t" "?n \<noteq> 1" | "?o = Some t" "?n = 1" "L (MutexWaiters m) = []"
    | x ws where "?o = Some t" "?n = 1" "L (MutexWaiters m) = EventLink x # ws"
    using wait_links [OF sched_inv_shape [OF i] m] by (cases "L (MutexWaiters m)") auto
  then show ?thesis
  proof cases
    case 1
    then show ?thesis using unlock_not_owner [of s m] T(1) s' J by simp
  next
    case 2
    then show ?thesis using unlock_nested [of s m] T(1) s' inherits_count [OF J] by auto
  next
    case 3
    have s1: "s' = (release_state m t s)\<lparr>basepri := basepri s\<rparr>" using unlock_no_waiter [OF i T(1,2) m 3] s' by simp
    have "inherit_inv H N L s'"
      by (rule inherit_release [where x = "\<lparr>mutex_owner = None, mutex_lock_count = 0\<rparr>", OF JL tN m 3(1,3)]) (simp_all add: s1 release_state_def)
    moreover have "sched_inv b {} H N L s'" using release_state_inv [OF i T(1,2)] by (simp add: s1)
    ultimately show ?thesis by (intro inheritsI)
  next
    case 4
    have i': "sched_inv b {} H N (wake_lists (unat (task_priority s x)) x L) s'"
      and f: "s' = s\<lparr>tcbs := (tcbs s)(t := (tcbs s t)\<lparr>tcb_priority := tcb_base_priority (tcbs s t)\<rparr>,
                 x := (tcbs s x)\<lparr>tcb_last_wait_result := NIMBLE_OK, tcb_state := NIMBLE_TASK_READY\<rparr>),
            mutexes := (mutexes s)(m := \<lparr>mutex_owner = Some x, mutex_lock_count = 1\<rparr>),
            pendsv := True, heap := heap s', ready_bitmap := ready_bitmap s'\<rparr>"
      using unlock_handoff [OF i T(1,2) m 4] s' by auto
    have tc: "tcbs s' = (tcbs s)(t := (tcbs s t)\<lparr>tcb_priority := tcb_base_priority (tcbs s t)\<rparr>,
                 x := (tcbs s x)\<lparr>tcb_last_wait_result := NIMBLE_OK, tcb_state := NIMBLE_TASK_READY\<rparr>)"
      "mutexes s' = (mutexes s)(m := \<lparr>mutex_owner = Some x, mutex_lock_count = 1\<rparr>)"
      "nimble_current_tcb s' = nimble_current_tcb s" by (subst f, simp)+
    have "inherit_inv H N (wake_lists (unat (task_priority s x)) x L) s'"
      by (rule inherit_handoff [OF i JL T(1,2) m 4(1,3) tc(1,2) _ tc(3) unlock_bits [OF i T(1,2) m 4 s']]) simp
    then show ?thesis by (rule inheritsI [OF i'])
  qed
qed

section \<open>The second halves\<close>

lemma take_resume_inherits:
  assumes inv: "sys_inv b H N (s, c)" and J: "inherits H N s" and th: "thread s c t call"
    and s': "nimble_semaphore_take_resume q t s = (r, s')"
  shows "inherits H N s'"
proof -
  obtain L where i: "sched_inv b {} H N L s" using inv by (rule sys_invE)
  have i': "sched_inv b {} H N L s'" and f: "s' = s\<lparr>heap := heap s'\<rparr>"
    using take_resume_inv [OF i thread_node [OF i th] threadD(2) [OF th], of q] s' by auto
  show ?thesis by (rule inherits_heap [OF J i i']) (subst f, simp)+
qed

lemma lock_resume_inherits:
  assumes inv: "sys_inv b H N (s, c)" and J: "inherits H N s" and th: "thread s c t call"
    and s': "nimble_mutex_lock_resume m t s = (r, s')"
  shows "inherits H N s'"
proof (cases "mutex_owner (mutexes s m) = Some t")
  case False
  obtain L where i: "sched_inv b {} H N L s" using inv by (rule sys_invE)
  have i': "sched_inv b {} H N L s'" and f: "s' = s\<lparr>heap := heap s'\<rparr>"
    using lock_resume_timeout [OF i thread_node [OF i th] threadD(2) [OF th] False] s' by auto
  show ?thesis by (rule inherits_heap [OF J i i']) (subst f, simp)+
qed (use lock_resume_owner s' J in auto)

lemma receive_resume_inherits:
  assumes inv: "sys_inv b H N (s, c)" and J: "inherits H N s" and th: "thread s c t (InReceive q)"
    and s': "nimble_queue_receive_resume q t s = Some (r, s')"
  shows "inherits H N s'"
proof -
  obtain L where i: "sched_inv b {} H N L s" and o: "objs_inv H N L c s" using inv by (rule sys_invE)
  have q: "QueueReceivers q \<in> H" using objs_invD(6) [OF o] threadD(3) [OF th] by (auto simp: calls_inv_def)
  have wf: "queue_wf (queues s q)" using objs_invD(3) [OF o] q by (simp add: queue_inv_def)
  obtain y x where x: "0 < queue_count (queues s q) \<Longrightarrow> copy_out (queues s q) = Some (y, x)"
    using copy_out_returns [OF wf] by blast
  obtain v where i': "sched_inv b {} H N L s'" and f: "s' = s\<lparr>queues := v, heap := heap s'\<rparr>"
    using receive_resume_inv [OF i thread_node [OF i th] threadD(2) [OF th], of q y x] x s' by auto
  show ?thesis by (rule inherits_heap [OF J i i']) (subst f, simp)+
qed

lemma send_resume_inherits:
  assumes inv: "sys_inv b H N (s, c)" and J: "inherits H N s" and th: "thread s c t (InSend q item)"
    and s': "nimble_queue_send_resume q item t s = Some (r, s')"
  shows "inherits H N s'"
proof -
  obtain L where i: "sched_inv b {} H N L s" and o: "objs_inv H N L c s" using inv by (rule sys_invE)
  have q: "QueueReceivers q \<in> H" "length item = unat (queue_item_size (queues s q))"
    using objs_invD(6) [OF o] threadD(3) [OF th] by (auto simp: calls_inv_def)
  have wf: "queue_wf (queues s q)" using objs_invD(3) [OF o] q by (simp add: queue_inv_def)
  obtain x where x: "queue_count (queues s q) < queue_capacity (queues s q) \<Longrightarrow> copy_in item (queues s q) = Some x"
    using copy_in_returns [OF wf q(2)] by blast
  obtain v where i': "sched_inv b {} H N L s'" and f: "s' = s\<lparr>queues := v, heap := heap s'\<rparr>"
    using send_resume_inv [OF i thread_node [OF i th] threadD(2) [OF th], of q item x] x s' by auto
  show ?thesis by (rule inherits_heap [OF J i i']) (subst f, simp)+
qed

section \<open>Timers and resuming a task\<close>

lemma inherits_timers:
  assumes J: "inherits H N s" and i: "sched_inv b {} H N L s" and i': "sched_inv b {} H N (L(ActiveTimers := xs)) s'"
    and f: "ready_bitmap s' = ready_bitmap s" "nimble_current_tcb s' = nimble_current_tcb s"
      "tcbs s' = tcbs s" "mutexes s' = mutexes s"
  shows "inherits H N s'"
proof -
  have "inherit_inv H N (L(ActiveTimers := xs)) s'"
    by (rule inherit_wakes [OF inheritsD [OF J i]]) (auto simp: f level_def can_run_def)
  then show ?thesis by (rule inheritsI [OF i'])
qed

lemma timer_stop_inherits:
  assumes inv: "sys_inv b H N (s, c)" and J: "inherits H N s" and x: "TimerLink x \<in> N" and s': "nimble_timer_stop x s = (r, s')"
  shows "inherits H N s'"
proof -
  obtain L where i: "sched_inv b {} H N L s" and o: "objs_inv H N L c s" using inv by (rule sys_invE)
  obtain ts where ts: "timers_inv H N L ts s" using objs_invD(8) [OF o] by blast
  have i': "sched_inv b {} H N (L(ActiveTimers := map TimerLink (removeAll x ts))) s'"
    and f: "s' = s\<lparr>timers := (timers s)(x := (timers s x)\<lparr>timer_is_active := False\<rparr>), heap := heap s'\<rparr>"
    using timer_stop_inv [OF i ts x] s' by auto
  show ?thesis by (rule inherits_timers [OF J i i']) (subst f, simp)+
qed

lemma timer_expire_inherits:
  assumes inv: "sys_inv b H N (s, c)" and J: "inherits H N s" and s': "timer_expire_one s = Some (r, s')"
  shows "inherits H N s'"
proof -
  obtain L where i: "sched_inv b {} H N L s" and o: "objs_inv H N L c s" using inv by (rule sys_invE)
  obtain ts where ts: "timers_inv H N L ts s" using objs_invD(8) [OF o] by blast
  show ?thesis
  proof (cases "ts = [] \<or> 0 < time_left (g_tick_count s) (timer_expiry_tick (timers s (hd ts)))")
    case True
    then show ?thesis using expire_one_idle [OF i ts] s' J by auto
  next
    case False
    then obtain t rest where "ts = t # rest" and due: "time_left (g_tick_count s) (timer_expiry_tick (timers s t)) \<le> 0"
      by (cases ts) auto
    then have ts': "timers_inv H N L (t # rest) s" using ts by simp
    have i': "sched_inv b {} H N (L(ActiveTimers := map TimerLink (fire_list t rest s))) s'"
      and f: "s' = s\<lparr>timers := (timers s)(t := fire (g_tick_count s) (timers s t)), heap := heap s'\<rparr>"
      using expire_one_fires [OF i ts' due] s' by auto
    show ?thesis by (rule inherits_timers [OF J i i']) (subst f, simp)+
  qed
qed

lemma resume_inherits:
  assumes inv: "sys_inv b H N (s, c)" and J: "inherits H N s" and x: "Link x \<in> N" and s': "nimble_task_resume x s = Some s'"
  shows "inherits H N s'"
proof (cases "task_state s x = NIMBLE_TASK_SUSPENDED")
  case True
  obtain L where i: "sched_inv b {} H N L s" using inv by (rule sys_invE)
  have i': "sched_inv b {} H N (enlist (ReadyList (unat (task_priority s x))) (Link x) L) s'"
    and f: "s' = s\<lparr>tcbs := (tcbs s)(x := (tcbs s x)\<lparr>tcb_state := NIMBLE_TASK_READY\<rparr>),
            heap := heap s', ready_bitmap := ready_bitmap s'\<rparr>"
    using resume_inv [OF i x True] s' by auto
  have tc: "tcbs s' = (tcbs s)(x := (tcbs s x)\<lparr>tcb_state := NIMBLE_TASK_READY\<rparr>)" "mutexes s' = mutexes s"
    "nimble_current_tcb s' = nimble_current_tcb s" by (subst f, simp)+
  have p32: "unat (task_priority s x) < 32" by (rule sched_inv_prio [OF i x])
  have b: "ready_bitmap s' = ready_bitmap s OR bit_mask (unat (task_priority s x))"
    using s' True by (auto simp: nimble_task_resume_def Let_def kdefs dest!: add_ready_bits split: bind_splits)
  have "inherit_inv H N (enlist (ReadyList (unat (task_priority s x))) (Link x) L) s'"
    by (rule inherit_wakes [OF inheritsD [OF J i] _ _ tc(2,3)])
      (use x p32 True in \<open>auto simp: tc(1) b level_def can_run_def bit_set_mask split: if_splits\<close>)
  then show ?thesis by (rule inheritsI [OF i'])
qed (use resume_other s' J in auto)

lemma timer_arm_inherits:
  assumes inv: "sys_inv b H N (s, c)" and J: "inherits H N s" and x: "TimerLink x \<in> N" and s': "timer_arm x s = Some (r, s')"
  shows "inherits H N s'"
proof -
  obtain L where i: "sched_inv b {} H N L s" and o: "objs_inv H N L c s" using inv by (rule sys_invE)
  obtain ts where ts: "timers_inv H N L ts s" using objs_invD(8) [OF o] by blast
  have i': "sched_inv b {} H N (L(ActiveTimers := map TimerLink (start_list x ts s))) s'"
    and f: "s' = s\<lparr>timers := (timers s)(x := started x s), heap := heap s'\<rparr>"
    using timer_arm_inv [OF i ts x] s' by auto
  show ?thesis by (rule inherits_timers [OF J i i']) (subst f, simp)+
qed

lemma timer_period_inherits:
  assumes inv: "sys_inv b H N (s, c)" and J: "inherits H N s"
  shows "inherits H N (timer_set_period x p s)"
proof -
  obtain L where i: "sched_inv b {} H N L s" using inv by (rule sys_invE)
  then have "sched_inv b {} H N (L(ActiveTimers := L ActiveTimers)) (timer_set_period x p s)"
    by (simp add: timer_set_period_eq)
  then show ?thesis by (rule inherits_timers [OF J i]) (simp_all add: timer_set_period_eq)
qed

section \<open>Where it starts\<close>

text \<open>It holds while every task has its own priority and no mutex is owned.\<close>

lemma unboosted_inherits:
  assumes inv: "sys_inv True H N (s, c)" and free: "\<And>m. MutexWaiters m \<in> H \<Longrightarrow> mutex_owner (mutexes s m) = None"
    and base: "\<And>t. Link t \<in> N \<Longrightarrow> tcb_base_priority (tcbs s t) = task_priority s t"
  shows "inherits H N s"
proof -
  obtain L where i: "sched_inv True {} H N L s" and o: "objs_inv H N L c s" using inv by (rule sys_invE)
  note sh = sched_inv_shape [OF i]
  have e: "L (MutexWaiters m) = []" if "MutexWaiters m \<in> H" for m
    using objs_invD(2) [OF o] free that by (simp add: mutex_inv_def)
  have l: "lends H L s x t \<longleftrightarrow> x = t" for x t using free by (intro lends_none) (simp add: owns_none_def)
  have lev: "level s t = unat (task_priority s t)" if "Link t \<in> N" for t using base that by (simp add: level_def)
  have on: "level s t = p" if "p < 32" "Link t \<in> set (L (ReadyList p))" for p t
  proof -
    have "ReadyList p \<in> H" using sh that(1) by (simp add: shape_def)
    then have "Link t \<in> N" by (rule repr_member [OF sched_inv_repr [OF i] _ that(2)])
    then show ?thesis
      using lev sched_inv_tasks [OF i] that unfolding tasks_inv_def by metis
  qed
  have "inherit_inv H N L s"
    by (rule inherit_invI)
      (use e free l lev on sched_inv_bitmap [OF i] in \<open>auto simp: bitmap_inv_def prio_sorted_def\<close>)
  then show ?thesis by (rule inheritsI [OF i])
qed

section \<open>Every step\<close>

text \<open>
  The discipline, as a property of the states of a run: a task that owns a mutex can run and owns
  no other one, a task that waits for a mutex has no deadline, and nobody is suspended.
\<close>

definition disciplined :: "node set \<Rightarrow> node set \<Rightarrow> kernel \<times> calls \<Rightarrow> bool" where
  "disciplined H N x \<longleftrightarrow> (case x of (s, c) \<Rightarrow>
     (\<forall>t. Link t \<in> N \<longrightarrow> task_state s t \<noteq> NIMBLE_TASK_SUSPENDED) \<and>
     (\<forall>m t. MutexWaiters m \<in> H \<longrightarrow> mutex_owner (mutexes s m) = Some t \<longrightarrow> can_run N s t) \<and>
     (\<forall>m m' t. MutexWaiters m \<in> H \<longrightarrow> MutexWaiters m' \<in> H \<longrightarrow> mutex_owner (mutexes s m) = Some t \<longrightarrow>
        mutex_owner (mutexes s m') = Some t \<longrightarrow> m = m') \<and>
     (\<forall>m t. MutexWaiters m \<in> H \<longrightarrow> c t = InLock m \<longrightarrow> task_state s t = NIMBLE_TASK_BLOCKED \<longrightarrow>
        node_next (heap s) (Link t) = Link t))"

lemma disciplinedD:
  assumes "disciplined H N (s, c)"
  shows "Link t \<in> N \<Longrightarrow> task_state s t \<noteq> NIMBLE_TASK_SUSPENDED"
    "MutexWaiters m \<in> H \<Longrightarrow> mutex_owner (mutexes s m) = Some t \<Longrightarrow> can_run N s t"
    "MutexWaiters m \<in> H \<Longrightarrow> MutexWaiters m' \<in> H \<Longrightarrow> mutex_owner (mutexes s m) = Some t \<Longrightarrow>
       mutex_owner (mutexes s m') = Some t \<Longrightarrow> m = m'"
    "MutexWaiters m \<in> H \<Longrightarrow> c t = InLock m \<Longrightarrow> task_state s t = NIMBLE_TASK_BLOCKED \<Longrightarrow>
       node_next (heap s) (Link t) = Link t"
  using assms unfolding disciplined_def by blast+

lemma blocked_free:
  assumes "disciplined H N (s', c')" "task_state s' t = NIMBLE_TASK_BLOCKED" "mutexes s' = mutexes s"
  shows "owns_none H s t"
  using disciplinedD(2) [OF assms(1), of _ t] assms(2,3) by (auto simp: owns_none_def can_run_def)

lemma call_blocked: "call_calm N c K t v r s s' \<Longrightarrow> r = Blocks \<Longrightarrow> task_state s' t = NIMBLE_TASK_BLOCKED"
  by (simp add: call_calm_def)

lemma lock_disciplined:
  assumes inv: "sys_inv b H N (s, c)" and th: "thread s c t NoCall" and m: "MutexWaiters m \<in> H"
    and s': "nimble_mutex_lock m v s = Some (r, s')" and d: "disciplined H N (s', after_call r t (InLock m) c)"
  shows "mutex_owner (mutexes s m) = None \<or> r = Blocks \<Longrightarrow> owns_none H s t" "r = Blocks \<Longrightarrow> v = NIMBLE_WAIT_FOREVER"
proof -
  obtain L where i: "sched_inv b {} H N L s" using inv by (rule sys_invE)
  note T = threadD [OF th]
  have bl: "owns_none H s t \<and> v = NIMBLE_WAIT_FOREVER" if r: "r = Blocks"
  proof -
    have o: "mutex_owner (mutexes s m) \<noteq> None" using s' r lock_free [of s m v] by fastforce
    moreover have o': "mutex_owner (mutexes s m) \<noteq> Some t" using s' r lock_recursive [of s m t v] T(1) by fastforce
    moreover have "v \<noteq> NIMBLE_NO_WAIT"
    proof
      assume "v = NIMBLE_NO_WAIT"
      then have "nimble_mutex_lock m v s = Some (Returns NIMBLE_ERR_TIMEOUT, s)"
        using lock_no_wait [of s m] o o' T(1) by simp
      then show False using s' r by simp
    qed
    ultimately obtain w where w: "mutex_owner (mutexes s m) = Some w" "w \<noteq> t" "v \<noteq> NIMBLE_NO_WAIT" by auto
    obtain ts where ts: "L (MutexWaiters m) = map EventLink ts" using wait_links [OF sched_inv_shape [OF i] m] by auto
    let ?B = "boost w (task_priority s t) s"
    let ?L = "block_lists t v (L(MutexWaiters m := map EventLink (prio_insert (task_priority ?B) t ts)))"
    have i': "sched_inv (b \<and> boost_ok w (task_priority s t) s) {} H N ?L s'"
      and f: "s' = ?B\<lparr>tcbs := (tcbs ?B)(t := (tcbs s t)\<lparr>tcb_state := NIMBLE_TASK_BLOCKED,
                 tcb_wake_tick := if v = NIMBLE_WAIT_FOREVER then tcb_wake_tick (tcbs s t) else g_tick_count s + v\<rparr>),
            pendsv := True, heap := heap s', ready_bitmap := ready_bitmap s'\<rparr>"
      using lock_blocks [OF i T(1,2) m ts w] s' by auto
    have tc: "task_state s' t = NIMBLE_TASK_BLOCKED" "mutexes s' = mutexes s" by (subst f, simp)+
    have "node_next (heap s') (Link t) = Link t" using disciplinedD(4) [OF d m _ tc(1)] r by simp
    then have "Link t \<notin> set (?L DelayedList)" using unlinked_iff [OF i' thread_node [OF i th] tc(1)] by simp
    then have "v = NIMBLE_WAIT_FOREVER" by (auto simp: block_lists_def split: if_splits)
    then show ?thesis using blocked_free [OF d tc] by simp
  qed
  show "r = Blocks \<Longrightarrow> v = NIMBLE_WAIT_FOREVER" using bl by blast
  assume a: "mutex_owner (mutexes s m) = None \<or> r = Blocks"
  show "owns_none H s t"
  proof (cases "r = Blocks")
    case False
    with a have n: "mutex_owner (mutexes s m) = None" by simp
    have s1: "s' = s\<lparr>mutexes := (mutexes s)(m := (mutexes s m)\<lparr>mutex_owner := Some t, mutex_lock_count := 1\<rparr>)\<rparr>"
      using lock_free [OF n, of v] s' T(1) by simp
    show ?thesis
      unfolding owns_none_def
    proof (intro allI impI)
      fix j assume j: "MutexWaiters j \<in> H"
      show "mutex_owner (mutexes s j) \<noteq> Some t"
      proof
        assume o: "mutex_owner (mutexes s j) = Some t"
        then have "j \<noteq> m" using n by auto
        moreover have "mutex_owner (mutexes s' j) = Some t" "mutex_owner (mutexes s' m) = Some t"
          using o calculation by (simp_all add: s1)
        ultimately show False using disciplinedD(3) [OF d j m] by blast
      qed
    qed
  qed (use bl in blast)
qed

lemma step_inherits:
  assumes "sys_step b H N x y" "sys_inv b H N x" "inherits H N (fst x)" "disciplined H N y"
  shows "inherits H N (fst y)"
  using assms
proof (induction rule: sys_step.induct)
  case (tick s s' c)
  then show ?case using tick_inherits by fastforce
next
  case (switch s s' c)
  then show ?case using switch_inherits by fastforce
next
  case (isr_give q s r w s' c)
  then show ?case using isr_give_inherits [OF isr_give(3) _ isr_give(1,2)] by simp
next
  case (isr_send q item s r w s' c)
  then show ?case using isr_send_inherits [OF isr_send(4) _ isr_send(1-3)] by simp
next
  case (yield s c t call)
  then show ?case by (simp add: nimble_task_yield_def)
next
  case (delay s c t n s')
  obtain L where i: "sched_inv b {} H N L s" using delay(3) by (rule sys_invE)
  have "owns_none H s t" if n: "n \<noteq> 0"
  proof -
    have f: "s' = s\<lparr>tcbs := (tcbs s)(t := (tcbs s t)\<lparr>tcb_wake_tick := g_tick_count s + n,
              tcb_state := NIMBLE_TASK_BLOCKED\<rparr>), pendsv := True, heap := heap s', ready_bitmap := ready_bitmap s'\<rparr>"
      using delay_inv [OF i threadD(1,2) [OF delay(1)] n] delay(2) by auto
    show ?thesis by (rule blocked_free [OF delay(5)]) (subst f, simp)+
  qed
  then show ?case using delay_inherits [OF delay(3) _ delay(1) _ delay(2)] delay(4) by simp
next
  case (suspend s c t x s')
  show ?case
  proof (cases "task_state s x = NIMBLE_TASK_READY \<or> task_state s x = NIMBLE_TASK_RUNNING")
    case True
    obtain L where i: "sched_inv b {} H N L s" using suspend(5) by (rule sys_invE)
    have f: "s' = s\<lparr>tcbs := (tcbs s)(x := (tcbs s x)\<lparr>tcb_state := NIMBLE_TASK_SUSPENDED\<rparr>),
            pendsv := (pendsv s \<or> nimble_current_tcb s = Some x), heap := heap s', ready_bitmap := ready_bitmap s'\<rparr>"
      using suspend_inv [OF i suspend(2) True] suspend(4) by auto
    have "task_state s' x = NIMBLE_TASK_SUSPENDED" by (subst f) simp
    then show ?thesis using disciplinedD(1) [OF suspend(7,2)] by simp
  qed (use suspend_other suspend(4,6) in auto)
next
  case (resume s c t x s')
  then show ?case using resume_inherits [OF resume(4) _ resume(2,3)] by simp
next
  case (lock s c t m v r s')
  note D = lock_disciplined [OF lock(5,1,2,4,7)]
  from lock_inherits [OF lock(5) _ lock(1,2) D lock(4)] lock(6) show ?case by simp
next
  case (lock_resume s c t m r s')
  then show ?case using lock_resume_inherits [OF lock_resume(3) _ lock_resume(1,2)] by simp
next
  case (unlock s c t m r s')
  then show ?case using unlock_inherits [OF unlock(4) _ unlock(1-3)] by simp
next
  case (take s c t q v r s')
  have "mutexes s' = mutexes s" using take_step [OF take(4,1,2), of v] take(3) by auto
  then have "r = Blocks \<Longrightarrow> owns_none H s t"
    using blocked_free [OF take(6)] call_blocked [OF take_calm [OF take(4,1-3)]] by blast
  from take_inherits [OF take(4) _ take(1) this take(2,3)] take(5) show ?case by simp
next
  case (take_resume s c t q r s')
  then show ?case using take_resume_inherits [OF take_resume(3) _ take_resume(1,2)] by simp
next
  case (give s c t q r s')
  obtain L where i: "sched_inv b {} H N L s" using give(4) by (rule sys_invE)
  show ?case using give_inherits [OF i _ give(2,3)] give(5) by simp
next
  case (send s c t q item v r s')
  have "mutexes s' = mutexes s" using send_step [OF send(6,1-4), of v] send(5) by auto
  then have "r = Blocks \<Longrightarrow> owns_none H s t"
    using blocked_free [OF send(8)] call_blocked [OF send_calm [OF send(6,1-5)]] by blast
  from send_inherits [OF send(6) _ send(1) this send(2-5)] send(7) show ?case by simp
next
  case (send_resume s c t q item r s')
  then show ?case using send_resume_inherits [OF send_resume(3) _ send_resume(1,2)] by simp
next
  case (receive s c t q v r s')
  have "mutexes s' = mutexes s" using receive_step [OF receive(5,1-3), of v] receive(4) by auto
  then have "r = Blocks \<Longrightarrow> owns_none H s t"
    using blocked_free [OF receive(7)] call_blocked [OF receive_calm [OF receive(5,1-4)]] by blast
  from receive_inherits [OF receive(5) _ receive(1) this receive(2-4)] receive(6) show ?case by simp
next
  case (receive_resume s c t q r s')
  then show ?case using receive_resume_inherits [OF receive_resume(3) _ receive_resume(1,2)] by simp
next
  case (timer_period s c t x p)
  then show ?case using timer_period_inherits [OF timer_period(4)] by simp
next
  case (timer_arm s c t call x r s')
  then show ?case using timer_arm_inherits [OF timer_arm(6) _ timer_arm(4,5)] by simp
next
  case (timer_wake s c t r s')
  obtain L where i: "sched_inv b {} H N L s" using timer_wake(4) by (rule sys_invE)
  show ?case using give_inherits [OF i _ timer_wake(2,3)] timer_wake(5) by simp
next
  case (timer_stop s c t x r s')
  then show ?case using timer_stop_inherits [OF timer_stop(4) _ timer_stop(2,3)] by simp
next
  case (timer_expire s c r s')
  then show ?case using timer_expire_inherits [OF timer_expire(3) _ timer_expire(2)] by simp
qed

text \<open>A run whose states keep the discipline.\<close>

inductive disciplined_run :: "bool \<Rightarrow> node set \<Rightarrow> node set \<Rightarrow> kernel \<times> calls \<Rightarrow> kernel \<times> calls \<Rightarrow> bool" for b H N x where
  start: "disciplined_run b H N x x"
| step: "disciplined_run b H N x y \<Longrightarrow> sys_step b H N y z \<Longrightarrow> disciplined H N z \<Longrightarrow> disciplined_run b H N x z"

lemma run_inherits:
  assumes "disciplined_run b H N x y" "sys_inv b H N x" "inherits H N (fst x)"
  shows "sys_inv b H N y \<and> inherits H N (fst y)"
  using assms
proof (induction rule: disciplined_run.induct)
  case (step y z)
  then show ?case using step_inherits sys.step_inv by blast
qed simp

end
