(* ===== verification/App_Inheritance.thy ===== *)
theory App_Inheritance
  imports App_Invariant Inheritance_Steps
begin

text \<open>
  The application keeps the discipline under which priority inheritance is harmless (theory
  \<open>Inheritance\<close>), whatever the order of interrupts and tasks: a task owns the status mutex only
  inside an accessor, which blocks nowhere else, and locks it without a timeout.
\<close>

definition app_inherits :: "config \<Rightarrow> bool" where
  "app_inherits x \<longleftrightarrow> (case x of (a, c, w) \<Rightarrow> inherits (live_heads w) app_nodes (kern a))"

lemma live_mutex: "MutexWaiters m \<in> live_heads w \<longleftrightarrow> m = g_status_mutex"
  by (auto simp: live_heads_def heads_at_def uart_heads_def app_heads_def boot_heads_def)

lemma live_heads_cong:
  "uart_stage w' = uart_stage w \<Longrightarrow> live_heads w' = live_heads w"
  by (simp add: live_heads_def)

text \<open>A task in front of a call owns nothing.\<close>

lemma app_owns_none:
  assumes "app_inv b (a, c, w)" "thread (kern a) c t NoCall" "w t = At p"
  shows "owns_none (live_heads w) (kern a) t"
  using app_invD(3) [OF assms(1)] threadD(3) [OF assms(2)] assms(3)
  by (auto simp: owns_none_def live_mutex sections_ok_def)

section \<open>Interrupts\<close>

lemma adc_inherits:
  assumes inv: "app_inv b (a, c, w)" and J: "inherits (live_heads w) app_nodes (kern a)"
    and k: "ADC_IRQHandler dr (kern a) = Some k"
  shows "inherits (live_heads w) app_nodes k"
proof -
  note I = app_invD [OF inv] and H = live_heads_mem [of w]
  let ?q = g_adc_sample_queue
  obtain r y s1 s2 where s1: "nimble_queue_send_from_isr ?q (sample_bytes (adc_sample dr)) (kern a) = Some (r, y, s1)"
    and s2: "s2 = s1 \<or> (\<exists>r' y'. nimble_semaphore_give_from_isr g_fault_semaphore s1 = Some (r', y', s2))"
    and k': "k = s2 \<or> k = nimble_port_request_context_switch s2"
    using k by (rule adc_calls)
  have size: "length (sample_bytes (adc_sample dr)) = unat (queue_item_size (queues (kern a) ?q))"
    using I(5) by (simp add: data_ok_def)
  have i1: "sys_inv b (live_heads w) app_nodes (s1, c)" using isr_send_step [OF I(1) H(4) size] s1 by auto
  note J1 = isr_send_inherits [OF I(1) J H(4) size s1]
  have "inherits (live_heads w) app_nodes s2" using s2 J1 isr_give_inherits [OF i1 J1 H(2)] by blast
  then show ?thesis using k' by auto
qed

lemma usart_inherits:
  assumes inv: "app_inv b (a, c, w)" and J: "inherits (live_heads w) app_nodes (kern a)"
    and k: "USART1_IRQHandler sr dr (kern a) = Some k" and window: "uart_window w \<longrightarrow> sr AND USART1_SR_RXNE = 0"
  shows "inherits (live_heads w) app_nodes k"
proof (cases "sr AND USART1_SR_RXNE = 0")
  case True
  then show ?thesis using k J by (simp add: USART1_IRQHandler_def)
next
  case False
  note I = app_invD [OF inv] and H = live_heads_mem [of w]
  let ?q = g_uart_rx_queue and ?b = "[ucast (dr AND 0xFF)] :: u8 list"
  obtain r y s1 where s1: "nimble_queue_send_from_isr ?q ?b (kern a) = Some (r, y, s1)"
    and k': "k = s1 \<or> k = nimble_port_request_context_switch s1"
    using k False by (auto simp: USART1_IRQHandler_def Let_def bind_eq_Some_conv split: if_splits)
  have "inherits (live_heads w) app_nodes s1"
  proof (cases "uart_stage w < 7")
    case True
    then have "uart_stage w < 3" using window False by (simp add: uart_window_def)
    then have "\<not> queue_count (queues (kern a) ?q) < queue_capacity (queues (kern a) ?q)"
      using I(5) by (simp add: data_ok_def uart_fields_def)
    then show ?thesis using send_from_isr_full s1 J by auto
  next
    case False
    then have live: "7 \<le> uart_stage w" by simp
    from False have "length ?b = unat (queue_item_size (queues (kern a) ?q))" using I(5) by (simp add: data_ok_def)
    from isr_send_inherits [OF I(1) J H(6) [OF live] this s1] show ?thesis .
  qed
  then show ?thesis using k' by auto
qed

lemma irq_inherits: "app_irq x y \<Longrightarrow> app_inv b x \<Longrightarrow> app_inherits x \<Longrightarrow> app_inherits y"
proof (induction rule: app_irq.induct)
  case (tick a k c w)
  then show ?case using tick_inherits [OF app_invD(1)] by (simp add: app_inherits_def)
next
  case (switch a k c w)
  then show ?case using switch_inherits [OF app_invD(1)] by (fastforce simp: app_inherits_def)
next
  case (adc dr a k c w)
  then show ?case using adc_inherits by (simp add: app_inherits_def)
next
  case (usart sr dr a k c w)
  then show ?case using usart_inherits by (simp add: app_inherits_def)
qed

section \<open>Calls outside the sections\<close>

text \<open>A store of the comms task adds a list head or nothing.\<close>

lemma uart_store_inherits:
  assumes inv: "sys_inv b (heads_at n) N (s, c)" and n: "n < 8" and J: "inherits (heads_at n) N s"
  shows "inherits (heads_at (Suc n)) N ((uart_init_stores ! n) s)"
proof -
  let ?s = "(uart_init_stores ! n) s"
  obtain L where i: "sched_inv b {} (heads_at n) N L s" using inv by (rule sys_invE)
  let ?L = "uart_lists n L"
  have i': "sched_inv b {} (heads_at (Suc n)) N ?L ?s" by (rule uart_store_sched [OF i n])
  have f: "tcbs ?s = tcbs s" "mutexes ?s = mutexes s" "nimble_current_tcb ?s = nimble_current_tcb s"
    "ready_bitmap ?s = ready_bitmap s"
    by (subst uart_store_frame [OF n], simp)+
  have m: "MutexWaiters m \<in> heads_at (Suc n) \<longleftrightarrow> MutexWaiters m \<in> heads_at n" for m
    by (simp add: heads_at_def uart_heads_def)
  have "inherit_inv (heads_at n) N L ?s"
    using inheritsD [OF J i] by (subst inherit_inv_same [where s = s]) (simp_all add: f)
  moreover have "lends (heads_at (Suc n)) ?L ?s = lends (heads_at n) L ?s"
    by (auto simp: lends_def m fun_eq_iff uart_lists_def)
  moreover have "ahead ?L ?s = ahead L ?s" by (auto simp: ahead_def fun_eq_iff uart_lists_def)
  moreover have l: "?L (MutexWaiters k) = L (MutexWaiters k)" "?L DelayedList = L DelayedList"
    "?L (ReadyList p) = L (ReadyList p)" for k p
    by (simp_all add: uart_lists_def)
  ultimately have "inherit_inv (heads_at (Suc n)) N ?L ?s" unfolding inherit_inv_def m l by simp
  then show ?thesis by (rule inheritsI [OF i'])
qed

lemma comms_init_inherits:
  assumes sys: "sys_inv b (live_heads w) app_nodes (kern a, c)" and J: "inherits (live_heads w) app_nodes (kern a)"
    and w: "w comms_tcb = At (Comms_Init n)" and step: "comms_init_step n a = (r, a')"
  shows "inherits (live_heads (move r comms_tcb w)) app_nodes (kern a')"
proof -
  define m where "m = min n 7"
  have "last uart_init_stores = uart_init_stores ! 7" by (simp add: uart_init_stores_def queue_init_stores_def)
  then have "m < 8" "uart_stage w = m" "kern a' = (uart_init_stores ! m) (kern a)" "uart_stage (move r comms_tcb w) = Suc m"
    using w step by (auto simp: comms_init_step_def m_def uart_stage_def min_def split: if_splits)
  then show ?thesis using uart_store_inherits [of b m app_nodes "kern a" c] sys J by (simp add: live_heads_def)
qed

text \<open>The first halves.\<close>

lemma plain_inherits:
  assumes inv: "app_inv b (a, c, w)" and th: "thread (kern a) c t NoCall" and wt: "w t = At p"
    and p: "section_of p a = None" and step: "plain_step p a = Some (r, a')"
    and J: "inherits (live_heads w) app_nodes (kern a)"
  shows "inherits (live_heads (move r t w)) app_nodes (kern a')"
proof -
  note I = app_invD [OF inv] and H = live_heads_mem [of w] and line = line_ok [OF inv]
  have tp: "runs p = t" using I(2) thread_task [OF I(1) th] wt by (auto simp: stages_ok_def)
  note free = app_owns_none [OF inv th wt]
  have mc: "live_heads (move r t w) = live_heads w"
    if "init_done p" "\<And>p'. r = Returns p' \<Longrightarrow> init_done p'"
    using move_comms [of w t p r, OF wt that(1)] that(2) live_heads_cong by blast
  from p show ?thesis
  proof (cases rule: plain_places)
    case 1
    obtain r0 k where k: "nimble_semaphore_take g_fault_semaphore NIMBLE_WAIT_FOREVER (kern a) = Some (r0, k)"
      using step 1 by (cases "nimble_semaphore_take g_fault_semaphore NIMBLE_WAIT_FOREVER (kern a)") (auto simp: at_place_def)
    have "kern a' = k" "live_heads (move r t w) = live_heads w"
      using step 1 k mc by (cases r0; auto simp: at_place_def)+
    then show ?thesis using take_inherits [OF I(1) J th free H(2) k] by simp
  next
    case 2
    obtain r0 k where k: "nimble_queue_receive g_adc_sample_queue NIMBLE_WAIT_FOREVER (kern a) = Some (r0, k)"
      using step 2 by (cases "nimble_queue_receive g_adc_sample_queue NIMBLE_WAIT_FOREVER (kern a)") (auto simp: at_place_def)
    have "kern a' = k" "live_heads (move r t w) = live_heads w"
      using step 2 k mc by (cases r0; auto simp: at_place_def)+
    then show ?thesis using receive_inherits [OF I(1) J th free H(4,5) k] by simp
  next
    case 3
    then have t: "t = comms_tcb" using tp by simp
    then show ?thesis using comms_init_inherits [OF I(1) J, of _ r a'] wt 3 step by simp
  next
    case 4
    obtain r0 k where k: "nimble_queue_receive g_uart_rx_queue NIMBLE_WAIT_FOREVER (kern a) = Some (r0, k)"
      using step 4 by (cases "nimble_queue_receive g_uart_rx_queue NIMBLE_WAIT_FOREVER (kern a)") (auto simp: at_place_def)
    have live: "7 \<le> uart_stage w" "8 \<le> uart_stage w" using wt tp 4 by (auto simp: uart_stage_def)
    have "kern a' = k \<and> live_heads (move r t w) = live_heads w"
    proof (cases r0)
      case (Returns x)
      obtain pc b where x: "comms_received x (a\<lparr>kern := k\<rparr>) = Some (pc, b)" "kern b = k"
        using comms_received_ok [of "a\<lparr>kern := k\<rparr>" x] line by auto
      then show ?thesis using step 4 k Returns mc by (auto simp: at_place_def)
    qed (use step 4 k mc in \<open>auto simp: at_place_def\<close>)
    then show ?thesis using receive_inherits [OF I(1) J th free H(6) [OF live(1)] H(7) [OF live(2)] k] by simp
  next
    case 5
    obtain k where k: "nimble_task_delay LOGGER_PERIOD_TICKS (kern a) = Some k"
      using step 5 by (cases "nimble_task_delay LOGGER_PERIOD_TICKS (kern a)") (auto simp: at_place_def)
    have "kern a' = k" "live_heads (move r t w) = live_heads w" using step 5 k mc by (auto simp: at_place_def)
    then show ?thesis using delay_inherits [OF I(1) J th free k] by simp
  next
    case 6
    obtain r0 k where k: "nimble_semaphore_take timer_wake_sem NIMBLE_WAIT_FOREVER (kern a) = Some (r0, k)"
      using step 6 service_fire(2) [OF I(1)]
      by (cases "nimble_semaphore_take timer_wake_sem NIMBLE_WAIT_FOREVER (kern a)") (auto simp: timer_task_wait_def)
    have "kern a' = k" "live_heads (move r t w) = live_heads w"
      using step 6 k mc service_fire(2) [OF I(1)] by (cases r0; auto simp: timer_task_wait_def)+
    then show ?thesis using take_inherits [OF I(1) J th free H(3) k] by simp
  next
    case 7
    then show ?thesis using step service_fire(1) [OF I(1)] J mc by auto
  qed
qed

text \<open>The second halves.\<close>

lemma plain_resume_inherits:
  assumes inv: "app_inv b (a, c, w)" and th: "thread (kern a) c t (call_of p)" and wt: "w t = At p"
    and p: "section_of p a = None" "call_of p \<noteq> NoCall" and step: "plain_resume t p a = Some (r, a')"
    and J: "inherits (live_heads w) app_nodes (kern a)"
  shows "inherits (live_heads (move r t w)) app_nodes (kern a')"
proof -
  note I = app_invD [OF inv] and line = line_ok [OF inv]
  have mc: "live_heads (move r t w) = live_heads w" if "\<And>p'. r = Returns p' \<Longrightarrow> init_done p'"
  proof -
    have "init_done p" using p(2) by (rule call_done)
    then show ?thesis using move_comms [of w t p r, OF wt] that live_heads_cong by blast
  qed
  from p(1) show ?thesis
  proof (cases rule: plain_places)
    case 1
    obtain x k where k: "nimble_semaphore_take_resume g_fault_semaphore t (kern a) = (x, k)" by fastforce
    have "kern a' = k" "live_heads (move r t w) = live_heads w" using step 1 k mc by (auto simp: at_place_def)
    then show ?thesis using take_resume_inherits [OF I(1) J th k] by simp
  next
    case 2
    then have th': "thread (kern a) c t (InReceive g_adc_sample_queue)" using th by simp
    obtain x k where k: "nimble_queue_receive_resume g_adc_sample_queue t (kern a) = Some (x, k)"
      using receive_resume_step [OF I(1) th'] by blast
    have "kern a' = k" "live_heads (move r t w) = live_heads w" using step 2 k mc by (auto simp: at_place_def)
    then show ?thesis using receive_resume_inherits [OF I(1) J th' k] by simp
  next
    case 4
    then have th': "thread (kern a) c t (InReceive g_uart_rx_queue)" using th by simp
    obtain x k where k: "nimble_queue_receive_resume g_uart_rx_queue t (kern a) = Some (x, k)"
      using receive_resume_step [OF I(1) th'] by blast
    obtain pc b where x: "comms_received x (a\<lparr>kern := k\<rparr>) = Some (pc, b)" "kern b = k"
      using comms_received_ok [of "a\<lparr>kern := k\<rparr>" x] line by auto
    then have "kern a' = k" "live_heads (move r t w) = live_heads w" using step 4 k mc by (auto simp: at_place_def)
    then show ?thesis using receive_resume_inherits [OF I(1) J th' k] by simp
  next
    case 6
    obtain x k where k: "nimble_semaphore_take_resume timer_wake_sem t (kern a) = (x, k)" by fastforce
    have "kern a' = k" "live_heads (move r t w) = live_heads w" using step 6 k mc by auto
    then show ?thesis using take_resume_inherits [OF I(1) J th k] by simp
  qed (use p(2) in simp_all)
qed

section \<open>Every step\<close>

lemma task_inherits:
  assumes "app_task b t x y" "app_inv b x" "app_inherits x"
  shows "app_inherits y"
  using assms
proof (induction rule: app_task.induct)
  case (plain a c w p r a')
  then show ?case using plain_inherits [OF plain(5,1-4)] by (simp add: app_inherits_def)
next
  case (plain_resume a c p w r a')
  then show ?case using plain_resume_inherits [OF plain_resume(6,1,3,4,2,5)] by (simp add: app_inherits_def)
next
  case (lock a c w p r k)
  have J: "inherits (live_heads w) app_nodes (kern a)" using lock(7) by (simp add: app_inherits_def)
  have "init_done p" using lock(3) section_of_call [of p a] by (intro call_done) auto
  then have "live_heads (case r of Returns _ \<Rightarrow> w(t := Locked p) | Blocks \<Rightarrow> w) = live_heads w"
    using uart_stage_moves(2) [where w = w, OF lock(2)] by (intro live_heads_cong) (auto split: call_result.splits)
  moreover have "inherits (live_heads w) app_nodes k"
    by (rule lock_inherits [OF app_invD(1) [OF lock(6)] J lock(1) live_heads_mem(1) app_owns_none [OF lock(6,1,2)] _ lock(5)]) simp
  ultimately show ?case by (simp add: app_inherits_def)
next
  case (lock_resume a c w p r k)
  have J: "inherits (live_heads w) app_nodes (kern a)" using lock_resume(5) by (simp add: app_inherits_def)
  have "call_of (place_in (w t)) = c t"
    using app_invD(2) [OF lock_resume(4)] threadD(3) [OF lock_resume(1)] by (auto simp: stages_ok_def)
  then have "init_done p" using lock_resume(2) threadD(3) [OF lock_resume(1)] by (intro call_done) auto
  then have "live_heads (w(t := Locked p)) = live_heads w"
    using uart_stage_moves(2) [where w = w, OF lock_resume(2)] by (intro live_heads_cong)
  moreover have "inherits (live_heads w) app_nodes k"
    by (rule lock_resume_inherits [OF app_invD(1) [OF lock_resume(4)] J lock_resume(1,3)])
  ultimately show ?case by (simp add: app_inherits_def)
next
  case (access a c w p f)
  have "live_heads (w(t := Accessed p (f (g_status a)))) = live_heads w"
    by (intro live_heads_cong uart_stage_moves(3) [where w = w, OF access(2)])
  then show ?case using access(5) by (simp add: app_inherits_def)
next
  case (unlock a c w p status r k p' a')
  have J: "inherits (live_heads w) app_nodes (kern a)" using unlock(6) by (simp add: app_inherits_def)
  have "in_section (w t)" using unlock(2) by simp
  then have "call_of p = InLock g_status_mutex"
    using app_invD(2) [OF unlock(5)] unlock(2) unfolding stages_ok_def by (metis place_in.simps(3))
  note A = after_section_ok [OF unlock(4) this]
  have "live_heads (w(t := At p')) = live_heads w" 
    using A by (intro live_heads_cong uart_stage_moves(4) [where w = w, OF unlock(2)]) simp
  moreover have "inherits (live_heads w) app_nodes k"
    by (rule unlock_inherits [OF app_invD(1) [OF unlock(5)] J unlock(1) live_heads_mem(1) unlock(3)])
  ultimately show ?case using A by (simp add: app_inherits_def)
qed

text \<open>The invariant of the application with the discipline.\<close>

definition app_safe :: "bool \<Rightarrow> config \<Rightarrow> bool" where
  "app_safe b x \<longleftrightarrow> app_inv b x \<and> app_inherits x"

interpretation apps: transition_system "app_step b" "app_safe b" for b
  by unfold_locales
    (use app_step_sound irq_inherits task_inherits in \<open>unfold app_safe_def app_step_def, blast\<close>)

end
