(* ===== verification/App_Reaction.thy ===== *)
theory App_Reaction
  imports App_Control Wait_Forever
begin

text \<open>
  From the interrupt that sees an over-limit reading to the published fault: the chain of steps
  through the interrupt, the context switch and the protection task.
\<close>

section \<open>The booted application\<close>

text \<open>The booted application after its first task has gone to wait for a fault.\<close>

lemma booted_waits:
  shows "\<exists>k L. protection_step Protection_Take booted = Some (Blocks, booted\<lparr>kern := k\<rparr>) \<and>
     sched_inv True {} app_heads app_nodes L k \<and>
     objs_inv app_heads app_nodes L ((\<lambda>_. NoCall)(protection_tcb := InTake g_fault_semaphore)) k \<and>
     L (SemWaiters g_fault_semaphore) = [EventLink protection_tcb] \<and>
     (\<forall>t. task_priority k t = task_priority (kern booted) t) \<and>
     queues k = queues (kern booted) \<and> mutexes k = mutexes (kern booted)"
proof -
  let ?s = "kern booted" and ?p = protection_tcb and ?f = g_fault_semaphore and ?c = "\<lambda>_. NoCall"
  let ?L = "delist (Link protection_tcb) app_lists"
  note T = threadD [OF booted_inv(2)]
  have H: "SemWaiters ?f \<in> app_heads" by (simp add: app_heads_def)
  have L: "?L (SemWaiters ?f) = map EventLink []" by (simp add: app_lists_simps)
  have c: "sem_count (semaphores ?s ?f) = 0" "NIMBLE_WAIT_FOREVER \<noteq> NIMBLE_NO_WAIT" by (simp_all add: booted_inv kdefs)
  from take_blocks [OF booted_inv(3) T(1,2) H L c]
  obtain k where k: "nimble_semaphore_take ?f NIMBLE_WAIT_FOREVER ?s = Some (Blocks, k)"
    and i: "sched_inv True {} app_heads app_nodes
       (block_lists ?p NIMBLE_WAIT_FOREVER (?L(SemWaiters ?f := map EventLink (prio_insert (task_priority ?s) ?p [])))) k"
    and f: "k = ?s\<lparr>tcbs := (tcbs ?s)(?p := (tcbs ?s ?p)\<lparr>tcb_state := NIMBLE_TASK_BLOCKED,
           tcb_wake_tick := if NIMBLE_WAIT_FOREVER = NIMBLE_WAIT_FOREVER then tcb_wake_tick (tcbs ?s ?p)
                            else g_tick_count ?s + NIMBLE_WAIT_FOREVER\<rparr>),
         pendsv := True, heap := heap k, ready_bitmap := ready_bitmap k\<rparr>"
    by blast
  have fr: "mutexes k = mutexes ?s" "semaphores k = semaphores ?s" "queues k = queues ?s" "timers k = timers ?s"
    "\<And>t. task_priority k t = task_priority ?s t" "task_state k ?p = NIMBLE_TASK_BLOCKED"
    "\<And>y. y \<noteq> ?p \<Longrightarrow> tcbs k y = tcbs ?s y"
    by (subst f, simp)+
  let ?L' = "block_lists ?p NIMBLE_WAIT_FOREVER (?L(SemWaiters ?f := map EventLink (prio_insert (task_priority ?s) ?p [])))"
  have "objs_inv app_heads app_nodes ?L' (?c(?p := InTake ?f)) k"
    by (rule objs_block [OF booted_inv(3,4,2) H _ _ L i fr(1-4)])
      (use fr c calls_inv_simple(3) [OF objs_invD(6) [OF booted_inv(4)]] in simp_all)
  moreover have "?L' (SemWaiters ?f) = [EventLink ?p]" by (simp add: block_lists_def prio_insert_simps)
  moreover have "protection_step Protection_Take booted = Some (Blocks, booted\<lparr>kern := k\<rparr>)" using k by simp
  ultimately show ?thesis using i fr by blast
qed

lemma booted_priorities:
  assumes t: "Link t \<in> app_nodes" "t \<noteq> protection_tcb"
  shows "task_priority (kern booted) t < task_priority (kern booted) protection_tcb"
proof -
  let ?L = "delist (Link protection_tcb) app_lists"
  have "\<exists>p\<le>3. Link t \<in> set (?L (ReadyList p))"
  proof -
    consider "t = idle_tcb" | "t = control_tcb" | "t = comms_tcb" | "t = logger_tcb" | "t = timer_task_tcb"
      using t by (auto simp: app_nodes_def)
    then show ?thesis
    proof cases
      case 1 then show ?thesis by (intro exI [of _ 0]) (simp add: app_lists_def app_ids)
    next
      case 2 then show ?thesis by (intro exI [of _ 3]) (simp add: app_lists_def app_ids)
    next
      case 3 then show ?thesis by (intro exI [of _ 2]) (simp add: app_lists_def app_ids)
    next
      case 4 then show ?thesis by (intro exI [of _ "Suc 0"]) (simp add: app_lists_def app_ids)
    next
      case 5 then show ?thesis by (intro exI [of _ 3]) (simp add: app_lists_def app_ids)
    qed
  qed
  then obtain p where p: "p \<le> 3" "Link t \<in> set (?L (ReadyList p))" by blast
  then have "unat (task_priority (kern booted) t) = p"
    using tasks_inv_ready_prio [OF sched_inv_tasks [OF booted_inv(3)], of p t] by simp
  then show ?thesis using p(1) by (simp add: booted_inv PS_PRIO_PROTECTION_def word_less_nat_alt)
qed

text \<open>The interrupt wakes the protection task, and the context switch runs it.\<close>

lemma fault_wakes:
  assumes i: "sched_inv True {} H N L s" and o: "objs_inv H N L c s"
    and H: "QueueReceivers g_adc_sample_queue \<in> H" "SemWaiters g_fault_semaphore \<in> H"
    and size: "queue_item_size (queues s g_adc_sample_queue) = 4"
    and waits: "L (SemWaiters g_fault_semaphore) = EventLink protection_tcb # ws" "Link protection_tcb \<in> N"
    and top: "\<And>t. Link t \<in> N \<Longrightarrow> t \<noteq> protection_tcb \<Longrightarrow> task_priority s t < task_priority s protection_tcb"
    and over: "2458 \<le> uint (dr AND 0xFFF)"
  shows "\<exists>s1 s2. ADC_IRQHandler dr s = Some s1 \<and> pendsv s1 \<and> PendSV_Handler s1 = Some s2 \<and>
     sys_inv True H N (s2, c) \<and> thread s2 c protection_tcb (InTake g_fault_semaphore) \<and>
     tcb_last_wait_result (tcbs s2 protection_tcb) = NIMBLE_OK \<and> mutexes s2 = mutexes s"
proof -
  let ?p = protection_tcb and ?f = g_fault_semaphore
  obtain s1 L1 where s1: "ADC_IRQHandler dr s = Some s1" and i1: "sched_inv True {} H N L1 s1"
    and o1: "objs_inv H N L1 c s1" and m1: "mutexes s1 = mutexes s"
    and pr: "\<And>x. task_priority s1 x = task_priority s x"
    and w: "task_state s1 ?p = NIMBLE_TASK_READY" "tcb_last_wait_result (tcbs s1 ?p) = NIMBLE_OK" "pendsv s1"
    using adc_spec [OF i o H(1) size H(2), of dr] over waits(1) by auto
  obtain s2 where s2: "PendSV_Handler s1 = Some s2" "sys_inv True H N (s2, c)" "nimble_current_tcb s2 = Some ?p"
    "task_state s2 ?p = NIMBLE_TASK_RUNNING" "mutexes s2 = mutexes s1"
    "tcb_last_wait_result (tcbs s2 ?p) = NIMBLE_OK"
    using switch_to_highest [OF i1 sys_invI [OF i1 o1] waits(2) w(1)] top pr w(2) by force
  have "EventLink ?p \<in> set (L (SemWaiters ?f))" using waits(1) by simp
  then have "waits_on (c ?p) = Some (SemWaiters ?f)" using objs_invD(4) [OF o] H(2) by (simp add: waits_inv_def)
  then have "c ?p = InTake ?f" by (cases "c ?p") simp_all
  then have "thread s2 c ?p (InTake ?f)" using s2 by (simp add: thread_def app_ids)
  then show ?thesis using s1 w(3) s2 m1 by simp
qed

text \<open>
  C14. Bounded reaction to a fault while the status mutex is free: when the protection task waits for
  the fault semaphore, has the highest priority, and no task owns \<^verbatim>\<open>g_status_mutex\<close>, an ADC interrupt
  with an over-limit reading
  leads to the published fault in four steps: the handler requests a switch, the next context
  switch runs the protection task, its take returns \<^verbatim>\<open>NIMBLE_OK\<close>, and it publishes the fault and
  counts it. No other task runs in between. (With the mutex owned, the protection task blocks in the
  third step behind its owner.)
\<close>

theorem fault_reaction:
  assumes i: "sched_inv True {} H N L (kern a)" and o: "objs_inv H N L c (kern a)"
    and H: "QueueReceivers g_adc_sample_queue \<in> H" "SemWaiters g_fault_semaphore \<in> H" "MutexWaiters g_status_mutex \<in> H"
    and size: "queue_item_size (queues (kern a) g_adc_sample_queue) = 4"
    and waits: "L (SemWaiters g_fault_semaphore) = EventLink protection_tcb # ws" "Link protection_tcb \<in> N"
    and top: "\<And>t. Link t \<in> N \<Longrightarrow> t \<noteq> protection_tcb \<Longrightarrow>
      task_priority (kern a) t < task_priority (kern a) protection_tcb"
    and free: "mutex_owner (mutexes (kern a) g_status_mutex) = None" and over: "2458 \<le> uint (dr AND 0xFFF)"
  shows "\<exists>s1 s2 a3 a4. ADC_IRQHandler dr (kern a) = Some s1 \<and> pendsv s1 \<and>
     PendSV_Handler s1 = Some s2 \<and> nimble_current_tcb s2 = Some protection_tcb \<and>
     protection_resume protection_tcb Protection_Take (a\<lparr>kern := s2\<rparr>) = Some (Returns Protection_Note, a3) \<and>
     protection_step Protection_Note a3 = Some (Returns Protection_Take, a4) \<and>
     g_status a4 = ps_status_note_fault (g_status a) \<and>
     sys_inv True H N (kern a4, c(protection_tcb := NoCall))"
proof -
  let ?p = protection_tcb and ?f = g_fault_semaphore
  obtain s1 s2 where s1: "ADC_IRQHandler dr (kern a) = Some s1" "pendsv s1"
    and s2: "PendSV_Handler s1 = Some s2" "sys_inv True H N (s2, c)" "tcb_last_wait_result (tcbs s2 ?p) = NIMBLE_OK"
      "mutexes s2 = mutexes (kern a)"
    and th2: "thread s2 c ?p (InTake ?f)"
    using fault_wakes [OF i o H(1,2) size waits top over] by blast
  obtain L2 where i2: "sched_inv True {} H N L2 s2" using s2(2) by (rule sys_invE)
  obtain s3 where s3: "nimble_semaphore_take_resume ?f ?p s2 = (NIMBLE_OK, s3)" and f3: "s3 = s2\<lparr>heap := heap s3\<rparr>"
    using take_resume_inv [OF i2 waits(2) threadD(2) [OF th2], of ?f] s2(3) by auto
  have inv3: "sys_inv True H N (s3, c(?p := NoCall))" "mutexes s3 = mutexes s2"
    using take_resume_step [OF s2(2) th2, of ?f] s3 by auto
  have th3: "thread s3 (c(?p := NoCall)) ?p NoCall" using th2 by (subst f3) (simp add: thread_def)
  let ?a3 = "a\<lparr>kern := s3\<rparr>"
  have r3: "protection_resume ?p Protection_Take (a\<lparr>kern := s2\<rparr>) = Some (Returns Protection_Note, ?a3)"
    using s3 by (simp add: protection_taken_def)
  have k: "sys_inv True H N (kern ?a3, c(?p := NoCall))" "thread (kern ?a3) (c(?p := NoCall)) ?p NoCall"
    "mutex_owner (mutexes (kern ?a3) g_status_mutex) = None"
    using inv3 th3 s2(4) free by simp_all
  obtain k4 where k4: "with_status ps_status_note_fault ?a3 = Some (Returns (ps_status_note_fault (g_status ?a3)),
      ?a3\<lparr>g_status := ps_status_note_fault (g_status ?a3), kern := k4\<rparr>)" "sys_inv True H N (k4, c(?p := NoCall))"
    using with_status_free [OF k(1,2) H(3) k(3)] by blast
  let ?a4 = "?a3\<lparr>g_status := ps_status_note_fault (g_status a), kern := k4\<rparr>"
  have "protection_step Protection_Note ?a3 = Some (Returns Protection_Take, ?a4)"
    using k4(1) by (simp add: protection_noted_def)
  moreover have "g_status ?a4 = ps_status_note_fault (g_status a)" "sys_inv True H N (kern ?a4, c(?p := NoCall))"
    using k4(2) by simp_all
  ultimately show ?thesis using s1 s2(1) threadD(1) [OF th2] r3 by blast
qed

theorem fault_reaction_witness:
  "\<exists>a s1 s2 a3 a4. protection_step Protection_Take booted = Some (Blocks, a) \<and>
     ADC_IRQHandler 3000 (kern a) = Some s1 \<and> PendSV_Handler s1 = Some s2 \<and>
     protection_resume protection_tcb Protection_Take (a\<lparr>kern := s2\<rparr>) = Some (Returns Protection_Note, a3) \<and>
     protection_step Protection_Note a3 = Some (Returns Protection_Take, a4) \<and>
     status_state (g_status a4) = PS_STATE_FAULT \<and> status_fault_count (g_status a4) = 1"
proof -
  obtain k L where k: "protection_step Protection_Take booted = Some (Blocks, booted\<lparr>kern := k\<rparr>)"
    "sched_inv True {} app_heads app_nodes L (kern (booted\<lparr>kern := k\<rparr>))"
    "objs_inv app_heads app_nodes L ((\<lambda>_. NoCall)(protection_tcb := InTake g_fault_semaphore)) (kern (booted\<lparr>kern := k\<rparr>))"
    "L (SemWaiters g_fault_semaphore) = [EventLink protection_tcb]"
    "\<And>t. task_priority (kern (booted\<lparr>kern := k\<rparr>)) t = task_priority (kern booted) t"
    "queues (kern (booted\<lparr>kern := k\<rparr>)) = queues (kern booted)" "mutexes (kern (booted\<lparr>kern := k\<rparr>)) = mutexes (kern booted)"
    using booted_waits by auto
  have H: "QueueReceivers g_adc_sample_queue \<in> app_heads" "SemWaiters g_fault_semaphore \<in> app_heads"
    "MutexWaiters g_status_mutex \<in> app_heads" "Link protection_tcb \<in> app_nodes"
    by (simp_all add: app_heads_def app_nodes_def)
  have "queue_item_size (queues (kern (booted\<lparr>kern := k\<rparr>)) g_adc_sample_queue) = 4"
    "mutex_owner (mutexes (kern (booted\<lparr>kern := k\<rparr>)) g_status_mutex) = None" "2458 \<le> uint (3000 AND 0xFFF :: u32)"
    using k(6,7) by (simp_all add: booted_inv new_queue_def)
  from fault_reaction [OF k(2,3) H(1-3) this(1) k(4) H(4) _ this(2,3)] k(1,5) booted_priorities
  show ?thesis by (fastforce simp: booted_inv ps_status_note_fault_def)
qed

end
