(* ===== verification/App_Safety.thy ===== *)
theory App_Safety
  imports App_Inheritance App_Reaction
begin

text \<open>
  What holds of the application in every state it can reach from reset: exclusive access to the
  shared status, no wait that fails, and progress.
\<close>

section \<open>From reset\<close>

text \<open>What \<^verbatim>\<open>Reset_Handler\<close> leaves: the receive queue is zero until the comms task starts.\<close>

definition power_on :: "app \<Rightarrow> bool" where
  "power_on a \<longleftrightarrow> syms_ok (syms (kern a)) \<and> queues (kern a) g_uart_rx_queue = new_queue [] 0 0 \<and>
     length (line_buf a) = 64 \<and> line_len a = 0"

definition app_reachable :: "bool \<Rightarrow> config \<Rightarrow> bool" where
  "app_reachable b x \<longleftrightarrow> (\<exists>y regs a regs' a'. app_symbols_ok y \<and> power_on a \<and>
     main y regs a = Some (regs', a') \<and> (app_step b)\<^sup>*\<^sup>* (a', \<lambda>_. NoCall, entry) x)"

lemma create_queues:
  "nimble_task_create p name fn arg base words prio s = Some (r, s') \<Longrightarrow> queues s' = queues s"
  by (auto simp: nimble_task_create_def Let_def kdefs nimble_port_init_task_stack_def
      dest!: frame split: option.splits if_splits prod.splits bind_splits)

lemma init_queues: "nimble_scheduler_init s = Some s' \<Longrightarrow> queues s' = queues s"
  by (auto simp: nimble_scheduler_init_def init_ready_lists_def Let_def kdefs dest!: create_queues split: bind_splits)

lemma service_start_queues: "nimble_timer_service_start prio base words s = Some (r, s') \<Longrightarrow> queues s' = queues s"
  by (auto simp: nimble_timer_service_start_def nimble_semaphore_init_def Let_def kdefs dest!: create_queues)

lemma select_next_queues: "nimble_scheduler_select_next s = Some (n, s') \<Longrightarrow> queues s' = queues s"
  by (auto simp: nimble_scheduler_select_next_def requeue_current_def Let_def kdefs dest!: frame
      split: bind_splits option.splits if_splits)

lemma scheduler_start_queues: "nimble_scheduler_start s = Some s' \<Longrightarrow> queues s' = queues s"
  by (auto simp: nimble_scheduler_start_def nimble_port_start_first_task_def SVC_Handler_def load_r4_r11_def Let_def
      dest!: select_next_queues split: bind_splits)

lemma shared_init_fields:
  "queues (kern (ps_shared_init a)) g_uart_rx_queue = queues (kern a) g_uart_rx_queue"
  "line_buf (ps_shared_init a) = line_buf a" "line_len (ps_shared_init a) = line_len a"
  by (simp_all add: ps_shared_init_def nimble_mutex_init_def nimble_semaphore_init_def nimble_queue_init_def Let_def kdefs
      g_uart_rx_queue_def g_adc_sample_queue_def)

lemma main_fields:
  assumes "main y regs a = Some (regs', a')"
  shows "queues (kern a') g_uart_rx_queue = queues (kern a) g_uart_rx_queue" "line_buf a' = line_buf a" "line_len a' = line_len a"
  using assms unfolding main_def Let_def
  by (auto dest!: init_queues create_queues service_start_queues scheduler_start_queues
      simp: shared_init_fields split: bind_splits)

lemma live_entry: "live_heads entry = app_heads"
  by (simp add: live_heads_def heads_at_def uart_stage_def entry_def app_ids)

lemma app_starts:
  assumes y: "app_symbols_ok y" and a: "power_on a" and m: "main y regs a = Some (regs', a')"
  shows "app_safe b (a', \<lambda>_. NoCall, entry)"
proof -
  have s: "syms_ok (syms (kern a))" using a by (simp add: power_on_def)
  obtain a1 where a1: "main y regs a = Some (nimble_stm32f4_system_init regs, a1)"
    "sys_inv True app_heads app_nodes (kern a1, \<lambda>_. NoCall)"
    "mutexes (kern a1) g_status_mutex = \<lparr>mutex_owner = None, mutex_lock_count = 0\<rparr>"
    "queues (kern a1) g_adc_sample_queue = new_queue (replicate 32 0) 4 ADC_QUEUE_DEPTH"
    "\<forall>t. Link t \<in> app_nodes \<longrightarrow> tcb_base_priority (tcbs (kern a1) t) = task_priority (kern a1) t"
    using main_returns [OF s y, of regs] by blast
  have "a1 = a'" using a1(1) m by simp
  then have sys: "sys_inv b app_heads app_nodes (kern a', \<lambda>_. NoCall)" using a1(2) sys_inv_weaken by (cases b) auto
  have "data_ok entry a'"
    using a main_fields [OF m] a1(4) \<open>a1 = a'\<close>
    by (simp add: data_ok_def power_on_def entry_def new_queue_def CLI_LINE_BUF_LEN_def uart_fields_def app_ids uart_stage_def)
  moreover have "stages_ok (\<lambda>_. NoCall) entry"
    by (auto simp: stages_ok_def entry_def app_tasks_def app_ids)
  moreover have "sections_ok (\<lambda>_. NoCall) entry (kern a')"
    using a1(3) \<open>a1 = a'\<close> by (simp add: sections_ok_def entry_def)
  ultimately have "app_inv b (a', \<lambda>_. NoCall, entry)"
    using sys by (simp add: app_inv_def live_entry waits_ok_def)
  moreover note live_entry
  then have "inherits (live_heads entry) app_nodes (kern a')"
    using unboosted_inherits [OF a1(2)] a1(3,5) live_mutex [of _ entry] \<open>a1 = a'\<close> by simp
  ultimately show ?thesis by (simp add: app_safe_def app_inherits_def)
qed

lemma app_reachable_safe: "app_reachable b x \<Longrightarrow> app_safe b x"
  unfolding app_reachable_def using apps.reachable_inv app_starts by blast

lemma app_reachable_inv: "app_reachable b x \<Longrightarrow> app_inv b x" "app_reachable b x \<Longrightarrow> app_inherits x"
  using app_reachable_safe by (simp_all add: app_safe_def)

section \<open>Properties\<close>

text \<open>Who touches the shared status.\<close>

lemma comms_received_status: "comms_received x a = Some (pc, a') \<Longrightarrow> g_status a' = g_status a"
  by (auto simp: comms_received_def ps_uart_puts_def Let_def
      split: prod.splits nimble_status_t.splits option.splits list.splits bind_splits cli_command.splits)

lemma plain_step_status:
  assumes "plain_step p a = Some (r, a')" "section_of p a = None"
  shows "g_status a' = g_status a"
  using assms(2)
proof (cases rule: plain_places)
  case 4
  then show ?thesis using assms(1)
    by (auto simp: at_place_def Let_def dest!: comms_received_status split: bind_splits call_result.splits)
qed (use assms(1) in \<open>auto simp: at_place_def comms_init_step_def split: bind_splits option.splits prod.splits if_splits\<close>)

lemma plain_resume_status:
  assumes "plain_resume t p a = Some (r, a')" "section_of p a = None" "call_of p \<noteq> NoCall"
  shows "g_status a' = g_status a"
  using assms(2)
proof (cases rule: plain_places)
  case 4
  then show ?thesis using assms(1)
    by (auto simp: at_place_def Let_def dest!: comms_received_status split: bind_splits call_result.splits)
qed (use assms(1,3) in \<open>auto simp: at_place_def split: bind_splits prod.splits\<close>)

lemma after_section_status: "after_section p status a = (p', a') \<Longrightarrow> g_status a' = g_status a"
  by (cases "(p, status, a)" rule: after_section.cases)
    (auto simp: ps_uart_puts_def control_after.simps control_switch_def control_sync_def Let_def
      elim!: control_after.elims split: prod.splits if_splits)

subsection \<open>The booted application\<close>

lemma booted_main:
  "power_on reset_app" "main example_symbols reset_regs reset_app = Some (nimble_stm32f4_system_init reset_regs, booted)"
  using example_symbols_ok(1) main_returns [OF example_symbols_ok, of reset_regs]
  by (auto simp: power_on_def reset_app_def zero_kernel_def booted_def)

lemma booted_reachable: "app_reachable b (booted, \<lambda>_. NoCall, entry)"
  using example_symbols_ok(2) booted_main unfolding app_reachable_def by blast

lemma reachable_step:
  assumes "app_reachable b x" "app_step b x y"
  shows "app_reachable b y"
  using assms unfolding app_reachable_def by (meson rtranclp.rtrancl_into_rtrancl)

lemma reachable_task: "app_reachable b x \<Longrightarrow> app_task b t x y \<Longrightarrow> app_reachable b y"
  using reachable_step unfolding app_step_def by blast

lemma reachable_irq: "app_reachable b x \<Longrightarrow> app_irq x y \<Longrightarrow> app_reachable b y"
  using reachable_step unfolding app_step_def by blast

text \<open>With a fault reported before its first wait, the protection task goes on to note it.\<close>

lemma booted_section:
  "\<exists>a c w. app_reachable True (a, c, w) \<and> w protection_tcb = Locked (Protection Protection_Note)"
proof -
  let ?s = "kern booted" and ?L = "delist (Link protection_tcb) app_lists" and ?c = "\<lambda>_. NoCall" and ?p = protection_tcb
  have H: "QueueReceivers g_adc_sample_queue \<in> app_heads" "SemWaiters g_fault_semaphore \<in> app_heads"
    by (simp_all add: app_heads_def)
  have size: "queue_item_size (queues ?s g_adc_sample_queue) = 4" by (simp add: booted_inv new_queue_def)
  have e: "?L (SemWaiters g_fault_semaphore) = []" by (simp add: app_lists_simps)
  have over: "2458 \<le> uint (3000 AND 0xFFF :: u32)" by simp
  obtain s1 where s1: "ADC_IRQHandler 3000 ?s = Some s1" and cur: "nimble_current_tcb s1 = nimble_current_tcb ?s"
    and tc: "\<forall>x. task_state ?s x \<noteq> NIMBLE_TASK_BLOCKED \<longrightarrow> tcbs s1 x = tcbs ?s x" and mu: "mutexes s1 = mutexes ?s"
    and sem: "semaphores s1 g_fault_semaphore = bump (semaphores ?s g_fault_semaphore)"
    using adc_spec [OF booted_inv(3,4) H(1) size H(2), of 3000] e over by blast
  have th: "thread s1 ?c ?p NoCall" using booted_inv(2) cur tc by (simp add: thread_def)
  have r1: "app_reachable True (booted\<lparr>kern := s1\<rparr>, ?c, entry)"
    by (rule reachable_irq [OF booted_reachable app_irq.adc [OF s1]])
  have "0 < sem_count (semaphores s1 g_fault_semaphore)" by (simp add: sem bump_def booted_inv)
  note take = take_available [OF this, of NIMBLE_WAIT_FOREVER]
  let ?s2 = "s1\<lparr>semaphores := (semaphores s1)(g_fault_semaphore :=
      sem_count_update (\<lambda>c. c - 1) (semaphores s1 g_fault_semaphore))\<rparr>"
  let ?w2 = "entry(?p := At (Protection Protection_Note))"
  have e2: "entry ?p = At (Protection Protection_Take)" by (simp add: entry_def)
  have "plain_step (Protection Protection_Take) (booted\<lparr>kern := s1\<rparr>) =
      Some (Returns (Protection Protection_Note), booted\<lparr>kern := ?s2\<rparr>)"
    using take by (simp add: at_place_def protection_taken_def)
  from app_task.plain [where w = entry and a = "booted\<lparr>kern := s1\<rparr>", OF _ e2 _ this] th
  have "app_task True ?p (booted\<lparr>kern := s1\<rparr>, ?c, entry) (booted\<lparr>kern := ?s2\<rparr>, ?c, ?w2)" by simp
  then have r2: "app_reachable True (booted\<lparr>kern := ?s2\<rparr>, ?c, ?w2)"
    by (rule reachable_task [OF r1])
  have free: "mutex_owner (mutexes ?s2 g_status_mutex) = None" by (simp add: mu booted_inv)
  have th2: "thread (kern (booted\<lparr>kern := ?s2\<rparr>)) ?c ?p NoCall" using th by (simp add: thread_def)
  have w2: "?w2 ?p = At (Protection Protection_Note)" by simp
  from app_task.lock [where w = ?w2 and b = True, OF th2 w2 _ _] lock_free [OF free, of NIMBLE_WAIT_FOREVER] free
  obtain y where "app_task True ?p (booted\<lparr>kern := ?s2\<rparr>, ?c, ?w2) y"
    and y: "snd (snd y) = ?w2(?p := Locked (Protection Protection_Note))"
    by (fastforce simp: may_boost_def)
  from reachable_task [OF r2 this(1)] have "app_reachable True y" .
  moreover obtain a c w where "y = (a, c, w)" by (cases y)
  ultimately show ?thesis using y by (intro exI [of _ a] exI [of _ c] exI [of _ w]) simp
qed

text \<open>A fault reported while the protection task waits: it runs again inside its take.\<close>

lemma booted_resumes:
  "\<exists>a c w. app_reachable True (a, c, w) \<and> thread (kern a) c protection_tcb (InTake g_fault_semaphore)"
proof -
  let ?p = protection_tcb and ?c = "(\<lambda>_. NoCall)(protection_tcb := InTake g_fault_semaphore)"
  obtain k L where k: "protection_step Protection_Take booted = Some (Blocks, booted\<lparr>kern := k\<rparr>)"
    and i: "sched_inv True {} app_heads app_nodes L k" and o: "objs_inv app_heads app_nodes L ?c k"
    and L: "L (SemWaiters g_fault_semaphore) = [EventLink ?p]"
    and pr: "\<And>t. task_priority k t = task_priority (kern booted) t" and qs: "queues k = queues (kern booted)"
    using booted_waits by auto
  have e: "entry ?p = At (Protection Protection_Take)" by (simp add: entry_def)
  have "plain_step (Protection Protection_Take) booted = Some (Blocks, booted\<lparr>kern := k\<rparr>)"
    using k by (simp add: at_place_def)
  from app_task.plain [where w = entry, OF booted_inv(2) e _ this]
  have "app_task True ?p (booted, \<lambda>_. NoCall, entry) (booted\<lparr>kern := k\<rparr>, ?c, entry)" by simp
  then have r1: "app_reachable True (booted\<lparr>kern := k\<rparr>, ?c, entry)"
    by (rule reachable_task [OF booted_reachable])
  have H: "QueueReceivers g_adc_sample_queue \<in> app_heads" "SemWaiters g_fault_semaphore \<in> app_heads" "Link ?p \<in> app_nodes"
    by (simp_all add: app_heads_def app_nodes_def)
  have size: "queue_item_size (queues k g_adc_sample_queue) = 4" by (simp add: qs booted_inv new_queue_def)
  have over: "2458 \<le> uint (3000 AND 0xFFF :: u32)" by simp
  obtain s1 s2 where s: "ADC_IRQHandler 3000 k = Some s1" "pendsv s1" "PendSV_Handler s1 = Some s2"
    and th: "thread s2 ?c ?p (InTake g_fault_semaphore)"
    using fault_wakes [OF i o H(1,2) size L H(3) _ over] booted_priorities pr by auto
  have "app_reachable True (booted\<lparr>kern := s1\<rparr>, ?c, entry)"
    using reachable_irq [OF r1] app_irq.adc [of 3000 "booted\<lparr>kern := k\<rparr>" s1 ?c entry] s(1) by simp
  then have "app_reachable True (booted\<lparr>kern := s2\<rparr>, ?c, entry)"
    using reachable_irq app_irq.switch [of "booted\<lparr>kern := s1\<rparr>" s2 ?c entry] s(2,3) by fastforce
  then show ?thesis using th by fastforce
qed

subsection \<open>The status, the waits, and progress\<close>

text \<open>
  C7. Exclusive access to the shared status, however interrupts, context switches and tasks
  interleave after reset: a task between the return of the lock in an accessor and its unlock owns
  \<^verbatim>\<open>g_status_mutex\<close>, at most one task is there at a time, and a step changes \<^verbatim>\<open>g_status\<close> only as
  the access of a task inside its section. So no reader sees an update in part and no update is
  lost, although the accessors do not look at what the lock returns. (\<open>app_reachable\<close>: boot is not
  interrupted, and no byte is received inside \<^verbatim>\<open>nimble_queue_init\<close>; handlers and critical sections are
  whole steps, to which \<open>app_runs_serial\<close> reduces the single accesses.)
\<close>

theorem status_exclusive:
  assumes "app_reachable b (a, c, w)"
  shows "(\<forall>t. in_section (w t) \<longrightarrow> mutex_owner (mutexes (kern a) g_status_mutex) = Some t) \<and>
    (\<forall>t t'. in_section (w t) \<longrightarrow> in_section (w t') \<longrightarrow> t = t') \<and>
    (\<forall>a' c' w'. app_step b (a, c, w) (a', c', w') \<longrightarrow> g_status a' \<noteq> g_status a \<longrightarrow>
       (\<exists>t p f. w t = Locked p \<and> app_task b t (a, c, w) (a', c', w') \<and> section_of p a = Some f \<and>
          g_status a' = f (g_status a)))"
proof -
  have own: "in_section (w t) \<Longrightarrow> mutex_owner (mutexes (kern a) g_status_mutex) = Some t" for t
    using app_invD(3) [OF app_reachable_inv(1) [OF assms]] by (simp add: sections_ok_def)
  have "\<exists>t p f. w t = Locked p \<and> app_task b t (a, c, w) (a', c', w') \<and> section_of p a = Some f \<and>
      g_status a' = f (g_status a)"
    if step: "app_step b (a, c, w) (a', c', w')" and ne: "g_status a' \<noteq> g_status a" for a' c' w'
  proof -
    have "\<not> app_irq (a, c, w) (a', c', w')" using ne by (auto elim: app_irq.cases)
    then obtain t where t: "app_task b t (a, c, w) (a', c', w')" using step by (auto simp: app_step_def)
    then show ?thesis
    proof (cases rule: app_task.cases)
      case (access p f)
      then show ?thesis using t by auto
    qed (use ne in \<open>auto dest: plain_step_status plain_resume_status after_section_status\<close>)
  qed
  moreover have "in_section (w t) \<Longrightarrow> in_section (w t') \<Longrightarrow> t = t'" for t t'
    using own [of t] own [of t'] by simp
  ultimately show ?thesis using own by blast
qed

theorem status_exclusive_witness:
  "\<exists>a c w. app_reachable True (a, c, w) \<and> in_section (w protection_tcb) \<and>
     mutex_owner (mutexes (kern a) g_status_mutex) = Some protection_tcb \<and> \<not> in_section (w control_tcb)"
proof -
  obtain a c w where r: "app_reachable True (a, c, w)" and p: "w protection_tcb = Locked (Protection Protection_Note)"
    using booted_section by blast
  have "in_section (w protection_tcb)" "protection_tcb \<noteq> control_tcb" using p by (simp_all add: app_ids)
  then show ?thesis using status_exclusive [OF r] r by blast
qed

text \<open>
  C10. No wait of the application fails: whenever a task runs again inside a blocking call (the
  protection task's take, a receive of the control or the comms task, the lock of an accessor,
  the take of the timer task), the rest of the call returns \<^verbatim>\<open>NIMBLE_OK\<close>; a receiver finds its
  item. The branches that the tasks keep for the other results are never taken. (The states are those of \<open>status_exclusive\<close>.)
\<close>

theorem app_waits_succeed:
  assumes "app_reachable b (a, c, w)" and th: "thread (kern a) c t call" and call: "call \<noteq> NoCall"
  shows "resumed_status call t (kern a) = Some NIMBLE_OK"
proof -
  note I = app_invD [OF app_reachable_inv(1) [OF assms(1)]] and T = threadD [OF th]
  have ct: "c t = call" "c t \<noteq> NoCall" "task_state (kern a) t \<noteq> NIMBLE_TASK_BLOCKED" using T call by simp_all
  have u: "unhurried (kern a) t" and q: "\<And>q. call = InReceive q \<Longrightarrow> 0 < queue_count (queues (kern a) q)"
    using I(4) ct unfolding waits_ok_def by blast+
  have at: "call_of (place_in (w t)) = call" using I(2) T(3) call by (auto simp: stages_ok_def)
  show ?thesis
  proof (cases call)
    case (InLock m)
    then show ?thesis using lock_resume_calm(3) [OF I(1) _ _ u, of m] th
      by (cases "nimble_mutex_lock_resume m t (kern a)") simp
  next
    case (InTake q)
    then show ?thesis using take_resume_calm(4) [OF I(1) th _ u, of q]
      by (cases "nimble_semaphore_take_resume q t (kern a)") simp
  next
    case (InSend q item)
    then show ?thesis using at by (cases "place_in (w t)" rule: call_of.cases) auto
  next
    case (Arming x)
    then show ?thesis using at by (cases "place_in (w t)" rule: call_of.cases) auto
  next
    case Armed
    then show ?thesis using at by (cases "place_in (w t)" rule: call_of.cases) auto
  next
    case (InReceive r)
    then have th': "thread (kern a) c t (InReceive r)" using th by simp
    obtain x k where x: "nimble_queue_receive_resume r t (kern a) = Some (x, k)"
      using receive_resume_step [OF I(1) th'] by blast
    then show ?thesis using receive_resume_calm(3) [OF I(1) th' x u q [OF InReceive]] InReceive by auto
  qed (use call in simp)
qed

theorem app_waits_succeed_witness:
  "\<exists>a c w. app_reachable True (a, c, w) \<and> thread (kern a) c protection_tcb (InTake g_fault_semaphore) \<and>
     fst (nimble_semaphore_take_resume g_fault_semaphore protection_tcb (kern a)) = NIMBLE_OK"
proof -
  obtain a c w where r: "app_reachable True (a, c, w)" and th: "thread (kern a) c protection_tcb (InTake g_fault_semaphore)"
    using booted_resumes by blast
  from app_waits_succeed [OF r th] show ?thesis using r th by auto
qed

text \<open>Every handler returns and every task has a next step.\<close>

lemma adc_returns:
  assumes inv: "app_inv b (a, c, w)"
  shows "ADC_IRQHandler dr (kern a) \<noteq> None"
proof -
  note I = app_invD [OF inv] and H = live_heads_mem [of w]
  obtain L where i: "sched_inv b {} (live_heads w) app_nodes L (kern a)" and o: "objs_inv (live_heads w) app_nodes L c (kern a)"
    using I(1) by (rule sys_invE)
  have "queue_item_size (queues (kern a) g_adc_sample_queue) = 4" using I(5) by (simp add: data_ok_def)
  then show ?thesis using adc_spec [OF i o H(4) _ H(2), of dr] by blast
qed

lemma usart_returns:
  assumes inv: "app_inv b (a, c, w)" and window: "uart_window w \<longrightarrow> sr AND USART1_SR_RXNE = 0"
  shows "USART1_IRQHandler sr dr (kern a) \<noteq> None"
proof (cases "sr AND USART1_SR_RXNE = 0")
  case True
  then show ?thesis by (simp add: USART1_IRQHandler_def)
next
  case rxne: False
  note I = app_invD [OF inv] and H = live_heads_mem [of w]
  let ?q = g_uart_rx_queue and ?b = "[ucast (dr AND 0xFF)] :: u8 list"
  have "nimble_queue_send_from_isr ?q ?b (kern a) \<noteq> None"
  proof (cases "uart_stage w < 7")
    case True
    then have "uart_stage w < 3" using window rxne by (simp add: uart_window_def)
    then have "\<not> queue_count (queues (kern a) ?q) < queue_capacity (queues (kern a) ?q)"
      using I(5) by (simp add: data_ok_def uart_fields_def)
    then show ?thesis using send_from_isr_full by simp
  next
    case False
    then have live: "7 \<le> uart_stage w" by simp
    from False have "length ?b = unat (queue_item_size (queues (kern a) ?q))" using I(5) by (simp add: data_ok_def)
    then show ?thesis using isr_send_step [OF I(1) H(6) [OF live]] by fastforce
  qed
  then show ?thesis by (auto simp: USART1_IRQHandler_def Let_def split: bind_splits)
qed

lemma plain_returns:
  assumes inv: "app_inv b (a, c, w)" and th: "thread (kern a) c t NoCall" and wt: "w t = At p"
    and p: "section_of p a = None"
  shows "\<exists>r a'. plain_step p a = Some (r, a')"
proof -
  note I = app_invD [OF inv] and H = live_heads_mem [of w] and line = line_ok [OF inv]
  have tp: "runs p = t" using I(2) thread_task [OF I(1) th] wt by (auto simp: stages_ok_def)
  from p show ?thesis
  proof (cases rule: plain_places)
    case 1
    then show ?thesis using take_step [OF I(1) th H(2), of NIMBLE_WAIT_FOREVER] by (auto simp: at_place_def)
  next
    case 2
    then show ?thesis using receive_step [OF I(1) th H(4,5), of NIMBLE_WAIT_FOREVER] by (auto simp: at_place_def)
  next
    case 4
    then have live: "7 \<le> uart_stage w" "8 \<le> uart_stage w" using wt tp by (auto simp: uart_stage_def)
    obtain r k where k: "nimble_queue_receive g_uart_rx_queue NIMBLE_WAIT_FOREVER (kern a) = Some (r, k)"
      using receive_step [OF I(1) th H(6) [OF live(1)] H(7) [OF live(2)], of NIMBLE_WAIT_FOREVER] by blast
    show ?thesis
    proof (cases r)
      case (Returns x)
      obtain pc b where "comms_received x (a\<lparr>kern := k\<rparr>) = Some (pc, b)"
        using comms_received_ok [of "a\<lparr>kern := k\<rparr>" x] line by auto
      then show ?thesis using k Returns 4 by (simp add: at_place_def)
    qed (use k 4 in \<open>simp add: at_place_def\<close>)
  next
    case 5
    then show ?thesis using delay_step [OF I(1) th, of LOGGER_PERIOD_TICKS] by (auto simp: at_place_def)
  next
    case 6
    then show ?thesis using service_fire(2) [OF I(1)] take_step [OF I(1) th H(3), of NIMBLE_WAIT_FOREVER]
      by (auto simp: timer_task_wait_def)
  next
    case 7
    then show ?thesis using service_fire(1) [OF I(1)] by simp
  qed simp
qed

lemma resume_returns:
  assumes inv: "app_inv b (a, c, w)" and th: "thread (kern a) c t (call_of p)"
    and p: "section_of p a = None" "call_of p \<noteq> NoCall"
  shows "\<exists>r a'. plain_resume t p a = Some (r, a')"
proof -
  note I = app_invD [OF inv] and line = line_ok [OF inv]
  from p(1) show ?thesis
  proof (cases rule: plain_places)
    case 2
    then show ?thesis using receive_resume_step [OF I(1), of t g_adc_sample_queue] th by (auto simp: at_place_def)
  next
    case 4
    then obtain x k where k: "nimble_queue_receive_resume g_uart_rx_queue t (kern a) = Some (x, k)"
      using receive_resume_step [OF I(1), of t g_uart_rx_queue] th by auto
    obtain pc b where "comms_received x (a\<lparr>kern := k\<rparr>) = Some (pc, b)"
      using comms_received_ok [of "a\<lparr>kern := k\<rparr>" x] line by auto
    then show ?thesis using k 4 by (simp add: at_place_def)
  qed (use p(2) in \<open>auto simp: at_place_def Let_def split: prod.splits\<close>)
qed

lemma task_enabled:
  assumes inv: "app_inv b (a, c, w)" and th: "thread (kern a) c t call"
  shows "\<exists>y. app_task False t (a, c, w) y"
proof -
  note I = app_invD [OF inv] and H = live_heads_mem [of w] and T = threadD [OF th]
  have ok: "may_boost False m t (kern a)" for m by (simp add: may_boost_def)
  show ?thesis
  proof (cases "call = NoCall")
    case True
    then have th': "thread (kern a) c t NoCall" using th by simp
    show ?thesis
    proof (cases "w t")
      case (At p)
      show ?thesis
      proof (cases "section_of p a = None")
        case True
        then show ?thesis using plain_returns [OF inv th' At] app_task.plain [where w = w, OF th' At] by blast
      next
        case False
        obtain r k where "nimble_mutex_lock g_status_mutex NIMBLE_WAIT_FOREVER (kern a) = Some (r, k)"
          using lock_step [OF sys_inv_weaken [OF I(1)] th' H(1) ok, of NIMBLE_WAIT_FOREVER] by blast
        then show ?thesis using app_task.lock [where w = w, OF th' At False ok] by blast
      qed
    next
      case (Locked p)
      then have "in_section (w t)" by simp
      then have "call_of p = InLock g_status_mutex" using I(2) Locked unfolding stages_ok_def by (metis place_in.simps(2))
      then obtain f where "section_of p a = Some f" using section_of_call [of p a] by auto
      then show ?thesis using app_task.access [where w = w, OF th' Locked] by blast
    next
      case (Accessed p status)
      obtain r k where k: "nimble_mutex_unlock g_status_mutex (kern a) = Some (r, k)"
        using unlock_step [OF I(1) th' H(1)] by blast
      obtain p' a' where "after_section p status (a\<lparr>kern := k\<rparr>) = (p', a')" by fastforce
      then show ?thesis using app_task.unlock [where w = w, OF th' Accessed k] by blast
    qed
  next
    case False
    then have "c t \<noteq> NoCall" using T(3) by simp
    then have at: "\<not> in_section (w t)" "call_of (place_in (w t)) = call" using I(2) T(3) unfolding stages_ok_def by blast+
    then obtain p where p: "w t = At p" "call_of p = call" by (cases "w t") auto
    show ?thesis
    proof (cases "section_of p a = None")
      case True
      have th': "thread (kern a) c t (call_of p)" using th p(2) by simp
      show ?thesis
        using resume_returns [OF inv th' True] app_task.plain_resume [where w = w, OF th' _ p(1) True] p(2) False by blast
    next
      case False
      then have "thread (kern a) c t (InLock g_status_mutex)" using section_of_call [of p a] th p(2) by simp
      then show ?thesis using app_task.lock_resume [where w = w, OF _ p(1)] by (metis surj_pair)
    qed
  qed
qed

text \<open>
  A byte in the window: the queue has room, and the head of its receivers, which no code has written
  yet, is read as a list. Unless its memory happens to look like an empty list or to point to a task,
  which zeroed memory does not, the handler has no defined behaviour.
\<close>

lemma uart_window_undefined:
  assumes r: "app_reachable b (a, c, w)" and window: "uart_window w" and rxne: "sr AND USART1_SR_RXNE \<noteq> 0"
    and head: "node_next (heap (kern a)) (QueueReceivers g_uart_rx_queue) = x" "x \<noteq> QueueReceivers g_uart_rx_queue"
      "container_of_event_link x = None"
  shows "USART1_IRQHandler sr dr (kern a) = None"
proof -
  let ?q = g_uart_rx_queue
  have u: "queues (kern a) ?q = uart_fields (uart_stage w)" "3 \<le> uart_stage w"
    using app_invD(5) [OF app_reachable_inv(1) [OF r]] window by (auto simp: data_ok_def uart_window_def)
  have f: "uart_fields (uart_stage w) = new_queue (replicate 64 0) 1 UART_RX_QUEUE_DEPTH"
    using u(2) by (simp add: uart_fields_def new_queue_def)
  have "nimble_scheduler_wake_waiter (QueueReceivers ?q) (kern a\<lparr>queues := y\<rparr>) = None" for y
    using head by (simp add: nimble_scheduler_wake_waiter_def nimble_list_is_empty_def)
  then have "nimble_queue_send_from_isr ?q [byte] (kern a) = None" for byte
    by (simp add: nimble_queue_send_from_isr_def u(1) f new_queue_def UART_RX_QUEUE_DEPTH_def queue_copy_in_def copy_in_def
        Let_def update_queue_def)
  then show ?thesis using rxne by (simp add: USART1_IRQHandler_def Let_def)
qed

text \<open>The exceptions of the application, and its machine at the level of single accesses.\<close>

datatype app_exception = App_SysTick | App_PendSV | App_ADC u32 | App_USART1 u32 u32

text \<open>The numbers of the two interrupts in the vector table.\<close>

definition ADC_IRQn :: nat where
  "ADC_IRQn = 18"

definition USART1_IRQn :: nat where
  "USART1_IRQn = 37"

primrec exception_of :: "app_exception \<Rightarrow> exception" where
  "exception_of App_SysTick = Exc_SysTick"
| "exception_of App_PendSV = Exc_PendSV"
| "exception_of (App_ADC dr) = Exc_IRQ ADC_IRQn"
| "exception_of (App_USART1 sr dr) = Exc_IRQ USART1_IRQn"

definition app_handler :: "app_exception \<Rightarrow> config \<Rightarrow> config \<Rightarrow> bool" where
  "app_handler e = (\<lambda>(a, c, w) y. \<exists>k. y = (a\<lparr>kern := k\<rparr>, c, w) \<and>
     (case e of
        App_SysTick \<Rightarrow> SysTick_Handler (kern a) = Some k
      | App_PendSV \<Rightarrow> pendsv (kern a) \<and> PendSV_Handler (kern a) = Some k
      | App_ADC dr \<Rightarrow> ADC_IRQHandler dr (kern a) = Some k
      | App_USART1 sr dr \<Rightarrow> (uart_window w \<longrightarrow> sr AND USART1_SR_RXNE = 0) \<and>
          USART1_IRQHandler sr dr (kern a) = Some k))"

definition app_board_step :: "mcu_regs \<Rightarrow> (nat \<Rightarrow> nat) \<Rightarrow> bool \<Rightarrow>
    config \<times> ('r, config) frame list \<Rightarrow> config \<times> ('r, config) frame list \<Rightarrow> bool" where
  "app_board_step regs irq b =
     preempt (\<lambda>e. exception_priority regs irq (exception_of e)) app_handler (\<lambda>x y. \<exists>t. app_task b t x y)"

text \<open>
  What is reached from reset, the accesses of handlers and tasks interleaved, on a board that gives
  the two interrupts the priorities \<open>irq\<close>. Boot itself is not interrupted.
\<close>

definition app_runs :: "(nat \<Rightarrow> nat) \<Rightarrow> bool \<Rightarrow> config \<times> ('r, config) frame list \<Rightarrow> bool" where
  "app_runs irq b x \<longleftrightarrow> (\<exists>y regs a regs' a'. app_symbols_ok y \<and> power_on a \<and>
     main y regs a = Some (regs', a') \<and> (app_board_step regs' irq b)\<^sup>*\<^sup>* ((a', \<lambda>_. NoCall, entry), []) x)"

lemma whole_app_step:
  "whole_step app_handler (\<lambda>x y. \<exists>t. app_task b t x y) x y \<longleftrightarrow> app_step b x y"
proof -
  have "(\<exists>e. app_handler e x y) \<longleftrightarrow> app_irq x y"
  proof
    assume "\<exists>e. app_handler e x y"
    then obtain e where "app_handler e x y" by blast
    then show "app_irq x y" by (cases x; cases e) (auto simp: app_handler_def intro: app_irq.intros)
  next
    assume "app_irq x y"
    then show "\<exists>e. app_handler e x y"
    proof cases
      case (tick a k c w)
      then show ?thesis by (intro exI [of _ App_SysTick]) (simp add: app_handler_def)
    next
      case (switch a k c w)
      then show ?thesis by (intro exI [of _ App_PendSV]) (simp add: app_handler_def)
    next
      case (adc dr a k c w)
      then show ?thesis by (intro exI [of _ "App_ADC dr"]) (simp add: app_handler_def)
    next
      case (usart w sr dr a k c)
      then show ?thesis by (intro exI [of _ "App_USART1 sr dr"]) (simp add: app_handler_def)
    qed
  qed
  then show ?thesis by (simp add: whole_step_def app_step_def)
qed

lemma app_runs_serial:
  assumes run: "app_runs irq b (y, fs)"
    and irq: "irq ADC_IRQn = unat NVIC_PRIO_PENDSV_SYSTICK" "irq USART1_IRQn = unat NVIC_PRIO_PENDSV_SYSTICK"
  shows "\<exists>z. app_reachable b z \<and> ends_in fs y z"
proof -
  obtain x regs a regs' a' where m: "app_symbols_ok x" "power_on a" "main x regs a = Some (regs', a')"
    and r: "(app_board_step regs' irq b)\<^sup>*\<^sup>* ((a', \<lambda>_. NoCall, entry), []) (y, fs)"
    using run by (auto simp: app_runs_def)
  have "regs' = nimble_stm32f4_system_init regs"
    using main_returns [of a x regs] m by (auto simp: power_on_def)
  then have p: "exception_priority regs' irq (exception_of e) = 0xF0" for e
    using board_bring_up [of regs] irq by (cases e) (simp_all add: exception_priority_def NVIC_PRIO_PENDSV_SYSTICK_def)
  have "\<exists>z. (whole_step app_handler (\<lambda>x y. \<exists>t. app_task b t x y))\<^sup>*\<^sup>* (a', \<lambda>_. NoCall, entry) z \<and> ends_in fs y z"
    using r unfolding app_board_step_def
    by (rule preempt_serial [where p = "0xF0", rotated -1]) (simp_all add: p syscall_priority)
  then show ?thesis using m unfolding whole_app_step [abs_def] app_reachable_def by blast
qed

text \<open>
  C8. Progress, from reset and with the accesses of tasks, interrupts and context switch interleaved
  (boot uninterrupted, and both interrupts with the priority of PendSV and SysTick): a handler or
  section that is under way comes to its end, and in the state it ends in, as in every state with
  nothing under way, each interrupt handler
  returns for any values of the peripheral registers, the running task is at a place of its own
  program, inside the call it makes there or in none, and its next step is defined: no list head
  is taken for a task, no item or byte is written outside its buffer, no timer callback is
  missing. The exception is a byte received by USART1 while the comms task is between two stores of
  \<^verbatim>\<open>nimble_queue_init\<close>, after the capacity and before the list of receivers. Priority inheritance is
  not excluded: the accessors boost owners that are on a ready
  list, and no context switch reads the bit of the ready bitmap that this leaves behind.
\<close>

theorem app_progress:
  assumes "app_runs irq b (y, fs)"
    and "irq ADC_IRQn = unat NVIC_PRIO_PENDSV_SYSTICK" "irq USART1_IRQn = unat NVIC_PRIO_PENDSV_SYSTICK"
  shows "\<exists>a c w. app_reachable b (a, c, w) \<and> ends_in fs y (a, c, w) \<and>
    SysTick_Handler (kern a) \<noteq> None \<and> PendSV_Handler (kern a) \<noteq> None \<and>
    ADC_IRQHandler adc1_dr (kern a) \<noteq> None \<and>
    (USART1_IRQHandler sr usart1_dr (kern a) = None \<longrightarrow> uart_window w \<and> sr AND USART1_SR_RXNE \<noteq> 0) \<and>
    (\<forall>t call. thread (kern a) c t call \<longrightarrow> runs (place_in (w t)) = t \<and>
       (call = NoCall \<or> w t = At (place_in (w t)) \<and> call = call_of (place_in (w t))) \<and>
       (\<exists>y. app_task False t (a, c, w) y))"
proof -
  obtain a c w where r: "app_reachable b (a, c, w)" "ends_in fs y (a, c, w)"
    using app_runs_serial [OF assms] by auto
  have inv: "app_inv b (a, c, w)" by (rule app_reachable_inv(1) [OF r(1)])
  have "inherits (live_heads w) app_nodes (kern a)" using app_reachable_inv(2) [OF r(1)] by (simp add: app_inherits_def)
  note I = app_invD [OF inv] and switch = switch_inherits [OF I(1) this]
  have "runs (place_in (w t)) = t \<and> (call = NoCall \<or> w t = At (place_in (w t)) \<and> call = call_of (place_in (w t))) \<and>
      (\<exists>y. app_task False t (a, c, w) y)" if th: "thread (kern a) c t call" for t call
  proof (intro conjI)
    have ct: "c t = call" by (rule threadD(3) [OF th])
    show "runs (place_in (w t)) = t" using I(2) thread_task [OF I(1) th] by (simp add: stages_ok_def)
    show "call = NoCall \<or> w t = At (place_in (w t)) \<and> call = call_of (place_in (w t))"
      using I(2) ct by (cases "w t") (auto simp: stages_ok_def)
    show "\<exists>y. app_task False t (a, c, w) y" by (rule task_enabled [OF inv th])
  qed
  then show ?thesis
    using tick_step [OF I(1)] switch adc_returns [OF inv] usart_returns [OF inv] r by blast
qed

text \<open>After reset, the ADC interrupt has begun: its code is still to be run.\<close>

lemma adc_under_way:
  "\<exists>k. ADC_IRQHandler 3000 (kern booted) = Some k \<and>
     app_runs (\<lambda>_. unat NVIC_PRIO_PENDSV_SYSTICK) b ((booted, \<lambda>_. NoCall, entry),
       [Frame 0xF0 [(unmasked, \<lambda>(r, _). Some (r, booted\<lparr>kern := k\<rparr>, \<lambda>_. NoCall, entry))] ()])"
proof -
  let ?irq = "\<lambda>_. unat NVIC_PRIO_PENDSV_SYSTICK" and ?x = "(booted, \<lambda>_. NoCall, entry) :: config"
  obtain k where k: "ADC_IRQHandler 3000 (kern booted) = Some k"
    using adc_returns [OF app_reachable_inv(1) [OF booted_reachable [of False]], of 3000] by blast
  let ?z = "(booted\<lparr>kern := k\<rparr>, \<lambda>_. NoCall, entry) :: config"
  let ?as = "[(unmasked, \<lambda>(r, _). Some (r, ?z))] :: (unit, config) code"
  define regs' where "regs' = nimble_stm32f4_system_init reset_regs"
  have p: "exception_priority regs' ?irq (exception_of (App_ADC 3000)) = 0xF0"
    by (simp add: exception_priority_def NVIC_PRIO_PENDSV_SYSTICK_def)
  have "app_handler (App_ADC 3000) ?x ?z" using k by (simp add: app_handler_def)
  then have "app_board_step regs' ?irq b (?x, []) (?x, [Frame 0xF0 ?as ()])"
    using preempt.exception [where e = "App_ADC 3000" and fs = "[]" and s = ?x and s' = ?z and as = ?as and r = "()"
        and r' = "()" and exc = app_handler and sect = "\<lambda>x y. \<exists>t. app_task b t x y"
        and prio = "\<lambda>e. exception_priority regs' ?irq (exception_of e)"] p
    by (simp add: app_board_step_def exec_priority_def unmasked_def)
  then show ?thesis
    using k booted_main example_symbols_ok(2) unfolding app_runs_def regs'_def by blast
qed

theorem app_progress_witness:
  "\<exists>k. ADC_IRQHandler 3000 (kern booted) = Some k \<and> SysTick_Handler k \<noteq> None \<and> PendSV_Handler k \<noteq> None \<and>
     USART1_IRQHandler 0x20 65 k \<noteq> None"
proof -
  let ?irq = "\<lambda>_::nat. unat NVIC_PRIO_PENDSV_SYSTICK"
  obtain k where k: "ADC_IRQHandler 3000 (kern booted) = Some k"
    and run: "app_runs ?irq False ((booted, \<lambda>_. NoCall, entry),
       [Frame 0xF0 [(unmasked, \<lambda>(r, _). Some (r, booted\<lparr>kern := k\<rparr>, \<lambda>_. NoCall, entry))] ()])"
    using adc_under_way by blast
  have "\<not> uart_window entry" by (simp add: uart_window_def uart_stage_def entry_def app_ids)
  then show ?thesis using app_progress [OF run refl refl, where sr = "0x20" and usart1_dr = 65] k by auto
qed

end
