(* ===== verification/App_Scenario.thy ===== *)
theory App_Scenario
  imports App_Safety
begin

text \<open>
  A run of the application from reset, step by step: every task goes to its first wait, the logger
  enters an accessor, and an interrupt wakes the control and the protection task.
\<close>

section \<open>Scenes\<close>

definition app_prio :: "tcb_ptr \<Rightarrow> nat" where
  "app_prio t = (if t = protection_tcb then 4 else if t = control_tcb \<or> t = timer_task_tcb then 3
     else if t = comms_tcb then 2 else if t = logger_tcb then 1 else 0)"

text \<open>Task \<open>t\<close> runs, those in \<open>R\<close> are ready, the others wait, and nothing has happened yet.\<close>

definition states :: "tcb_ptr set \<Rightarrow> tcb_ptr \<Rightarrow> kernel \<Rightarrow> bool" where
  "states R t s \<longleftrightarrow> nimble_current_tcb s = Some t \<and>
     (\<forall>y. Link y \<in> app_nodes \<longrightarrow> task_state s y = (if y = t then NIMBLE_TASK_RUNNING
        else if y \<in> R then NIMBLE_TASK_READY else NIMBLE_TASK_BLOCKED)) \<and>
     (\<forall>y. Link y \<in> app_nodes \<longrightarrow> unat (task_priority s y) = app_prio y)"

definition quiet :: "kernel \<Rightarrow> bool" where
  "quiet s \<longleftrightarrow> mutex_owner (mutexes s g_status_mutex) = None \<and> sem_count (semaphores s g_fault_semaphore) = 0 \<and>
     sem_count (semaphores s timer_wake_sem) = 0 \<and> queue_count (queues s g_adc_sample_queue) = 0 \<and>
     queue_count (queues s g_uart_rx_queue) = 0"

definition waiting :: "calls \<Rightarrow> (node \<Rightarrow> node list) \<Rightarrow> bool" where
  "waiting c L \<longleftrightarrow>
     L (SemWaiters g_fault_semaphore) = (if c protection_tcb = NoCall then [] else [EventLink protection_tcb]) \<and>
     L (QueueReceivers g_adc_sample_queue) = (if c control_tcb = NoCall then [] else [EventLink control_tcb])"

definition scene :: "tcb_ptr set \<Rightarrow> tcb_ptr \<Rightarrow> config \<Rightarrow> bool" where
  "scene R t x \<longleftrightarrow> app_reachable True x \<and> (case x of (a, c, w) \<Rightarrow>
     states R t (kern a) \<and> quiet (kern a) \<and> (\<forall>y\<in>insert t R. Link y \<in> app_nodes \<and> c y = NoCall) \<and>
     (\<exists>L. sched_inv True {} (live_heads w) app_nodes L (kern a) \<and> waiting c L))"

lemma sceneD:
  assumes "scene R t (a, c, w)"
  shows "app_reachable True (a, c, w)" "states R t (kern a)" "quiet (kern a)" "y \<in> R \<Longrightarrow> Link y \<in> app_nodes \<and> c y = NoCall"
    "Link t \<in> app_nodes" "c t = NoCall" "t \<noteq> idle_tcb \<Longrightarrow> thread (kern a) c t NoCall"
  using assms by (auto simp: scene_def states_def thread_def)

text \<open>A context switch changes no priority.\<close>

lemma ready_priority:
  "nimble_scheduler_remove t s = Some s' \<Longrightarrow> \<forall>x. task_priority s' x = task_priority s x"
  "nimble_scheduler_add_ready t s = Some s' \<Longrightarrow> \<forall>x. task_priority s' x = task_priority s x"
  by (subst remove_frame, assumption, simp) (subst add_ready_frame, assumption, simp)

lemma requeue_priority: "requeue_current s = Some s' \<Longrightarrow> \<forall>x. task_priority s' x = task_priority s x"
  by (auto simp: requeue_current_def Let_def update_tcb_def dest!: ready_priority split: option.splits if_splits)

lemma select_priority: "nimble_scheduler_select_next s = Some (n, s') \<Longrightarrow> \<forall>x. task_priority s' x = task_priority s x"
  by (auto simp: nimble_scheduler_select_next_def Let_def update_tcb_def dest!: ready_priority requeue_priority
      split: bind_splits)

lemma switch_out_priority: "task_priority (switch_out s) x = task_priority s x"
  by (auto simp: switch_out_def store_r4_r11_def update_tcb_def split: option.splits)

lemma switch_priority:
  assumes "PendSV_Handler s = Some s'"
  shows "task_priority s' x = task_priority s x"
proof -
  obtain n s1 where "nimble_scheduler_select_next (switch_out s) = Some (n, s1)" "tcbs s' = tcbs s1"
    using assms by (auto simp: PendSV_Handler_def switch_out_def load_r4_r11_def Let_def split: option.splits bind_splits)
  then show ?thesis using select_priority by (simp add: switch_out_priority)
qed

text \<open>From a state in which nobody runs, the context switch takes one of the most urgent ready tasks.\<close>

lemma scene_switch:
  assumes r: "app_reachable True (a, c, w)" and pend: "pendsv (kern a)"
    and i: "sched_inv True {} (live_heads w) app_nodes L (kern a)" "waiting c L"
    and cur: "nimble_current_tcb (kern a) = Some t" "task_state (kern a) t \<noteq> NIMBLE_TASK_RUNNING"
    and st: "\<And>y. Link y \<in> app_nodes \<Longrightarrow> task_state (kern a) y = (if y \<in> R then NIMBLE_TASK_READY else NIMBLE_TASK_BLOCKED)"
    and pr: "\<And>y. Link y \<in> app_nodes \<Longrightarrow> unat (task_priority (kern a) y) = app_prio y"
    and q: "quiet (kern a)" and R: "R \<noteq> {}" "\<And>y. y \<in> R \<Longrightarrow> Link y \<in> app_nodes \<and> c y = NoCall"
  shows "\<exists>n k. n \<in> R \<and> (\<forall>x\<in>R. app_prio x \<le> app_prio n) \<and> scene (R - {n}) n (a\<lparr>kern := k\<rparr>, c, w)"
proof -
  let ?s = "kern a"
  obtain x0 where x0: "can_run app_nodes ?s x0" using R st by (force simp: can_run_def)
  have L: "requeue_lists ?s L = L" using cur by (simp add: requeue_lists_def)
  obtain n k where k: "PendSV_Handler ?s = Some k" and n: "nimble_current_tcb k = Some n" "can_run app_nodes ?s n"
    and le: "\<And>t. can_run app_nodes ?s t \<Longrightarrow> task_priority ?s t \<le> task_priority ?s n"
    using PendSV_highest [OF i(1) x0] by blast
  have i': "sched_inv True {} (live_heads w) app_nodes (delist (Link n) L) k" and same: "mutexes k = mutexes ?s"
    "semaphores k = semaphores ?s" "queues k = queues ?s"
    and st': "\<And>t. task_state k t = (if t = n then NIMBLE_TASK_RUNNING
          else if nimble_current_tcb ?s = Some t \<and> task_state ?s t = NIMBLE_TASK_RUNNING then NIMBLE_TASK_READY
          else task_state ?s t)"
    using PendSV_frame [OF i(1) _ runnable_listed [OF i(1) x0]] k n(1) unfolding L by auto
  have nR: "n \<in> R" "Link n \<in> app_nodes" using n(2) st [of n] by (auto simp: can_run_def split: if_splits)
  have "app_prio x \<le> app_prio n" if "x \<in> R" for x
    using le [of x] that R(2) [OF that] st [of x] pr [of x] pr [OF nR(2)] by (auto simp: can_run_def word_le_nat_alt)
  moreover have "app_reachable True (a\<lparr>kern := k\<rparr>, c, w)" by (rule reachable_irq [OF r app_irq.switch [OF pend k]])
  moreover have "states (R - {n}) n k"
    using n(1) st st' cur pr by (auto simp: states_def switch_priority [OF k])
  moreover have "quiet k" using q same by (simp add: quiet_def)
  moreover have "waiting c (delist (Link n) L)" using i(2) by (simp add: waiting_def)
  ultimately show ?thesis
    using nR R(2) i' by (intro exI [of _ n] exI [of _ k]) (auto simp: scene_def)
qed

text \<open>A task that has nothing to do waits, and the next one runs.\<close>

lemma scene_sleep:
  assumes S: "scene R t (a, c, w)" and t: "t \<notin> R" "t \<noteq> idle_tcb" and R: "R \<noteq> {}"
    and p: "w t = At p" "section_of p a = None" "call_of p \<noteq> NoCall"
    and step: "plain_step p a = Some (Blocks, a\<lparr>kern := k\<rparr>)"
    and i: "sched_inv True {} (live_heads w) app_nodes L k" "waiting (c(t := call_of p)) L"
    and f: "k = (kern a)\<lparr>tcbs := (tcbs (kern a))(t := (tcbs (kern a) t)\<lparr>tcb_state := NIMBLE_TASK_BLOCKED, tcb_wake_tick := v\<rparr>),
       pendsv := True, heap := heap k, ready_bitmap := ready_bitmap k\<rparr>"
  shows "\<exists>n a'. n \<in> R \<and> (\<forall>x\<in>R. app_prio x \<le> app_prio n) \<and> scene (R - {n}) n (a', c(t := call_of p), w)"
proof -
  note D = sceneD [OF S]
  have "app_task True t (a, c, w) (a\<lparr>kern := k\<rparr>, after_call (Blocks :: place call_result) t (call_of p) c, move Blocks t w)"
    by (rule app_task.plain [where w = w and a = a and p = p, OF D(7) [OF t(2)] p(1,2) step])
  then have r: "app_reachable True (a\<lparr>kern := k\<rparr>, c(t := call_of p), w)" using reachable_task [OF D(1)] by simp
  have fr: "pendsv k" "nimble_current_tcb k = Some t" "mutexes k = mutexes (kern a)" "semaphores k = semaphores (kern a)"
    "queues k = queues (kern a)" "task_state k y = (if y = t then NIMBLE_TASK_BLOCKED else task_state (kern a) y)"
    "task_priority k y = task_priority (kern a) y" for y
    using D(2) unfolding states_def by (subst f, simp)+
  have "\<exists>n k'. n \<in> R \<and> (\<forall>x\<in>R. app_prio x \<le> app_prio n) \<and>
      scene (R - {n}) n ((a\<lparr>kern := k\<rparr>)\<lparr>kern := k'\<rparr>, c(t := call_of p), w)"
    by (rule scene_switch [OF r _ _ i(2), where t = t])
      (use i(1) fr D(2,3) R t(1) D(4) in \<open>auto simp: states_def quiet_def\<close>)
  then show ?thesis by blast
qed

section \<open>Going to wait\<close>

lemma scene_lists:
  assumes "scene R t (a, c, w)" "wait_head k" "k \<in> live_heads w"
  obtains L ts where "sched_inv True {} (live_heads w) app_nodes L (kern a)" "waiting c L" "L k = map EventLink ts"
  using assms wait_links [OF sched_inv_shape, of _ _ "live_heads w" app_nodes _ "kern a" k] unfolding scene_def by blast

lemma take_sleeps:
  assumes S: "scene R t (a, c, w)" and t: "t \<notin> R" "t \<noteq> idle_tcb" "R \<noteq> {}"
    and p: "w t = At p" "section_of p a = None" "call_of p = InTake q" and q: "SemWaiters q \<in> live_heads w"
    and e: "sem_count (semaphores (kern a) q) = 0" and ft: "q = g_fault_semaphore \<longleftrightarrow> t = protection_tcb" "t \<noteq> control_tcb"
    and step: "\<And>k. nimble_semaphore_take q NIMBLE_WAIT_FOREVER (kern a) = Some (Blocks, k) \<Longrightarrow>
      plain_step p a = Some (Blocks, a\<lparr>kern := k\<rparr>)"
  shows "\<exists>n a'. n \<in> R \<and> (\<forall>x\<in>R. app_prio x \<le> app_prio n) \<and> scene (R - {n}) n (a', c(t := call_of p), w)"
proof -
  note D = sceneD [OF S] and T = threadD [OF sceneD(7) [OF S t(2)]]
  obtain L ts where i: "sched_inv True {} (live_heads w) app_nodes L (kern a)" and W: "waiting c L"
    and ts: "L (SemWaiters q) = map EventLink ts"
    by (rule scene_lists [OF S _ q]) auto
  have nw: "NIMBLE_WAIT_FOREVER \<noteq> NIMBLE_NO_WAIT" by (simp add: kdefs)
  let ?L = "block_lists t NIMBLE_WAIT_FOREVER (L(SemWaiters q := map EventLink (prio_insert (task_priority (kern a)) t ts)))"
  obtain k v where k: "nimble_semaphore_take q NIMBLE_WAIT_FOREVER (kern a) = Some (Blocks, k)"
    and i': "sched_inv True {} (live_heads w) app_nodes ?L k"
    and f: "k = (kern a)\<lparr>tcbs := (tcbs (kern a))(t := (tcbs (kern a) t)\<lparr>tcb_state := NIMBLE_TASK_BLOCKED, tcb_wake_tick := v\<rparr>),
       pendsv := True, heap := heap k, ready_bitmap := ready_bitmap k\<rparr>"
    using take_blocks [OF i T(1,2) q ts e nw] by blast
  have "ts = []" if "q = g_fault_semaphore" using that W ts ft(1) D(6) by (auto simp: waiting_def)
  then have "waiting (c(t := call_of p)) ?L"
    using W ft p(3) by (auto simp: waiting_def block_lists_def prio_insert_simps)
  from scene_sleep [OF S t p(1,2) _ step [OF k] i' this f] show ?thesis using p(3) by simp
qed

lemma receive_sleeps:
  assumes S: "scene R t (a, c, w)" and t: "t \<notin> R" "t \<noteq> idle_tcb" "R \<noteq> {}"
    and p: "w t = At p" "section_of p a = None" "call_of p = InReceive q" and q: "QueueReceivers q \<in> live_heads w"
    and e: "queue_count (queues (kern a) q) = 0" and ft: "q = g_adc_sample_queue \<longleftrightarrow> t = control_tcb" "t \<noteq> protection_tcb"
    and step: "\<And>k. nimble_queue_receive q NIMBLE_WAIT_FOREVER (kern a) = Some (Blocks, k) \<Longrightarrow>
      plain_step p a = Some (Blocks, a\<lparr>kern := k\<rparr>)"
  shows "\<exists>n a'. n \<in> R \<and> (\<forall>x\<in>R. app_prio x \<le> app_prio n) \<and> scene (R - {n}) n (a', c(t := call_of p), w)"
proof -
  note D = sceneD [OF S] and T = threadD [OF sceneD(7) [OF S t(2)]]
  obtain L ts where i: "sched_inv True {} (live_heads w) app_nodes L (kern a)" and W: "waiting c L"
    and ts: "L (QueueReceivers q) = map EventLink ts"
    by (rule scene_lists [OF S _ q]) auto
  have nw: "NIMBLE_WAIT_FOREVER \<noteq> NIMBLE_NO_WAIT" by (simp add: kdefs)
  let ?L = "block_lists t NIMBLE_WAIT_FOREVER (L(QueueReceivers q := map EventLink (prio_insert (task_priority (kern a)) t ts)))"
  obtain k v where k: "nimble_queue_receive q NIMBLE_WAIT_FOREVER (kern a) = Some (Blocks, k)"
    and i': "sched_inv True {} (live_heads w) app_nodes ?L k"
    and f: "k = (kern a)\<lparr>tcbs := (tcbs (kern a))(t := (tcbs (kern a) t)\<lparr>tcb_state := NIMBLE_TASK_BLOCKED, tcb_wake_tick := v\<rparr>),
       pendsv := True, heap := heap k, ready_bitmap := ready_bitmap k\<rparr>"
    using receive_blocks [OF i T(1,2) q ts e nw] by blast
  have "ts = []" if "q = g_adc_sample_queue" using that W ts ft(1) D(6) by (auto simp: waiting_def)
  then have "waiting (c(t := call_of p)) ?L"
    using W ft p(3) by (auto simp: waiting_def block_lists_def prio_insert_simps)
  from scene_sleep [OF S t p(1,2) _ step [OF k] i' this f] show ?thesis using p(3) by simp
qed

lemma sleeps:
  assumes S: "scene R t (a, c, w)" and t: "t \<notin> R" "t \<noteq> idle_tcb" "R \<noteq> {}" and wt: "w t = At p"
    and p: "p \<in> {Protection Protection_Take, Control Control_Receive, Comms Comms_Receive, Service Service_Wait}"
  shows "\<exists>n a'. n \<in> R \<and> (\<forall>x\<in>R. app_prio x \<le> app_prio n) \<and> scene (R - {n}) n (a', c(t := call_of p), w)"
proof -
  note D = sceneD [OF S] and H = live_heads_mem [of w]
  have inv: "app_inv True (a, c, w)" by (rule app_reachable_inv(1) [OF D(1)])
  have rt: "runs p = t"
    using app_invD(2) [OF inv] thread_task [OF app_invD(1) [OF inv] D(7) [OF t(2)]] wt by (auto simp: stages_ok_def)
  have q: "sem_count (semaphores (kern a) g_fault_semaphore) = 0" "sem_count (semaphores (kern a) timer_wake_sem) = 0"
    "queue_count (queues (kern a) g_adc_sample_queue) = 0" "queue_count (queues (kern a) g_uart_rx_queue) = 0"
    using D(3) by (simp_all add: quiet_def)
  from p show ?thesis
  proof (elim insertE)
    assume e: "p = Protection Protection_Take"
    show ?thesis by (rule take_sleeps [OF S t wt _ _ H(2) q(1)]) (use e rt in \<open>simp_all add: at_place_def app_ids\<close>)
  next
    assume e: "p = Control Control_Receive"
    show ?thesis by (rule receive_sleeps [OF S t wt _ _ H(4) q(3)]) (use e rt in \<open>simp_all add: at_place_def app_ids\<close>)
  next
    assume e: "p = Comms Comms_Receive"
    then have "7 \<le> uart_stage w" using rt wt by (auto simp: uart_stage_def)
    from H(6) [OF this] have live: "QueueReceivers g_uart_rx_queue \<in> live_heads w" .
    show ?thesis
      by (rule receive_sleeps [OF S t wt _ _ live q(4)])
        (use e rt in \<open>simp_all add: at_place_def app_ids g_uart_rx_queue_def\<close>)
  next
    assume e: "p = Service Service_Wait"
    show ?thesis
      by (rule take_sleeps [OF S t wt _ _ H(3) q(2)])
        (use e rt service_fire(2) [OF app_invD(1) [OF inv]] in \<open>simp_all add: timer_task_wait_def app_ids\<close>)
  qed simp
qed

section \<open>The run\<close>

text \<open>The booted application is a scene; the tasks go to wait in the order of their priorities.\<close>

lemma scene_booted: "scene {control_tcb, timer_task_tcb, comms_tcb, logger_tcb, idle_tcb} protection_tcb (booted, \<lambda>_. NoCall, entry)"
proof -
  let ?L = "delist (Link protection_tcb) app_lists" and ?s = "kern booted"
  note T = threadD [OF booted_inv(2)]
  have on: "task_state ?s y = NIMBLE_TASK_READY \<and> unat (task_priority ?s y) = p"
    if "p < 32" "Link y \<in> set (?L (ReadyList p))" for p y
    using sched_inv_tasks [OF booted_inv(3)] that unfolding tasks_inv_def by blast
  have "task_state ?s y = NIMBLE_TASK_READY \<and> unat (task_priority ?s y) = app_prio y"
    if "y \<in> {control_tcb, timer_task_tcb, comms_tcb, logger_tcb, idle_tcb}" for y
    using that on [of 0 y] on [of "Suc 0" y] on [of 2 y] on [of 3 y]
    by (auto simp: app_lists_def app_prio_def app_ids)
  moreover have "unat (task_priority ?s protection_tcb) = app_prio protection_tcb"
    by (simp add: booted_inv(5) app_prio_def PS_PRIO_PROTECTION_def)
  ultimately have "states {control_tcb, timer_task_tcb, comms_tcb, logger_tcb, idle_tcb} protection_tcb ?s"
    using T unfolding states_def app_nodes_def by (auto simp: app_ids)
  moreover have "app_inv True (booted, \<lambda>_. NoCall, entry)" by (rule app_reachable_inv(1) [OF booted_reachable])
  then have "queues ?s g_uart_rx_queue = uart_fields 0"
    using app_invD(5) by (fastforce simp: data_ok_def uart_stage_def entry_def app_ids)
  then have "quiet ?s" by (simp add: quiet_def booted_inv new_queue_def uart_fields_def)
  moreover note live_entry
  moreover have "waiting (\<lambda>_. NoCall) ?L" by (simp add: waiting_def app_lists_simps)
  ultimately show ?thesis
    using booted_reachable booted_inv(3) by (auto simp: scene_def app_nodes_def)
qed

lemma sleeps_to:
  assumes S: "scene R t (a, c, w)" and t: "t \<notin> R" "t \<noteq> idle_tcb" and wt: "w t = At p"
    and p: "p \<in> {Protection Protection_Take, Control Control_Receive, Comms Comms_Receive, Service Service_Wait}"
    and m: "m \<in> R" "\<And>x. x \<in> R \<Longrightarrow> x \<noteq> m \<Longrightarrow> app_prio x < app_prio m"
  shows "\<exists>a'. scene (R - {m}) m (a', c(t := call_of p), w)"
proof -
  obtain n a' where n: "n \<in> R" "\<forall>x\<in>R. app_prio x \<le> app_prio n" "scene (R - {n}) n (a', c(t := call_of p), w)"
    using sleeps [OF S t _ wt p] m(1) by auto
  then have "n = m" using m(2) [of n] m(1) by force
  then show ?thesis using n(3) by blast
qed

text \<open>The control task and the timer task, in either order.\<close>

lemma scene_pair:
  assumes S: "scene {q, comms_tcb, logger_tcb, idle_tcb} m (a, c, entry)"
    and m: "m = control_tcb \<and> q = timer_task_tcb \<or> m = timer_task_tcb \<and> q = control_tcb"
  shows "\<exists>a'. scene {logger_tcb, idle_tcb} comms_tcb (a', c(control_tcb := InReceive g_adc_sample_queue,
     timer_task_tcb := InTake timer_wake_sem), entry)"
proof -
  let ?p = "\<lambda>t. if t = control_tcb then Control Control_Receive else Service Service_Wait"
  have e: "entry m = At (?p m)" "entry q = At (?p q)" using m by (auto simp: entry_def app_ids)
  have pr: "app_prio q = 3" "app_prio comms_tcb = 2" "app_prio logger_tcb = 1" "app_prio idle_tcb = 0"
    using m by (auto simp: app_prio_def app_ids)
  have pp: "?p t \<in> {Protection Protection_Take, Control Control_Receive, Comms Comms_Receive, Service Service_Wait}" for t
    by simp
  have lt: "x \<in> {q, comms_tcb, logger_tcb, idle_tcb} \<Longrightarrow> x \<noteq> q \<Longrightarrow> app_prio x < app_prio q"
    "x \<in> {comms_tcb, logger_tcb, idle_tcb} \<Longrightarrow> x \<noteq> comms_tcb \<Longrightarrow> app_prio x < app_prio comms_tcb" for x
    using pr by auto
  have ne: "m \<notin> {q, comms_tcb, logger_tcb, idle_tcb}" "q \<notin> {m, comms_tcb, logger_tcb, idle_tcb}"
    using m by (auto simp: app_ids)
  obtain a1 where S1: "scene ({q, comms_tcb, logger_tcb, idle_tcb} - {q}) q (a1, c(m := call_of (?p m)), entry)"
    using sleeps_to [OF S _ _ e(1) pp, of q] lt(1) ne by fastforce
  have "{q, comms_tcb, logger_tcb, idle_tcb} - {q} = {comms_tcb, logger_tcb, idle_tcb}" using ne by auto
  then have S2: "scene {comms_tcb, logger_tcb, idle_tcb} q (a1, c(m := call_of (?p m)), entry)" using S1 by simp
  obtain a2 where "scene ({comms_tcb, logger_tcb, idle_tcb} - {comms_tcb}) comms_tcb
      (a2, c(m := call_of (?p m), q := call_of (?p q)), entry)"
    using sleeps_to [OF S2 _ _ e(2) pp, of comms_tcb] lt(2) ne by fastforce
  moreover have "{comms_tcb, logger_tcb, idle_tcb} - {comms_tcb} = {logger_tcb, idle_tcb}" by (auto simp: app_ids)
  moreover have "c(m := call_of (?p m), q := call_of (?p q)) =
      c(control_tcb := InReceive g_adc_sample_queue, timer_task_tcb := InTake timer_wake_sem)"
    using m by (auto simp: app_ids fun_eq_iff)
  ultimately show ?thesis by metis
qed

definition waits3 :: calls where
  "waits3 = (\<lambda>_. NoCall)(protection_tcb := InTake g_fault_semaphore, control_tcb := InReceive g_adc_sample_queue,
     timer_task_tcb := InTake timer_wake_sem)"

lemma scene_comms: "\<exists>a. scene {logger_tcb, idle_tcb} comms_tcb (a, waits3, entry)"
proof -
  let ?R = "{control_tcb, timer_task_tcb, comms_tcb, logger_tcb, idle_tcb}"
  have e: "entry protection_tcb = At (Protection Protection_Take)" by (simp add: entry_def)
  have ne: "protection_tcb \<notin> ?R" "protection_tcb \<noteq> idle_tcb" "?R \<noteq> {}" by (simp_all add: app_ids)
  obtain n a1 where n: "n \<in> ?R" "\<forall>x\<in>?R. app_prio x \<le> app_prio n"
    and S1: "scene (?R - {n}) n (a1, (\<lambda>_. NoCall)(protection_tcb := InTake g_fault_semaphore), entry)"
    using sleeps [OF scene_booted ne e] by auto
  have "app_prio control_tcb \<le> app_prio n" using n(2) by blast
  moreover have "app_prio control_tcb = 3" "app_prio comms_tcb = 2" "app_prio logger_tcb = 1" "app_prio idle_tcb = 0"
    by (simp_all add: app_prio_def app_ids)
  ultimately have "n = control_tcb \<or> n = timer_task_tcb" using n(1) by force
  moreover have "?R - {control_tcb} = {timer_task_tcb, comms_tcb, logger_tcb, idle_tcb}"
    "?R - {timer_task_tcb} = {control_tcb, comms_tcb, logger_tcb, idle_tcb}" by (auto simp: app_ids)
  ultimately show ?thesis
    using scene_pair [of timer_task_tcb control_tcb] scene_pair [of control_tcb timer_task_tcb] S1
    unfolding waits3_def by metis
qed

text \<open>The comms task starts the receive queue, store by store, and waits; the logger runs.\<close>

lemma scene_comms_store:
  assumes S: "scene R comms_tcb (a, c, w)" and w: "w comms_tcb = At (Comms_Init n)" and n: "n < 8"
    and step: "comms_init_step n a = (r, a')"
  shows "scene R comms_tcb (a', c, move r comms_tcb w)"
proof -
  note D = sceneD [OF S]
  let ?q = g_uart_rx_queue and ?w = "move r comms_tcb w"
  have th: "thread (kern a) c comms_tcb NoCall" using D(7) by (simp add: app_ids)
  have "last uart_init_stores = uart_init_stores ! 7" by (simp add: uart_init_stores_def queue_init_stores_def)
  then have k: "kern a' = (uart_init_stores ! n) (kern a)" "r \<noteq> Blocks" "uart_stage w = n" "uart_stage ?w = Suc n"
    using w step n by (cases "n = 7"; auto simp: comms_init_step_def uart_stage_def split: if_splits)+
  then have c: "after_call r comms_tcb (call_of (Comms_Init n)) c = c" by (cases r) auto
  have "app_task True comms_tcb (a, c, w) (a', after_call r comms_tcb (call_of (Comms_Init n)) c, ?w)"
    by (rule app_task.plain [where w = w and a = a and p = "Comms_Init n", OF th w]) (simp_all add: step)
  then have r: "app_reachable True (a', c, ?w)" using reachable_task [OF D(1)] c by simp
  have "data_ok w a" using app_invD(5) [OF app_reachable_inv(1) [OF D(1)]] .
  then have f: "n < 7 \<Longrightarrow> queues (kern a) ?q = uart_fields n" using k(3) by (simp add: data_ok_def)
  obtain L where i: "sched_inv True {} (heads_at n) app_nodes L (kern a)" and W: "waiting c L"
    using S k(3) by (auto simp: scene_def live_heads_def)
  note fr = uart_store_frame [OF n, of "kern a", folded k(1)] and qs = uart_store_queues [OF n f, folded k(1)]
  have "sched_inv True {} (live_heads ?w) app_nodes (uart_lists n L) (kern a')"
    unfolding live_heads_def k(1,4) by (rule uart_store_sched [OF i n])
  moreover have "waiting c (uart_lists n L)"
    using W by (simp add: waiting_def uart_lists_def g_uart_rx_queue_def g_adc_sample_queue_def)
  moreover have ot: "tcbs (kern a') = tcbs (kern a)" "mutexes (kern a') = mutexes (kern a)"
    "semaphores (kern a') = semaphores (kern a)" "nimble_current_tcb (kern a') = nimble_current_tcb (kern a)"
    by (subst fr, simp)+
  have "states R comms_tcb (kern a')" using D(2) by (simp add: states_def ot)
  moreover have "?q \<noteq> g_adc_sample_queue" by (simp add: g_uart_rx_queue_def g_adc_sample_queue_def)
  then have "quiet (kern a')" using D(3) qs by (simp add: quiet_def ot uart_fields_def)
  ultimately show ?thesis using r D(4-6) by (auto simp: scene_def)
qed

lemma scene_comms_stores:
  assumes "scene R comms_tcb (a, c, w)" "w comms_tcb = At (Comms_Init n)" "n < 8"
  shows "\<exists>a'. scene R comms_tcb (a', c, w(comms_tcb := At (Comms Comms_Receive)))"
  using assms
proof (induction "7 - n" arbitrary: a w n)
  case 0
  obtain r a' where s: "comms_init_step n a = (r, a')" by fastforce
  then have "r = Returns (Comms Comms_Receive)" using 0 by (auto simp: comms_init_step_def split: if_splits)
  then show ?case using scene_comms_store [OF 0(2,3,4) s] by (simp only: move.simps) blast
next
  case (Suc m)
  obtain r a' where s: "comms_init_step n a = (r, a')" by fastforce
  then have "r = Returns (Comms_Init (Suc n))" using Suc(2) by (auto simp: comms_init_step_def split: if_splits)
  then have "scene R comms_tcb (a', c, w(comms_tcb := At (Comms_Init (Suc n))))"
    using scene_comms_store [OF Suc(3,4,5) s] by simp
  from Suc(1) [of "Suc n", OF _ this] Suc(2) show ?case by simp
qed

lemma scene_logger:
  "\<exists>a. scene {idle_tcb} logger_tcb (a, waits3(comms_tcb := InReceive g_uart_rx_queue), entry(comms_tcb := At (Comms Comms_Receive)))"
proof -
  obtain a0 where "scene {logger_tcb, idle_tcb} comms_tcb (a0, waits3, entry)" using scene_comms by blast
  then obtain a where S: "scene {logger_tcb, idle_tcb} comms_tcb (a, waits3, entry(comms_tcb := At (Comms Comms_Receive)))"
    using scene_comms_stores [of _ a0 waits3 entry 0] by (auto simp: entry_def app_ids)
  have "app_prio logger_tcb = 1" "app_prio idle_tcb = 0" by (simp_all add: app_prio_def app_ids)
  then have "\<exists>a'. scene ({logger_tcb, idle_tcb} - {logger_tcb}) logger_tcb
      (a', waits3(comms_tcb := call_of (Comms Comms_Receive)), entry(comms_tcb := At (Comms Comms_Receive)))"
    by (intro sleeps_to [OF S]) (simp_all add: app_ids)
  moreover have "{logger_tcb, idle_tcb} - {logger_tcb} = {idle_tcb}" by (auto simp: app_ids)
  ultimately show ?thesis by simp
qed

section \<open>The logger holds the mutex\<close>

text \<open>A context switch away from a running task.\<close>

lemma states_switch:
  assumes i: "sched_inv True {} H app_nodes L s" and st: "states R t s" and t: "Link t \<in> app_nodes"
    and n: "n \<in> R" "Link n \<in> app_nodes" "n \<noteq> t"
    and top: "\<And>x. x \<in> insert t R \<Longrightarrow> x \<noteq> n \<Longrightarrow> app_prio x < app_prio n"
  shows "\<exists>k. PendSV_Handler s = Some k \<and> states (insert t (R - {n})) n k \<and> mutexes k = mutexes s"
proof -
  have rn: "can_run app_nodes s n" using st n by (auto simp: can_run_def states_def)
  obtain m k where k: "PendSV_Handler s = Some k" and m: "nimble_current_tcb k = Some m" "can_run app_nodes s m"
    and le: "\<And>t. can_run app_nodes s t \<Longrightarrow> task_priority s t \<le> task_priority s m"
    using PendSV_highest [OF i rn] by blast
  have "m \<in> insert t R" "Link m \<in> app_nodes" using m(2) st by (auto simp: can_run_def states_def split: if_splits)
  moreover have "app_prio n \<le> app_prio m"
    using le [OF rn] st n(2) calculation(2) by (auto simp: states_def word_le_nat_alt)
  ultimately have mn: "m = n" using top [of m] by force
  have "states (insert t (R - {n})) n k \<and> mutexes k = mutexes s"
    using PendSV_frame [OF i _ runnable_listed [OF i rn]] k m(1) mn st n(3)
    by (auto simp: states_def switch_priority [OF k])
  then show ?thesis using k by blast
qed

text \<open>The most urgent ready task is the head of its list.\<close>

lemma states_top:
  assumes i: "sched_inv True {} H app_nodes L s" and st: "states R t s"
    and n: "n \<in> R" "Link n \<in> app_nodes" "n \<noteq> t" and top: "\<And>x. x \<in> R \<Longrightarrow> x \<noteq> n \<Longrightarrow> app_prio x < app_prio n"
  shows "\<exists>ns. top_ready L (app_prio n) \<and> L (ReadyList (app_prio n)) = Link n # ns"
proof -
  note ti = sched_inv_tasks [OF i] and sh = sched_inv_shape [OF i]
  have p: "app_prio n < 32" by (simp add: app_prio_def)
  have el: "\<exists>x\<in>R. y = Link x \<and> app_prio x = q" if q: "q < 32" and y: "y \<in> set (L (ReadyList q))" for q y
  proof -
    have H: "ReadyList q \<in> H" using shape_ready [OF sh] q by simp
    obtain x where x: "y = Link x" using shape_fits [OF sh H y] by (cases y) auto
    then have "Link x \<in> app_nodes" using repr_member [OF sched_inv_repr [OF i] H y] by simp
    moreover have "task_state s x = NIMBLE_TASK_READY" "unat (task_priority s x) = q"
      using tasks_inv_ready_state [OF ti q] tasks_inv_ready_prio [OF ti _ q] y x by auto
    ultimately show ?thesis using x st by (auto simp: states_def split: if_splits)
  qed
  have "task_state s n = NIMBLE_TASK_READY" using st n by (simp add: states_def)
  then obtain q where q: "q < 32" "Link n \<in> set (L (ReadyList q))" using tasks_inv_ready_listed [OF ti n(2)] by auto
  then have "q = app_prio n" using el [OF q] by auto
  then have mem: "Link n \<in> set (L (ReadyList (app_prio n)))" using q(2) by simp
  then obtain y ns where y: "L (ReadyList (app_prio n)) = y # ns" by (cases "L (ReadyList (app_prio n))") auto
  obtain x where x: "x \<in> R" "y = Link x" "app_prio x = app_prio n" using el [OF p, of y] y by auto
  then have "x = n" using top [of x] by auto
  moreover have "L (ReadyList r) = []" if r: "app_prio n < r" "r < 32" for r
  proof (rule ccontr)
    assume "L (ReadyList r) \<noteq> []"
    then obtain y' where "y' \<in> set (L (ReadyList r))" by (cases "L (ReadyList r)") auto
    then obtain z where "z \<in> R" "app_prio z = r" using el [OF r(2)] by blast
    then show False using top [of z] r(1) by (cases "z = n") auto
  qed
  ultimately show ?thesis using y x p by (auto simp: top_ready_def)
qed

text \<open>The logger enters its accessor; an over-limit sample then wakes two tasks.\<close>

lemma contended_interrupt:
  assumes i: "sched_inv True {} H app_nodes L s" and o: "objs_inv H app_nodes L c s" and st: "states {idle_tcb} logger_tcb s"
    and W: "L (SemWaiters g_fault_semaphore) = [EventLink protection_tcb]"
      "L (QueueReceivers g_adc_sample_queue) = [EventLink control_tcb]"
    and H: "QueueReceivers g_adc_sample_queue \<in> H" "SemWaiters g_fault_semaphore \<in> H"
    and q: "queue_item_size (queues s g_adc_sample_queue) = 4" "queue_capacity (queues s g_adc_sample_queue) = ADC_QUEUE_DEPTH"
      "queue_count (queues s g_adc_sample_queue) = 0"
  shows "\<exists>k L'. ADC_IRQHandler 3000 s = Some k \<and> pendsv k \<and> sched_inv True {} H app_nodes L' k \<and>
     states {control_tcb, protection_tcb, idle_tcb} logger_tcb k \<and> mutexes k = mutexes s"
proof -
  let ?q = g_adc_sample_queue and ?f = g_fault_semaphore and ?x = "sample_bytes (adc_sample 3000)"
  have "queue_wf (queues s ?q)" using objs_invD(3) [OF o] H(1) by (simp add: queue_inv_def)
  moreover have room: "queue_count (queues s ?q) < queue_capacity (queues s ?q)" by (simp add: q ADC_QUEUE_DEPTH_def)
  ultimately obtain x where x: "copy_in ?x (queues s ?q) = Some x" using copy_in_returns [of "queues s ?q" ?x] q(1) by auto
  let ?L1 = "woken_lists s (Some control_tcb) L"
  obtain s1 where s1: "nimble_queue_send_from_isr ?q ?x s = Some (NIMBLE_OK, True, s1)"
    and i1: "sched_inv True {} H app_nodes ?L1 s1"
    and f1: "s1 = s\<lparr>queues := (queues s)(?q := x), tcbs := woken_tcbs (Some control_tcb) (tcbs s),
            heap := heap s1, ready_bitmap := ready_bitmap s1\<rparr>"
    using send_from_isr_room [OF i H(1) room x] W(2) by auto
  have W1: "?L1 (SemWaiters ?f) = [EventLink protection_tcb]"
    using W(1) by (simp add: woken_lists_def wake_lists_def app_ids)
  obtain s2 L2 where s2: "nimble_semaphore_give_from_isr ?f s1 = Some (NIMBLE_OK, True, s2)"
    and i2: "sched_inv True {} H app_nodes L2 s2"
    and f2: "s2 = s1\<lparr>tcbs := woken_tcbs (Some protection_tcb) (tcbs s1), heap := heap s2, ready_bitmap := ready_bitmap s2\<rparr>"
    using give_from_isr_spec [OF i1 H(2)] W1 by auto
  have "over_limit (adc_sample 3000)" using over_limit_iff [of 3000] by simp
  then have k: "ADC_IRQHandler 3000 s = Some (nimble_port_request_context_switch s2)"
    using s1 s2 by (simp add: ADC_IRQHandler_def Let_def)
  have t1: "tcbs s1 = woken_tcbs (Some control_tcb) (tcbs s)" "nimble_current_tcb s1 = nimble_current_tcb s" "mutexes s1 = mutexes s"
    by (subst f1, simp)+
  have t2: "tcbs s2 = woken_tcbs (Some protection_tcb) (tcbs s1)" "nimble_current_tcb s2 = nimble_current_tcb s1" "mutexes s2 = mutexes s1"
    by (subst f2, simp)+
  have "states {control_tcb, protection_tcb, idle_tcb} logger_tcb s2"
    using st by (auto simp: states_def t1 t2 woken_tcbs_def app_ids)
  then show ?thesis
    using k i2 t1(3) t2(3)
    by (intro exI [of _ "nimble_port_request_context_switch s2"] exI [of _ L2])
      (auto simp: nimble_port_request_context_switch_def states_def)
qed

text \<open>The logger enters its accessor.\<close>

lemma logger_inside:
  "\<exists>a c w. app_reachable True (a, c, w) \<and> states {idle_tcb} logger_tcb (kern a) \<and>
     mutex_owner (mutexes (kern a) g_status_mutex) = Some logger_tcb \<and> in_section (w logger_tcb) \<and>
     queue_count (queues (kern a) g_adc_sample_queue) = 0 \<and>
     w protection_tcb = At (Protection Protection_Take) \<and> c protection_tcb = InTake g_fault_semaphore \<and>
     c control_tcb = InReceive g_adc_sample_queue \<and>
     (\<exists>L. sched_inv True {} (live_heads w) app_nodes L (kern a) \<and> waiting c L)"
proof -
  let ?m = g_status_mutex and ?lg = "Logger Logger_Get"
  let ?w = "entry(comms_tcb := At (Comms Comms_Receive))" and ?c = "waits3(comms_tcb := InReceive g_uart_rx_queue)"
  obtain a where S: "scene {idle_tcb} logger_tcb (a, ?c, ?w)" using scene_logger by blast
  note D = sceneD [OF S]
  have wl: "?w logger_tcb = At ?lg" by (simp add: entry_def app_ids)
  have th: "thread (kern a) ?c logger_tcb NoCall" using D(7) by (simp add: app_ids)
  have free: "mutex_owner (mutexes (kern a) ?m) = None" using D(3) by (simp add: quiet_def)
  let ?k = "(kern a)\<lparr>mutexes := (mutexes (kern a))(?m := (mutexes (kern a) ?m)\<lparr>mutex_owner := Some logger_tcb, mutex_lock_count := 1\<rparr>)\<rparr>"
  let ?a = "a\<lparr>kern := ?k\<rparr>" and ?w1 = "?w(logger_tcb := Locked ?lg)"
  have l: "nimble_mutex_lock ?m NIMBLE_WAIT_FOREVER (kern a) = Some (Returns NIMBLE_OK, ?k)"
    using lock_free [OF free, of NIMBLE_WAIT_FOREVER] threadD(1) [OF th] by simp
  have "app_task True logger_tcb (a, ?c, ?w) (?a, after_call (Returns NIMBLE_OK) logger_tcb (InLock ?m) ?c, ?w1)"
    using app_task.lock [where w = ?w and a = a and p = ?lg and b = True, OF th wl _ _ l] free by (simp add: may_boost_def)
  then have r: "app_reachable True (?a, ?c, ?w1)" using reachable_task [OF D(1)] by simp
  have lw: "live_heads ?w1 = live_heads ?w" by (rule live_heads_cong) (simp add: uart_stage_def app_ids)
  obtain L where L: "sched_inv True {} (live_heads ?w1) app_nodes L (kern ?a)" "waiting ?c L"
    using S by (auto simp: scene_def lw)
  have "states {idle_tcb} logger_tcb (kern ?a)" "queue_count (queues (kern ?a) g_adc_sample_queue) = 0"
    using D(2,3) by (simp_all add: states_def quiet_def)
  moreover have "?w1 protection_tcb = At (Protection Protection_Take)" "?c protection_tcb = InTake g_fault_semaphore"
    "?c control_tcb = InReceive g_adc_sample_queue"
    by (simp_all add: entry_def waits3_def app_ids)
  moreover have "mutex_owner (mutexes (kern ?a) ?m) = Some logger_tcb" "in_section (?w1 logger_tcb)" by simp_all
  ultimately show ?thesis using r L by (intro exI [of _ ?a] exI [of _ ?c] exI [of _ ?w1]) blast
qed

text \<open>The interrupt comes while it is there.\<close>

lemma logger_preempted:
  "\<exists>a c w. app_reachable True (a, c, w) \<and> states {control_tcb, logger_tcb, idle_tcb} protection_tcb (kern a) \<and>
     mutex_owner (mutexes (kern a) g_status_mutex) = Some logger_tcb \<and> in_section (w logger_tcb) \<and>
     w protection_tcb = At (Protection Protection_Take) \<and> c protection_tcb = InTake g_fault_semaphore"
proof -
  let ?p = protection_tcb
  obtain a c w L' where r: "app_reachable True (a, c, w)" and st: "states {idle_tcb} logger_tcb (kern a)"
    and own: "mutex_owner (mutexes (kern a) g_status_mutex) = Some logger_tcb" "in_section (w logger_tcb)"
    and q0: "queue_count (queues (kern a) g_adc_sample_queue) = 0"
    and c: "w ?p = At (Protection Protection_Take)" "c ?p = InTake g_fault_semaphore" "c control_tcb = InReceive g_adc_sample_queue"
    and L': "sched_inv True {} (live_heads w) app_nodes L' (kern a)" "waiting c L'"
    using logger_inside by blast
  note I = app_invD [OF app_reachable_inv(1) [OF r]] and H = live_heads_mem [of w]
  obtain L where i: "sched_inv True {} (live_heads w) app_nodes L (kern a)" and o: "objs_inv (live_heads w) app_nodes L c (kern a)"
    using I(1) by (rule sys_invE)
  have W: "L (SemWaiters g_fault_semaphore) = [EventLink ?p]" "L (QueueReceivers g_adc_sample_queue) = [EventLink control_tcb]"
    using L'(2) c repr_unique [OF sched_inv_repr [OF L'(1)] sched_inv_repr [OF i]] H(2,4) by (simp_all add: waiting_def)
  have q: "queue_item_size (queues (kern a) g_adc_sample_queue) = 4" "queue_capacity (queues (kern a) g_adc_sample_queue) = ADC_QUEUE_DEPTH"
    using I(5) by (simp_all add: data_ok_def)
  obtain k2 L2 where k2: "ADC_IRQHandler 3000 (kern a) = Some k2" "pendsv k2" and i2: "sched_inv True {} (live_heads w) app_nodes L2 k2"
    and st2: "states {control_tcb, ?p, idle_tcb} logger_tcb k2" and m2: "mutexes k2 = mutexes (kern a)"
    using contended_interrupt [OF i o st W H(4,2) q q0] by blast
  have r2: "app_reachable True (a\<lparr>kern := k2\<rparr>, c, w)" by (rule reachable_irq [OF r app_irq.adc [OF k2(1)]])
  have "app_prio x < app_prio ?p" if "x \<in> insert logger_tcb {control_tcb, ?p, idle_tcb}" "x \<noteq> ?p" for x
    using that by (auto simp: app_prio_def app_ids)
  from states_switch [OF i2 st2 _ _ _ _ this]
  obtain k3 where k3: "PendSV_Handler k2 = Some k3" "mutexes k3 = mutexes k2"
    and "states (insert logger_tcb ({control_tcb, ?p, idle_tcb} - {?p})) ?p k3"
    by (auto simp: app_nodes_def app_ids)
  moreover have "insert logger_tcb ({control_tcb, ?p, idle_tcb} - {?p}) = {control_tcb, logger_tcb, idle_tcb}"
    by (auto simp: app_ids)
  ultimately have "states {control_tcb, logger_tcb, idle_tcb} ?p (kern (a\<lparr>kern := k3\<rparr>))" by simp
  moreover have "app_reachable True (a\<lparr>kern := k3\<rparr>, c, w)"
    using reachable_irq [OF r2] app_irq.switch [of "a\<lparr>kern := k2\<rparr>" k3 c w] k2(2) k3(1) by simp
  moreover have "mutex_owner (mutexes (kern (a\<lparr>kern := k3\<rparr>)) g_status_mutex) = Some logger_tcb" using own(1) k3(2) m2 by simp
  ultimately show ?thesis using own(2) c(1,2) by blast
qed

text \<open>
  The protection task runs inside the call of its accessor, the logger holds the mutex and is
  ready, and so is the control task.
\<close>

lemma contended_reachable:
  "\<exists>a c w L ns. app_reachable True (a, c, w) \<and> thread (kern a) c protection_tcb NoCall \<and>
     w protection_tcb = At (Protection Protection_Note) \<and> in_section (w logger_tcb) \<and>
     mutex_owner (mutexes (kern a) g_status_mutex) = Some logger_tcb \<and>
     states {control_tcb, logger_tcb, idle_tcb} protection_tcb (kern a) \<and>
     sched_inv True {} (live_heads w) app_nodes L (kern a) \<and>
     top_ready L 3 \<and> L (ReadyList 3) = Link control_tcb # ns"
proof -
  let ?p = protection_tcb and ?R = "{control_tcb, logger_tcb, idle_tcb}"
  obtain a c w where r: "app_reachable True (a, c, w)" and st: "states ?R ?p (kern a)"
    and own: "mutex_owner (mutexes (kern a) g_status_mutex) = Some logger_tcb" "in_section (w logger_tcb)"
    and c: "w ?p = At (Protection Protection_Take)" "c ?p = InTake g_fault_semaphore"
    using logger_preempted by blast
  have N: "Link ?p \<in> app_nodes" "Link control_tcb \<in> app_nodes" by (simp_all add: app_nodes_def)
  have th: "thread (kern a) c ?p (InTake g_fault_semaphore)" using st N(1) c by (simp add: thread_def states_def app_ids)
  note I = app_invD [OF app_reachable_inv(1) [OF r]] and T = threadD [OF th]
  have "unhurried (kern a) ?p" using I(4) c(2) unfolding waits_ok_def by auto
  then obtain k where k: "nimble_semaphore_take_resume g_fault_semaphore ?p (kern a) = (NIMBLE_OK, k)"
    using take_resume_calm(4) [OF I(1) th, of g_fault_semaphore]
    by (cases "nimble_semaphore_take_resume g_fault_semaphore ?p (kern a)") auto
  obtain L where i: "sched_inv True {} (live_heads w) app_nodes L (kern a)" using I(1) by (rule sys_invE)
  have i': "sched_inv True {} (live_heads w) app_nodes L k" and f: "k = (kern a)\<lparr>heap := heap k\<rparr>"
    using take_resume_inv [OF i N(1) T(2), of g_fault_semaphore] k by auto
  let ?w = "w(?p := At (Protection Protection_Note))" and ?c = "c(?p := NoCall)"
  have "plain_resume ?p (Protection Protection_Take) a = Some (Returns (Protection Protection_Note), a\<lparr>kern := k\<rparr>)"
    using k by (simp add: at_place_def protection_taken_def)
  then have "app_task True ?p (a, c, w) (a\<lparr>kern := k\<rparr>, ?c, move (Returns (Protection Protection_Note)) ?p w)"
    using th c(1) by (intro app_task.plain_resume [where p = "Protection Protection_Take"]) simp_all
  then have r': "app_reachable True (a\<lparr>kern := k\<rparr>, ?c, ?w)" using reachable_task [OF r] by simp
  have st': "states ?R ?p k" using st unfolding states_def by (subst (1 2 3) f) simp
  have "app_prio x < app_prio control_tcb" if "x \<in> ?R" "x \<noteq> control_tcb" for x
    using that by (auto simp: app_prio_def app_ids)
  moreover have "app_prio control_tcb = 3" "control_tcb \<noteq> ?p" by (simp_all add: app_prio_def app_ids)
  ultimately obtain ns where "top_ready L 3" "L (ReadyList 3) = Link control_tcb # ns"
    using states_top [OF i' st' _ N(2)] by auto
  moreover have "live_heads ?w = live_heads w" using c(1) by (intro live_heads_cong) (simp add: uart_stage_def app_ids)
  moreover have "thread k ?c ?p NoCall" using st' N(1) by (simp add: thread_def states_def app_ids)
  moreover have "in_section (?w logger_tcb)" using own(2) by (simp add: app_ids)
  moreover have "mutex_owner (mutexes k g_status_mutex) = Some logger_tcb" using own(1) by (subst f) simp
  ultimately show ?thesis
    using r' i' st' by (intro exI [of _ "a\<lparr>kern := k\<rparr>"] exI [of _ ?c] exI [of _ ?w] exI [of _ L] exI [of _ ns]) simp
qed

end
