(* ===== verification/Inheritance_Properties.thy ===== *)
theory Inheritance_Properties
  imports App_Scenario
begin

text \<open>
  What priority inheritance gives: runs in which it is exact and harmless, and the case it is made
  for, in which it has no effect. What a task of the application that waits for the status mutex
  waits for.
\<close>

section \<open>Disciplined runs\<close>

lemma inherited_priority:
  assumes J: "inherit_inv H N L s" and t: "Link t \<in> N"
  shows "unat (task_priority s t) = Max (level s ` {x. lends H L s x t})"
proof (rule sym, rule Max_eqI)
  have "level s ` {x. lends H L s x t} \<subseteq> {..unat (task_priority s t)}"
    using inherit_invD(2) [OF J t] by auto
  then show "finite (level s ` {x. lends H L s x t})" by (rule finite_subset) simp
  show "unat (task_priority s t) \<in> level s ` {x. lends H L s x t}"
    using inherit_invD(1) [OF J t] by (metis (mono_tags) imageI mem_Collect_eq)
qed (use inherit_invD(2) [OF J t] in auto)

text \<open>
  C5. Priority inheritance, where it works: in a system that starts with every task at its own
  priority and no mutex owned, as long as tasks keep the discipline (one mutex at a time, an owner
  never blocks, no timeout on a lock, and no task at all is suspended), every task runs at exactly the
  maximum of its own base priority and those of the tasks that wait for its mutex, in whatever
  order whole handlers, boosts, handoffs and other calls happen; the waiters of a mutex stay in the
  order of their priorities, and the context switch, the tick and every call return, although a
  boost leaves bits of the ready bitmap behind. Suspending any task is excluded, because
  \<^verbatim>\<open>nimble_task_suspend\<close> of the running task leaves its bit to the next context switch, which could
  then read a bit that a boost left behind.
\<close>

theorem inheritance_exact:
  assumes inv: "sys_inv True H N (s, c)" and free: "\<And>m. MutexWaiters m \<in> H \<Longrightarrow> mutex_owner (mutexes s m) = None"
    and base: "\<And>t. Link t \<in> N \<Longrightarrow> tcb_base_priority (tcbs s t) = task_priority s t"
    and q: "\<And>q. QueueReceivers q \<in> H \<longleftrightarrow> QueueSenders q \<in> H"
    and run: "disciplined_run False H N (s, c) (s', c')"
  shows "PendSV_Handler s' \<noteq> None \<and> calls_return H N s' c' \<and>
    (\<exists>L. sched_inv False {} H N L s' \<and>
      (\<forall>t. Link t \<in> N \<longrightarrow> unat (task_priority s' t) = Max (level s' ` {x. lends H L s' x t})) \<and>
      (\<forall>m ts. MutexWaiters m \<in> H \<longrightarrow> L (MutexWaiters m) = map EventLink ts \<longrightarrow> prio_sorted (task_priority s') ts))"
proof -
  have "inherits H N s" by (rule unboosted_inherits [OF inv free base])
  then have R: "sys_inv False H N (s', c')" "inherits H N s'"
    using run_inherits [OF run] sys_inv_weaken [OF inv] by simp_all
  then obtain L where i: "sched_inv False {} H N L s'" and J: "inherit_inv H N L s'" by (auto simp: inherits_def)
  show ?thesis
    using switch_inherits [OF R] sys_inv_calls_return [OF R(1) q] i inherited_priority [OF J] inherit_invD(5) [OF J] by blast
qed

text \<open>The protection task of the booted application locks the status mutex.\<close>

theorem inheritance_exact_witness:
  "\<exists>s' c'. disciplined_run False app_heads app_nodes (kern booted, \<lambda>_. NoCall) (s', c') \<and>
     mutex_owner (mutexes s' g_status_mutex) = Some protection_tcb \<and> PendSV_Handler s' \<noteq> None"
proof -
  let ?s = "kern booted" and ?c = "\<lambda>_. NoCall" and ?m = g_status_mutex
  have m: "MutexWaiters k \<in> app_heads \<longleftrightarrow> k = ?m" for k using live_mutex [of k entry] by (simp add: live_entry)
  have free: "mutex_owner (mutexes ?s k) = None" if "MutexWaiters k \<in> app_heads" for k using that by (simp add: m booted_inv)
  note base = booted_inv(14)
  note T = threadD [OF booted_inv(2)]
  have states: "task_state ?s t \<noteq> NIMBLE_TASK_SUSPENDED" if "Link t \<in> app_nodes" for t
  proof (cases "t = protection_tcb")
    case False
    have "Link t \<in> set ((delist (Link protection_tcb) app_lists) (ReadyList p)) \<Longrightarrow> p < 32 \<Longrightarrow> task_state ?s t = NIMBLE_TASK_READY" for p
      using sched_inv_tasks [OF booted_inv(3)] unfolding tasks_inv_def by blast
    from this [of 0] this [of 1] this [of 2] this [of 3] show ?thesis
      using that False by (auto simp: app_nodes_def app_lists_def app_ids)
  qed (use T in simp)
  let ?s' = "?s\<lparr>mutexes := (mutexes ?s)(?m := (mutexes ?s ?m)\<lparr>mutex_owner := Some protection_tcb, mutex_lock_count := 1\<rparr>)\<rparr>"
  have l: "nimble_mutex_lock ?m NIMBLE_WAIT_FOREVER ?s = Some (Returns NIMBLE_OK, ?s')"
    using lock_free [OF free [of ?m], of NIMBLE_WAIT_FOREVER] m T(1) by simp
  have "sys_step False app_heads app_nodes (?s, ?c) (?s', after_call (Returns NIMBLE_OK) protection_tcb (InLock ?m) ?c)"
    by (rule sys_step.lock [OF booted_inv(2) _ _ l]) (simp_all add: m may_boost_def)
  moreover have "disciplined app_heads app_nodes (?s', ?c)"
    unfolding disciplined_def using states T booted_inv(8) by (auto simp: m can_run_def app_nodes_def)
  ultimately have r: "disciplined_run False app_heads app_nodes (?s, ?c) (?s', ?c)"
    using disciplined_run.step [OF disciplined_run.start] by simp
  have q: "QueueReceivers q \<in> app_heads \<longleftrightarrow> QueueSenders q \<in> app_heads" for q by (auto simp: app_heads_def boot_heads_def)
  from inheritance_exact [OF booted_inv(1) free base q r] r show ?thesis by auto
qed

section \<open>Priority inversion\<close>

text \<open>
  C37. The case priority inheritance is made for: a task of high priority waits for a mutex whose
  owner of low priority is ready, and a task of medium priority is ready as well. The lock raises
  the owner's priority above that of the medium task but leaves the owner on its old ready list,
  and the context switch goes by the lists: the medium task runs before the owner that is now
  more urgent. (\<^verbatim>\<open>docs/PRIORITY_INHERITANCE.md\<close> says of this case that the medium task cannot run.)
\<close>

theorem priority_inversion:
  assumes inv: "sched_inv True {} H N L s" and cur: "nimble_current_tcb s = Some t"
    and run: "task_state s t = NIMBLE_TASK_RUNNING" and m: "MutexWaiters m \<in> H"
    and own: "mutex_owner (mutexes s m) = Some w" "task_state s w = NIMBLE_TASK_READY"
    and top: "top_ready L p" "L (ReadyList p) = Link n # ns"
    and mid: "unat (task_priority s w) < p" "p < unat (task_priority s t)" and to: "timeout \<noteq> NIMBLE_NO_WAIT"
  shows "\<exists>s1 s2. nimble_mutex_lock m timeout s = Some (Blocks, s1) \<and>
     task_state s1 w = NIMBLE_TASK_READY \<and> task_priority s1 w = task_priority s t \<and>
     task_priority s1 n < task_priority s1 w \<and>
     PendSV_Handler s1 = Some s2 \<and> nimble_current_tcb s2 = Some n \<and> task_state s2 n = NIMBLE_TASK_RUNNING"
proof -
  have wt: "w \<noteq> t" using own(2) run by auto
  have low: "task_priority s w < task_priority s t" using mid by (simp add: word_less_nat_alt)
  have p: "p < 32" using top(1) by (simp add: top_ready_def)
  have on: "task_state s x = NIMBLE_TASK_READY \<and> unat (task_priority s x) = p" if "Link x \<in> set (L (ReadyList p))" for x
    using sched_inv_tasks [OF inv] p that unfolding tasks_inv_def by blast
  have n: "n \<noteq> t" "unat (task_priority s n) = p" "n \<noteq> w" using on [of n] top(2) mid run by auto
  obtain s1 L1 where s1: "nimble_mutex_lock m timeout s = Some (Blocks, s1)" and i1: "sched_inv False {} H N L1 s1"
    and c1: "nimble_current_tcb s1 = Some t" "task_state s1 t = NIMBLE_TASK_BLOCKED"
     "\<And>x. task_priority s1 x = (if x = w then task_priority s t else task_priority s x)"
     "task_state s1 w = task_state s w"
    and ls: "\<And>p n ns. L (ReadyList p) = Link n # ns \<Longrightarrow> L1 (ReadyList p) = removeAll (Link t) (Link n # ns)"
    and b: "\<And>p. p < 32 \<Longrightarrow> p \<noteq> unat (task_priority s t) \<Longrightarrow> L (ReadyList p) \<noteq> [] \<Longrightarrow> bit (ready_bitmap s1) p"
     "\<And>p. bit (ready_bitmap s1) p \<Longrightarrow> p < 32 \<and> L (ReadyList p) \<noteq> []"
    by (rule boosts_ready_owner [OF inv cur run m own(1) wt low to]) blast
  have b1: "bit (ready_bitmap s1) p" "\<And>i. bit (ready_bitmap s1) i \<Longrightarrow> i \<le> p"
    using b(1) [OF p] b(2) mid(2) top by (auto simp: top_ready_def not_le [symmetric])
  have L1: "L1 (ReadyList p) = Link n # removeAll (Link t) ns" using ls [OF top(2)] n(1) by simp
  obtain s2 where s2: "PendSV_Handler s1 = Some s2" "nimble_current_tcb s2 = Some n" "task_state s2 n = NIMBLE_TASK_RUNNING"
    using switch_from_blocked(2) [OF i1 c1(1,2) p b1 L1] by blast
  have "task_priority s1 n < task_priority s1 w" using c1(3) n mid(2) by (simp add: word_less_nat_alt)
  then show ?thesis using s1 s2 c1 own(2) by auto
qed

text \<open>
  The application gets there from reset: the protection task wants to note a fault while the logger
  copies the status, and the control task runs first.
\<close>

theorem priority_inversion_witness:
  "\<exists>a c w s1 s2. app_reachable True (a, c, w) \<and> w protection_tcb = At (Protection Protection_Note) \<and>
     in_section (w logger_tcb) \<and> nimble_current_tcb (kern a) = Some protection_tcb \<and>
     nimble_mutex_lock g_status_mutex NIMBLE_WAIT_FOREVER (kern a) = Some (Blocks, s1) \<and>
     task_priority s1 control_tcb < task_priority s1 logger_tcb \<and>
     PendSV_Handler s1 = Some s2 \<and> nimble_current_tcb s2 = Some control_tcb"
proof -
  obtain a c w L ns where r: "app_reachable True (a, c, w)" "w protection_tcb = At (Protection Protection_Note)" "in_section (w logger_tcb)"
    and th: "thread (kern a) c protection_tcb NoCall" and own: "mutex_owner (mutexes (kern a) g_status_mutex) = Some logger_tcb"
    and st: "states {control_tcb, logger_tcb, idle_tcb} protection_tcb (kern a)"
    and i: "sched_inv True {} (live_heads w) app_nodes L (kern a)"
    and top: "top_ready L 3" "L (ReadyList 3) = Link control_tcb # ns"
    using contended_reachable by blast
  have lg: "task_state (kern a) logger_tcb = NIMBLE_TASK_READY"
    and pr: "unat (task_priority (kern a) logger_tcb) = 1" "unat (task_priority (kern a) protection_tcb) = 4"
    using st by (auto simp: states_def app_nodes_def app_prio_def app_ids)
  have "unat (task_priority (kern a) logger_tcb) < 3" "3 < unat (task_priority (kern a) protection_tcb)"
    "NIMBLE_WAIT_FOREVER \<noteq> NIMBLE_NO_WAIT"
    using pr by (simp_all add: kdefs)
  from priority_inversion [OF i threadD(1,2) [OF th] live_heads_mem(1) own lg top this] r threadD(1) [OF th]
  show ?thesis by blast
qed

section \<open>Waiting for the status mutex\<close>

text \<open>How many steps of its own a task inside an accessor is away from releasing the mutex.\<close>

fun to_release :: "stage \<Rightarrow> nat" where
  "to_release (At p) = 3"
| "to_release (Locked p) = 2"
| "to_release (Accessed p status) = 1"

lemma other_stage:
  assumes "app_task b t (a, c, w) (a', c', w')" "u \<noteq> t"
  shows "w' u = w u"
  using assms(1)
proof (cases rule: app_task.cases)
  case (lock p r k)
  then show ?thesis using assms(2) by (cases r) simp_all
qed (use assms(2) move_other in auto)

lemma owner_step:
  assumes inv: "app_inv b (a, c, w)" and own: "mutex_owner (mutexes (kern a) g_status_mutex) = Some u"
    and step: "app_task b u (a, c, w) (a', c', w')" and own': "mutex_owner (mutexes (kern a') g_status_mutex) = Some u"
  shows "to_release (w' u) < to_release (w u)"
proof -
  note I = app_invD [OF inv] and H = live_heads_mem(1) [of w]
  have sec: "in_section (w u) \<or> c u = InLock g_status_mutex" "mutex_lock_count (mutexes (kern a) g_status_mutex) = 1"
    using I(3) own by (simp_all add: sections_ok_def)
  have no: False if "thread (kern a) c u NoCall" "w u = At p" for p
    using sec(1) threadD(3) [OF that(1)] that(2) by simp
  from step show ?thesis
  proof (cases rule: app_task.cases)
    case (plain_resume p r)
    have "call_of p = InLock g_status_mutex" using sec(1) threadD(3) [OF plain_resume(3)] plain_resume(5) by auto
    then show ?thesis using plain_resume(6) section_of_call by blast
  next
    case (unlock p status r k p')
    have ins: "in_section (w u)" using unlock(4) by simp
    then have "call_of p = InLock g_status_mutex" using I(2) unlock(4) unfolding stages_ok_def by (metis place_in.simps(3))
    note A = after_section_ok [OF unlock(6) this]
    have "mutex_owner (mutexes k g_status_mutex) \<noteq> Some u"
      using unlock_outcome(2) [OF I(1) unlock(3) H own sec(2) unlock(5)] by auto
    then show ?thesis using own' A by simp
  qed (use no in auto)
qed

text \<open>
  C9. A wait for the status mutex is not a deadlock: in every state the application reaches from
  reset, a task on the wait list of the mutex waits for another task that can run and is at most
  three steps of its own away from the unlock; a step of the owner that does not release the mutex
  brings it closer, and nothing that happens in between sets it back. (The states are those of
  \<open>status_exclusive\<close>.)
\<close>

theorem status_wait_ends:
  assumes r: "app_reachable b (a, c, w)" and i: "sched_inv False {} (live_heads w) app_nodes L (kern a)"
    and t: "EventLink t \<in> set (L (MutexWaiters g_status_mutex))"
  shows "\<exists>u. mutex_owner (mutexes (kern a) g_status_mutex) = Some u \<and> u \<noteq> t \<and> can_run app_nodes (kern a) u \<and>
     to_release (w u) \<le> 3 \<and>
     (\<forall>a' c' w'. app_step b (a, c, w) (a', c', w') \<longrightarrow> mutex_owner (mutexes (kern a') g_status_mutex) = Some u \<longrightarrow>
        (if app_task b u (a, c, w) (a', c', w') then to_release (w' u) < to_release (w u) else w' u = w u))"
proof -
  have inv: "app_inv b (a, c, w)" by (rule app_reachable_inv(1) [OF r])
  note I = app_invD [OF inv] and H = live_heads_mem(1) [of w]
  have "inherits (live_heads w) app_nodes (kern a)" using app_reachable_inv(2) [OF r] by (simp add: app_inherits_def)
  note J = inheritsD [OF this i]
  obtain L' where i': "sched_inv b {} (live_heads w) app_nodes L' (kern a)" and o: "objs_inv (live_heads w) app_nodes L' c (kern a)"
    using I(1) by (rule sys_invE)
  have "L' (MutexWaiters g_status_mutex) \<noteq> []"
    using t repr_unique [OF sched_inv_repr [OF i] sched_inv_repr [OF i'] H] by auto
  then obtain u where u: "mutex_owner (mutexes (kern a) g_status_mutex) = Some u"
    using objs_invD(2) [OF o] H by (auto simp: mutex_inv_def)
  have run: "can_run app_nodes (kern a) u" by (rule inherit_invD(3) [OF J H u])
  have "u \<noteq> t" using waiter_blocked(1) [OF i H t] run by (auto simp: can_run_def)
  moreover have "to_release (w u) \<le> 3" by (cases "w u") simp_all
  moreover have "if app_task b u (a, c, w) (a', c', w') then to_release (w' u) < to_release (w u) else w' u = w u"
    if step: "app_step b (a, c, w) (a', c', w')" and own': "mutex_owner (mutexes (kern a') g_status_mutex) = Some u" for a' c' w'
  proof (cases "app_task b u (a, c, w) (a', c', w')")
    case True
    then show ?thesis using owner_step [OF inv u True own'] by simp
  next
    case False
    then have "w' u = w u" using step other_stage unfolding app_step_def by (auto elim: app_irq.cases) metis
    then show ?thesis using False by simp
  qed
  ultimately show ?thesis using u run by blast
qed

text \<open>The protection task waits for the logger.\<close>

lemma task_weaken: "app_task True t x y \<Longrightarrow> app_task False t x y"
  by (induction rule: app_task.induct) (auto intro: app_task.intros simp: may_boost_def)

lemma reachable_weaken:
  assumes "app_reachable True x"
  shows "app_reachable False x"
proof -
  have "app_step True \<le> app_step False" unfolding le_fun_def le_bool_def app_step_def using task_weaken by blast
  then show ?thesis using assms rtranclp_mono unfolding app_reachable_def by blast
qed

theorem status_wait_ends_witness:
  "\<exists>a c w. app_reachable False (a, c, w) \<and> c protection_tcb = InLock g_status_mutex \<and>
     task_state (kern a) protection_tcb = NIMBLE_TASK_BLOCKED \<and>
     mutex_owner (mutexes (kern a) g_status_mutex) = Some logger_tcb \<and> can_run app_nodes (kern a) logger_tcb"
proof -
  let ?m = g_status_mutex and ?p = protection_tcb
  obtain a c w L where r: "app_reachable True (a, c, w)" and wp: "w ?p = At (Protection Protection_Note)"
    and th: "thread (kern a) c ?p NoCall" and own: "mutex_owner (mutexes (kern a) ?m) = Some logger_tcb"
    and i: "sched_inv True {} (live_heads w) app_nodes L (kern a)"
    using contended_reachable by blast
  note T = threadD [OF th] and H = live_heads_mem(1) [of w]
  obtain ts where ts: "L (MutexWaiters ?m) = map EventLink ts" using wait_links [OF sched_inv_shape [OF i] H] by auto
  have ne: "logger_tcb \<noteq> ?p" "NIMBLE_WAIT_FOREVER \<noteq> NIMBLE_NO_WAIT" by (simp_all add: app_ids kdefs)
  let ?B = "boost logger_tcb (task_priority (kern a) ?p) (kern a)"
  let ?L = "block_lists ?p NIMBLE_WAIT_FOREVER (L(MutexWaiters ?m := map EventLink (prio_insert (task_priority ?B) ?p ts)))"
  obtain k where k: "nimble_mutex_lock ?m NIMBLE_WAIT_FOREVER (kern a) = Some (Blocks, k)"
    and i': "sched_inv False {} (live_heads w) app_nodes ?L k"
    using lock_blocks [OF i T(1,2) H ts own ne] sched_inv_weaken by blast
  have "app_task False ?p (a, c, w) (a\<lparr>kern := k\<rparr>, after_call (Blocks :: nimble_status_t call_result) ?p (InLock ?m) c, w)"
    using app_task.lock [where w = w and a = a and p = "Protection Protection_Note" and b = False, OF th wp _ _ k]
    by (simp add: may_boost_def)
  then have r': "app_reachable False (a\<lparr>kern := k\<rparr>, c(?p := InLock ?m), w)"
    using reachable_task [OF reachable_weaken [OF r]] by simp
  have mem: "EventLink ?p \<in> set (?L (MutexWaiters ?m))" by (simp add: block_lists_def)
  have "mutexes k = mutexes (kern a)"
    using lock_outcome(2) [OF app_invD(1) [OF app_reachable_inv(1) [OF r]] th H _ k] own ne(1) by simp
  then have "mutex_owner (mutexes k ?m) = Some logger_tcb" using own by simp
  moreover have "task_state k ?p = NIMBLE_TASK_BLOCKED" by (rule waiter_blocked(1) [OF i' H mem])
  ultimately show ?thesis
    using status_wait_ends [OF r', of ?L ?p] i' mem r' by (intro exI [of _ "a\<lparr>kern := k\<rparr>"] exI [of _ "c(?p := InLock ?m)"] exI [of _ w]) auto
qed

end
