(* ===== verification/Startup.thy ===== *)
theory Startup
  imports Kernel_State
begin

text \<open>
  \<^verbatim>\<open>Reset_Handler\<close> of the startup file: the copy of \<^verbatim>\<open>.data\<close> from flash, the clearing of
  \<^verbatim>\<open>.bss\<close>, and the vector table. Memory is a map from addresses to words, the registers of the
  loops are the arguments of the recursive functions; the symbols come from the linker script.
\<close>

section \<open>Reset\<close>

type_synonym memory = "addr \<Rightarrow> u32"

record link_symbols =
  sym_sidata :: addr
  sym_sdata :: addr
  sym_edata :: addr
  sym_sbss :: addr
  sym_ebss :: addr

text \<open>From the label of the check: \<^verbatim>\<open>r3\<close> is the offset, the branch is taken while carry is clear.\<close>

partial_function (option) copy_data_loop_check :: "link_symbols \<Rightarrow> u32 \<Rightarrow> memory \<Rightarrow> memory option" where
  "copy_data_loop_check y r3 m =
     (if sym_sdata y + r3 < sym_edata y
      then let r4 = m (sym_sidata y + r3)
           in copy_data_loop_check y (r3 + 4) (m(sym_sdata y + r3 := r4))
      else Some m)"

partial_function (option) zero_bss_loop_check :: "link_symbols \<Rightarrow> u32 \<Rightarrow> memory \<Rightarrow> memory option" where
  "zero_bss_loop_check y r2 m =
     (if r2 < sym_ebss y then zero_bss_loop_check y (r2 + 4) (m(r2 := 0)) else Some m)"

text \<open>The memory with which \<^verbatim>\<open>main\<close> is called.\<close>

definition Reset_Handler :: "link_symbols \<Rightarrow> memory \<Rightarrow> memory option" where
  "Reset_Handler y m = do { m \<leftarrow> copy_data_loop_check y 0 m; zero_bss_loop_check y (sym_sbss y) m }"

section \<open>The vector table\<close>

text \<open>The words of \<^verbatim>\<open>g_pfnVectors\<close> by their symbols; a reserved word is the empty name.\<close>

definition g_pfnVectors :: "string list" where
  "g_pfnVectors =
    [''_estack'', ''Reset_Handler'', ''NMI_Handler'', ''HardFault_Handler'', ''MemManage_Handler'',
     ''BusFault_Handler'', ''UsageFault_Handler'', [], [], [], [], ''SVC_Handler'', ''DebugMon_Handler'',
     [], ''PendSV_Handler'', ''SysTick_Handler'', ''WWDG_IRQHandler'', ''PVD_IRQHandler'',
     ''TAMP_STAMP_IRQHandler'', ''RTC_WKUP_IRQHandler'', ''FLASH_IRQHandler'', ''RCC_IRQHandler'',
     ''EXTI0_IRQHandler'', ''EXTI1_IRQHandler'', ''EXTI2_IRQHandler'', ''EXTI3_IRQHandler'',
     ''EXTI4_IRQHandler'', ''DMA1_Stream0_IRQHandler'', ''DMA1_Stream1_IRQHandler'',
     ''DMA1_Stream2_IRQHandler'', ''DMA1_Stream3_IRQHandler'', ''DMA1_Stream4_IRQHandler'',
     ''DMA1_Stream5_IRQHandler'', ''DMA1_Stream6_IRQHandler'', ''ADC_IRQHandler'',
     ''CAN1_TX_IRQHandler'', ''CAN1_RX0_IRQHandler'', ''CAN1_RX1_IRQHandler'', ''CAN1_SCE_IRQHandler'',
     ''EXTI9_5_IRQHandler'', ''TIM1_BRK_TIM9_IRQHandler'', ''TIM1_UP_TIM10_IRQHandler'',
     ''TIM1_TRG_COM_TIM11_IRQHandler'', ''TIM1_CC_IRQHandler'', ''TIM2_IRQHandler'', ''TIM3_IRQHandler'',
     ''TIM4_IRQHandler'', ''I2C1_EV_IRQHandler'', ''I2C1_ER_IRQHandler'', ''I2C2_EV_IRQHandler'',
     ''I2C2_ER_IRQHandler'', ''SPI1_IRQHandler'', ''SPI2_IRQHandler'', ''USART1_IRQHandler'',
     ''USART2_IRQHandler'', ''USART3_IRQHandler'', ''EXTI15_10_IRQHandler'', ''RTC_Alarm_IRQHandler'',
     ''OTG_FS_WKUP_IRQHandler'', ''TIM8_BRK_TIM12_IRQHandler'', ''TIM8_UP_TIM13_IRQHandler'',
     ''TIM8_TRG_COM_TIM14_IRQHandler'', ''TIM8_CC_IRQHandler'', ''DMA1_Stream7_IRQHandler'',
     ''FSMC_IRQHandler'', ''SDIO_IRQHandler'', ''TIM5_IRQHandler'', ''SPI3_IRQHandler'',
     ''UART4_IRQHandler'', ''UART5_IRQHandler'', ''TIM6_DAC_IRQHandler'', ''TIM7_IRQHandler'',
     ''DMA2_Stream0_IRQHandler'', ''DMA2_Stream1_IRQHandler'', ''DMA2_Stream2_IRQHandler'',
     ''DMA2_Stream3_IRQHandler'', ''DMA2_Stream4_IRQHandler'', ''ETH_IRQHandler'',
     ''ETH_WKUP_IRQHandler'', ''CAN2_TX_IRQHandler'', ''CAN2_RX0_IRQHandler'', ''CAN2_RX1_IRQHandler'',
     ''CAN2_SCE_IRQHandler'', ''OTG_FS_IRQHandler'', ''DMA2_Stream5_IRQHandler'',
     ''DMA2_Stream6_IRQHandler'', ''DMA2_Stream7_IRQHandler'', ''USART6_IRQHandler'',
     ''I2C3_EV_IRQHandler'', ''I2C3_ER_IRQHandler'', ''OTG_HS_EP1_OUT_IRQHandler'',
     ''OTG_HS_EP1_IN_IRQHandler'', ''OTG_HS_WKUP_IRQHandler'', ''OTG_HS_IRQHandler'',
     ''DCMI_IRQHandler'', ''CRYP_IRQHandler'', ''HASH_RNG_IRQHandler'', ''FPU_IRQHandler'']"

section \<open>Word addresses of a region\<close>

definition word_at :: "addr \<Rightarrow> nat \<Rightarrow> addr" where
  "word_at base k = base + 4 * word_of_nat k"

text \<open>A region of \<open>n\<close> words from \<open>base\<close> to \<open>limit\<close>.\<close>

definition region :: "addr \<Rightarrow> addr \<Rightarrow> nat \<Rightarrow> bool" where
  "region base limit n \<longleftrightarrow> unat limit = unat base + 4 * n"

lemma region_word:
  assumes "region base limit n" "k \<le> n"
  shows "unat (word_at base k) = unat base + 4 * k"
proof -
  have "unat limit < 2 ^ 32" using unsigned_less [of limit, where ?'a = nat] by simp
  then have "unat base + 4 * k < 2 ^ 32" using assms by (simp add: region_def)
  moreover have "unat (word_at base k) = (unat base + 4 * k) mod 2 ^ 32"
    by (simp add: word_at_def unat_word_ariths unat_of_nat mod_simps)
  ultimately show ?thesis by simp
qed

lemma region_inside:
  assumes "region base limit n" "k \<le> n"
  shows "word_at base k < limit \<longleftrightarrow> k < n"
  using region_word [OF assms] assms by (simp add: word_less_nat_alt region_def)

lemma region_inj:
  assumes "region base limit n" "j \<le> n" "k \<le> n" "word_at base j = word_at base k"
  shows "j = k"
  using arg_cong [OF assms(4), of unat] region_word [OF assms(1,2)] region_word [OF assms(1,3)] by linarith

lemma word_at_Suc: "word_at base (Suc k) = word_at base k + 4"
  by (simp add: word_at_def algebra_simps)

section \<open>The loops\<close>

lemma zero_bss_returns:
  assumes r: "region base (sym_ebss y) n" and k: "k \<le> n"
  shows "zero_bss_loop_check y (word_at base k) m =
     Some (\<lambda>a. if a \<in> word_at base ` {k..<n} then 0 else m a)"
  using k
proof (induction "n - k" arbitrary: k m)
  case 0
  then have "k = n" by simp
  then show ?case using region_inside [OF r, of n] by (subst zero_bss_loop_check.simps) simp
next
  case (Suc d)
  then have k: "k < n" by simp
  let ?m = "m(word_at base k := 0)"
  have "zero_bss_loop_check y (word_at base (Suc k)) ?m =
      Some (\<lambda>a. if a \<in> word_at base ` {Suc k..<n} then 0 else ?m a)"
    using Suc k by (intro Suc.hyps) simp_all
  moreover have "word_at base ` {k..<n} = insert (word_at base k) (word_at base ` {Suc k..<n})"
  proof -
    have "{k..<n} = insert k {Suc k..<n}" using k by auto
    then show ?thesis by simp
  qed
  moreover have "zero_bss_loop_check y (word_at base k) m = zero_bss_loop_check y (word_at base (Suc k)) ?m"
    using region_inside [OF r, of k] k by (subst zero_bss_loop_check.simps) (simp add: word_at_Suc)
  ultimately show ?case by (auto simp: fun_eq_iff)
qed

text \<open>What the copy leaves in memory: the image as it was at the start.\<close>

definition copied :: "link_symbols \<Rightarrow> nat \<Rightarrow> memory \<Rightarrow> memory \<Rightarrow> bool" where
  "copied y n m m' \<longleftrightarrow>
     (\<forall>i<n. m' (word_at (sym_sdata y) i) = m (word_at (sym_sidata y) i)) \<and>
     (\<forall>a. a \<notin> word_at (sym_sdata y) ` {0..<n} \<longrightarrow> m' a = m a)"

lemma copy_data_returns:
  assumes r: "region (sym_sdata y) (sym_edata y) n" and k: "k \<le> n"
    and apart: "\<And>i j. i < n \<Longrightarrow> j < n \<Longrightarrow> word_at (sym_sidata y) i \<noteq> word_at (sym_sdata y) j"
    and m: "copied y k m0 m"
  shows "\<exists>m'. copy_data_loop_check y (4 * word_of_nat k) m = Some m' \<and> copied y n m0 m'"
  using k m
proof (induction "n - k" arbitrary: k m)
  case 0
  then have "k = n" by simp
  then show ?case using 0 region_inside [OF r, of n]
    by (subst copy_data_loop_check.simps) (simp add: word_at_def)
next
  case (Suc d)
  then have k: "k < n" by simp
  let ?m = "m(word_at (sym_sdata y) k := m (word_at (sym_sidata y) k))"
  have step: "copy_data_loop_check y (4 * word_of_nat k) m = copy_data_loop_check y (4 * word_of_nat (Suc k)) ?m"
    using region_inside [OF r, of k] k
    by (subst copy_data_loop_check.simps) (simp add: word_at_def Let_def algebra_simps)
  have "word_at (sym_sidata y) k \<notin> word_at (sym_sdata y) ` {0..<k}" using apart k by force
  then have src: "m (word_at (sym_sidata y) k) = m0 (word_at (sym_sidata y) k)"
    using Suc.prems(2) unfolding copied_def by blast
  have "copied y (Suc k) m0 ?m"
    unfolding copied_def
  proof (intro conjI allI impI)
    fix i assume i: "i < Suc k"
    show "?m (word_at (sym_sdata y) i) = m0 (word_at (sym_sidata y) i)"
    proof (cases "i = k")
      case False
      then have "word_at (sym_sdata y) i \<noteq> word_at (sym_sdata y) k"
        using region_inj [OF r, of i k] i k by auto
      then show ?thesis using Suc.prems(2) i False unfolding copied_def by simp
    qed (simp add: src)
  next
    fix a assume "a \<notin> word_at (sym_sdata y) ` {0..<Suc k}"
    then have "a \<notin> word_at (sym_sdata y) ` {0..<k}" "a \<noteq> word_at (sym_sdata y) k" by auto
    then show "?m a = m0 a" using Suc.prems(2) unfolding copied_def by simp
  qed
  then show ?case unfolding step using Suc k by (intro Suc.hyps) simp_all
qed

section \<open>Property\<close>

text \<open>
  C36. Reset: with the regions the linker script lays out (whole words, the load image of
  \<^verbatim>\<open>.data\<close> apart from \<^verbatim>\<open>.data\<close>, \<^verbatim>\<open>.bss\<close> apart from \<^verbatim>\<open>.data\<close>) both loops end and
  \<^verbatim>\<open>main\<close> is called with every word of \<^verbatim>\<open>.data\<close> as in the image, every word of \<^verbatim>\<open>.bss\<close>
  zero and all other memory as it was. The handlers of the kernel and of the application are in the
  vector table at the numbers of their exceptions.
\<close>

theorem reset_initialises_memory:
  assumes data: "region (sym_sdata y) (sym_edata y) n" and bss: "region (sym_sbss y) (sym_ebss y) k"
    and image: "\<And>i j. i < n \<Longrightarrow> j < n \<Longrightarrow> word_at (sym_sidata y) i \<noteq> word_at (sym_sdata y) j"
    and apart: "\<And>i j. i < n \<Longrightarrow> j < k \<Longrightarrow> word_at (sym_sdata y) i \<noteq> word_at (sym_sbss y) j"
  shows "(\<exists>m'. Reset_Handler y m = Some m' \<and>
       (\<forall>i<n. m' (word_at (sym_sdata y) i) = m (word_at (sym_sidata y) i)) \<and>
       (\<forall>j<k. m' (word_at (sym_sbss y) j) = 0) \<and>
       (\<forall>a. a \<notin> word_at (sym_sdata y) ` {0..<n} \<longrightarrow> a \<notin> word_at (sym_sbss y) ` {0..<k} \<longrightarrow> m' a = m a)) \<and>
     g_pfnVectors ! 1 = ''Reset_Handler'' \<and> g_pfnVectors ! 11 = ''SVC_Handler'' \<and>
     g_pfnVectors ! 14 = ''PendSV_Handler'' \<and> g_pfnVectors ! 15 = ''SysTick_Handler'' \<and>
     g_pfnVectors ! (16 + 18) = ''ADC_IRQHandler'' \<and> g_pfnVectors ! (16 + 37) = ''USART1_IRQHandler''"
proof -
  have "copied y 0 m m" by (simp add: copied_def)
  from copy_data_returns [OF data _ image this] obtain m1 where
    m1: "copy_data_loop_check y 0 m = Some m1" "copied y n m m1" by auto
  let ?m = "\<lambda>a. if a \<in> word_at (sym_sbss y) ` {0..<k} then 0 else m1 a"
  have "zero_bss_loop_check y (sym_sbss y) m1 = Some ?m"
    using zero_bss_returns [OF bss, of 0 m1] by (simp add: word_at_def)
  then have "Reset_Handler y m = Some ?m" using m1(1) by (simp add: Reset_Handler_def)
  moreover have "?m (word_at (sym_sdata y) i) = m (word_at (sym_sidata y) i)" if "i < n" for i
  proof -
    have "word_at (sym_sdata y) i \<notin> word_at (sym_sbss y) ` {0..<k}" using apart [OF that] unfolding image_iff by (metis atLeastLessThan_iff)
    then show ?thesis using m1(2) that by (simp add: copied_def)
  qed
  moreover have "?m (word_at (sym_sbss y) j) = 0" if "j < k" for j using that by simp
  moreover have "?m a = m a" if "a \<notin> word_at (sym_sdata y) ` {0..<n}" "a \<notin> word_at (sym_sbss y) ` {0..<k}" for a
    using m1(2) that by (simp add: copied_def)
  ultimately show ?thesis by (intro conjI exI [of _ ?m]) (blast | simp add: g_pfnVectors_def)+
qed

theorem reset_initialises_memory_witness:
  "\<exists>m'. Reset_Handler \<lparr>sym_sidata = 0x08004000, sym_sdata = 0x20000000, sym_edata = 0x20000008,
      sym_sbss = 0x20000008, sym_ebss = 0x20000010\<rparr> (\<lambda>a. a) = Some m' \<and>
     m' 0x20000004 = 0x08004004 \<and> m' 0x20000008 = 0"
proof -
  let ?y = "\<lparr>sym_sidata = 0x08004000, sym_sdata = 0x20000000, sym_edata = 0x20000008,
      sym_sbss = 0x20000008, sym_ebss = 0x20000010\<rparr>"
  have r: "region (sym_sdata ?y) (sym_edata ?y) 2" "region (sym_sbss ?y) (sym_ebss ?y) 2"
    by (simp_all add: region_def)
  have a: "word_at (sym_sidata ?y) i \<noteq> word_at (sym_sdata ?y) j" "word_at (sym_sdata ?y) i \<noteq> word_at (sym_sbss ?y) j"
    if "i < 2" "j < 2" for i j
    using that by (auto simp: word_at_def less_2_cases_iff)
  obtain m' where m': "Reset_Handler ?y (\<lambda>a. a) = Some m'"
    "\<forall>i<2. m' (word_at (sym_sdata ?y) i) = word_at (sym_sidata ?y) i" "\<forall>j<2. m' (word_at (sym_sbss ?y) j) = 0"
    using reset_initialises_memory [OF r a, of "\<lambda>a. a"] by auto
  have "m' (word_at (sym_sdata ?y) 1) = word_at (sym_sidata ?y) 1" "m' (word_at (sym_sbss ?y) 0) = 0"
    using m'(2,3) by simp_all
  then show ?thesis using m'(1) by (simp add: word_at_def)
qed

end
