(* ===== verification/Spec2Isabelle.thy ===== *)
theory Spec2Isabelle
  imports App_Fault App_Safety Inheritance_Properties Startup
begin

text \<open>
  A verification development for nimbleRTOS, a preemptive real-time kernel for the Cortex-M4, and
  for the power supply application that comes with it.

  \<^bold>\<open>The program and how its parts interact.\<close> The kernel (\<^verbatim>\<open>kernel/\<close>) keeps every list it has
  on one intrusive doubly-linked list type: a ready list per priority with a bitmap of the
  non-empty ones, a list of delayed tasks, a wait list in every mutex, semaphore and queue, and the
  list of active timers. The synchronisation objects put the running task on a wait list and call
  the scheduler to block it; a wake moves the first waiter to its ready list and asks the port for a
  context switch. The port (\<^verbatim>\<open>port/\<close>) gives the tick and the context switch exceptions. A kernel
  call changes shared state in critical sections, which raise BASEPRI, and so does the tick; the context
  switch and the initialisation of objects raise nothing. The application (\<^verbatim>\<open>app/power_supply\<close>) has four
  tasks, two interrupt handlers, one mutex, one semaphore and two queues.

  \<^bold>\<open>What is modelled where.\<close>
  \<^item> \<open>Nimble_Prelude\<close>: the machine types, the collections \<open>kdefs\<close> (definitions that only
    name an update) and \<open>frame\<close> (which operation leaves which field alone), and generic lemmas.
  \<^item> \<open>Nimble_List\<close>: \<^verbatim>\<open>nimble_list.h\<close>, the C assignments on a heap of next and prev
    pointers; \<open>repr H N L h\<close> relates the heap to functional lists.
  \<^item> \<open>Kernel_State\<close>: \<^verbatim>\<open>nimble_types.h\<close>, \<^verbatim>\<open>nimble_config.h\<close>, the structs of the kernel
    headers as records, \<^verbatim>\<open>NIMBLE_CONTAINER_OF\<close>, all static variables as the record \<open>kernel\<close>,
    and \<^verbatim>\<open>nimble_port.h\<close>.
  \<^item> \<open>Scheduler\<close>: \<^verbatim>\<open>scheduler.c\<close>. \<open>Scheduler_Inv\<close> and \<open>Scheduler_Correct\<close> hold its
    invariant \<open>sched_inv\<close> and what each operation does to the lists.
  \<^item> \<open>Port\<close>: \<^verbatim>\<open>task_stack_init.c\<close>, \<^verbatim>\<open>context_switch.S\<close> and \<^verbatim>\<open>exception_handlers.c\<close>.
  \<^item> \<open>Task\<close> and \<open>Task_Correct\<close>: \<^verbatim>\<open>task.c\<close>, and the initialisation and start of the scheduler.
  \<^item> \<open>Wait_List\<close>: the three copies of \<^verbatim>\<open>insert_waiter_priority_sorted\<close> and the common part
    of the blocking calls. \<open>Mutex\<close>, \<open>Semaphore\<close>, \<open>Queue\<close>, \<open>Timer\<close>: the C files of
    the same names.
  \<^item> \<open>Example_System\<close>: a small system booted with the kernel's own calls.
    \<open>Kernel_Properties\<close>, \<open>Sync_Properties\<close>, \<open>Timer_Properties\<close> and \<open>Defects\<close>:
    the properties of the components.
  \<^item> \<open>Kernel_System\<close>, \<open>System_Steps\<close>: the kernel as a transition system of whole handlers and
    critical sections, and its invariant \<open>sys_inv\<close>. \<open>Preemption\<close>: the level below, where exceptions
    come between single accesses according to their priorities, the theorem \<open>preempt_serial\<close> that
    reduces it to whole handlers and sections when the exceptions share a priority, and a race in the
    context switch when they do not. \<open>System_Properties\<close>: what holds in every reachable state.
    \<open>Wait_Forever\<close> and \<open>Queue_Frames\<close>: what each call leaves of the tasks that wait without a
    timeout, and of the queues. \<open>Inheritance\<close> and \<open>Inheritance_Steps\<close>: the discipline under
    which priority inheritance is exact and leaves nothing that a context switch would read, as an
    invariant that every kernel call keeps; \<open>Inheritance_Properties\<close>: what follows, and the case
    in which inheritance has no effect, which \<open>App_Scenario\<close> reaches in a run of the application
    from reset, and that no wait for the status mutex is a deadlock.
  \<^item> \<open>Float32\<close>, \<open>Printf\<close>: the single-precision arithmetic and the formatted output the
    application uses. \<open>Board\<close>: \<^verbatim>\<open>system_stm32f4xx.c\<close> and \<^verbatim>\<open>stm32f4_regs.h\<close>.
    \<open>Startup\<close>: \<^verbatim>\<open>Reset_Handler\<close> and the vector table.
  \<^item> \<open>Power_Supply\<close>: all of \<^verbatim>\<open>app/power_supply\<close>. \<open>App_Boot\<close> (\<^verbatim>\<open>main.c\<close> on the
    real kernel), \<open>App_Interrupt\<close> (\<^verbatim>\<open>isr_bridge.c\<close>), \<open>App_Control\<close>, \<open>App_Comms\<close>,
    \<open>App_Fault\<close> and \<open>App_Reaction\<close> prove what its tasks do. \<open>App_System\<close> is the whole
    application as a transition system in which interrupts and context switches may come between
    any two steps of a task, with a section under the status mutex as three steps and the
    initialisation of the receive queue, which nothing protects, as one step per store;
    \<open>App_Invariant\<close> and \<open>App_Inheritance\<close> (the application keeps the discipline) are its
    invariant, \<open>App_Safety\<close> what follows from it, also for single accesses interleaved.

  \<^bold>\<open>How state and control are represented.\<close> Objects are named by pointers that are natural
  numbers; their list nodes and list heads are the constructors of \<open>node\<close>, so that
  \<^verbatim>\<open>&t->link\<close> is \<open>Link t\<close>. Machine integers keep their width. An operation returns
  \<open>None\<close> where the C code has no defined behaviour: an index out of range, \<^verbatim>\<open>__builtin_clz(0)\<close>,
  a list head taken for a task, an access outside a buffer, a division by zero, a call through
  \<^verbatim>\<open>NULL\<close>. Errors of the interface are values of \<open>nimble_status_t\<close>. A step of the
  transition systems is a whole exception handler or a whole critical section; starting or resetting a
  timer is several (the period, the list, the wake of the timer task). That handlers are whole is not
  BASEPRI's doing, since the context switch runs unmasked: it holds when every interrupt that
  uses the kernel has the priority that \<^verbatim>\<open>nimble_stm32f4_nvic_priority_init\<close> gives PendSV and SysTick,
  0xF0. The properties over single accesses have this as a hypothesis; \<open>context_switch_races\<close> shows that
  it is needed, the priorities 0x50 to 0xE0, which \<^verbatim>\<open>NIMBLE_KERNEL_SYSCALL_BASEPRI\<close> also admits, being
  too urgent. (The source leaves the ADC and USART1 interrupts at the reset priority 0, which no mask
  holds back: the hypothesis is one on the board's set-up.) \<^verbatim>\<open>main\<close> is not interrupted before it has
  started the scheduler, although SysTick is enabled first. A blocking call gives up the processor in its middle: it is split
  there, into a first half that returns or says \<open>Blocks\<close> (\<open>call_result\<close>), and a half of the
  same name with \<open>_resume\<close>, which runs when the task is switched in again. Endless task loops are
  given by the steps between two blocking calls. In theory \<open>Power_Supply\<close> an accessor of the
  shared status is one step when its lock does not block; theory \<open>App_System\<close> splits it, and shows
  that the two agree when nothing comes in between. The step relations have a parameter \<open>b\<close>: with
  it, no lock may boost a task that is on a ready list. The progress of the kernel as a whole is for
  runs with \<open>b\<close>, since a boost can make a later context switch undefined; the progress of the
  application, which keeps the discipline, and the properties of the disciplined kernel are not.

  \<^bold>\<open>Loops.\<close> No definition takes fuel. The list walks, which end only on well-formed heaps, the
  expiry loop and the two startup loops are \<open>partial_function (option)\<close>, and each has a lemma that
  it returns under the invariant (for the expiry loop, with the active timers in order and within \<open>2^30\<close>
  ticks of now, periods between 1 and \<open>2^30\<close>, and callbacks that leave no more firings behind than they
  found; a period of zero is shown to give no result). The name copy and the stack scan are \<open>function\<close>s with a measure.

  \<^bold>\<open>Interfaces.\<close> \<open>wait_list\<close> is what a blocking call relies on from an insertion routine; it
  is interpreted by each of the three copies. \<open>bounded_fifo\<close> is the contract of a bounded queue of
  items, interpreted by the ring buffer. \<open>sem_give\<close> is what the task and the interrupt variant
  of give share, interpreted by both. \<open>transition_system\<close> carries an invariant through reachable
  states, interpreted by the kernel's steps and by the application's.

  \<^bold>\<open>The invariant.\<close> \<open>sched_inv b X H N L s\<close>: the heap represents the lists \<open>L\<close> of the
  initialised heads \<open>H\<close> over the initialised nodes \<open>N\<close>, the lists agree with the task states
  and with the bitmap. \<open>X\<close> are tasks an operation is in the middle of moving. With \<open>b\<close> the
  ready structures are exact; without it they may be stale, which is what priority inheritance leaves
  behind when it raises a task that sits on a ready list (theory \<open>Defects\<close>). \<open>inherit_inv\<close> says
  how stale they may be without harm: a bit without a list belongs to a priority lent to a task that
  is chosen before the bit is looked at. \<open>sys_inv\<close> adds the objects: no waiter on a free object, ring buffers within their bounds, every waiter inside a
  call on that object, a woken waiter of a mutex is its owner, and a timer is on the timer list exactly when it is marked
  active. (That this list is in the order of the expiries is not part of it: it holds for periods and
  remaining times below \<open>2^30\<close>, as the timer properties say.)

  \<^bold>\<open>What the lemmas show.\<close> Every operation returns under the invariant, keeps it, and has a frame
  equation that names the fields it writes; each property is drawn from those. The properties of a
  component follow its branches, errors included; those of the whole system say that the kernel is
  never undefined, that a mutex is lost only by its owner's unlock, and that the hand-off of a mutex
  survives whatever happens before the waiter runs. The application's properties follow a sample from
  the interrupt through the queue to the published status, and a fault from the interrupt through
  the context switch to the protection task.

  \<^bold>\<open>Not modelled.\<close> The linker script and the makefile; the default exception handlers, the idle
  task's loop and the assertion trap, which are endless loops without state; memory barriers; the
  eight words the processor itself stacks at exception entry, beyond their place in the frame; the
  floating-point registers, which the port does not save; the transmit side of the UART and the
  output-disable action, which are empty stubs in the source; interrupts of higher priority than the
  mask, which must not call the kernel; interrupts before the scheduler has started. The report
  lines are those of the C standard's \<^verbatim>\<open>printf\<close>: the makefile links newlib's reduced one without its
  support for floating-point numbers, with which they would lack the measurement
  (\<open>nano_report_blank\<close>). Timer callbacks, the addresses of functions and stacks, the
  contents of memory at reset and the peripheral registers the handlers read are parameters.
\<close>

end
